(* ===== verification/Xv6_Prelude.thy ===== *)
theory Xv6_Prelude
  imports Main "HOL-Library.Word"
begin

text \<open>
  Shared vocabulary of the development.

  \<^item> Machine integers: C's \<^verbatim>\<open>uchar\<close>, \<^verbatim>\<open>ushort\<close> and \<^verbatim>\<open>uint\<close> are words of 8, 16 and 32
    bits (\<^verbatim>\<open>types.h\<close>); C's \<^verbatim>\<open>int\<close> is \<open>int\<close> where the code never gets near the limits of
    its 32 bits, and a word read with \<open>sint\<close> where it does.
  \<^item> Kernel operations: a function from a state to a \<open>res\<close>, which is a returned value with the
    new state, the state in which the calling process has gone to sleep, or the reason why the
    processor will never come back from the call (\<open>panic\<close>, a spin lock that is taken, an access
    outside the objects of the program).
  \<^item> A weakest-precondition calculus for such operations, whose rules are collected in \<open>wp\<close>.
  \<^item> Generic lemmas on lists, used by several components.
\<close>

unbundle bit_operations_syntax

named_theorems wp \<open>weakest-precondition rules of kernel operations\<close>
named_theorems wpf \<open>the same rules between predicates, to rewrite below binders\<close>

type_synonym uchar = "8 word"
type_synonym ushort = "16 word"
type_synonym uint = "32 word"

section \<open>Kernel operations\<close>

datatype stop = Panic string | Spin string | Fault string

datatype ('a, 's) res = Ret 'a 's | Block 's | Stop stop

type_synonym ('s, 'a) kop = "'s \<Rightarrow> ('a, 's) res"

definition retk :: "'a \<Rightarrow> ('s, 'a) kop" where
  "retk a s = Ret a s"

definition bindk :: "('s, 'a) kop \<Rightarrow> ('a \<Rightarrow> ('s, 'b) kop) \<Rightarrow> ('s, 'b) kop" where
  "bindk m f s = (case m s of Ret a s' \<Rightarrow> f a s' | Block s' \<Rightarrow> Block s' | Stop e \<Rightarrow> Stop e)"

text \<open>Sequencing of two operations whose first result is not used.\<close>

definition thenk :: "('s, 'a) kop \<Rightarrow> ('s, 'b) kop \<Rightarrow> ('s, 'b) kop" where
  "thenk m n = bindk m (\<lambda>_. n)"

definition stopk :: "stop \<Rightarrow> ('s, 'a) kop" where
  "stopk e s = Stop e"

text \<open>\<^verbatim>\<open>panic\<close> of \<^verbatim>\<open>console.c\<close> prints its message and then loops for ever with interrupts off.\<close>

definition panic :: "string \<Rightarrow> ('s, 'a) kop" where
  "panic msg = stopk (Panic msg)"

definition getk :: "('s \<Rightarrow> 'a) \<Rightarrow> ('s, 'a) kop" where
  "getk f s = Ret (f s) s"

definition modk :: "('s \<Rightarrow> 's) \<Rightarrow> ('s, unit) kop" where
  "modk f s = Ret () (f s)"

definition whenk :: "bool \<Rightarrow> ('s, unit) kop \<Rightarrow> ('s, unit) kop" where
  "whenk b m = (if b then m else retk ())"

text \<open>A C \<^verbatim>\<open>for\<close> loop over a list of items, left to right.\<close>

primrec foreach :: "'i list \<Rightarrow> ('i \<Rightarrow> ('s, unit) kop) \<Rightarrow> ('s, unit) kop" where
  "foreach [] f = retk ()"
| "foreach (x # xs) f = thenk (f x) (foreach xs f)"

lemma bindk_Ret: "m s = Ret a t \<Longrightarrow> bindk m f s = f a t"
  and thenk_Ret: "m s = Ret a t \<Longrightarrow> thenk m n s = n t"
  and bindk_getk: "bindk (getk g) f s = f (g s) s"
  and thenk_modk: "thenk (modk h) n s = n (h s)"
  by (simp_all add: bindk_def thenk_def getk_def modk_def)

lemma thenk_assoc:
  "thenk (thenk m n) k = thenk m (thenk n k)" "thenk (bindk m f) k = bindk m (\<lambda>a. thenk (f a) k)"
  by (simp_all add: fun_eq_iff thenk_def bindk_def split: res.split)

section \<open>Weakest preconditions\<close>

text \<open>
  \<open>wpk m Q B E s\<close>: running \<open>m\<close> from \<open>s\<close> establishes \<open>Q\<close> if it returns, \<open>B\<close> if the caller is put to
  sleep, and \<open>E\<close> if it never comes back. Partial correctness is the case \<open>E = (\<lambda>_. True)\<close>, total
  correctness the case \<open>E = (\<lambda>_. False)\<close>.
\<close>

definition wpk ::
  "('s, 'a) kop \<Rightarrow> ('a \<Rightarrow> 's \<Rightarrow> bool) \<Rightarrow> ('s \<Rightarrow> bool) \<Rightarrow> (stop \<Rightarrow> bool) \<Rightarrow> 's \<Rightarrow> bool" where
  "wpk m Q B E s = (case m s of Ret a s' \<Rightarrow> Q a s' | Block s' \<Rightarrow> B s' | Stop e \<Rightarrow> E e)"

abbreviation anyway :: "stop \<Rightarrow> bool" where
  "anyway \<equiv> \<lambda>_. True"

abbreviation never :: "'x \<Rightarrow> bool" where
  "never \<equiv> \<lambda>_. False"

lemma wp_retk [wp]: "wpk (retk a) Q B E s = Q a s"
  by (simp add: wpk_def retk_def)

lemma wp_bindk [wp]: "wpk (bindk m f) Q B E s = wpk m (\<lambda>a. wpk (f a) Q B E) B E s"
  by (simp add: wpk_def bindk_def split: res.split)

lemma wp_thenk [wp]: "wpk (thenk m n) Q B E s = wpk m (\<lambda>_. wpk n Q B E) B E s"
  by (simp add: thenk_def wp_bindk)

lemma wp_stopk [wp]: "wpk (stopk e) Q B E s = E e"
  by (simp add: wpk_def stopk_def)

lemma wp_panic [wp]: "wpk (panic msg) Q B E s = E (Panic msg)"
  by (simp add: panic_def wp_stopk)

lemma wp_getk [wp]: "wpk (getk f) Q B E s = Q (f s) s"
  by (simp add: wpk_def getk_def)

lemma wp_modk [wp]: "wpk (modk f) Q B E s = Q () (f s)"
  by (simp add: wpk_def modk_def)

lemma wp_whenk [wp]: "wpk (whenk b m) Q B E s = (if b then wpk m Q B E s else Q () s)"
  by (simp add: whenk_def wp_retk)

lemma wp_if [wp]:
  "wpk (if b then m else n) Q B E s = (if b then wpk m Q B E s else wpk n Q B E s)"
  by simp

lemma wp_functions [wpf]:
  "wpk (retk a) Q B E = Q a"
  "wpk (bindk m f) P B E = wpk m (\<lambda>a. wpk (f a) P B E) B E"
  "wpk (thenk m n) P B E = wpk m (\<lambda>_. wpk n P B E) B E"
  "wpk (getk g) R B E = (\<lambda>s. R (g s) s)"
  "wpk (modk h) U B E = (\<lambda>s. U () (h s))"
  "wpk (whenk b k) U B E = (if b then wpk k U B E else U ())"
  "wpk (panic msg) P B E = (\<lambda>_. E (Panic msg))"
  "wpk (stopk e) P B E = (\<lambda>_. E e)"
  by (simp_all add: fun_eq_iff wp)

lemma wp_mono:
  assumes "wpk m Q B E s"
    and "\<And>a t. Q a t \<Longrightarrow> Q' a t" and "\<And>t. B t \<Longrightarrow> B' t" and "\<And>e. E e \<Longrightarrow> E' e"
  shows "wpk m Q' B' E' s"
  using assms by (auto simp: wpk_def split: res.splits)

lemma wpD_Ret: "wpk m Q B E s \<Longrightarrow> m s = Ret a t \<Longrightarrow> Q a t"
  by (simp add: wpk_def)

lemma wpD_Block: "wpk m Q B E s \<Longrightarrow> m s = Block t \<Longrightarrow> B t"
  by (simp add: wpk_def)

lemma wp_total: "wpk m Q never never s \<Longrightarrow> \<exists>a t. m s = Ret a t \<and> Q a t"
  by (auto simp: wpk_def split: res.splits)

lemma wp_Ret_eq: "m s = Ret a t \<Longrightarrow> wpk m Q B E s = Q a t"
  by (simp add: wpk_def)

text \<open>A loop keeps what its body keeps.\<close>

lemma wp_foreach:
  assumes "I s"
    and "\<And>x t. x \<in> set xs \<Longrightarrow> I t \<Longrightarrow> wpk (f x) (\<lambda>_. I) B E t"
  shows "wpk (foreach xs f) (\<lambda>_. I) B E s"
  using assms
proof (induction xs arbitrary: s)
  case Nil
  then show ?case by (simp add: wp)
next
  case (Cons x xs)
  have "wpk (f x) (\<lambda>_. I) B E s"
    using Cons.prems by simp
  moreover have "\<And>t. I t \<Longrightarrow> wpk (foreach xs f) (\<lambda>_. I) B E t"
    using Cons.prems(2) by (intro Cons.IH) auto
  ultimately show ?case
    by (auto simp: wp intro: wp_mono)
qed

section \<open>Lists\<close>

text \<open>Position of the first element with a property, as a \<^verbatim>\<open>for\<close> loop with \<^verbatim>\<open>break\<close> finds it.\<close>

fun find_index :: "('a \<Rightarrow> bool) \<Rightarrow> 'a list \<Rightarrow> nat option" where
  "find_index P [] = None"
| "find_index P (x # xs) = (if P x then Some 0 else map_option Suc (find_index P xs))"

lemma find_index_Some:
  "find_index P xs = Some i \<Longrightarrow> i < length xs \<and> P (xs ! i) \<and> (\<forall>j<i. \<not> P (xs ! j))"
proof (induction xs arbitrary: i)
  case Nil
  then show ?case by simp
next
  case (Cons x xs)
  show ?case
  proof (cases "P x")
    case True
    with Cons.prems show ?thesis by simp
  next
    case False
    with Cons.prems obtain k where k: "find_index P xs = Some k" "i = Suc k" by auto
    from Cons.IH [OF k(1)] False k(2) show ?thesis
      by (auto simp: less_Suc_eq_0_disj)
  qed
qed

lemma find_index_less: "find_index P xs = Some i \<Longrightarrow> i < length xs"
  using find_index_Some [of P xs i] by simp

lemma find_index_None: "find_index P xs = None \<longleftrightarrow> (\<forall>x\<in>set xs. \<not> P x)"
  by (induction xs) auto

lemma find_index_exists: "x \<in> set xs \<Longrightarrow> P x \<Longrightarrow> \<exists>i. find_index P xs = Some i"
  by (metis find_index_None not_None_eq)

lemma take_update_same: "i < n \<Longrightarrow> take n (xs[i := v]) = (take n xs)[i := v]"
  by (simp add: take_update_swap)

lemma take_update_beyond: "n \<le> i \<Longrightarrow> take n (xs[i := v]) = take n xs"
  by simp

end
