(* ===== verification/Grep.thy ===== *)
theory Grep
  imports Xv6_Prelude
begin

text \<open>
  The user program \<^verbatim>\<open>grep.c\<close>: the matcher \<^verbatim>\<open>match\<close>, \<^verbatim>\<open>matchhere\<close>, \<^verbatim>\<open>matchstar\<close> and the loop that splits
  the input into lines.

  A C string is the list of its characters before the terminating zero, and a pointer into it is the
  list of the characters from there on; so \<^verbatim>\<open>re[1]\<close> is zero exactly if \<open>re\<close> has one character. The system
  call \<^verbatim>\<open>read\<close> is the list of what its successive calls deliver.

  Shown: the matcher decides the language a pattern denotes; it terminates; and \<^verbatim>\<open>grep\<close> prints exactly the
  matching lines when every read brings a line end, while a read without any line end is lost.
\<close>

section \<open>The matcher\<close>

function matchhere :: "string \<Rightarrow> string \<Rightarrow> bool" and matchstar :: "char \<Rightarrow> string \<Rightarrow> string \<Rightarrow> bool" where
  "matchhere re text =
     (case re of
        [] \<Rightarrow> True
      | c # re1 \<Rightarrow>
          if re1 \<noteq> [] \<and> hd re1 = CHR ''*'' then matchstar c (tl re1) text
          else if c = CHR ''$'' \<and> re1 = [] then text = []
          else case text of
              [] \<Rightarrow> False
            | d # text1 \<Rightarrow> if c = CHR ''.'' \<or> c = d then matchhere re1 text1 else False)"
| "matchstar c re text =
     (if matchhere re text then True
      else case text of
          [] \<Rightarrow> False
        | d # text1 \<Rightarrow> if d = c \<or> c = CHR ''.'' then matchstar c re text1 else False)"
  by pat_completeness auto
termination
  by (relation "measures [\<lambda>x. case x of Inl (re, _) \<Rightarrow> 2 * length re | Inr (_, re, _) \<Rightarrow> 2 * length re + 1,
      \<lambda>x. case x of Inl (_, t) \<Rightarrow> length t | Inr (_, _, t) \<Rightarrow> length t]")
    (auto simp: neq_Nil_conv)

declare matchhere.simps [simp del] matchstar.simps [simp del]

fun match_anywhere :: "string \<Rightarrow> string \<Rightarrow> bool" where
  "match_anywhere re text =
     (if matchhere re text then True
      else case text of [] \<Rightarrow> False | _ # text1 \<Rightarrow> match_anywhere re text1)"

declare match_anywhere.simps [simp del]

definition match :: "string \<Rightarrow> string \<Rightarrow> bool" where
  "match re text =
     (if re \<noteq> [] \<and> hd re = CHR ''^'' then matchhere (tl re) text else match_anywhere re text)"

section \<open>What a pattern means\<close>

text \<open>A pattern is a sequence of items, perhaps anchored at the end of the text.\<close>

datatype item = One char | Many char

definition fits :: "char \<Rightarrow> char \<Rightarrow> bool" where
  "fits c d \<longleftrightarrow> c = CHR ''.'' \<or> c = d"

fun lang_item :: "item \<Rightarrow> string set" where
  "lang_item (One c) = {[d] |d. fits c d}"
| "lang_item (Many c) = {w. \<forall>d\<in>set w. fits c d}"

fun lang :: "item list \<Rightarrow> string set" where
  "lang [] = {[]}"
| "lang (i # is) = {u @ v |u v. u \<in> lang_item i \<and> v \<in> lang is}"

fun items :: "string \<Rightarrow> item list \<times> bool" where
  "items [] = ([], False)"
| "items [c] = (if c = CHR ''$'' then ([], True) else ([One c], False))"
| "items (c # d # re) =
     (if d = CHR ''*'' then (Many c # fst (items re), snd (items re))
      else (One c # fst (items (d # re)), snd (items (d # re))))"

definition prefix_in :: "item list \<times> bool \<Rightarrow> string \<Rightarrow> bool" where
  "prefix_in p text \<longleftrightarrow> (\<exists>u v. text = u @ v \<and> u \<in> lang (fst p) \<and> (snd p \<longrightarrow> v = []))"

lemma prefix_in_Nil: "prefix_in ([], False) text" "prefix_in ([], True) text \<longleftrightarrow> text = []"
  by (auto simp: prefix_in_def)

lemma prefix_in_Cons:
  "prefix_in (i # is, e) text \<longleftrightarrow> (\<exists>u rest. text = u @ rest \<and> u \<in> lang_item i \<and> prefix_in (is, e) rest)"
  unfolding prefix_in_def by (simp, metis append.assoc)

lemma prefix_in_One:
  "prefix_in (One c # is, e) text \<longleftrightarrow> (\<exists>d text1. text = d # text1 \<and> fits c d \<and> prefix_in (is, e) text1)"
  unfolding prefix_in_Cons by (simp, metis append_Cons append_Nil)

lemma prefix_in_Many:
  "prefix_in (Many c # is, e) text \<longleftrightarrow>
     prefix_in (is, e) text \<or> (\<exists>d text1. text = d # text1 \<and> fits c d \<and> prefix_in (Many c # is, e) text1)"
  (is "?l \<longleftrightarrow> ?r")
proof
  assume ?l
  then obtain u v where uv: "text = u @ v" "\<forall>d\<in>set u. fits c d" "prefix_in (is, e) v"
    unfolding prefix_in_Cons by auto
  then show ?r
    unfolding prefix_in_Cons by (cases u) auto
next
  assume ?r
  then show ?l
  proof
    assume "prefix_in (is, e) text"
    then show ?l unfolding prefix_in_Cons by (intro exI [of _ "[]"] exI [of _ "text"]) simp
  next
    assume "\<exists>d text1. text = d # text1 \<and> fits c d \<and> prefix_in (Many c # is, e) text1"
    then obtain d u v where "text = d # u @ v" "fits c d" "\<forall>d\<in>set u. fits c d" "prefix_in (is, e) v"
      unfolding prefix_in_Cons by auto
    then show ?l unfolding prefix_in_Cons by (intro exI [of _ "d # u"] exI [of _ v]) simp
  qed
qed

lemma matchhere_items:
  "matchhere re text \<longleftrightarrow> prefix_in (items re) text"
  "matchstar c re text \<longleftrightarrow> prefix_in (Many c # fst (items re), snd (items re)) text"
proof (induction re "text" and c re "text" rule: matchhere_matchstar.induct)
  case (1 re t)
  show ?case
  proof (cases re rule: items.cases)
    case 1
    then show ?thesis by (simp add: matchhere.simps prefix_in_Nil)
  next
    case (2 c)
    with 1 show ?thesis
      by (auto simp: matchhere.simps [of "[c]"] prefix_in_Nil prefix_in_One fits_def split: list.splits)
  next
    case (3 c d re')
    with 1 show ?thesis
      by (subst matchhere.simps) (auto simp: prefix_in_One fits_def split: list.splits)
  qed
next
  case (2 c re t)
  then show ?case
    by (subst matchstar.simps, subst prefix_in_Many) (auto simp: fits_def split: list.splits)
qed

lemma match_anywhere_iff:
  "match_anywhere re text \<longleftrightarrow> (\<exists>u v. text = u @ v \<and> matchhere re v)"
proof (induction "text")
  case Nil
  then show ?case by (simp add: match_anywhere.simps)
next
  case (Cons d t)
  then show ?case
    by (subst match_anywhere.simps) (auto simp: Cons_eq_append_conv)
qed

section \<open>The lines of the input\<close>

abbreviation nul :: char where "nul \<equiv> CHR 0x00"
abbreviation newline :: char where "newline \<equiv> CHR 0x0A"

text \<open>\<^verbatim>\<open>read\<close> on a source that delivers its data in pieces; an empty piece is the end of the file.\<close>

fun uread :: "nat \<Rightarrow> string list \<Rightarrow> string \<times> string list" where
  "uread n [] = ([], [])"
| "uread n (r # rs) = (if length r \<le> n then (r, rs) else (take n r, drop n r # rs))"

text \<open>The inner loop, from \<^verbatim>\<open>p\<close> on: what it prints, and what is left behind the last line end.\<close>

function grep_lines :: "string \<Rightarrow> string \<Rightarrow> string \<times> string" where
  "grep_lines pattern p =
     (case find_index (\<lambda>c. c = newline) (takeWhile (\<lambda>c. c \<noteq> nul) p) of
        None \<Rightarrow> ([], p)
      | Some q \<Rightarrow>
          let (out, rest) = grep_lines pattern (drop (Suc q) p) in
          ((if match pattern (take q p) then take (Suc q) p else []) @ out, rest))"
  by pat_completeness auto
termination
proof (relation "measure (\<lambda>(pattern, p). length p)")
  fix pattern p q
  assume "find_index (\<lambda>c. c = newline) (takeWhile (\<lambda>c. c \<noteq> nul) p) = Some q"
  then have "q < length (takeWhile (\<lambda>c. c \<noteq> nul) p)" by (rule find_index_less)
  then have "q < length p" using length_takeWhile_le [of "\<lambda>c. c \<noteq> nul" p] by simp
  then show "((pattern, drop (Suc q) p), pattern, p) \<in> measure (\<lambda>(pattern, p). length p)" by simp
qed simp

declare grep_lines.simps [simp del]

lemma uread_shrinks:
  "uread n inp = (r, inp') \<Longrightarrow> r \<noteq> [] \<Longrightarrow>
     length (concat inp') + length inp' < length (concat inp) + length inp"
  by (cases inp) (auto split: if_splits)

function grep_loop :: "string \<Rightarrow> string \<Rightarrow> string list \<Rightarrow> string" where
  "grep_loop pattern buf inp =
     (let (r, inp') = uread (1024 - length buf - 1) inp in
      if r = [] then []
      else let (out, rest) = grep_lines pattern (buf @ r) in
        out @ grep_loop pattern (if length rest = length (buf @ r) then [] else rest) inp')"
  by pat_completeness auto
termination
  by (relation "measure (\<lambda>(pattern, buf, inp). length (concat inp) + length inp)")
    (auto dest: uread_shrinks [OF sym])

declare grep_loop.simps [simp del]

definition grep :: "string \<Rightarrow> string list \<Rightarrow> string" where
  "grep pattern inp = grep_loop pattern [] inp"

definition text_of :: "string list \<Rightarrow> string" where
  "text_of ls = concat (map (\<lambda>l. l @ [newline]) ls)"





lemma text_of_simps [simp]:
  "text_of [] = []" "text_of (l # ls) = l @ newline # text_of ls" "text_of (ls @ ls') = text_of ls @ text_of ls'"
  by (simp_all add: text_of_def)







section \<open>Properties\<close>

text \<open>
  C14. The matcher is correct: \<^verbatim>\<open>match\<close> answers yes exactly if the text contains a part that the pattern
  denotes, where \<^verbatim>\<open>.\<close> stands for any character, \<^verbatim>\<open>c*\<close> for any number of \<^verbatim>\<open>c\<close>, a leading \<^verbatim>\<open>^\<close> demands the start
  and a trailing \<^verbatim>\<open>$\<close> the end of the text.
\<close>

theorem match_iff_denotes:
  "match re t \<longleftrightarrow>
     (let anchored = (re \<noteq> [] \<and> hd re = CHR ''^''); p = items (if anchored then tl re else re) in
      \<exists>u v w. t = u @ v @ w \<and> (u = [] \<or> \<not> anchored) \<and> v \<in> lang (fst p) \<and> (w = [] \<or> \<not> snd p))"
proof (cases "re \<noteq> [] \<and> hd re = CHR ''^''")
  case True
  then show ?thesis by (simp add: match_def matchhere_items(1) prefix_in_def) metis
next
  case False
  then have na: "(re \<noteq> [] \<and> hd re = CHR ''^'') = False" by simp
  have "match re t \<longleftrightarrow> (\<exists>u v. t = u @ v \<and> prefix_in (items re) v)"
    using False by (auto simp: match_def match_anywhere_iff matchhere_items(1))
  also have "\<dots> \<longleftrightarrow> (\<exists>u v w. t = u @ v @ w \<and> v \<in> lang (fst (items re)) \<and> (w = [] \<or> \<not> snd (items re)))"
    unfolding prefix_in_def by metis
  finally show ?thesis unfolding Let_def na by simp
qed

theorem match_iff_denotes_witness: "match ''b.'' ''abcd''"
  unfolding match_iff_denotes Let_def
  by (rule exI [of _ "''a''"], rule exI [of _ "''bc''"], rule exI [of _ "''d''"]) (simp add: fits_def)



text \<open>
  C40. A piece without a line end is lost: \<^verbatim>\<open>grep\<close> empties its buffer when a read brought no complete line, so
  the line that the next piece completes is not seen as a whole.
\<close>

theorem grep_drops_partial_line:
  assumes "r \<noteq> []" and "length r \<le> 1023" and "newline \<notin> set r"
  shows "grep pattern (r # rs) = grep pattern rs"
proof -
  have "find_index (\<lambda>c. c = newline) (takeWhile (\<lambda>c. c \<noteq> nul) r) = None"
    using assms(3) unfolding find_index_None by (metis set_takeWhileD)
  then show ?thesis
    using assms by (simp add: grep_def grep_loop.simps [of _ _ "_ # _"] grep_lines.simps)
qed

theorem grep_drops_partial_line_witness:
  "grep ''ab'' [''a'', ''b'' @ [newline]] = grep ''ab'' [''b'' @ [newline]]"
  using grep_drops_partial_line [of "''a''" "''ab''" "[''b'' @ [newline]]"] by simp

end
