(* ===== verification/Kmemory.thy ===== *)
theory Kmemory
  imports Xv6_Prelude
begin

text \<open>
  Memory, and the routines of \<^verbatim>\<open>string.c\<close> on it.

  Memory is a function from 32-bit addresses to bytes; a pointer is an address, and two pointers
  may overlap. The instructions \<^verbatim>\<open>rep stosb\<close> and \<^verbatim>\<open>rep stosl\<close> of \<^verbatim>\<open>x86.h\<close> are loops of stores. C's \<^verbatim>\<open>int\<close>
  and \<^verbatim>\<open>uint\<close> lengths are naturals (a negative length is the length 0 for the loops that take one).

  Shown: the word-wise and the byte-wise path of \<^verbatim>\<open>memset\<close> store the same bytes; \<^verbatim>\<open>memmove\<close> copies what
  the source held before the call, whatever the overlap; \<^verbatim>\<open>strncpy\<close> pads, \<^verbatim>\<open>safestrcpy\<close> terminates;
  \<^verbatim>\<open>strncmp\<close> and \<^verbatim>\<open>memcmp\<close> decide equality.
\<close>

type_synonym mem = "uint \<Rightarrow> uchar"

section \<open>Words in memory\<close>

definition load32 :: "mem \<Rightarrow> uint \<Rightarrow> uint" where
  "load32 m a = ucast (m a) OR push_bit 8 (ucast (m (a + 1))) OR
     push_bit 16 (ucast (m (a + 2))) OR push_bit 24 (ucast (m (a + 3)))"

definition store32 :: "mem \<Rightarrow> uint \<Rightarrow> uint \<Rightarrow> mem" where
  "store32 m a v = m(a := ucast v, a + 1 := ucast (drop_bit 8 v), a + 2 := ucast (drop_bit 16 v),
     a + 3 := ucast (drop_bit 24 v))"

lemma split_bytes:
  "ucast (ucast (v :: uint) :: uchar) OR push_bit 8 (ucast (ucast (drop_bit 8 v) :: uchar)) OR
   push_bit 16 (ucast (ucast (drop_bit 16 v) :: uchar)) OR
   push_bit 24 (ucast (ucast (drop_bit 24 v) :: uchar)) = v"
proof (rule bit_word_eqI)
  fix n assume "n < LENGTH(32)"
  then have "n < 32" by simp
  then consider "n < 8" | "8 \<le> n" "n < 16" | "16 \<le> n" "n < 24" | "24 \<le> n" "n < 32" by linarith
  then show "bit (ucast (ucast v :: uchar) OR push_bit 8 (ucast (ucast (drop_bit 8 v) :: uchar)) OR
      push_bit 16 (ucast (ucast (drop_bit 16 v) :: uchar)) OR
      push_bit 24 (ucast (ucast (drop_bit 24 v) :: uchar)) :: uint) n = bit v n"
    by cases (auto simp: bit_simps)
qed

lemma load_store32 [simp]: "load32 (store32 m a v) a = v"
  using split_bytes [of v] by (simp add: load32_def store32_def)

definition bytes4 :: "uint \<Rightarrow> uint set" where
  "bytes4 a = {a, a + 1, a + 2, a + 3}"

lemma load_store32_disjoint: "bytes4 a \<inter> bytes4 b = {} \<Longrightarrow> load32 (store32 m a v) b = load32 m b"
  by (auto simp: load32_def store32_def bytes4_def)

lemma load32_cong: "(\<And>x. x \<in> bytes4 a \<Longrightarrow> m x = m' x) \<Longrightarrow> load32 m a = load32 m' a"
  by (simp add: load32_def bytes4_def)

lemma store32_outside: "x \<notin> bytes4 a \<Longrightarrow> store32 m a v x = m x"
  by (simp add: store32_def bytes4_def)

section \<open>memset\<close>

fun stosb :: "mem \<Rightarrow> uint \<Rightarrow> uchar \<Rightarrow> nat \<Rightarrow> mem" where
  "stosb m a d 0 = m"
| "stosb m a d (Suc n) = stosb (m(a := d)) (a + 1) d n"

fun stosl :: "mem \<Rightarrow> uint \<Rightarrow> uint \<Rightarrow> nat \<Rightarrow> mem" where
  "stosl m a d 0 = m"
| "stosl m a d (Suc n) = stosl (store32 m a d) (a + 4) d n"

definition memset :: "mem \<Rightarrow> uint \<Rightarrow> uint \<Rightarrow> nat \<Rightarrow> mem" where
  "memset m dst c n =
     (if dst mod 4 = 0 \<and> n mod 4 = 0
      then let c = c AND 0xFF in
        stosl m dst (push_bit 24 c OR push_bit 16 c OR push_bit 8 c OR c) (n div 4)
      else stosb m dst (ucast c) n)"

text \<open>Offset of an address from a base, as a number.\<close>

lemma unat_pred: "k \<noteq> 0 \<Longrightarrow> unat (k - 1) = unat (k :: uint) - 1"
  by (metis unat_minus_one)

lemma offset_Suc:
  "unat (x - a) < Suc n \<longleftrightarrow> x = a \<or> unat (x - (a + 1)) < n" if "Suc n \<le> 2 ^ 32" for x a :: uint
proof (cases "x = a")
  case False
  then have "x - a \<noteq> 0" by simp
  then have "unat (x - a - 1) = unat (x - a) - 1" and "0 < unat (x - a)"
    by (simp_all add: unat_pred unat_gt_0)
  moreover have "x - a - 1 = x - (a + 1)" by simp
  ultimately show ?thesis using False by auto
qed simp

lemma stosb_eq: "n \<le> 2 ^ 32 \<Longrightarrow> stosb m a d n = (\<lambda>x. if unat (x - a) < n then d else m x)"
proof (induction n arbitrary: m a)
  case 0
  then show ?case by simp
next
  case (Suc n)
  then have "stosb m a d (Suc n) = (\<lambda>x. if unat (x - (a + 1)) < n then d else (m(a := d)) x)"
    by simp
  with offset_Suc [OF Suc.prems] show ?case by (auto simp: fun_eq_iff)
qed

lemma stosb_add: "stosb m a d (n + k) = stosb (stosb m a d n) (a + of_nat n) d k"
  by (induction n arbitrary: m a) (simp_all add: algebra_simps)

lemma and_0xFF: "x AND 0xFF = take_bit 8 (x :: uint)"
  by (simp add: take_bit_eq_mask mask_eq_exp_minus_1)

lemma store32_rep:
  "store32 m a (push_bit 24 c OR push_bit 16 c OR push_bit 8 c OR c) = stosb m a (ucast c) 4"
  if "c = x AND 0xFF" for c x :: uint
proof -
  have b: "\<not> bit c n" if "8 \<le> n" for n
    using that \<open>c = x AND 0xFF\<close> by (auto simp: and_0xFF bit_simps)
  have "ucast (push_bit 24 c OR push_bit 16 c OR push_bit 8 c OR c) = (ucast c :: uchar)"
    "ucast (drop_bit 8 (push_bit 24 c OR push_bit 16 c OR push_bit 8 c OR c)) = (ucast c :: uchar)"
    "ucast (drop_bit 16 (push_bit 24 c OR push_bit 16 c OR push_bit 8 c OR c)) = (ucast c :: uchar)"
    "ucast (drop_bit 24 (push_bit 24 c OR push_bit 16 c OR push_bit 8 c OR c)) = (ucast c :: uchar)"
    by (rule bit_word_eqI; use b in \<open>auto simp: bit_simps\<close>)+
  then show ?thesis
    by (simp add: store32_def numeral_eq_Suc add.assoc)
qed

lemma stosl_rep:
  assumes "c = x AND 0xFF"
  shows "stosl m a (push_bit 24 c OR push_bit 16 c OR push_bit 8 c OR c) n = stosb m a (ucast c) (4 * n)"
proof (induction n arbitrary: m a)
  case 0
  then show ?case by simp
next
  case (Suc n)
  have "4 * Suc n = 4 + 4 * n" by simp
  then show ?case
    using Suc.IH stosb_add [of m a "ucast c" 4 "4 * n"] store32_rep [OF assms, of m a]
    by (simp del: stosb.simps)
qed

text \<open>Both paths of \<^verbatim>\<open>memset\<close> store the low byte of \<^verbatim>\<open>c\<close> at exactly the \<^verbatim>\<open>n\<close> addresses from \<^verbatim>\<open>dst\<close>.\<close>

lemma memset_eq:
  assumes "n \<le> 2 ^ 32"
  shows "memset m dst c n = (\<lambda>x. if unat (x - dst) < n then ucast c else m x)"
proof -
  have low: "ucast (c AND 0xFF) = (ucast c :: uchar)"
    by (rule bit_word_eqI) (auto simp: and_0xFF bit_simps)
  have "memset m dst c n = stosb m dst (ucast c) n"
    using stosl_rep [OF refl, of m dst c "n div 4"] low
    by (auto simp: memset_def Let_def)
  then show ?thesis using stosb_eq [OF assms] by simp
qed

section \<open>memmove and memcmp\<close>

fun copy_up :: "mem \<Rightarrow> uint \<Rightarrow> uint \<Rightarrow> nat \<Rightarrow> mem" where
  "copy_up m d s 0 = m"
| "copy_up m d s (Suc n) = copy_up (m(d := m s)) (d + 1) (s + 1) n"

fun copy_down :: "mem \<Rightarrow> uint \<Rightarrow> uint \<Rightarrow> nat \<Rightarrow> mem" where
  "copy_down m d s 0 = m"
| "copy_down m d s (Suc n) = copy_down (m(d - 1 := m (s - 1))) (d - 1) (s - 1) n"

definition memmove :: "mem \<Rightarrow> uint \<Rightarrow> uint \<Rightarrow> nat \<Rightarrow> mem" where
  "memmove m dst src n =
     (if src < dst \<and> src + of_nat n > dst
      then copy_down m (dst + of_nat n) (src + of_nat n) n
      else copy_up m dst src n)"

definition memcpy :: "mem \<Rightarrow> uint \<Rightarrow> uint \<Rightarrow> nat \<Rightarrow> mem" where
  "memcpy m dst src n = memmove m dst src n"

fun memcmp :: "mem \<Rightarrow> uint \<Rightarrow> uint \<Rightarrow> nat \<Rightarrow> int" where
  "memcmp m s1 s2 0 = 0"
| "memcmp m s1 s2 (Suc n) =
     (if m s1 \<noteq> m s2 then uint (m s1) - uint (m s2) else memcmp m (s1 + 1) (s2 + 1) n)"

lemma unat_add_of_nat: "unat a + k < 2 ^ 32 \<Longrightarrow> unat (a + of_nat k) = unat a + k" for a :: uint
  by (simp add: unat_word_ariths unat_of_nat)

lemma offset_of_nat: "k < 2 ^ 32 \<Longrightarrow> unat ((a + of_nat k) - a :: uint) = k"
  by (simp add: unat_of_nat)

lemma copy_up_eq:
  assumes "n \<le> 2 ^ 32" and "\<And>k. 0 < k \<Longrightarrow> k < n \<Longrightarrow> d \<noteq> s + of_nat k"
  shows "copy_up m d s n = (\<lambda>x. if unat (x - d) < n then m (s + (x - d)) else m x)"
  using assms
proof (induction n arbitrary: m d s)
  case 0
  then show ?case by simp
next
  case (Suc n)
  let ?m = "m(d := m s)"
  have "d + 1 \<noteq> s + 1 + of_nat k" if "0 < k" "k < n" for k
    using Suc.prems(2) [of k] that by simp
  then have IH: "copy_up ?m (d + 1) (s + 1) n =
      (\<lambda>x. if unat (x - (d + 1)) < n then ?m (s + 1 + (x - (d + 1))) else ?m x)"
    using Suc.prems(1) by (intro Suc.IH) auto
  have ne: "s + (x - d) \<noteq> d" if "x \<noteq> d" "unat (x - (d + 1)) < n" for x
  proof -
    from that have k: "unat (x - d) < Suc n" "0 < unat (x - d)"
      using offset_Suc [OF Suc.prems(1), of x d] by (auto simp: unat_gt_0)
    then show ?thesis using Suc.prems(2) [of "unat (x - d)"] by auto
  qed
  have nin: "\<not> unat (d - (d + 1)) < n"
  proof -
    have "d - (d + 1) = - 1" by simp
    moreover have "unat (- 1 :: uint) = 2 ^ 32 - 1"
      by (simp add: unsigned_minus_1_eq_mask mask_eq_exp_minus_1)
    ultimately show ?thesis using Suc.prems(1) by simp
  qed
  show ?case
  proof
    fix x
    have e: "s + 1 + (x - (d + 1)) = s + (x - d)" by simp
    show "copy_up m d s (Suc n) x = (if unat (x - d) < Suc n then m (s + (x - d)) else m x)"
    proof (cases "x = d")
      case True
      with nin show ?thesis by (simp add: IH)
    next
      case False
      with ne [of x] offset_Suc [OF Suc.prems(1), of x d] show ?thesis by (auto simp: IH e)
    qed
  qed
qed

lemma copy_down_eq:
  assumes "n \<le> 2 ^ 32" and "\<And>k. 0 < k \<Longrightarrow> k < n \<Longrightarrow> d + of_nat k \<noteq> s"
  shows "copy_down m (d + of_nat n) (s + of_nat n) n
    = (\<lambda>x. if unat (x - d) < n then m (s + (x - d)) else m x)"
  using assms
proof (induction n arbitrary: m)
  case 0
  then show ?case by simp
next
  case (Suc n)
  let ?m = "m(d + of_nat n := m (s + of_nat n))"
  have IH: "copy_down ?m (d + of_nat n) (s + of_nat n) n =
      (\<lambda>x. if unat (x - d) < n then ?m (s + (x - d)) else ?m x)"
    using Suc.prems by (intro Suc.IH) auto
  have ne: "s + (x - d) \<noteq> d + of_nat n" if "unat (x - d) < n" for x
  proof
    let ?k = "n - unat (x - d)"
    assume "s + (x - d) = d + of_nat n"
    then have "s = d + (of_nat n - (x - d))" by (simp add: algebra_simps)
    also have "of_nat n - (x - d) = of_nat ?k"
      using that by (simp add: of_nat_diff)
    finally have "d + of_nat ?k = s" by simp
    moreover have "0 < ?k" "?k < Suc n" using that by simp_all
    ultimately show False using Suc.prems(2) [of ?k] by blast
  qed
  have split: "unat (x - d) < Suc n \<longleftrightarrow> unat (x - d) < n \<or> x = d + of_nat n" for x
  proof -
    have "unat (x - d) = n \<longleftrightarrow> x = d + of_nat n"
      using Suc.prems(1) offset_of_nat [of n d] by (auto simp: algebra_simps)
    then show ?thesis by auto
  qed
  have "d + (1 + of_nat n) - 1 = d + of_nat n" "s + (1 + of_nat n) - 1 = s + of_nat n" by simp_all
  then have step: "copy_down m (d + of_nat (Suc n)) (s + of_nat (Suc n)) (Suc n)
      = copy_down ?m (d + of_nat n) (s + of_nat n) n" by simp
  have n: "unat (d + of_nat n - d) = n" using Suc.prems(1) by (intro offset_of_nat) simp
  show ?case
  proof
    fix x
    show "copy_down m (d + of_nat (Suc n)) (s + of_nat (Suc n)) (Suc n) x =
        (if unat (x - d) < Suc n then m (s + (x - d)) else m x)"
      unfolding step IH using ne [of x] split [of x] n by auto
  qed
qed

lemma memmove_eq:
  assumes "unat src + n < 2 ^ 32" and "unat dst + n \<le> 2 ^ 32"
  shows "memmove m dst src n = (\<lambda>x. if unat (x - dst) < n then m (src + (x - dst)) else m x)"
proof (cases "src < dst \<and> src + of_nat n > dst")
  case True
  have "dst + of_nat k \<noteq> src" if "0 < k" "k < n" for k
  proof
    assume "dst + of_nat k = src"
    then have "unat src = unat dst + k" using unat_add_of_nat [of dst k] assms(2) that by auto
    with True that show False by (simp add: word_less_nat_alt)
  qed
  with True assms show ?thesis by (simp add: memmove_def copy_down_eq)
next
  case False
  have "dst \<noteq> src + of_nat k" if "0 < k" "k < n" for k
  proof
    assume "dst = src + of_nat k"
    then have "unat dst = unat src + k" using unat_add_of_nat [of src k] assms(1) that by auto
    moreover have "unat (src + of_nat n) = unat src + n" using assms(1) by (rule unat_add_of_nat)
    ultimately show False using False that by (simp add: word_less_nat_alt)
  qed
  then have "copy_up m dst src n = (\<lambda>x. if unat (x - dst) < n then m (src + (x - dst)) else m x)"
    using assms by (intro copy_up_eq) auto
  with False show ?thesis by (auto simp: memmove_def)
qed

lemma memcmp_zero: "memcmp m a b n = 0 \<longleftrightarrow> (\<forall>k<n. m (a + of_nat k) = m (b + of_nat k))"
proof (induction n arbitrary: a b)
  case 0
  then show ?case by simp
next
  case (Suc n)
  have "(\<forall>k<Suc n. m (a + of_nat k) = m (b + of_nat k)) \<longleftrightarrow>
      m a = m b \<and> (\<forall>k<n. m (a + 1 + of_nat k) = m (b + 1 + of_nat k))"
    by (auto simp: less_Suc_eq_0_disj algebra_simps)
  then show ?case using Suc.IH [of "a + 1" "b + 1"]
    by (auto simp: word_uint_eq_iff)
qed

section \<open>Strings\<close>

fun strncmp :: "mem \<Rightarrow> uint \<Rightarrow> uint \<Rightarrow> nat \<Rightarrow> int" where
  "strncmp m p q 0 = 0"
| "strncmp m p q (Suc n) =
     (if m p \<noteq> 0 \<and> m p = m q then strncmp m (p + 1) (q + 1) n else uint (m p) - uint (m q))"

fun strncpy :: "mem \<Rightarrow> uint \<Rightarrow> uint \<Rightarrow> nat \<Rightarrow> mem" where
  "strncpy m s t 0 = m"
| "strncpy m s t (Suc n) =
     (let m' = m(s := m t) in
      if m t \<noteq> 0 then strncpy m' (s + 1) (t + 1) n else stosb m' (s + 1) 0 n)"

text \<open>
  \<^verbatim>\<open>while(--n > 0 && (*s++ = *t++) != 0); *s = 0;\<close> The argument counts the bytes left before the
  terminator, so \<open>safestrcpy\<close> starts the loop with one less than the size of the buffer.
\<close>

fun safestrcpy_loop :: "mem \<Rightarrow> uint \<Rightarrow> uint \<Rightarrow> nat \<Rightarrow> mem" where
  "safestrcpy_loop m s t 0 = m(s := 0)"
| "safestrcpy_loop m s t (Suc n) =
     (let m' = m(s := m t) in
      if m t \<noteq> 0 then safestrcpy_loop m' (s + 1) (t + 1) n else m'(s + 1 := 0))"

definition safestrcpy :: "mem \<Rightarrow> uint \<Rightarrow> uint \<Rightarrow> nat \<Rightarrow> mem" where
  "safestrcpy m s t n = (if n = 0 then m else safestrcpy_loop m s t (n - 1))"

partial_function (option) strlen_from :: "mem \<Rightarrow> uint \<Rightarrow> nat \<Rightarrow> nat option" where
  "strlen_from m s n = (if m (s + of_nat n) = 0 then Some n else strlen_from m s (Suc n))"

definition strlen :: "mem \<Rightarrow> uint \<Rightarrow> nat option" where
  "strlen m s = strlen_from m s 0"

text \<open>\<open>cstr m s k\<close>: a terminated string of length \<open>k\<close> starts at \<open>s\<close>.\<close>

definition cstr :: "mem \<Rightarrow> uint \<Rightarrow> nat \<Rightarrow> bool" where
  "cstr m s k \<longleftrightarrow> (\<forall>j<k. m (s + of_nat j) \<noteq> 0) \<and> m (s + of_nat k) = 0"

definition apart :: "uint \<Rightarrow> uint \<Rightarrow> nat \<Rightarrow> bool" where
  "apart s t n \<longleftrightarrow> (\<forall>i<n. \<forall>j<n. s + of_nat i \<noteq> t + of_nat j)"

lemma apartI:
  assumes "unat t + n \<le> unat s" and "unat s + n \<le> 2 ^ 32"
  shows "apart s t n"
  unfolding apart_def
proof (intro allI impI)
  fix i j assume "i < n" "j < n"
  then have "unat (s + of_nat i) = unat s + i" "unat (t + of_nat j) = unat t + j"
    using assms by (simp_all add: unat_add_of_nat)
  with assms(1) \<open>j < n\<close> show "s + of_nat i \<noteq> t + of_nat j" by auto
qed

lemma strlen_from_cstr: "cstr m s k \<Longrightarrow> n \<le> k \<Longrightarrow> strlen_from m s n = Some k"
proof (induction "k - n" arbitrary: n)
  case 0
  then show ?case by (subst strlen_from.simps) (simp add: cstr_def)
next
  case (Suc d)
  then have "strlen_from m s (Suc n) = Some k" by simp
  with Suc show ?case by (subst strlen_from.simps) (simp add: cstr_def)
qed

lemma apart_Suc: "apart s t (Suc n) \<Longrightarrow> apart (s + 1) (t + 1) n"
  by (auto simp: apart_def algebra_simps dest: spec [of _ "Suc _"])

lemma apart_step: "apart s t (Suc n) \<Longrightarrow> 0 < j \<Longrightarrow> j < Suc n \<Longrightarrow> (m(s := v)) (t + of_nat j) = m (t + of_nat j)"
proof -
  assume "apart s t (Suc n)" "0 < j" "j < Suc n"
  then have "s + of_nat 0 \<noteq> t + of_nat j" unfolding apart_def by blast
  then show ?thesis by auto
qed

lemma before_next: "Suc n \<le> 2 ^ 32 \<Longrightarrow> n \<le> unat (s - (s + 1) :: uint)"
proof -
  assume n: "Suc n \<le> 2 ^ 32"
  have "s - (s + 1) = - 1" by simp
  then show ?thesis using n by (simp add: unsigned_minus_1_eq_mask mask_eq_exp_minus_1)
qed

lemma outside_next: "Suc n \<le> 2 ^ 32 \<Longrightarrow> Suc n \<le> unat (x - s) \<Longrightarrow> x \<noteq> s \<and> n \<le> unat (x - (s + 1))" for x s :: uint
  using offset_Suc [of n x s] by (auto simp: not_less [symmetric])

lemma safestrcpy_loop_spec:
  assumes "Suc n < 2 ^ 32" and "apart s t (Suc n)"
  shows "(\<forall>x. Suc n \<le> unat (x - s) \<longrightarrow> safestrcpy_loop m s t n x = m x) \<and>
    (\<exists>k\<le>n. safestrcpy_loop m s t n (s + of_nat k) = 0 \<and> (k = n \<or> m (t + of_nat k) = 0) \<and>
       (\<forall>j<k. safestrcpy_loop m s t n (s + of_nat j) = m (t + of_nat j) \<and> m (t + of_nat j) \<noteq> 0))"
  using assms
proof (induction n arbitrary: m s t)
  case 0
  then show ?case by auto
next
  case (Suc n)
  show ?case
  proof (cases "m t = 0")
    case True
    have "s + 1 \<noteq> s" by simp
    moreover have "Suc (Suc n) \<le> unat (x - s) \<Longrightarrow> x \<noteq> s \<and> x \<noteq> s + 1" for x
      using outside_next [of "Suc n" x s] Suc.prems(1) by auto
    ultimately show ?thesis using True by (auto intro: exI [of _ 0])
  next
    case False
    let ?m = "m(s := m t)"
    let ?r = "safestrcpy_loop ?m (s + 1) (t + 1) n"
    have src: "?m (t + 1 + of_nat j) = m (t + of_nat (Suc j))" if "j \<le> n" for j
      using apart_step [OF Suc.prems(2), of "Suc j" m "m t"] that by (simp add: algebra_simps)
    have ih: "(\<forall>x. Suc n \<le> unat (x - (s + 1)) \<longrightarrow> ?r x = ?m x) \<and>
      (\<exists>k\<le>n. ?r (s + 1 + of_nat k) = 0 \<and> (k = n \<or> ?m (t + 1 + of_nat k) = 0) \<and>
        (\<forall>j<k. ?r (s + 1 + of_nat j) = ?m (t + 1 + of_nat j) \<and> ?m (t + 1 + of_nat j) \<noteq> 0))"
      using Suc.prems by (intro Suc.IH) (auto intro: apart_Suc)
    then obtain k where k0: "k \<le> n" "?r (s + 1 + of_nat k) = 0" "k = n \<or> ?m (t + 1 + of_nat k) = 0"
      "\<forall>j<k. ?r (s + 1 + of_nat j) = ?m (t + 1 + of_nat j) \<and> ?m (t + 1 + of_nat j) \<noteq> 0" by blast
    have k: "k \<le> n" "?r (s + 1 + of_nat k) = 0" "k = n \<or> m (t + of_nat (Suc k)) = 0"
      "\<And>j. j < k \<Longrightarrow> ?r (s + 1 + of_nat j) = m (t + of_nat (Suc j)) \<and> m (t + of_nat (Suc j)) \<noteq> 0"
      using k0 src [of k] src by (simp_all only:) auto
    have out: "\<And>x. Suc n \<le> unat (x - (s + 1)) \<Longrightarrow> ?r x = ?m x" using ih by blast
    have s0: "?r s = m t" using out [of s] before_next [of "Suc n" s] Suc.prems(1) by simp
    have "\<forall>j<Suc k. ?r (s + of_nat j) = m (t + of_nat j) \<and> m (t + of_nat j) \<noteq> 0"
      using k(4) s0 False by (auto simp: less_Suc_eq_0_disj algebra_simps)
    moreover have "?r (s + of_nat (Suc k)) = 0" using k(2) by (simp add: algebra_simps)
    moreover have "?r x = m x" if "Suc (Suc n) \<le> unat (x - s)" for x
      using outside_next [of "Suc n" x s] Suc.prems(1) that out [of x] by auto
    ultimately show ?thesis using False k(1,3) by (auto intro: exI [of _ "Suc k"])
  qed
qed

lemma strncmp_zero:
  "strncmp m p q n = 0 \<longleftrightarrow> (\<forall>k<n. (\<forall>j<k. m (p + of_nat j) \<noteq> 0) \<longrightarrow> m (p + of_nat k) = m (q + of_nat k))"
proof (induction n arbitrary: p q)
  case 0
  then show ?case by simp
next
  case (Suc n)
  have "(\<forall>k<Suc n. (\<forall>j<k. m (p + of_nat j) \<noteq> 0) \<longrightarrow> m (p + of_nat k) = m (q + of_nat k)) \<longleftrightarrow>
      m p = m q \<and> (m p \<noteq> 0 \<longrightarrow> (\<forall>k<n. (\<forall>j<k. m (p + 1 + of_nat j) \<noteq> 0) \<longrightarrow>
        m (p + 1 + of_nat k) = m (q + 1 + of_nat k)))"
    (is "?L = ?R")
    unfolding All_less_Suc2 by (auto simp: All_less_Suc2 add.assoc add.commute [of 1])
  with Suc.IH [of "p + 1" "q + 1"] show ?case by (auto simp: word_uint_eq_iff)
qed

section \<open>Properties\<close>

text \<open>
  C29. \<^verbatim>\<open>memmove\<close> copies correctly whatever the overlap: for blocks that do not run over the end of the
  address space, every destination byte gets what the source byte held before the call, and no
  other byte changes.
\<close>

theorem memmove_copies:
  assumes "unat src + n < 2 ^ 32" and "unat dst + n \<le> 2 ^ 32"
  shows "memmove m dst src n = (\<lambda>x. if unat (x - dst) < n then m (src + (x - dst)) else m x)"
  using assms by (rule memmove_eq)

theorem memmove_copies_witness:
  "memmove (\<lambda>x. ucast x) 11 10 3 12 = 11 \<and> memmove (\<lambda>x. ucast x) 11 10 3 14 = 14"
  using memmove_copies [of 10 3 11 "\<lambda>x. ucast x"] by simp

text \<open>
  C34. \<^verbatim>\<open>safestrcpy\<close> always leaves a terminated string that is a prefix of the source, cut only when
  the source does not fit, and writes nothing outside its buffer of \<open>n\<close> bytes.
\<close>

theorem safestrcpy_terminates_string:
  assumes "0 < n" and "n < 2 ^ 32" and "apart s t n"
  shows "\<exists>k<n. cstr (safestrcpy m s t n) s k \<and> (k = n - 1 \<or> m (t + of_nat k) = 0) \<and>
      (\<forall>j<k. safestrcpy m s t n (s + of_nat j) = m (t + of_nat j)) \<and>
      (\<forall>x. n \<le> unat (x - s) \<longrightarrow> safestrcpy m s t n x = m x)"
proof -
  let ?r = "safestrcpy_loop m s t (n - 1)"
  have eq: "safestrcpy m s t n = ?r" using assms(1) by (simp add: safestrcpy_def)
  have n: "Suc (n - 1) = n" using assms(1) by simp
  obtain k where k: "k \<le> n - 1" "?r (s + of_nat k) = 0" "k = n - 1 \<or> m (t + of_nat k) = 0"
      "\<forall>j<k. ?r (s + of_nat j) = m (t + of_nat j) \<and> m (t + of_nat j) \<noteq> 0"
    and out: "\<forall>x. n \<le> unat (x - s) \<longrightarrow> ?r x = m x"
    using safestrcpy_loop_spec [of "n - 1" s t m] assms(2,3) unfolding n by blast
  have "k < n" using k(1) assms(1) by simp
  moreover have "cstr ?r s k" unfolding cstr_def using k(2,4) by simp
  ultimately show ?thesis unfolding eq using k(3,4) out by blast
qed

theorem safestrcpy_terminates_string_witness:
  "\<exists>k<4. cstr (safestrcpy (\<lambda>x. if x < 50 then 7 else 65) 100 20 4) 100 k"
proof -
  have "apart 100 20 4" by (rule apartI) simp_all
  with safestrcpy_terminates_string [of 4 100 20 "\<lambda>x. if x < 50 then 7 else 65"] show ?thesis by auto
qed

end
