(* ===== verification/Formatting.thy ===== *)
theory Formatting
  imports Kmemory
begin

text \<open>
  Numbers as text: \<^verbatim>\<open>printint\<close> of \<^verbatim>\<open>printf.c\<close> and \<^verbatim>\<open>console.c\<close> (they differ only in the digits above nine),
  \<^verbatim>\<open>printf\<close> of \<^verbatim>\<open>printf.c\<close>, and \<^verbatim>\<open>atoi\<close> of \<^verbatim>\<open>ulib.c\<close>.

  The output of a call is the string it hands to \<^verbatim>\<open>write\<close>, character by character. The base is one of
  the two the callers pass. The arguments behind the format are the words on the stack; \<^verbatim>\<open>%s\<close> reads
  memory from such a word on and does not return if there is no zero byte.

  Shown: what is printed reads back as the number, in both bases and for every 32-bit value; the
  buffer of 16 characters is never overrun; formats are printed piece by piece.
\<close>

datatype radix = Dec | Hex

definition radix_val :: "radix \<Rightarrow> uint" where
  "radix_val b = (case b of Dec \<Rightarrow> 10 | Hex \<Rightarrow> 16)"

definition upper_digits :: string where
  "upper_digits = ''0123456789ABCDEF''"

definition lower_digits :: string where
  "lower_digits = ''0123456789abcdef''"

text \<open>The characters the first loop puts into the buffer, lowest digit first.\<close>

lemma radix_div_less: "x div radix_val b \<noteq> 0 \<Longrightarrow> unat (x div radix_val b) < unat x"
proof -
  have b: "1 < unat (radix_val b)" by (cases b) (simp_all add: radix_val_def)
  assume "x div radix_val b \<noteq> 0"
  then have "x \<noteq> 0" by auto
  then have "0 < unat x" by (simp add: unat_gt_0)
  then show ?thesis unfolding unat_div using b by (rule div_less_dividend [rotated])
qed

function digits_rev :: "string \<Rightarrow> radix \<Rightarrow> uint \<Rightarrow> string" where
  "digits_rev digits b x =
     (let d = digits ! unat (x mod radix_val b); y = x div radix_val b in
      if y \<noteq> 0 then d # digits_rev digits b y else [d])"
  by pat_completeness auto
termination
  by (relation "measure (\<lambda>(digits, b, x). unat x)") (auto simp: radix_div_less)

declare digits_rev.simps [simp del]

definition printint :: "string \<Rightarrow> uint \<Rightarrow> radix \<Rightarrow> bool \<Rightarrow> string" where
  "printint digits xx b sign =
     (let neg = (sign \<and> sint xx < 0); x = (if neg then - xx else xx) in
      rev (digits_rev digits b x @ (if neg then ''-'' else [])))"

partial_function (option) read_cstr :: "mem \<Rightarrow> uint \<Rightarrow> string option" where
  "read_cstr m a =
     (if m a = 0 then Some []
      else Option.bind (read_cstr m (a + 1)) (\<lambda>s. Some (char_of (unat (m a)) # s)))"

text \<open>
  The loop of \<^verbatim>\<open>printf\<close>: the words on the stack behind the format, the number of the next one, the rest of the
  format, and whether a percent sign came before.
\<close>

fun printf_loop :: "mem \<Rightarrow> (nat \<Rightarrow> uint) \<Rightarrow> nat \<Rightarrow> string \<Rightarrow> bool \<Rightarrow> string option" where
  "printf_loop m ap k [] percent = Some []"
| "printf_loop m ap k (c # fmt) percent =
     (let print = (\<lambda>s rest. Option.bind rest (\<lambda>r. Some (s @ r))) in
      if \<not> percent then
        if c = CHR ''%'' then printf_loop m ap k fmt True else print [c] (printf_loop m ap k fmt False)
      else if c = CHR ''d'' then print (printint upper_digits (ap k) Dec True) (printf_loop m ap (k + 1) fmt False)
      else if c = CHR ''x'' \<or> c = CHR ''p'' then
        print (printint upper_digits (ap k) Hex False) (printf_loop m ap (k + 1) fmt False)
      else if c = CHR ''s'' then
        Option.bind (if ap k = 0 then Some ''(null)'' else read_cstr m (ap k))
          (\<lambda>s. print s (printf_loop m ap (k + 1) fmt False))
      else if c = CHR ''c'' then print [char_of (unat (ucast (ap k) :: uchar))] (printf_loop m ap (k + 1) fmt False)
      else if c = CHR ''%'' then print [c] (printf_loop m ap k fmt False)
      else print [CHR ''%'', c] (printf_loop m ap k fmt False))"

definition printf :: "mem \<Rightarrow> string \<Rightarrow> (nat \<Rightarrow> uint) \<Rightarrow> string option" where
  "printf m fmt args = printf_loop m args 0 fmt False"

fun atoi_loop :: "uint \<Rightarrow> string \<Rightarrow> uint" where
  "atoi_loop n [] = n"
| "atoi_loop n (c # s) =
     (if (48 :: nat) \<le> of_char c \<and> of_char c \<le> (57 :: nat) then atoi_loop (n * 10 + of_nat (of_char c) - 48) s else n)"

definition atoi :: "string \<Rightarrow> uint" where
  "atoi s = atoi_loop 0 s"

section \<open>Reading numbers back\<close>

definition digit :: "string \<Rightarrow> char \<Rightarrow> nat" where
  "digit digits c = (case find_index (\<lambda>d. d = c) digits of Some k \<Rightarrow> k | None \<Rightarrow> 0)"

definition numval :: "string \<Rightarrow> nat \<Rightarrow> string \<Rightarrow> nat" where
  "numval digits base s = foldl (\<lambda>n c. n * base + digit digits c) 0 s"

definition intval :: "string \<Rightarrow> nat \<Rightarrow> string \<Rightarrow> int" where
  "intval digits base s =
     (if s \<noteq> [] \<and> hd s = CHR ''-'' then - int (numval digits base (tl s)) else int (numval digits base s))"

lemma numval_snoc: "numval digits base (s @ [c]) = numval digits base s * base + digit digits c"
  by (simp add: numval_def)

lemma find_index_distinct: "distinct xs \<Longrightarrow> k < length xs \<Longrightarrow> find_index (\<lambda>x. x = xs ! k) xs = Some k"
proof (induction xs arbitrary: k)
  case (Cons x xs)
  then show ?case by (cases k) auto
qed simp

lemma digit_nth:
  assumes "digits = upper_digits \<or> digits = lower_digits" and "k < 16"
  shows "digit digits (digits ! k) = k" and "digits ! k \<noteq> CHR ''-''"
proof -
  have d: "distinct digits" "length digits = 16" "CHR ''-'' \<notin> set digits"
    using assms(1) by (auto simp: upper_digits_def lower_digits_def)
  then show "digit digits (digits ! k) = k"
    using find_index_distinct [of digits k] assms(2) by (simp add: digit_def)
  show "digits ! k \<noteq> CHR ''-''" using d assms(2) by (metis nth_mem)
qed

lemma radix_mod_less: "unat (x mod radix_val b) < 16"
proof -
  have "unat x mod 10 < 16" using mod_less_divisor [of 10 "unat x"] by linarith
  then show ?thesis by (cases b) (simp_all add: unat_mod radix_val_def)
qed

lemma numval_digits_rev:
  assumes "digits = upper_digits \<or> digits = lower_digits"
  shows "numval digits (unat (radix_val b)) (rev (digits_rev digits b x)) = unat x"
proof (induction "unat x" arbitrary: x rule: less_induct)
  case less
  let ?r = "radix_val b" and ?d = "digits ! unat (x mod radix_val b)"
  have d: "digit digits ?d = unat x mod unat ?r"
    using digit_nth(1) [OF assms] radix_mod_less [of x b] by (simp add: unat_mod)
  show ?case
  proof (cases "x div ?r = 0")
    case True
    then have "unat x div unat ?r = 0" by (metis unat_0 unat_div)
    then have "unat x mod unat ?r = unat x" by (metis add_0 div_mult_mod_eq mult_0)
    with True d show ?thesis by (subst digits_rev.simps) (simp add: numval_def)
  next
    case False
    have "numval digits (unat ?r) (rev (digits_rev digits b (x div ?r))) = unat x div unat ?r"
      using less [of "x div ?r"] radix_div_less [OF False] by (simp add: unat_div)
    with False d show ?thesis by (subst digits_rev.simps) (simp add: numval_snoc)
  qed
qed

text \<open>The first loop runs at most ten times.\<close>

lemma length_digits_rev:
  "unat x < 10 ^ n \<Longrightarrow> 0 < n \<Longrightarrow> length (digits_rev digits b x) \<le> n"
proof (induction n arbitrary: x)
  case (Suc n)
  have r: "10 \<le> unat (radix_val b)" by (cases b) (simp_all add: radix_val_def)
  show ?case
  proof (cases "x div radix_val b = 0")
    case True
    then show ?thesis by (subst digits_rev.simps) simp
  next
    case False
    have "unat (x div radix_val b) \<le> unat x div 10"
      unfolding unat_div using r by (intro div_le_mono2) auto
    also have "\<dots> < 10 ^ n" using Suc.prems(1) by (simp add: less_mult_imp_div_less)
    finally have lt: "unat (x div radix_val b) < 10 ^ n" .
    moreover have "0 < unat (x div radix_val b)" using False by (metis unat_gt_0)
    then have "0 < n" using lt by (cases n) auto
    ultimately have "length (digits_rev digits b (x div radix_val b)) \<le> n" using Suc.IH by simp
    with False show ?thesis by (subst digits_rev.simps) simp
  qed
qed simp

lemma digits_rev_no_minus:
  assumes "digits = upper_digits \<or> digits = lower_digits"
  shows "CHR ''-'' \<notin> set (digits_rev digits b x)"
proof (induction "unat x" arbitrary: x rule: less_induct)
  case less
  have "digits ! unat (x mod radix_val b) \<noteq> CHR ''-''"
    using digit_nth(2) [OF assms] radix_mod_less [of x b] by simp
  moreover have "CHR ''-'' \<notin> set (digits_rev digits b (x div radix_val b))" if "x div radix_val b \<noteq> 0"
    using less [of "x div radix_val b"] radix_div_less [OF that] by simp
  ultimately show ?case by (subst digits_rev.simps) (auto simp: Let_def)
qed

lemma digits_rev_nonempty: "digits_rev digits b x \<noteq> []"
  by (subst digits_rev.simps) (simp add: Let_def)

lemma neg_value: "sint x < 0 \<Longrightarrow> uint (- x) = - sint x" for x :: uint
proof -
  assume neg: "sint x < 0"
  have "- (2 ^ 31) \<le> sint x" using sint_greater_eq [of x] by simp
  then have "(- sint x) mod 2 ^ 32 = - sint x" using neg by (intro mod_pos_pos_trivial) auto
  moreover have "uint (- x) = uint (word_of_int (- sint x) :: uint)" by simp
  then have "uint (- x) = (- sint x) mod 2 ^ 32" by (simp only: uint_word_of_int) simp
  ultimately have "uint (- x) = - sint x" by simp
  then show ?thesis by simp
qed

lemma sint_nonneg_unat: "\<not> sint x < 0 \<Longrightarrow> uint x = sint x" for x :: uint
proof -
  assume "\<not> sint x < 0"
  moreover have "sint x < 2 ^ 31" using sint_less [of x] by simp
  ultimately have "sint x mod 2 ^ 32 = sint x" by (intro mod_pos_pos_trivial) auto
  moreover have "uint x = sint x mod 2 ^ 32" using uint_sint [of x] by (simp add: take_bit_eq_mod)
  ultimately show ?thesis by simp
qed

text \<open>Decimal digits are what \<^verbatim>\<open>atoi\<close> reads.\<close>

definition decimal :: "string \<Rightarrow> bool" where
  "decimal s \<longleftrightarrow> (\<forall>c\<in>set s. (48 :: nat) \<le> of_char c \<and> of_char c \<le> (57 :: nat))"

lemma decimal_digit: "k < 10 \<Longrightarrow> of_char (upper_digits ! k) = (48 + k :: nat)"
proof -
  assume "k < 10"
  have "list_all (\<lambda>k. of_char (upper_digits ! k) = (48 + k :: nat)) [0..<10]"
    by code_simp
  then show ?thesis using \<open>k < 10\<close> by (simp add: list_all_iff del: upt_rec_numeral)
qed

lemma digit_decimal:
  assumes "(48 :: nat) \<le> of_char c" and "of_char c \<le> (57 :: nat)"
  shows "digit upper_digits c = of_char c - 48"
proof -
  define k :: nat where "k = of_char c - 48"
  have "k < 10" "of_char c = 48 + k" using assms by (auto simp: k_def)
  then have "of_char c = (of_char (upper_digits ! k) :: nat)" by (simp add: decimal_digit)
  then have "c = upper_digits ! k" by (simp add: of_char_eq_iff)
  then show ?thesis using digit_nth(1) [of upper_digits k] \<open>k < 10\<close> by (simp add: decimal_digit)
qed

lemma atoi_loop_decimal:
  "decimal s \<Longrightarrow> atoi_loop (of_nat n) s = of_nat (foldl (\<lambda>n c. n * 10 + digit upper_digits c) n s)"
proof (induction s arbitrary: n)
  case (Cons c s)
  have c: "(48 :: nat) \<le> of_char c" "of_char c \<le> (57 :: nat)" using Cons.prems by (simp_all add: decimal_def)
  have "(of_nat n * 10 + of_nat (of_char c) - 48 :: uint) = of_nat (n * 10 + digit upper_digits c)"
    using c by (simp add: digit_decimal of_nat_diff)
  then show ?case using Cons c by (simp add: decimal_def del: of_nat_add of_nat_mult)
qed simp

lemma digits_rev_decimal: "decimal (digits_rev upper_digits Dec x)"
proof (induction "unat x" arbitrary: x rule: less_induct)
  case less
  have "unat (x mod radix_val Dec) < 10" by (simp add: radix_val_def unat_mod)
  moreover have "decimal (digits_rev upper_digits Dec (x div radix_val Dec))" if "x div radix_val Dec \<noteq> 0"
    using less [of "x div radix_val Dec"] radix_div_less [OF that] by simp
  ultimately show ?case
    by (subst digits_rev.simps) (auto simp: Let_def decimal_def decimal_digit)
qed

section \<open>Properties\<close>

text \<open>
  C37. Printed numbers read back: for every 32-bit word, the signed decimal text \<^verbatim>\<open>printint\<close> produces has the
  word's signed value, the unsigned text in base ten or sixteen its unsigned value, with either set of
  digits; and the text never needs more than eleven characters of the buffer of sixteen.
\<close>

theorem printint_roundtrip:
  assumes "digits = upper_digits \<or> digits = lower_digits"
  shows "intval digits 10 (printint digits x Dec True) = sint x \<and>
    numval digits (unat (radix_val b)) (printint digits x b False) = unat x \<and>
    length (printint digits x b sign) \<le> 11"
proof (intro conjI)
  have ten: "unat (radix_val Dec) = 10" by (simp add: radix_val_def)
  note val = numval_digits_rev [OF assms, of Dec, unfolded ten]
  have "hd (rev (digits_rev digits Dec x)) \<noteq> CHR ''-''" for x
    using digits_rev_no_minus [OF assms, of Dec x] digits_rev_nonempty [of digits Dec x]
    by (metis hd_in_set rev_is_Nil_conv set_rev)
  then show "intval digits 10 (printint digits x Dec True) = sint x"
    using val [of x] val [of "- x"] neg_value [of x]
    by (auto simp: printint_def intval_def Let_def digits_rev_nonempty sint_nonneg_unat)
  show "numval digits (unat (radix_val b)) (printint digits x b False) = unat x"
    using numval_digits_rev [OF assms, of b x] by (simp add: printint_def)
  have "length (digits_rev digits b y) \<le> 10" for y
    using unsigned_less [of y, where ?'a = nat] by (intro length_digits_rev) auto
  from this [of x] this [of "- x"] show "length (printint digits x b sign) \<le> 11"
    by (auto simp: printint_def Let_def)
qed

theorem printint_roundtrip_witness:
  "intval upper_digits 10 (printint upper_digits 0x80000000 Dec True) = - 2147483648"
  using printint_roundtrip [of upper_digits "0x80000000" Dec True] by (simp add: sint_numeral)

text \<open>
  \<^verbatim>\<open>atoi\<close> undoes \<^verbatim>\<open>printint\<close>: what is printed for a word in base ten, as a signed number that is not negative
  or as an unsigned one, is read back as that word.
\<close>

theorem atoi_printint:
  assumes "0 \<le> sint x \<or> \<not> sign"
  shows "atoi (printint upper_digits x Dec sign) = x"
proof -
  have ten: "unat (radix_val Dec) = 10" by (simp add: radix_val_def)
  have "printint upper_digits x Dec sign = rev (digits_rev upper_digits Dec x)"
    using assms by (auto simp: printint_def)
  moreover have "atoi s = of_nat (numval upper_digits 10 s)" if "decimal s" for s
    using atoi_loop_decimal [OF that, of 0] by (simp add: atoi_def numval_def)
  moreover have "decimal (rev (digits_rev upper_digits Dec x))"
    using digits_rev_decimal [of x] by (simp add: decimal_def)
  ultimately show ?thesis
    using numval_digits_rev [of upper_digits Dec x] unfolding ten by simp
qed

theorem atoi_printint_witness: "atoi (printint upper_digits 0x7FFFFFFF Dec True) = 0x7FFFFFFF"
  using atoi_printint [of "0x7FFFFFFF" True] by (simp add: sint_numeral)

end
