(* ===== verification/Ulib.thy ===== *)
theory Ulib
  imports Formatting
begin

text \<open>
  The C library of the user programs, \<^verbatim>\<open>ulib.c\<close>, over the same byte-addressed memory as the kernel's
  string routines. Loops that run to a zero byte are partial functions: \<open>None\<close> is a loop that never ends.
  \<^verbatim>\<open>read\<close> is given by the bytes its calls deliver.

  Shown: \<^verbatim>\<open>memmove\<close> agrees with the kernel's as long as the destination does not start inside the source;
  and \<^verbatim>\<open>calc\<close>, meant to keep the processor busy for a while, does not return for any argument but zero.
\<close>

partial_function (option) strcpy :: "mem \<Rightarrow> uint \<Rightarrow> uint \<Rightarrow> mem option" where
  "strcpy m s t =
     (let m' = m(s := m t) in if m t \<noteq> 0 then strcpy m' (s + 1) (t + 1) else Some m')"

partial_function (option) strcmp :: "mem \<Rightarrow> uint \<Rightarrow> uint \<Rightarrow> int option" where
  "strcmp m p q =
     (if m p \<noteq> 0 \<and> m p = m q then strcmp m (p + 1) (q + 1) else Some (uint (m p) - uint (m q)))"

definition u_strlen :: "mem \<Rightarrow> uint \<Rightarrow> nat option" where
  "u_strlen m s = strlen_from m s 0"

definition u_memset :: "mem \<Rightarrow> uint \<Rightarrow> uint \<Rightarrow> nat \<Rightarrow> mem" where
  "u_memset m dst c n = stosb m dst (ucast c) n"

partial_function (option) strchr :: "mem \<Rightarrow> uint \<Rightarrow> uchar \<Rightarrow> uint option" where
  "strchr m s c =
     (if m s = 0 then Some 0 else if m s = c then Some s else strchr m (s + 1) c)"

text \<open>\<^verbatim>\<open>gets\<close>: the buffer without its terminating zero, and the input that is left.\<close>

fun gets_loop :: "nat \<Rightarrow> uchar list \<Rightarrow> uchar list \<times> uchar list" where
  "gets_loop 0 inp = ([], inp)"
| "gets_loop (Suc n) inp =
     (case inp of
        [] \<Rightarrow> ([], [])
      | c # inp' \<Rightarrow>
          if c = 10 \<or> c = 13 then ([c], inp')
          else let (buf, rest) = gets_loop n inp' in (c # buf, rest))"

definition gets :: "int \<Rightarrow> uchar list \<Rightarrow> uchar list \<times> uchar list" where
  "gets sz inp = gets_loop (nat (sz - 1)) inp"

definition u_memmove :: "mem \<Rightarrow> uint \<Rightarrow> uint \<Rightarrow> int \<Rightarrow> mem" where
  "u_memmove m vdst vsrc n = copy_up m vdst vsrc (nat n)"

text \<open>
  \<^verbatim>\<open>calc\<close>: the comparison of an unsigned counter with \<^verbatim>\<open>num\<close> is unsigned. The innermost loop tests \<^verbatim>\<open>k\<close> and
  increments \<^verbatim>\<open>j\<close>.
\<close>

partial_function (option) calc_k :: "uint \<Rightarrow> uint \<Rightarrow> uint \<Rightarrow> int \<Rightarrow> (uint \<times> int) option" where
  "calc_k num k j c =
     (if k < num then calc_k num k (j + 1) (push_bit 10 (drop_bit 10 c)) else Some (j, c))"

partial_function (option) calc_j :: "uint \<Rightarrow> uint \<Rightarrow> int \<Rightarrow> int option" where
  "calc_j num j c =
     (if j < num then Option.bind (calc_k num 0 j c) (\<lambda>(j', c'). calc_j num (j' + 1) c') else Some c)"

partial_function (option) calc_i :: "uint \<Rightarrow> uint \<Rightarrow> int \<Rightarrow> int option" where
  "calc_i num i c =
     (if i < num then Option.bind (calc_j num 0 c) (\<lambda>c'. calc_i num (i + 1) c') else Some 0)"

definition calc :: "uint \<Rightarrow> int option" where
  "calc num = calc_i num 0 0"

lemma calc_k_diverges: "calc_k num k j c = Some r \<Longrightarrow> \<not> k < num"
proof (rule calc_k.raw_induct [of "\<lambda>num k j c r. \<not> k < num"])
  fix f num k j c y
  assume "\<And>num k j c y. f num k j c = Some y \<Longrightarrow> \<not> k < num"
    and "(if k < num then f num k (j + 1) (push_bit 10 (drop_bit 10 c)) else Some (j, c)) = Some y"
  then show "\<not> k < num" by (cases "k < num") auto
qed

lemma calc_j_diverges: "0 < num \<Longrightarrow> j < num \<Longrightarrow> calc_j num j c = None"
proof -
  assume "0 < num" "j < num"
  moreover have "calc_k num 0 j c = None"
    using calc_k_diverges [of num 0 j c] \<open>0 < num\<close> by (cases "calc_k num 0 j c") auto
  ultimately show ?thesis by (simp add: calc_j.simps)
qed

text \<open>Where the destination does not begin inside the source, this is the kernel's \<^verbatim>\<open>memmove\<close>.\<close>

lemma u_memmove_kernel:
  "\<not> (vsrc < vdst \<and> vdst < vsrc + of_nat (nat n)) \<Longrightarrow> u_memmove m vdst vsrc n = memmove m vdst vsrc (nat n)"
  by (auto simp: u_memmove_def memmove_def)

lemma copy_up_smear:
  "n < 2 ^ 32 \<Longrightarrow> copy_up m (a + 1) a n = (\<lambda>x. if unat (x - (a + 1)) < n then m a else m x)"
proof (induction n arbitrary: m a)
  case 0
  then show ?case by simp
next
  case (Suc n)
  have "copy_up m (a + 1) a (Suc n) = copy_up (m(a + 1 := m a)) (a + 1 + 1) (a + 1) n" by simp
  also have "\<dots> = (\<lambda>x. if unat (x - (a + 1 + 1)) < n then m a else (m(a + 1 := m a)) x)"
    using Suc.IH [of "m(a + 1 := m a)" "a + 1"] Suc.prems by (simp only: fun_upd_same)
  finally have "copy_up m (a + 1) a (Suc n) =
      (\<lambda>x. if unat (x - (a + 1 + 1)) < n then m a else (m(a + 1 := m a)) x)" .
  then show ?case
    using offset_Suc [of n _ "a + 1"] Suc.prems by (auto simp: fun_eq_iff)
qed

section \<open>Properties\<close>

text \<open>
  C39. \<^verbatim>\<open>calc\<close> never comes back: for every argument but zero, negative ones included, its innermost loop
  runs for ever, because it increments the counter of the loop around it.
\<close>

theorem calc_never_returns: "calc num = (if num = 0 then Some 0 else None)"
proof (cases "num = 0")
  case True
  then show ?thesis by (simp add: calc_def calc_i.simps)
next
  case False
  then have "0 < num" by (simp add: word_gt_0)
  then have "calc_j num 0 0 = None" by (intro calc_j_diverges)
  with False \<open>0 < num\<close> show ?thesis by (simp add: calc_def calc_i.simps [of num 0])
qed

text \<open>
  Overlapping moves go wrong: moving an area up by one byte with the library's \<^verbatim>\<open>memmove\<close> fills it with
  copies of its first byte, where the kernel's function of the same name moves it.
\<close>

theorem u_memmove_smears:
  assumes "0 \<le> n" and "n < 2 ^ 32"
  shows "u_memmove m (a + 1) a n = (\<lambda>x. if unat (x - (a + 1)) < nat n then m a else m x)"
  using assms copy_up_smear [of "nat n" m a] by (simp add: u_memmove_def nat_less_iff)

theorem u_memmove_smears_witness:
  "u_memmove (\<lambda>x. ucast x) 101 100 2 102 = 100"
  using u_memmove_smears [of 2 "\<lambda>x. ucast x" 100] by (simp add: fun_eq_iff)

end
