(* ===== verification/Shell.thy ===== *)
theory Shell
  imports Ulib
begin

text \<open>
  The shell \<^verbatim>\<open>sh.c\<close>: tokens, parser, the step that cuts the words of the line, and the process tree a
  command runs as.

  A pointer into the line is an index; the end of the line is its length, and reading there gives the
  terminating zero. A parsed command holds its words as pairs of indices, as the code holds pairs of
  pointers. The call \<^verbatim>\<open>malloc\<close> is taken to succeed. \<^verbatim>\<open>panic\<close> of the shell prints a message and exits; the message \<^verbatim>\<open>leftovers\<close> before it is left out.
  The recursive functions have a fuel; \<^verbatim>\<open>parsecmd\<close> starts with more than any line of its length can use.

  Shown: parsing ends for every line; printing a command and parsing it gives the command back; after
  \<^verbatim>\<open>nulterminate\<close> every word, read as a C string, is the word of the line.
\<close>

section \<open>Commands\<close>

type_synonym span = "nat \<times> nat"

text \<open>The command tree, over the type of its words.\<close>

datatype 'w cmd =
  EXEC "'w list"
| REDIR "'w cmd" 'w int int
| PIPE "'w cmd" "'w cmd"
| LIST "'w cmd" "'w cmd"
| BACK "'w cmd"

type_synonym pcmd = "span cmd"

datatype perr = SPanic string | NoFuel

abbreviation MAXARGS :: nat where "MAXARGS \<equiv> 10"
abbreviation eos :: char where "eos \<equiv> CHR 0x00"

definition execcmd :: pcmd where
  "execcmd = EXEC []"

definition redircmd :: "pcmd \<Rightarrow> nat \<Rightarrow> nat \<Rightarrow> int \<Rightarrow> int \<Rightarrow> pcmd" where
  "redircmd subcmd file efile mode fd = REDIR subcmd (file, efile) mode fd"

definition pipecmd :: "pcmd \<Rightarrow> pcmd \<Rightarrow> pcmd" where
  "pipecmd left right = PIPE left right"

definition listcmd :: "pcmd \<Rightarrow> pcmd \<Rightarrow> pcmd" where
  "listcmd left right = LIST left right"

definition backcmd :: "pcmd \<Rightarrow> pcmd" where
  "backcmd subcmd = BACK subcmd"

section \<open>Tokens\<close>

definition whitespace :: string where
  "whitespace = [CHR '' '', CHR 0x09, CHR 0x0D, CHR 0x0A, CHR 0x0B]"

definition symbols :: string where
  "symbols = ''<|>&;()''"

definition char_at :: "string \<Rightarrow> nat \<Rightarrow> char" where
  "char_at buf s = (if s < length buf then buf ! s else eos)"

function skip :: "(char \<Rightarrow> bool) \<Rightarrow> string \<Rightarrow> nat \<Rightarrow> nat" where
  "skip P buf s = (if s < length buf \<and> P (buf ! s) then skip P buf (s + 1) else s)"
  by pat_completeness auto
termination
  by (relation "measure (\<lambda>(P, buf, s). length buf - s)") auto

declare skip.simps [simp del]

definition skip_white :: "string \<Rightarrow> nat \<Rightarrow> nat" where
  "skip_white buf s = skip (\<lambda>c. c \<in> set whitespace) buf s"

definition skip_word :: "string \<Rightarrow> nat \<Rightarrow> nat" where
  "skip_word buf s = skip (\<lambda>c. c \<notin> set whitespace \<and> c \<notin> set symbols) buf s"

text \<open>\<^verbatim>\<open>gettoken\<close>: the token, the bounds of its text, and the new position.\<close>

definition gettoken :: "string \<Rightarrow> nat \<Rightarrow> char \<times> nat \<times> nat \<times> nat" where
  "gettoken buf ps =
     (let q = skip_white buf ps; c = char_at buf q;
          (ret, eq) =
            (if c = eos then (c, q)
             else if c \<in> set ''|();&<'' then (c, q + 1)
             else if c = CHR ''>'' then
               if char_at buf (q + 1) = CHR ''>'' then (CHR ''+'', q + 2) else (c, q + 1)
             else (CHR ''a'', skip_word buf q)) in
      (ret, q, eq, skip_white buf eq))"

definition peek :: "string \<Rightarrow> nat \<Rightarrow> string \<Rightarrow> bool \<times> nat" where
  "peek buf ps toks =
     (let s = skip_white buf ps in (char_at buf s \<noteq> eos \<and> char_at buf s \<in> set toks, s))"

section \<open>The parser\<close>

abbreviation O_RDONLY :: int where "O_RDONLY \<equiv> 0"
abbreviation O_WRONLY_CREATE :: int where "O_WRONLY_CREATE \<equiv> 0x201"

fun parseredirs :: "nat \<Rightarrow> string \<Rightarrow> pcmd \<Rightarrow> nat \<Rightarrow> perr + (pcmd \<times> nat)" where
  "parseredirs 0 buf cmd ps = Inl NoFuel"
| "parseredirs (Suc fuel) buf cmd ps =
     (let (more, ps) = peek buf ps ''<>'' in
      if \<not> more then Inr (cmd, ps)
      else
        let (tok, _, _, ps) = gettoken buf ps; (tok', q, eq, ps) = gettoken buf ps in
        if tok' \<noteq> CHR ''a'' then Inl (SPanic ''missing file for redirection'')
        else parseredirs fuel buf
          (if tok = CHR ''<'' then redircmd cmd q eq O_RDONLY 0
           else if tok = CHR ''>'' then redircmd cmd q eq O_WRONLY_CREATE 1
           else if tok = CHR ''+'' then redircmd cmd q eq O_WRONLY_CREATE 1
           else cmd) ps)"

text \<open>
  The code keeps a pointer to the \<open>EXEC\<close> node while redirections are wrapped around it, and fills its
  arguments through that pointer.
\<close>

fun set_argv :: "span list \<Rightarrow> pcmd \<Rightarrow> pcmd" where
  "set_argv argv (EXEC _) = EXEC argv"
| "set_argv argv (REDIR c f mode fd) = REDIR (set_argv argv c) f mode fd"
| "set_argv argv c = c"

fun parseargs :: "nat \<Rightarrow> string \<Rightarrow> pcmd \<Rightarrow> span list \<Rightarrow> nat \<Rightarrow> perr + (pcmd \<times> nat)" where
  "parseargs 0 buf ret argv ps = Inl NoFuel"
| "parseargs (Suc fuel) buf ret argv ps =
     (let (stop, ps) = peek buf ps ''|)&;'' in
      if stop then Inr (set_argv argv ret, ps)
      else
        let (tok, q, eq, ps) = gettoken buf ps in
        if tok = eos then Inr (set_argv argv ret, ps)
        else if tok \<noteq> CHR ''a'' then Inl (SPanic ''syntax'')
        else if MAXARGS \<le> length (argv @ [(q, eq)]) then Inl (SPanic ''too many args'')
        else case parseredirs fuel buf ret ps of
            Inl e \<Rightarrow> Inl e
          | Inr (ret, ps) \<Rightarrow> parseargs fuel buf ret (argv @ [(q, eq)]) ps)"

fun parseback :: "nat \<Rightarrow> string \<Rightarrow> pcmd \<Rightarrow> nat \<Rightarrow> perr + (pcmd \<times> nat)" where
  "parseback 0 buf cmd ps = Inl NoFuel"
| "parseback (Suc fuel) buf cmd ps =
     (let (more, ps) = peek buf ps ''&'' in
      if more then let (_, _, _, ps) = gettoken buf ps in parseback fuel buf (backcmd cmd) ps
      else Inr (cmd, ps))"

function (sequential) parseline :: "nat \<Rightarrow> string \<Rightarrow> nat \<Rightarrow> perr + (pcmd \<times> nat)"
and parsepipe :: "nat \<Rightarrow> string \<Rightarrow> nat \<Rightarrow> perr + (pcmd \<times> nat)"
and parseblock :: "nat \<Rightarrow> string \<Rightarrow> nat \<Rightarrow> perr + (pcmd \<times> nat)"
and parseexec :: "nat \<Rightarrow> string \<Rightarrow> nat \<Rightarrow> perr + (pcmd \<times> nat)" where
  "parseline 0 buf ps = Inl NoFuel"
| "parseline (Suc fuel) buf ps =
     (case parsepipe fuel buf ps of
        Inl e \<Rightarrow> Inl e
      | Inr (cmd, ps) \<Rightarrow>
        (case parseback fuel buf cmd ps of
           Inl e \<Rightarrow> Inl e
         | Inr (cmd, ps) \<Rightarrow>
           (let (more, ps) = peek buf ps '';'' in
            if more then
              let (_, _, _, ps) = gettoken buf ps in
              (case parseline fuel buf ps of
                 Inl e \<Rightarrow> Inl e
               | Inr (cmd', ps) \<Rightarrow> Inr (listcmd cmd cmd', ps))
            else Inr (cmd, ps))))"
| "parsepipe 0 buf ps = Inl NoFuel"
| "parsepipe (Suc fuel) buf ps =
     (case parseexec fuel buf ps of
        Inl e \<Rightarrow> Inl e
      | Inr (cmd, ps) \<Rightarrow>
        (let (more, ps) = peek buf ps ''|'' in
         if more then
           let (_, _, _, ps) = gettoken buf ps in
           (case parsepipe fuel buf ps of
              Inl e \<Rightarrow> Inl e
            | Inr (cmd', ps) \<Rightarrow> Inr (pipecmd cmd cmd', ps))
         else Inr (cmd, ps)))"
| "parseblock 0 buf ps = Inl NoFuel"
| "parseblock (Suc fuel) buf ps =
     (let (open_paren, ps) = peek buf ps ''('' in
      if \<not> open_paren then Inl (SPanic ''parseblock'')
      else
        let (_, _, _, ps) = gettoken buf ps in
        (case parseline fuel buf ps of
           Inl e \<Rightarrow> Inl e
         | Inr (cmd, ps) \<Rightarrow>
           (let (close_paren, ps) = peek buf ps '')'' in
            if \<not> close_paren then Inl (SPanic ''syntax - missing )'')
            else let (_, _, _, ps) = gettoken buf ps in parseredirs fuel buf cmd ps)))"
| "parseexec 0 buf ps = Inl NoFuel"
| "parseexec (Suc fuel) buf ps =
     (let (open_paren, ps) = peek buf ps ''('' in
      if open_paren then parseblock fuel buf ps
      else case parseredirs fuel buf execcmd ps of
          Inl e \<Rightarrow> Inl e
        | Inr (ret, ps) \<Rightarrow> parseargs fuel buf ret [] ps)"
  by pat_completeness simp_all
termination
  by (relation "measure (case_sum (case_sum fst fst) (case_sum fst fst))") simp_all

text \<open>\<^verbatim>\<open>nulterminate\<close> writes a zero behind each word.\<close>

fun nulterminate :: "pcmd \<Rightarrow> string \<Rightarrow> string" where
  "nulterminate (EXEC argv) buf = foldl (\<lambda>b (q, eq). b[eq := eos]) buf argv"
| "nulterminate (REDIR c (q, eq) mode fd) buf = (nulterminate c buf)[eq := eos]"
| "nulterminate (PIPE l r) buf = nulterminate r (nulterminate l buf)"
| "nulterminate (LIST l r) buf = nulterminate r (nulterminate l buf)"
| "nulterminate (BACK c) buf = nulterminate c buf"

definition parse_fuel :: "string \<Rightarrow> nat" where
  "parse_fuel buf = 4 * length buf + 8"

text \<open>
  \<^verbatim>\<open>parsecmd\<close>: the command and the line with the zeros written into it. The buffer behind the line has room for
  the zero of its end; that zero is there already.
\<close>

definition parsecmd :: "string \<Rightarrow> perr + (pcmd \<times> string)" where
  "parsecmd buf =
     (case parseline (parse_fuel buf) buf 0 of
        Inl e \<Rightarrow> Inl e
      | Inr (cmd, ps) \<Rightarrow>
        (let (_, ps) = peek buf ps '''' in
         if ps \<noteq> length buf then Inl (SPanic ''syntax'')
         else Inr (cmd, nulterminate cmd buf)))"


section \<open>Running a command\<close>

text \<open>
  A process of the shell as the tree of the system calls it makes: a call that can fail has a branch for each
  outcome, \<^verbatim>\<open>fork\<close> one for the child, one for the parent and one for failure, \<^verbatim>\<open>pipe\<close> one per pair of descriptors.
\<close>

datatype uprog =
  UExit
| UExec "string list" uprog
| UPrint string uprog
| UClose nat uprog
| UOpen string int uprog uprog
| UPipe uprog "nat \<Rightarrow> nat \<Rightarrow> uprog"
| UDup nat uprog
| UFork uprog uprog uprog
| UWait uprog

definition sh_panic :: "string \<Rightarrow> uprog" where
  "sh_panic s = UPrint (s @ [CHR 0x0A]) UExit"

definition fork1 :: "uprog \<Rightarrow> uprog \<Rightarrow> uprog" where
  "fork1 child parent = UFork child parent (sh_panic ''fork'')"

fun runcmd :: "string cmd \<Rightarrow> uprog" where
  "runcmd (EXEC argv) =
     (case argv of
        [] \<Rightarrow> UExit
      | arg0 # _ \<Rightarrow> UExec argv (UPrint (''exec '' @ arg0 @ '' failed'' @ [CHR 0x0A]) UExit))"
| "runcmd (REDIR c file mode fd) =
     UClose (nat fd)
       (UOpen file mode (UPrint (''open '' @ file @ '' failed'' @ [CHR 0x0A]) UExit) (runcmd c))"
| "runcmd (LIST l r) = fork1 (runcmd l) (UWait (runcmd r))"
| "runcmd (PIPE l r) =
     UPipe (sh_panic ''pipe'')
       (\<lambda>p0 p1.
          fork1 (UClose 1 (UDup p1 (UClose p0 (UClose p1 (runcmd l)))))
            (fork1 (UClose 0 (UDup p0 (UClose p0 (UClose p1 (runcmd r)))))
              (UClose p0 (UClose p1 (UWait (UWait UExit))))))"
| "runcmd (BACK c) = fork1 (runcmd c) UExit"

text \<open>
  The command loop: lines of at most 99 characters. A line starting with \<^verbatim>\<open>cd\<close> and a blank loses its last character
  and is handled by the shell itself; any other is parsed and run in a child.
\<close>

datatype action = Chdir string | Spawn "perr + string cmd"

definition getcmd :: "uchar list \<Rightarrow> (string \<times> uchar list) option" where
  "getcmd inp =
     (let (b, rest) = gets 100 inp; buf = takeWhile (\<lambda>c. c \<noteq> eos) (map (\<lambda>c. char_of (unat c)) b) in
      if buf = [] then None else Some (buf, rest))"

definition run_line :: "string \<Rightarrow> action" where
  "run_line buf =
     (if take 3 buf = ''cd '' then Chdir (drop 3 (butlast buf))
      else Spawn (case parsecmd buf of Inl e \<Rightarrow> Inl e
        | Inr (c, buf') \<Rightarrow> Inr (map_cmd (\<lambda>w. takeWhile (\<lambda>c. c \<noteq> eos) (drop (fst w) buf')) c)))"

lemma gets_loop_length: "gets_loop n inp = (b, rest) \<Longrightarrow> length inp = length b + length rest"
  by (induction n inp arbitrary: b rest rule: gets_loop.induct)
    (auto split: list.splits if_splits prod.splits)

function sh_main :: "uchar list \<Rightarrow> action list" where
  "sh_main inp = (case getcmd inp of None \<Rightarrow> [] | Some (buf, rest) \<Rightarrow> run_line buf # sh_main rest)"
  by pat_completeness auto
termination
proof (relation "measure length")
  fix inp and x :: "string \<times> uchar list" and buf rest
  assume "getcmd inp = Some x" "(buf, rest) = x"
  then obtain b where "gets_loop 99 inp = (b, rest)"
    "takeWhile (\<lambda>c. c \<noteq> eos) (map (\<lambda>c. char_of (unat c)) b) \<noteq> []"
    by (auto simp: getcmd_def gets_def Let_def split: prod.splits if_splits)
  then show "(rest, inp) \<in> measure length" using gets_loop_length by (cases b) fastforce+
qed simp

declare sh_main.simps [simp del]

section \<open>Parsing ends\<close>

lemma skip_ge: "s \<le> skip P buf s"
  by (induction P buf s rule: skip.induct) (subst skip.simps, auto)

lemma skip_le: "s \<le> length buf \<Longrightarrow> skip P buf s \<le> length buf"
  by (induction P buf s rule: skip.induct) (subst skip.simps, auto)

lemma skip_stops: "skip P buf s < length buf \<Longrightarrow> \<not> P (buf ! skip P buf s)"
proof (induction P buf s rule: skip.induct)
  case (1 P buf s)
  then show ?case by (cases "s < length buf \<and> P (buf ! s)") (auto simp: skip.simps [of P buf s])
qed

lemma skip_all: "s \<le> i \<Longrightarrow> i < skip P buf s \<Longrightarrow> i < length buf \<and> P (buf ! i)"
proof (induction P buf s rule: skip.induct)
  case (1 P buf s)
  show ?case
  proof (cases "s < length buf \<and> P (buf ! s)")
    case True
    then have "i < skip P buf (s + 1)" using 1(3) by (simp add: skip.simps [of P buf s])
    then show ?thesis using 1(1,2) True by (cases "i = s") auto
  next
    case False
    then have "skip P buf s = s" by (subst skip.simps) auto
    then show ?thesis using 1 by simp
  qed
qed

lemma skip_white_ge: "s \<le> skip_white buf s"
  by (simp add: skip_white_def skip_ge)

lemma skip_white_le: "s \<le> length buf \<Longrightarrow> skip_white buf s \<le> length buf"
  by (simp add: skip_white_def skip_le)

text \<open>The text between two pointers, and when a pair of pointers bounds a whole word.\<close>

definition span_text :: "string \<Rightarrow> span \<Rightarrow> string" where
  "span_text buf = (\<lambda>(q, eq). take (eq - q) (drop q buf))"

definition word_char :: "char \<Rightarrow> bool" where
  "word_char c = (c \<notin> set whitespace \<and> c \<notin> set symbols)"

definition span_ok :: "string \<Rightarrow> span \<Rightarrow> bool" where
  "span_ok buf = (\<lambda>(q, eq). q < eq \<and> eq \<le> length buf \<and> (\<forall>i\<in>{q..<eq}. word_char (buf ! i)) \<and>
     (eq < length buf \<longrightarrow> \<not> word_char (buf ! eq)))"

lemma char_at_eos: "char_at buf s \<noteq> eos \<Longrightarrow> s < length buf"
  by (auto simp: char_at_def split: if_splits)

lemma skip_word_span:
  assumes "s < length buf" and "word_char (buf ! s)"
  shows "span_ok buf (s, skip_word buf s)"
proof -
  have "skip_word buf s = skip word_char buf s"
    by (simp add: skip_word_def word_char_def [abs_def])
  moreover have "skip word_char buf s = skip word_char buf (s + 1)"
    using assms by (subst skip.simps) simp
  then have "s < skip word_char buf s" using skip_ge [of "s + 1" word_char buf] by simp
  moreover have "skip word_char buf s \<le> length buf" using assms by (simp add: skip_le)
  ultimately show ?thesis
    using skip_all [of s _ word_char buf] skip_stops [of word_char buf s] by (auto simp: span_ok_def)
qed

lemma gettoken_bounds:
  assumes "gettoken buf ps = (tok, q, eq, ps')" and "ps \<le> length buf"
  shows "ps \<le> ps'" "ps' \<le> length buf" "char_at buf (skip_white buf ps) \<noteq> eos \<Longrightarrow> ps < ps'"
    "tok \<noteq> eos \<Longrightarrow> ps < ps'" "tok = CHR ''a'' \<Longrightarrow> span_ok buf (q, eq)"
proof -
  let ?q = "skip_white buf ps"
  have ge: "ps \<le> ?q" and le: "?q \<le> length buf"
    using assms(2) by (simp_all add: skip_white_ge skip_white_le)
  have q: "q = ?q" and ps': "ps' = skip_white buf eq"
    using assms(1) by (auto simp: gettoken_def Let_def split: prod.splits)
  have white: "?q < length buf \<Longrightarrow> buf ! ?q \<notin> set whitespace"
    using skip_stops [of "\<lambda>c. c \<in> set whitespace" buf ps] by (simp add: skip_white_def)
  have ok: "span_ok buf (?q, skip_word buf ?q)" if "char_at buf ?q \<noteq> eos"
    "char_at buf ?q \<notin> set ''|();&<''" "char_at buf ?q \<noteq> CHR ''>''"
    using that white by (intro skip_word_span)
      (auto simp: char_at_def word_char_def symbols_def split: if_splits)
  consider (nil) "char_at buf ?q = eos" "tok = eos" "eq = ?q"
    | (one) "char_at buf ?q \<noteq> eos" "tok \<noteq> CHR ''a''" "eq = ?q + 1"
    | (two) "char_at buf ?q \<noteq> eos" "tok \<noteq> CHR ''a''" "eq = ?q + 2" "char_at buf (?q + 1) \<noteq> eos"
    | (word) "char_at buf ?q \<noteq> eos" "tok = CHR ''a''" "span_ok buf (?q, eq)"
    using assms(1) ok
    by (auto simp: gettoken_def Let_def eq_commute [of "CHR ''>''"] split: if_splits prod.splits)
  note cases = this
  have eq: "?q \<le> eq \<and> eq \<le> length buf \<and> (char_at buf ?q \<noteq> eos \<longrightarrow> ?q < eq)
    \<and> (tok \<noteq> eos \<longrightarrow> char_at buf ?q \<noteq> eos) \<and> (tok = CHR ''a'' \<longrightarrow> span_ok buf (?q, eq))"
    using cases
  proof cases
    case nil then show ?thesis using le by simp
  next
    case one then show ?thesis using char_at_eos [of buf ?q] by auto
  next
    case two then show ?thesis using char_at_eos [of buf "?q + 1"] by auto
  next
    case word then show ?thesis by (auto simp: span_ok_def)
  qed
  then show "ps \<le> ps'" "ps' \<le> length buf" "char_at buf ?q \<noteq> eos \<Longrightarrow> ps < ps'"
    "tok \<noteq> eos \<Longrightarrow> ps < ps'" "tok = CHR ''a'' \<Longrightarrow> span_ok buf (q, eq)"
    using ge ps' q skip_white_ge [of eq buf] skip_white_le [of eq buf] by (fastforce+)
qed

lemma peek_bounds:
  assumes "peek buf ps toks = (b, ps')" and "ps \<le> length buf"
  shows "ps \<le> ps'" "ps' \<le> length buf" "b \<Longrightarrow> char_at buf ps' \<noteq> eos \<and> skip_white buf ps' = ps'"
proof -
  have ps': "ps' = skip_white buf ps" and b: "b \<Longrightarrow> char_at buf ps' \<noteq> eos"
    using assms(1) by (auto simp: peek_def Let_def)
  show "ps \<le> ps'" "ps' \<le> length buf"
    using ps' assms(2) by (simp_all add: skip_white_ge skip_white_le)
  have "skip_white buf ps' = ps'" if "b"
    using skip_stops [of "\<lambda>c. c \<in> set whitespace" buf ps] b [OF that] char_at_eos [of buf ps'] ps'
    by (subst skip_white_def, subst skip.simps) (auto simp: skip_white_def)
  then show "b \<Longrightarrow> char_at buf ps' \<noteq> eos \<and> skip_white buf ps' = ps'" using b by simp
qed

lemma peek_gettoken:
  assumes "peek buf ps toks = (b, ps')" and "b" and "gettoken buf ps' = (tok, q, eq, ps'')" and "ps \<le> length buf"
  shows "ps' < ps''" "ps'' \<le> length buf" "ps \<le> ps'"
  using peek_bounds [OF assms(1,4)] gettoken_bounds [OF assms(3)] assms(2) by auto

fun cmd_ok :: "string \<Rightarrow> pcmd \<Rightarrow> bool" where
  "cmd_ok buf (EXEC argv) = (list_all (span_ok buf) argv \<and> length argv < MAXARGS)"
| "cmd_ok buf (REDIR c f mode fd) = (cmd_ok buf c \<and> span_ok buf f)"
| "cmd_ok buf (PIPE l r) = (cmd_ok buf l \<and> cmd_ok buf r)"
| "cmd_ok buf (LIST l r) = (cmd_ok buf l \<and> cmd_ok buf r)"
| "cmd_ok buf (BACK c) = cmd_ok buf c"

text \<open>A result is in order when it is not for want of fuel and its position lies between the start and the end.\<close>

definition parsed :: "string \<Rightarrow> nat \<Rightarrow> perr + (pcmd \<times> nat) \<Rightarrow> bool" where
  "parsed buf ps r = (case r of Inl e \<Rightarrow> e \<noteq> NoFuel
     | Inr (c, p) \<Rightarrow> ps \<le> p \<and> p \<le> length buf \<and> cmd_ok buf c)"

lemma parsed_Inl [simp]: "parsed buf ps (Inl e) = (e \<noteq> NoFuel)"
  and parsed_Inr [simp]: "parsed buf ps (Inr (c, p)) = (ps \<le> p \<and> p \<le> length buf \<and> cmd_ok buf c)"
  by (simp_all add: parsed_def)

lemma parsed_back: "parsed buf ps' r \<Longrightarrow> ps \<le> ps' \<Longrightarrow> parsed buf ps r"
  by (auto simp: parsed_def split: sum.splits)

lemma parsed_bind:
  assumes "parsed buf ps r"
    and "\<And>c p. ps \<le> p \<Longrightarrow> p \<le> length buf \<Longrightarrow> cmd_ok buf c \<Longrightarrow> parsed buf ps (k c p)"
  shows "parsed buf ps (case r of Inl e \<Rightarrow> Inl e | Inr (c, p) \<Rightarrow> k c p)"
  using assms by (cases r) auto

lemma parseredirs_parsed:
  assumes "length buf - ps < fuel" and "ps \<le> length buf" and "cmd_ok buf cmd"
  shows "parsed buf ps (parseredirs fuel buf cmd ps)"
  using assms
proof (induction fuel arbitrary: cmd ps)
  case (Suc fuel)
  obtain b ps1 where p: "peek buf ps ''<>'' = (b, ps1)" by fastforce
  obtain tok q1 e1 ps2 where t: "gettoken buf ps1 = (tok, q1, e1, ps2)" using prod_cases4 by blast
  obtain tok' q e ps3 where t': "gettoken buf ps2 = (tok', q, e, ps3)" using prod_cases4 by blast
  show ?case
  proof (cases b)
    case False
    then show ?thesis using p peek_bounds [OF p] Suc.prems by simp
  next
    case True
    note b1 = peek_gettoken [OF p True t Suc.prems(2)]
    note b2 = gettoken_bounds [OF t' b1(2)]
    have "parsed buf ps (parseredirs fuel buf c ps3)" if "cmd_ok buf c" for c
      using Suc.prems b1 b2(1,2) that by (intro parsed_back [OF Suc.IH]) auto
    then show ?thesis using p True t t' b2(5) Suc.prems(3) by (simp add: redircmd_def)
  qed
qed simp

lemma cmd_ok_set_argv: "cmd_ok buf ret \<Longrightarrow> list_all (span_ok buf) argv \<Longrightarrow> length argv < MAXARGS \<Longrightarrow>
    cmd_ok buf (set_argv argv ret)"
  by (induction argv ret rule: set_argv.induct) auto

lemma parseargs_parsed:
  assumes "length buf - ps < fuel" and "ps \<le> length buf" and "cmd_ok buf ret"
    and "list_all (span_ok buf) argv" and "length argv < MAXARGS"
  shows "parsed buf ps (parseargs fuel buf ret argv ps)"
  using assms
proof (induction fuel arbitrary: ret argv ps)
  case (Suc fuel)
  obtain b ps1 where p: "peek buf ps ''|)&;'' = (b, ps1)" by fastforce
  obtain tok q e ps2 where t: "gettoken buf ps1 = (tok, q, e, ps2)" using prod_cases4 by blast
  note b1 = peek_bounds [OF p Suc.prems(2)] and ok = cmd_ok_set_argv [OF Suc.prems(3,4,5)]
  note b2 = gettoken_bounds [OF t b1(2)]
  have "parsed buf ps (case parseredirs fuel buf ret ps2 of Inl e \<Rightarrow> Inl e
      | Inr (ret, ps) \<Rightarrow> parseargs fuel buf ret (argv @ [(q, e)]) ps)"
    if "tok = CHR ''a''" "length (argv @ [(q, e)]) < MAXARGS"
  proof (rule parsed_back [OF parsed_bind])
    show "parsed buf ps2 (parseredirs fuel buf ret ps2)"
      using Suc.prems b1 b2 that by (intro parseredirs_parsed) auto
  next
    fix c p assume "ps2 \<le> p" "p \<le> length buf" "cmd_ok buf c"
    then show "parsed buf ps2 (parseargs fuel buf c (argv @ [(q, e)]) p)"
      using Suc.prems b1(1,2) b2 that by (intro parsed_back [OF Suc.IH]) auto
  qed (use b1(1) b2(1) in simp)
  then show ?case using p t b1(1,2) b2(1,2) ok by simp
qed simp

lemma parseback_parsed:
  assumes "length buf - ps < fuel" and "ps \<le> length buf" and "cmd_ok buf cmd"
  shows "parsed buf ps (parseback fuel buf cmd ps)"
  using assms
proof (induction fuel arbitrary: cmd ps)
  case (Suc fuel)
  obtain b ps1 where p: "peek buf ps ''&'' = (b, ps1)" by fastforce
  obtain tok q e ps2 where t: "gettoken buf ps1 = (tok, q, e, ps2)" using prod_cases4 by blast
  show ?case
  proof (cases b)
    case False
    then show ?thesis using p peek_bounds [OF p] Suc.prems by simp
  next
    case True
    note b1 = peek_gettoken [OF p True t Suc.prems(2)]
    have "parsed buf ps (parseback fuel buf (backcmd cmd) ps2)"
      using Suc.prems b1 by (intro parsed_back [OF Suc.IH]) (auto simp: backcmd_def)
    then show ?thesis using p True t by simp
  qed
qed simp

text \<open>Four levels of calls use up a unit of fuel each before a character is consumed.\<close>

lemma parse_parsed:
  assumes "ps \<le> length buf"
  shows "4 * (length buf - ps) + 4 \<le> fuel \<Longrightarrow> parsed buf ps (parseline fuel buf ps)"
    and "4 * (length buf - ps) + 3 \<le> fuel \<Longrightarrow> parsed buf ps (parsepipe fuel buf ps)"
    and "4 * (length buf - ps) + 1 \<le> fuel \<Longrightarrow> parsed buf ps (parseblock fuel buf ps)"
    and "4 * (length buf - ps) + 2 \<le> fuel \<Longrightarrow> parsed buf ps (parseexec fuel buf ps)"
  using assms
proof (induction fuel arbitrary: ps)
  case (Suc fuel)
  {
    case 1
    show ?case unfolding parseline.simps
    proof (intro parsed_bind)
      show "parsed buf ps (parsepipe fuel buf ps)" using 1 by (intro Suc.IH) auto
    next
      fix c p assume b: "ps \<le> p" "p \<le> length buf" "cmd_ok buf c"
      then show "parsed buf ps (parseback fuel buf c p)"
        using 1 by (intro parsed_back [OF parseback_parsed]) auto
      fix c' p' assume b': "ps \<le> p'" "p' \<le> length buf" "cmd_ok buf c'"
      obtain b ps1 where p: "peek buf p' '';'' = (b, ps1)" by fastforce
      obtain tok q e ps2 where t: "gettoken buf ps1 = (tok, q, e, ps2)" using prod_cases4 by blast
      have "parsed buf ps2 (parseline fuel buf ps2)" if b
        using 1 b' peek_gettoken [OF p that t b'(2)] by (intro Suc.IH) auto
      then show "parsed buf ps (let (more, ps) = peek buf p' '';'' in if more then
         let (_, _, _, ps) = gettoken buf ps in (case parseline fuel buf ps of Inl e \<Rightarrow> Inl e
           | Inr (cmd', ps) \<Rightarrow> Inr (listcmd c' cmd', ps)) else Inr (c', ps))"
        using p t b' peek_bounds [OF p b'(2)] peek_gettoken [OF p _ t b'(2)]
        by (cases b) (auto simp: listcmd_def parsed_def split: sum.split)
    qed
  next
    case 2
    show ?case unfolding parsepipe.simps
    proof (intro parsed_bind)
      show "parsed buf ps (parseexec fuel buf ps)" using 2 by (intro Suc.IH) auto
    next
      fix c' p' assume b': "ps \<le> p'" "p' \<le> length buf" "cmd_ok buf c'"
      obtain b ps1 where p: "peek buf p' ''|'' = (b, ps1)" by fastforce
      obtain tok q e ps2 where t: "gettoken buf ps1 = (tok, q, e, ps2)" using prod_cases4 by blast
      have "parsed buf ps2 (parsepipe fuel buf ps2)" if b
        using 2 b' peek_gettoken [OF p that t b'(2)] by (intro Suc.IH) auto
      then show "parsed buf ps (let (more, ps) = peek buf p' ''|'' in if more then
         let (_, _, _, ps) = gettoken buf ps in (case parsepipe fuel buf ps of Inl e \<Rightarrow> Inl e
           | Inr (cmd', ps) \<Rightarrow> Inr (pipecmd c' cmd', ps)) else Inr (c', ps))"
        using p t b' peek_bounds [OF p b'(2)] peek_gettoken [OF p _ t b'(2)]
        by (cases b) (auto simp: pipecmd_def parsed_def split: sum.split)
    qed
  next
    case 3
    obtain b ps1 where p: "peek buf ps ''('' = (b, ps1)" by fastforce
    obtain tok q e ps2 where t: "gettoken buf ps1 = (tok, q, e, ps2)" using prod_cases4 by blast
    show ?case
    proof (cases b)
      case True
      note b1 = peek_gettoken [OF p True t 3(2)]
      have "parsed buf ps2 (case parseline fuel buf ps2 of Inl e \<Rightarrow> Inl e | Inr (cmd, ps) \<Rightarrow>
           (let (close_paren, ps) = peek buf ps '')'' in
            if \<not> close_paren then Inl (SPanic ''syntax - missing )'')
            else let (_, _, _, ps) = gettoken buf ps in parseredirs fuel buf cmd ps))"
      proof (intro parsed_bind)
        show "parsed buf ps2 (parseline fuel buf ps2)" using 3 b1 by (intro Suc.IH) auto
      next
        fix c p' assume b': "ps2 \<le> p'" "p' \<le> length buf" "cmd_ok buf c"
        obtain b2 ps3 where p2: "peek buf p' '')'' = (b2, ps3)" by fastforce
        obtain tok q e ps4 where t2: "gettoken buf ps3 = (tok, q, e, ps4)" using prod_cases4 by blast
        have "parsed buf ps2 (parseredirs fuel buf c ps4)" if b2
          using 3 b1 b' peek_gettoken [OF p2 that t2 b'(2)]
          by (intro parsed_back [OF parseredirs_parsed]) auto
        then show "parsed buf ps2 (let (close_paren, ps) = peek buf p' '')'' in
            if \<not> close_paren then Inl (SPanic ''syntax - missing )'')
            else let (_, _, _, ps) = gettoken buf ps in parseredirs fuel buf c ps)"
          using p2 t2 by simp
      qed
      then show ?thesis using p t True b1 by (simp add: parsed_back)
    qed (use p in simp)
  next
    case 4
    obtain b ps1 where p: "peek buf ps ''('' = (b, ps1)" by fastforce
    note b1 = peek_bounds [OF p 4(2)]
    have "parsed buf ps1 (parseblock fuel buf ps1)" using 4 b1 by (intro Suc.IH) auto
    moreover have "parsed buf ps1 (case parseredirs fuel buf execcmd ps1 of Inl e \<Rightarrow> Inl e
        | Inr (ret, ps) \<Rightarrow> parseargs fuel buf ret [] ps)"
    proof (intro parsed_bind)
      show "parsed buf ps1 (parseredirs fuel buf execcmd ps1)"
        using 4 b1 by (intro parseredirs_parsed) (auto simp: execcmd_def)
    next
      fix c p assume "ps1 \<le> p" "p \<le> length buf" "cmd_ok buf c"
      then show "parsed buf ps1 (parseargs fuel buf c [] p)"
        using 4 b1 by (intro parsed_back [OF parseargs_parsed]) auto
    qed
    ultimately show ?case using p parsed_back b1(1) by (simp add: parsed_back)
  }
qed simp_all

section \<open>Words as C strings\<close>

definition cstring_at :: "string \<Rightarrow> nat \<Rightarrow> string" where
  "cstring_at buf q = takeWhile (\<lambda>c. c \<noteq> eos) (drop q buf)"

lemma cut_words:
  "length (foldl (\<lambda>b (q, eq). b[eq := eos]) buf argv) = length buf"
  "i < length buf \<Longrightarrow> foldl (\<lambda>b (q, eq). b[eq := eos]) buf argv ! i =
     (if i \<in> snd ` set argv then eos else buf ! i)"
  by (induction argv arbitrary: buf) (auto simp: image_iff nth_list_update split: prod.splits)

lemma nulterminate_nth:
  "length (nulterminate c buf) = length buf \<and> (\<forall>i < length buf.
     nulterminate c buf ! i = (if i \<in> snd ` set_cmd c then eos else buf ! i))"
proof (induction c buf rule: nulterminate.induct)
  case (2 c q eq mode fd buf)
  then show ?case by (cases "eq < length buf") (auto simp: nth_list_update image_iff Bex_def)
qed (auto simp: cut_words)

lemma cmd_ok_spans: "cmd_ok buf c \<Longrightarrow> w \<in> set_cmd c \<Longrightarrow> span_ok buf w"
  by (induction buf c rule: cmd_ok.induct) (auto simp: list_all_iff)

lemma nulterminate_word:
  assumes ok: "\<And>w. w \<in> set_cmd c \<Longrightarrow> span_ok buf w" and w: "w \<in> set_cmd c" and "eos \<notin> set buf"
  shows "cstring_at (nulterminate c buf) (fst w) = span_text buf w"
proof -
  obtain q e where we: "w = (q, e)" by fastforce
  have span: "q < e" "e \<le> length buf" "\<And>i. q \<le> i \<Longrightarrow> i < e \<Longrightarrow> word_char (buf ! i)"
    using ok [OF w] we by (auto simp: span_ok_def)
  let ?b = "nulterminate c buf"
  have len: "length ?b = length buf" and
    nth: "\<And>i. i < length buf \<Longrightarrow> ?b ! i = (if i \<in> snd ` set_cmd c then eos else buf ! i)"
    using nulterminate_nth by blast+
  have inside: "?b ! i = buf ! i" if "q \<le> i" "i < e" for i
  proof -
    have "i \<notin> snd ` set_cmd c"
      using ok span(3) [OF that] that span(2) by (fastforce simp: span_ok_def)
    then show ?thesis using nth [of i] that span by simp
  qed
  have "takeWhile (\<lambda>c. c \<noteq> eos) (drop q ?b) = take (e - q) (drop q ?b)"
  proof (rule takeWhile_eq_take_P_nth)
    fix i assume "i < e - q" "i < length (drop q ?b)"
    then have i: "q + i < e" "q + i < length buf" using len by auto
    then have "buf ! (q + i) \<noteq> eos" using assms(3) nth_mem [of "q + i" buf] by metis
    then show "drop q ?b ! i \<noteq> eos" using inside [of "q + i"] i len by simp
  next
    assume "e - q < length (drop q ?b)"
    moreover have "e \<in> snd ` set_cmd c" using w we by force
    ultimately show "\<not> drop q ?b ! (e - q) \<noteq> eos" using nth [of e] len span(1,2) by simp
  qed
  also have "\<dots> = take (e - q) (drop q buf)"
    using inside len span(1,2) by (intro nth_equalityI) auto
  finally show ?thesis using we by (simp add: cstring_at_def span_text_def)
qed

lemma parsecmd_Inr:
  assumes "parsecmd buf = Inr (c, buf')"
  shows "cmd_ok buf c" "buf' = nulterminate c buf"
  using assms parse_parsed(1) [of 0 buf "parse_fuel buf"]
  by (auto simp: parsecmd_def parse_fuel_def split: sum.splits if_splits prod.splits)

section \<open>Printing a command\<close>

datatype redirection = From string | To string | Onto string

datatype line = Last pipe nat | Seq pipe nat line
  and pipe = One simple | Pipe simple pipe
  and simple = Simple "redirection list" "(string \<times> redirection list) list"
    | Block line "redirection list"

fun redir_toks :: "redirection \<Rightarrow> string list" where
  "redir_toks (From f) = [''<'', f]"
| "redir_toks (To f) = [''>'', f]"
| "redir_toks (Onto f) = [''>>'', f]"

fun line_toks :: "line \<Rightarrow> string list"
and pipe_toks :: "pipe \<Rightarrow> string list"
and simple_toks :: "simple \<Rightarrow> string list" where
  "line_toks (Last p n) = pipe_toks p @ replicate n ''&''"
| "line_toks (Seq p n l) = pipe_toks p @ replicate n ''&'' @ '';'' # line_toks l"
| "pipe_toks (One s) = simple_toks s"
| "pipe_toks (Pipe s p) = simple_toks s @ ''|'' # pipe_toks p"
| "simple_toks (Simple rs ws) = concat (map redir_toks rs) @
     concat (map (\<lambda>(w, rs). w # concat (map redir_toks rs)) ws)"
| "simple_toks (Block l rs) = ''('' # line_toks l @ '')'' # concat (map redir_toks rs)"

definition render :: "string list \<Rightarrow> string" where
  "render ts = concat (map (\<lambda>t. t @ '' '') ts)"

text \<open>The command a line stands for.\<close>

fun wrap :: "string cmd \<Rightarrow> redirection \<Rightarrow> string cmd" where
  "wrap c (From f) = REDIR c f O_RDONLY 0"
| "wrap c (To f) = REDIR c f O_WRONLY_CREATE 1"
| "wrap c (Onto f) = REDIR c f O_WRONLY_CREATE 1"

fun line_cmd :: "line \<Rightarrow> string cmd"
and pipe_cmd :: "pipe \<Rightarrow> string cmd"
and simple_cmd :: "simple \<Rightarrow> string cmd" where
  "line_cmd (Last p n) = (BACK ^^ n) (pipe_cmd p)"
| "line_cmd (Seq p n l) = LIST ((BACK ^^ n) (pipe_cmd p)) (line_cmd l)"
| "pipe_cmd (One s) = simple_cmd s"
| "pipe_cmd (Pipe s p) = PIPE (simple_cmd s) (pipe_cmd p)"
| "simple_cmd (Simple rs ws) = foldl wrap (EXEC (map fst ws)) (rs @ concat (map snd ws))"
| "simple_cmd (Block l rs) = foldl wrap (line_cmd l) rs"

definition word_ok :: "string \<Rightarrow> bool" where
  "word_ok w = (w \<noteq> [] \<and> list_all (\<lambda>c. word_char c \<and> c \<noteq> eos) w)"

fun redir_ok :: "redirection \<Rightarrow> bool" where
  "redir_ok (From f) = word_ok f"
| "redir_ok (To f) = word_ok f"
| "redir_ok (Onto f) = word_ok f"

fun line_ok :: "line \<Rightarrow> bool"
and pipe_ok :: "pipe \<Rightarrow> bool"
and simple_ok :: "simple \<Rightarrow> bool" where
  "line_ok (Last p n) = pipe_ok p"
| "line_ok (Seq p n l) = (pipe_ok p \<and> line_ok l)"
| "pipe_ok (One s) = simple_ok s"
| "pipe_ok (Pipe s p) = (simple_ok s \<and> pipe_ok p)"
| "simple_ok (Simple rs ws) = (list_all redir_ok rs \<and> length ws < MAXARGS \<and>
     list_all (\<lambda>(w, rs). word_ok w \<and> list_all redir_ok rs) ws)"
| "simple_ok (Block l rs) = (line_ok l \<and> list_all redir_ok rs)"

subsection \<open>Tokens of a printed line\<close>

definition tok_ok :: "string \<Rightarrow> bool" where
  "tok_ok t = (word_ok t \<or> t \<in> set [''<'', ''>'', ''>>'', ''|'', ''&'', '';'', ''('', '')''])"

definition tok_code :: "string \<Rightarrow> char" where
  "tok_code t = (if word_ok t then CHR ''a'' else if t = ''>>'' then CHR ''+'' else hd t)"

definition at_toks :: "string \<Rightarrow> nat \<Rightarrow> string list \<Rightarrow> bool" where
  "at_toks buf ps ts = (drop ps buf = render ts \<and> ps \<le> length buf \<and> list_all tok_ok ts)"

lemma skip_takeWhile: "s \<le> length buf \<Longrightarrow> skip P buf s = s + length (takeWhile P (drop s buf))"
proof (induction P buf s rule: skip.induct)
  case (1 P buf s)
  show ?case
  proof (cases "s < length buf")
    case True
    then have d: "drop s buf = buf ! s # drop (s + 1) buf" by (simp add: Cons_nth_drop_Suc)
    show ?thesis using 1 True by (simp add: skip.simps [of P buf s] d)
  next
    case False
    then show ?thesis by (subst skip.simps) simp
  qed
qed

lemma char_at_drop: "char_at buf s = (case drop s buf of [] \<Rightarrow> eos | c # _ \<Rightarrow> c)"
  by (cases "s < length buf") (auto simp: char_at_def drop_eq_Nil split: list.split dest: nth_via_drop)

lemma word_okD: "word_ok (c # w) \<Longrightarrow> word_char c \<and> c \<noteq> eos"
  by (simp add: word_ok_def)

lemma tok_ok_hd: "tok_ok t \<Longrightarrow> \<exists>c w. t = c # w \<and> c \<notin> set whitespace \<and> c \<noteq> eos"
  by (cases t) (auto simp: tok_ok_def word_ok_def word_char_def whitespace_def)

lemma render_white: "list_all tok_ok ts \<Longrightarrow> takeWhile (\<lambda>c. c \<in> set whitespace) (render ts) = []"
  by (cases ts) (auto simp: render_def dest!: tok_ok_hd)

lemma at_toks_white: "at_toks buf ps ts \<Longrightarrow> skip_white buf ps = ps"
  by (simp add: at_toks_def skip_white_def skip_takeWhile render_white)

lemma at_toks_peek:
  assumes "at_toks buf ps ts"
  shows "peek buf ps cs = (ts \<noteq> [] \<and> hd (hd ts) \<in> set cs, ps)"
proof (cases ts)
  case Nil
  then show ?thesis using assms at_toks_white [OF assms]
    by (simp add: peek_def char_at_drop at_toks_def render_def)
next
  case (Cons t ts')
  then obtain c w where "t = c # w" "c \<noteq> eos"
    using assms tok_ok_hd [of t] by (auto simp: at_toks_def)
  then show ?thesis using assms at_toks_white [OF assms] Cons
    by (auto simp: peek_def char_at_drop at_toks_def render_def)
qed

lemma tok_codes:
  "word_ok w \<Longrightarrow> tok_code w = CHR ''a''" "tok_code ''<'' = CHR ''<''" "tok_code ''>'' = CHR ''>''"
  "tok_code ''>>'' = CHR ''+''"
  by (simp_all add: tok_code_def word_ok_def word_char_def symbols_def)

lemma gettoken_word:
  assumes "drop ps buf = t @ CHR '' '' # r" and "ps \<le> length buf" and "word_ok t"
    and "skip_white buf ps = ps"
  shows "gettoken buf ps = (CHR ''a'', ps, ps + length t, skip_white buf (ps + length t))"
proof -
  obtain c w where t: "t = c # w" using assms(3) by (cases t) (auto simp: word_ok_def)
  have c: "char_at buf ps = c" using assms(1) by (simp add: char_at_drop t)
  have "takeWhile word_char (t @ CHR '' '' # r) = t"
    using assms(3) by (subst takeWhile_append2) (auto simp: word_ok_def list_all_iff word_char_def whitespace_def)
  then have "skip_word buf ps = ps + length t"
    using assms(1,2) by (simp add: skip_word_def skip_takeWhile word_char_def [abs_def])
  then show ?thesis using assms(3,4) word_okD [of c w] c t
    by (auto simp: gettoken_def Let_def word_char_def symbols_def)
qed

lemma at_toks_gettoken:
  assumes "at_toks buf ps (t # ts)"
  shows "gettoken buf ps = (tok_code t, ps, ps + length t, ps + length t + 1)"
    and "at_toks buf (ps + length t + 1) ts" and "span_text buf (ps, ps + length t) = t"
proof -
  have d: "drop ps buf = t @ CHR '' '' # render ts" and le: "ps \<le> length buf" and t: "tok_ok t"
    and ts: "list_all tok_ok ts"
    using assms by (auto simp: at_toks_def render_def)
  have len: "ps + length t + 1 \<le> length buf"
    using arg_cong [OF d, of length] le by simp
  have d1: "drop (ps + length t) buf = CHR '' '' # render ts"
    using arg_cong [OF d, of "drop (length t)"] by (simp add: add.commute)
  then have d2: "drop (ps + length t + 1) buf = render ts"
    by (simp add: drop_Suc drop_tl)
  have white: "skip_white buf (ps + length t) = ps + length t + 1"
    using d1 len ts by (simp add: skip_white_def skip_takeWhile render_white whitespace_def [symmetric])
      (simp add: whitespace_def)
  show "at_toks buf (ps + length t + 1) ts" using d2 len ts by (simp add: at_toks_def)
  show "span_text buf (ps, ps + length t) = t" by (simp add: span_text_def d)
  show "gettoken buf ps = (tok_code t, ps, ps + length t, ps + length t + 1)"
  proof (cases "word_ok t")
    case True
    then show ?thesis
      using gettoken_word [OF d le True at_toks_white [OF assms]] white by (simp add: tok_code_def)
  next
    case False
    have c: "char_at buf ps = hd (t @ CHR '' '' # render ts)"
      "char_at buf (Suc ps) = (case drop 1 (drop ps buf) of [] \<Rightarrow> eos | c # _ \<Rightarrow> c)"
      using d tok_ok_hd [OF t] by (auto simp: char_at_drop drop_Suc drop_tl)
    have "t \<in> {''<'', ''>'', ''>>'', ''|'', ''&'', '';'', ''('', '')''}"
      using False t by (simp add: tok_ok_def)
    then show ?thesis using False white
      by (elim insertE emptyE) (simp_all add: gettoken_def tok_code_def c at_toks_white [OF assms] d)
  qed
qed

lemma at_toks_end: "at_toks buf ps [] \<Longrightarrow> gettoken buf ps = (eos, ps, ps, ps)"
  using at_toks_white [of buf ps "[]"]
  by (simp add: gettoken_def char_at_drop at_toks_def render_def Let_def)

lemma at_toks_le: "at_toks buf ps ts \<Longrightarrow> ps \<le> length buf"
  by (simp add: at_toks_def)

abbreviation words :: "string \<Rightarrow> pcmd \<Rightarrow> string cmd" where
  "words buf \<equiv> map_cmd (span_text buf)"

lemma parseredirs_toks:
  assumes "at_toks buf ps (concat (map redir_toks rs) @ ts)" and "list_all redir_ok rs"
    and "ts = [] \<or> hd (hd ts) \<notin> set ''<>''" and "length buf - ps < fuel"
  shows "\<exists>c p. parseredirs fuel buf cmd ps = Inr (c, p) \<and> at_toks buf p ts \<and> ps \<le> p \<and>
    words buf c = foldl wrap (words buf cmd) rs \<and>
    (\<forall>X. words buf (set_argv X c) = foldl wrap (words buf (set_argv X cmd)) rs)"
  using assms
proof (induction rs arbitrary: fuel cmd ps)
  case Nil
  then show ?case by (cases fuel) (auto simp: at_toks_peek)
next
  case (Cons r rs)
  obtain fuel' where fuel: "fuel = Suc fuel'" using Cons.prems(4) by (cases fuel) auto
  obtain sym f where r: "redir_toks r = [sym, f]" "word_ok f" "sym \<in> set [''<'', ''>'', ''>>'']"
    using Cons.prems(2) by (cases r) auto
  let ?ts = "concat (map redir_toks rs) @ ts"
  have a0: "at_toks buf ps (sym # f # ?ts)" using Cons.prems(1) r by simp
  note g0 = at_toks_gettoken [OF a0]
  note g1 = at_toks_gettoken [OF g0(2)]
  define ps2 where "ps2 = ps + length sym + 1 + length f + 1"
  define q where "q = (ps + length sym + 1, ps + length sym + 1 + length f)"
  define cmd' where "cmd' = (if tok_code sym = CHR ''<'' then REDIR cmd q O_RDONLY 0
     else REDIR cmd q O_WRONLY_CREATE 1)"
  have step: "parseredirs fuel buf cmd ps = parseredirs fuel' buf cmd' ps2"
    using r g0(1) g1(1) at_toks_peek [OF a0, of "''<>''"]
    by (auto simp: fuel tok_codes redircmd_def cmd'_def q_def ps2_def)
  have w: "words buf cmd' = wrap (words buf cmd) r"
    "\<And>X. words buf (set_argv X cmd') = wrap (words buf (set_argv X cmd)) r"
    using r g1(3) by (cases r; auto simp: cmd'_def q_def tok_codes)+
  have le: "ps2 \<le> length buf" using at_toks_le [OF g1(2)] by (simp add: ps2_def)
  have "length buf - ps2 < fuel'" using Cons.prems(4) le by (auto simp: fuel ps2_def)
  then obtain c p where "parseredirs fuel' buf cmd' ps2 = Inr (c, p)" "at_toks buf p ts" "ps2 \<le> p"
    "words buf c = foldl wrap (words buf cmd') rs"
    "\<And>X. words buf (set_argv X c) = foldl wrap (words buf (set_argv X cmd')) rs"
    using Cons.IH [of ps2 fuel' cmd'] g1(2) [folded ps2_def] Cons.prems(2,3) by auto
  then show ?case using step w by (auto simp: ps2_def)
qed

text \<open>The node under construction: redirections \<open>R\<close> around an \<open>EXEC\<close> whose arguments come later.\<close>

definition pending :: "string \<Rightarrow> pcmd \<Rightarrow> redirection list \<Rightarrow> bool" where
  "pending buf ret R = (\<forall>X. words buf (set_argv X ret) = foldl wrap (EXEC (map (span_text buf) X)) R)"

definition follow :: "string \<Rightarrow> string list \<Rightarrow> bool" where
  "follow cs ts = (ts = [] \<or> hd (hd ts) \<in> set cs)"

lemma parseargs_toks:
  assumes "at_toks buf ps (concat (map (\<lambda>(w, rs). w # concat (map redir_toks rs)) ws) @ ts)"
    and "list_all (\<lambda>(w, rs). word_ok w \<and> list_all redir_ok rs) ws" and "follow ''|)&;'' ts"
    and "length buf - ps < fuel" and "length argv + length ws < MAXARGS" and "pending buf ret R"
  shows "\<exists>c p. parseargs fuel buf ret argv ps = Inr (c, p) \<and> at_toks buf p ts \<and> ps \<le> p \<and>
    words buf c = foldl wrap (EXEC (map (span_text buf) argv @ map fst ws)) (R @ concat (map snd ws))"
  using assms
proof (induction ws arbitrary: fuel ps argv ret R)
  case Nil
  then show ?case
    by (cases fuel; cases ts) (auto simp: at_toks_peek at_toks_end follow_def pending_def)
next
  case (Cons x ws)
  obtain w rs where x: "x = (w, rs)" "word_ok w" "list_all redir_ok rs" using Cons.prems(2) by (cases x) auto
  obtain fuel' where fuel: "fuel = Suc fuel'" using Cons.prems(4) by (cases fuel) auto
  let ?ts = "concat (map (\<lambda>(w, rs). w # concat (map redir_toks rs)) ws) @ ts"
  have a0: "at_toks buf ps (w # concat (map redir_toks rs) @ ?ts)" using Cons.prems(1) x by simp
  note g0 = at_toks_gettoken [OF a0]
  have hdw: "hd w \<notin> set ''|)&;<>''"
    using x(2) by (cases w) (auto simp: word_ok_def word_char_def symbols_def)
  let ?ps = "ps + length w + 1" and ?argv = "argv @ [(ps, ps + length w)]"
  have nxt: "?ts = [] \<or> hd (hd ?ts) \<notin> set ''<>''"
  proof (cases ws)
    case Nil
    then show ?thesis using Cons.prems(3) by (auto simp: follow_def)
  next
    case (Cons y ys)
    then have "word_ok (fst y)" using \<open>list_all _ (x # ws)\<close> by auto
    then show ?thesis using Cons by (cases "fst y") (auto simp: word_ok_def word_char_def symbols_def split: prod.split)
  qed
  have le: "?ps \<le> length buf" using at_toks_le [OF g0(2)] by simp
  have fl: "length buf - ?ps < fuel'" using Cons.prems(4) le by (auto simp: fuel)
  then obtain c p where c: "parseredirs fuel' buf ret ?ps = Inr (c, p)" "at_toks buf p ?ts" "?ps \<le> p"
    "\<And>X. words buf (set_argv X c) = foldl wrap (words buf (set_argv X ret)) rs"
    using parseredirs_toks [OF g0(2) x(3) nxt, of fuel' ret] by auto
  have fl': "length buf - p < fuel'" using fl c(3) by linarith
  have "pending buf c (R @ rs)" using c(4) Cons.prems(6) by (simp add: pending_def)
  then obtain d p' where "parseargs fuel' buf c ?argv p = Inr (d, p')" "at_toks buf p' ts" "p \<le> p'"
    "words buf d = foldl wrap (EXEC (map (span_text buf) ?argv @ map fst ws)) ((R @ rs) @ concat (map snd ws))"
    using Cons.IH [of p fuel' ?argv c "R @ rs"] c(2) Cons.prems(2,3,5) fl' by auto
  moreover have "parseargs fuel buf ret argv ps = parseargs fuel' buf c ?argv p"
    using at_toks_peek [OF a0, of "''|)&;''"] hdw g0(1) x(2) c(1) Cons.prems(5)
    by (simp add: fuel tok_codes)
  ultimately show ?case using c(3) g0(3) x by simp
qed

lemma parseback_toks:
  assumes "at_toks buf ps (replicate n ''&'' @ ts)" and "ts = [] \<or> hd (hd ts) \<notin> set ''&''"
    and "length buf - ps < fuel"
  shows "\<exists>c p. parseback fuel buf cmd ps = Inr (c, p) \<and> at_toks buf p ts \<and> ps \<le> p \<and>
    words buf c = (BACK ^^ n) (words buf cmd)"
  using assms
proof (induction n arbitrary: fuel cmd ps)
  case 0
  then show ?case by (cases fuel) (auto simp: at_toks_peek)
next
  case (Suc n)
  obtain fuel' where fuel: "fuel = Suc fuel'" using Suc.prems(3) by (cases fuel) auto
  have a0: "at_toks buf ps (''&'' # replicate n ''&'' @ ts)" using Suc.prems(1) by simp
  note g0 = at_toks_gettoken [OF a0]
  have fl: "length buf - (ps + 2) < fuel'" using Suc.prems(3) at_toks_le [OF g0(2)] by (auto simp: fuel)
  have step: "parseback fuel buf cmd ps = parseback fuel' buf (BACK cmd) (ps + 2)"
    using at_toks_peek [OF a0, of "''&''"] g0(1) by (simp add: fuel backcmd_def)
  have "at_toks buf (ps + 2) (replicate n ''&'' @ ts)" using g0(2) by simp
  then obtain c p where "parseback fuel' buf (BACK cmd) (ps + 2) = Inr (c, p)" "at_toks buf p ts"
    "ps + 2 \<le> p" "words buf c = (BACK ^^ n) (words buf (BACK cmd))"
    using Suc.IH [of "ps + 2" fuel' "BACK cmd"] Suc.prems(2) fl by blast
  then show ?case using step by (simp add: funpow_swap1)
qed

lemma follow_Cons [simp]: "follow cs (t # ts) = (hd t \<in> set cs)" "follow cs []"
  by (simp_all add: follow_def)

lemma followD: "follow cs ts \<Longrightarrow> set cs \<inter> set ds = {} \<Longrightarrow> ts = [] \<or> hd (hd ts) \<notin> set ds"
  by (auto simp: follow_def)

lemma follow_mono: "follow cs ts \<Longrightarrow> set cs \<subseteq> set ds \<Longrightarrow> follow ds ts"
  by (auto simp: follow_def)

lemma parsesimple_toks:
  assumes "at_toks buf ps (simple_toks (Simple rs ws) @ ts)" and "simple_ok (Simple rs ws)"
    and "follow ''|)&;'' ts" and "length buf - ps + 1 < fuel"
  shows "\<exists>c p. parseexec fuel buf ps = Inr (c, p) \<and> at_toks buf p ts \<and> ps \<le> p \<and>
    words buf c = simple_cmd (Simple rs ws)"
proof -
  obtain fuel' where fuel: "fuel = Suc fuel'" using assms(4) by (cases fuel) auto
  let ?ws = "concat (map (\<lambda>(w, rs). w # concat (map redir_toks rs)) ws) @ ts"
  have a0: "at_toks buf ps (concat (map redir_toks rs) @ ?ws)" using assms(1) by simp
  have wd: "word_ok w \<Longrightarrow> hd w \<notin> set ''<>(''" for w
    by (cases w) (auto simp: word_ok_def word_char_def symbols_def)
  have nxt: "?ws = [] \<or> hd (hd ?ws) \<notin> set ''<>(''"
    using assms(2,3) wd by (cases ws) (auto simp: follow_def)
  have np: "concat (map redir_toks rs) @ ?ws = [] \<or> hd (hd (concat (map redir_toks rs) @ ?ws)) \<notin> set ''(''"
  proof (cases rs)
    case (Cons r rs')
    then show ?thesis by (cases r) simp_all
  qed (use nxt in auto)
  obtain c p where c: "parseredirs fuel' buf execcmd ps = Inr (c, p)" "at_toks buf p ?ws" "ps \<le> p"
    "\<And>X. words buf (set_argv X c) = foldl wrap (words buf (set_argv X execcmd)) rs"
    using parseredirs_toks [OF a0, of fuel' execcmd] assms(2,4) nxt by (auto simp: fuel)
  have "pending buf c rs" using c(4) by (simp add: pending_def execcmd_def)
  moreover have "length buf - p < fuel'" using c(3) assms(4) fuel by linarith
  ultimately obtain d p' where "parseargs fuel' buf c [] p = Inr (d, p')" "at_toks buf p' ts" "p \<le> p'"
    "words buf d = foldl wrap (EXEC (map fst ws)) (rs @ concat (map snd ws))"
    using parseargs_toks [OF c(2), of fuel' "[]" c rs] assms(2,3) by auto
  moreover have "parseexec fuel buf ps = parseargs fuel' buf c [] p"
    using at_toks_peek [OF a0, of "''(''"] np c(1) by (auto simp: fuel)
  ultimately show ?thesis using c(3) by auto
qed

definition parses :: "string \<Rightarrow> nat \<Rightarrow> string list \<Rightarrow> string cmd \<Rightarrow> perr + (pcmd \<times> nat) \<Rightarrow> bool" where
  "parses buf ps ts c r = (\<exists>c' p. r = Inr (c', p) \<and> at_toks buf p ts \<and> ps \<le> p \<and> words buf c' = c)"

lemma parses_block:
  assumes "at_toks buf ps (''('' # line_toks l @ '')'' # concat (map redir_toks rs) @ ts)"
    and "parses buf (ps + 2) ('')'' # concat (map redir_toks rs) @ ts) (line_cmd l) (parseline fuel buf (ps + 2))"
    and "list_all redir_ok rs" and "follow ''|)&;'' ts" and "length buf - ps < fuel"
  shows "parses buf ps ts (simple_cmd (Block l rs)) (parseexec (Suc (Suc fuel)) buf ps)"
proof -
  note g0 = at_toks_gettoken [OF assms(1)]
  obtain c p where c: "parseline fuel buf (ps + 2) = Inr (c, p)" "ps + 2 \<le> p" "words buf c = line_cmd l"
    and a: "at_toks buf p ('')'' # concat (map redir_toks rs) @ ts)"
    using assms(2) by (auto simp: parses_def)
  note g1 = at_toks_gettoken [OF a]
  have a2: "at_toks buf (p + 2) (concat (map redir_toks rs) @ ts)" using g1(2) by simp
  have "length buf - (p + 2) < fuel" using assms(5) c(2) by linarith
  then obtain d p' where d: "parseredirs fuel buf c (p + 2) = Inr (d, p')" "at_toks buf p' ts"
    "p + 2 \<le> p'" "words buf d = foldl wrap (words buf c) rs"
    using parseredirs_toks [OF a2 assms(3), of fuel c] followD [OF assms(4), of "''<>''"] by auto
  have "parseexec (Suc (Suc fuel)) buf ps = Inr (d, p')"
    using at_toks_peek [OF assms(1), of "''(''"] g0(1) c(1) at_toks_peek [OF a, of "'')''"] g1(1) d(1)
    by simp
  then show ?thesis using c d by (simp add: parses_def)
qed

lemma parses_pipe_more:
  assumes "parses buf ps (''|'' # ts') c (parseexec fuel buf ps)"
    and "\<And>p. ps < p \<Longrightarrow> at_toks buf p ts' \<Longrightarrow> parses buf p ts d (parsepipe fuel buf p)"
  shows "parses buf ps ts (PIPE c d) (parsepipe (Suc fuel) buf ps)"
proof -
  obtain c' p where c: "parseexec fuel buf ps = Inr (c', p)" "ps \<le> p" "words buf c' = c"
    and a: "at_toks buf p (''|'' # ts')" using assms(1) by (auto simp: parses_def)
  note g = at_toks_gettoken [OF a]
  have "parses buf (p + 2) ts d (parsepipe fuel buf (p + 2))" using assms(2) [of "p + 2"] c(2) g(2) by simp
  then show ?thesis using c g(1) at_toks_peek [OF a, of "''|''"] by (auto simp: parses_def pipecmd_def)
qed

lemma parses_pipe_one:
  assumes "parses buf ps ts c (parseexec fuel buf ps)" and "follow ''&;)'' ts"
  shows "parses buf ps ts c (parsepipe (Suc fuel) buf ps)"
  using assms followD [OF assms(2), of "''|''"] by (auto simp: parses_def at_toks_peek)

lemma parses_back:
  assumes "parses buf ps (replicate n ''&'' @ ts) c (parsepipe fuel buf ps)"
    and "ts = [] \<or> hd (hd ts) \<notin> set ''&''" and "length buf - ps < fuel"
  shows "\<exists>c1 p1 c2 p2. parsepipe fuel buf ps = Inr (c1, p1) \<and> parseback fuel buf c1 p1 = Inr (c2, p2) \<and>
    at_toks buf p2 ts \<and> ps \<le> p2 \<and> words buf c2 = (BACK ^^ n) c"
proof -
  obtain c1 p1 where c: "parsepipe fuel buf ps = Inr (c1, p1)" "ps \<le> p1" "words buf c1 = c"
    and a: "at_toks buf p1 (replicate n ''&'' @ ts)" using assms(1) by (auto simp: parses_def)
  have "length buf - p1 < fuel" using assms(3) c(2) by linarith
  then show ?thesis using parseback_toks [OF a assms(2), of fuel c1] c by fastforce
qed

lemma parses_last:
  assumes "parses buf ps (replicate n ''&'' @ ts) c (parsepipe fuel buf ps)" and "follow '')'' ts"
    and "length buf - ps < fuel"
  shows "parses buf ps ts ((BACK ^^ n) c) (parseline (Suc fuel) buf ps)"
proof -
  obtain c1 p1 c2 p2 where "parsepipe fuel buf ps = Inr (c1, p1)" "parseback fuel buf c1 p1 = Inr (c2, p2)"
    "at_toks buf p2 ts" "ps \<le> p2" "words buf c2 = (BACK ^^ n) c"
    using parses_back [OF assms(1) _ assms(3)] followD [OF assms(2), of "''&''"] by auto
  then show ?thesis
    using at_toks_peek [of buf p2 ts "'';''"] followD [OF assms(2), of "'';''"] by (auto simp: parses_def)
qed

lemma parses_seq:
  assumes "parses buf ps (replicate n ''&'' @ '';'' # ts') c (parsepipe fuel buf ps)"
    and "length buf - ps < fuel"
    and "\<And>p. ps < p \<Longrightarrow> at_toks buf p ts' \<Longrightarrow> parses buf p ts d (parseline fuel buf p)"
  shows "parses buf ps ts (LIST ((BACK ^^ n) c) d) (parseline (Suc fuel) buf ps)"
proof -
  obtain c1 p1 c2 p2 where c: "parsepipe fuel buf ps = Inr (c1, p1)" "parseback fuel buf c1 p1 = Inr (c2, p2)"
    "ps \<le> p2" "words buf c2 = (BACK ^^ n) c" and a: "at_toks buf p2 ('';'' # ts')"
    using parses_back [OF assms(1) _ assms(2)] by auto
  note g = at_toks_gettoken [OF a]
  have "parses buf (p2 + 2) ts d (parseline fuel buf (p2 + 2))" using assms(3) [of "p2 + 2"] c(3) g(2) by simp
  then show ?thesis using c g(1) at_toks_peek [OF a, of "'';''"] by (auto simp: parses_def listcmd_def)
qed

lemma parse_toks:
  shows "at_toks buf ps (line_toks l @ ts) \<Longrightarrow> line_ok l \<Longrightarrow> follow '')'' ts \<Longrightarrow>
      4 * (length buf - ps) + 4 \<le> fuel \<Longrightarrow> parses buf ps ts (line_cmd l) (parseline fuel buf ps)"
    and "at_toks buf ps (pipe_toks p @ ts) \<Longrightarrow> pipe_ok p \<Longrightarrow> follow ''&;)'' ts \<Longrightarrow>
      4 * (length buf - ps) + 3 \<le> fuel \<Longrightarrow> parses buf ps ts (pipe_cmd p) (parsepipe fuel buf ps)"
    and "at_toks buf ps (simple_toks s @ ts) \<Longrightarrow> simple_ok s \<Longrightarrow> follow ''|)&;'' ts \<Longrightarrow>
      4 * (length buf - ps) + 2 \<le> fuel \<Longrightarrow> parses buf ps ts (simple_cmd s) (parseexec fuel buf ps)"
proof (induction l and p and s arbitrary: ps ts fuel and ps ts fuel and ps ts fuel)
  case (Last p n)
  obtain f where f: "fuel = Suc f" using Last.prems(4) by (cases fuel) auto
  have "follow ''&;)'' (replicate n ''&'' @ ts)" using Last.prems(3) by (cases n) (auto simp: follow_def)
  then have "parses buf ps (replicate n ''&'' @ ts) (pipe_cmd p) (parsepipe f buf ps)"
    using Last.prems f by (intro Last.IH) auto
  then have "parses buf ps ts ((BACK ^^ n) (pipe_cmd p)) (parseline (Suc f) buf ps)"
    using Last.prems(3,4) f by (intro parses_last) auto
  then show ?case using f by (simp del: parseline.simps)
next
  case (Seq p n l)
  obtain f where f: "fuel = Suc f" using Seq.prems(4) by (cases fuel) auto
  have "follow ''&;)'' (replicate n ''&'' @ '';'' # line_toks l @ ts)" by (cases n) auto
  then have "parses buf ps (replicate n ''&'' @ '';'' # line_toks l @ ts) (pipe_cmd p) (parsepipe f buf ps)"
    using Seq.prems f by (intro Seq.IH) auto
  then have "parses buf ps ts (LIST ((BACK ^^ n) (pipe_cmd p)) (line_cmd l)) (parseline (Suc f) buf ps)"
    using Seq.prems f by (intro parses_seq) (auto intro!: Seq.IH dest: at_toks_le)
  then show ?case using f by (simp del: parseline.simps)
next
  case (One s)
  obtain f where f: "fuel = Suc f" using One.prems(4) by (cases fuel) auto
  have "parses buf ps ts (simple_cmd s) (parseexec f buf ps)"
    using One.prems f by (intro One.IH) (auto elim: follow_mono)
  then show ?case using parses_pipe_one One.prems(3) f by (simp del: parsepipe.simps)
next
  case (Pipe s p)
  obtain f where f: "fuel = Suc f" using Pipe.prems(4) by (cases fuel) auto
  have "parses buf ps (''|'' # pipe_toks p @ ts) (simple_cmd s) (parseexec f buf ps)"
    using Pipe.prems f by (intro Pipe.IH) auto
  then have "parses buf ps ts (PIPE (simple_cmd s) (pipe_cmd p)) (parsepipe (Suc f) buf ps)"
    using Pipe.prems f by (intro parses_pipe_more) (auto intro!: Pipe.IH dest: at_toks_le)
  then show ?case using f by (simp del: parsepipe.simps)
next
  case (Simple rs ws)
  then show ?case using parsesimple_toks [of buf ps rs ws ts fuel] unfolding parses_def by simp
next
  case (Block l rs)
  have a: "at_toks buf ps (''('' # line_toks l @ '')'' # concat (map redir_toks rs) @ ts)"
    using Block.prems(1) by simp
  have le: "ps + 2 \<le> length buf" using at_toks_le [OF at_toks_gettoken(2) [OF a]] by simp
  obtain f where f: "fuel = Suc (Suc f)" using Block.prems(4) by (cases fuel; cases "fuel - 1") auto
  have "parses buf (ps + 2) ('')'' # concat (map redir_toks rs) @ ts) (line_cmd l) (parseline f buf (ps + 2))"
    using Block.prems f le at_toks_gettoken(2) [OF a] by (intro Block.IH) auto
  then show ?case using parses_block [OF a, of f] Block.prems le
    unfolding f by (simp del: parseexec.simps)
qed
lemma tok_ok_symbols [simp]:
  "tok_ok ''<''" "tok_ok ''>''" "tok_ok ''>>''" "tok_ok ''|''" "tok_ok ''&''" "tok_ok '';''" "tok_ok ''(''"
  "tok_ok '')''"
  by (simp_all add: tok_ok_def)

lemma tok_ok_word: "word_ok w \<Longrightarrow> tok_ok w"
  by (simp add: tok_ok_def)

lemma tok_ok_eos: "tok_ok t \<Longrightarrow> eos \<notin> set t"
  by (auto simp: tok_ok_def word_ok_def list_all_iff)

lemma redir_toks_ok: "redir_ok r \<Longrightarrow> list_all tok_ok (redir_toks r)"
  by (cases r) (simp_all add: tok_ok_word)

lemma redirs_toks_ok: "list_all redir_ok rs \<Longrightarrow> list_all tok_ok (concat (map redir_toks rs))"
  by (induction rs) (simp_all add: redir_toks_ok)

lemma amps: "list_all tok_ok (replicate n ''&'')"
  by (induction n) simp_all

lemma toks_ok:
  "line_ok l \<Longrightarrow> list_all tok_ok (line_toks l)"
  "pipe_ok p \<Longrightarrow> list_all tok_ok (pipe_toks p)"
  "simple_ok s \<Longrightarrow> list_all tok_ok (simple_toks s)"
proof (induction l and p and s)
  case (Simple rs ws)
  have "list_all tok_ok (concat (map (\<lambda>(w, rs). w # concat (map redir_toks rs)) ws))"
    using Simple by (induction ws) (auto simp: redirs_toks_ok tok_ok_word)
  then show ?case using Simple by (simp add: redirs_toks_ok)
qed (simp_all add: redirs_toks_ok amps)

lemma render_eos: "list_all tok_ok ts \<Longrightarrow> eos \<notin> set (render ts)"
  by (induction ts) (simp_all add: render_def tok_ok_eos)


section \<open>How a pipeline is wired\<close>

text \<open>
  Descriptor tables, and the programs started, each with its table, when every call succeeds. A new descriptor is
  the lowest free one; \<open>n\<close> numbers the pipes.
\<close>

datatype ofile = Named string int | Inherited nat | ReadEnd nat | WriteEnd nat

type_synonym fdtab = "nat \<Rightarrow> ofile option"

definition lowest_free :: "fdtab \<Rightarrow> nat option" where
  "lowest_free t = List.find (\<lambda>fd. t fd = None) [0..<16]"

definition new_fd :: "fdtab \<Rightarrow> ofile option \<Rightarrow> fdtab" where
  "new_fd t f = (case lowest_free t of None \<Rightarrow> t | Some fd \<Rightarrow> t(fd := f))"

primrec started :: "uprog \<Rightarrow> fdtab \<Rightarrow> nat \<Rightarrow> (string list \<times> fdtab) list \<times> nat" where
  "started UExit = (\<lambda>t n. ([], n))"
| "started (UExec argv k) = (\<lambda>t n. ([(argv, t)], n))"
| "started (UPrint s k) = (\<lambda>t n. started k t n)"
| "started (UClose fd k) = (\<lambda>t n. started k (t(fd := None)) n)"
| "started (UOpen f mode fail ok) = (\<lambda>t n. started ok (new_fd t (Some (Named f mode))) n)"
| "started (UPipe fail k) = (\<lambda>t n.
     case lowest_free t of None \<Rightarrow> started fail t n
     | Some p0 \<Rightarrow>
       (case lowest_free (t(p0 := Some (ReadEnd n))) of None \<Rightarrow> started fail t n
        | Some p1 \<Rightarrow> started (k p0 p1) (t(p0 := Some (ReadEnd n), p1 := Some (WriteEnd n))) (n + 1)))"
| "started (UDup fd k) = (\<lambda>t n. started k (new_fd t (t fd)) n)"
| "started (UFork child parent fail) = (\<lambda>t n.
     let (es, n) = started child t n; (es', n) = started parent t n in (es @ es', n))"
| "started (UWait k) = (\<lambda>t n. started k t n)"

definition std :: "ofile \<Rightarrow> ofile \<Rightarrow> ofile \<Rightarrow> fdtab" where
  "std i o' e = (\<lambda>fd. if fd = 0 then Some i else if fd = 1 then Some o' else if fd = 2 then Some e else None)"

fun pipeline :: "string list \<Rightarrow> string list list \<Rightarrow> string cmd" where
  "pipeline c [] = EXEC c"
| "pipeline c (c' # cs) = PIPE (EXEC c) (pipeline c' cs)"

fun wired :: "string list \<Rightarrow> string list list \<Rightarrow> ofile \<Rightarrow> ofile \<Rightarrow> ofile \<Rightarrow> nat \<Rightarrow> (string list \<times> fdtab) list" where
  "wired c [] i o' e n = [(c, std i o' e)]"
| "wired c (c' # cs) i o' e n = (c, std i (WriteEnd n) e) # wired c' cs (ReadEnd n) o' e (n + 1)"

lemma upt16: "[0..<16] = [0, 1, 2, 3, 4, 5, 6, 7, 8, 9, 10, 11, 12, 13, 14, 15 :: nat]"
  by code_simp

lemma started_left:
  "started (UClose 1 (UDup 4 (UClose 3 (UClose 4 p)))) ((std i o' e)(3 := Some r, 4 := Some w)) n =
   started p (std i w e) n"
proof -
  have "(((new_fd ((std i o' e)(3 := Some r, 4 := Some w, 1 := None)) (Some w))(3 := None))(4 := None))
      = std i w e"
    by (auto simp: fun_eq_iff new_fd_def lowest_free_def upt16 std_def)
  then show ?thesis by simp
qed

lemma started_right:
  "started (UClose 0 (UDup 3 (UClose 3 (UClose 4 p)))) ((std i o' e)(3 := Some r, 4 := Some w)) n =
   started p (std r o' e) n"
proof -
  have "(((new_fd ((std i o' e)(3 := Some r, 4 := Some w, 0 := None)) (Some r))(3 := None))(4 := None))
      = std r o' e"
    by (auto simp: fun_eq_iff new_fd_def lowest_free_def upt16 std_def)
  then show ?thesis by simp
qed

lemma free_std: "lowest_free (std i o' e) = Some 3" "lowest_free ((std i o' e)(3 := Some r)) = Some 4"
  by (simp_all add: lowest_free_def upt16 std_def)

lemma started_pipe:
  "started (runcmd (PIPE l r)) (std i o' e) n =
     (let (es, m) = started (runcmd l) (std i (WriteEnd n) e) (n + 1);
          (es', m') = started (runcmd r) (std (ReadEnd n) o' e) m in (es @ es', m'))"
  using started_left [of "runcmd l" i o' e "ReadEnd n" "WriteEnd n" "n + 1"]
    started_right [of "runcmd r" i o' e "ReadEnd n" "WriteEnd n"]
  by (simp add: free_std fork1_def split: prod.split)

lemma started_exec: "c \<noteq> [] \<Longrightarrow> started (runcmd (EXEC c)) t n = ([(c, t)], n)"
  by (cases c) simp_all

lemma started_pipeline:
  "list_all (\<lambda>c. c \<noteq> []) (c # cs) \<Longrightarrow>
     started (runcmd (pipeline c cs)) (std i o' e) n = (wired c cs i o' e n, n + length cs)"
  by (induction c cs arbitrary: i n rule: pipeline.induct)
    (simp_all add: started_pipe started_exec del: runcmd.simps)

section \<open>Properties\<close>

text \<open>
  C30. The parser of the shell ends on every line: the recursion of \<^verbatim>\<open>parseline\<close>, \<^verbatim>\<open>parsepipe\<close>, \<^verbatim>\<open>parseexec\<close> and
  \<^verbatim>\<open>parseblock\<close> and their loops consume the line, so the fuel given by \<^verbatim>\<open>parsecmd\<close> is never used up. The result
  is a command or one of the parser's messages.
\<close>

theorem parsecmd_ends: "parsecmd buf \<noteq> Inl NoFuel"
  using parse_parsed(1) [of 0 buf "parse_fuel buf"]
  by (auto simp: parsecmd_def parse_fuel_def split: sum.split if_splits prod.splits)

text \<open>
  C31. When \<^verbatim>\<open>parsecmd\<close> accepts a line, every word of the command, read as a C string in the buffer with the zeros
  that \<^verbatim>\<open>nulterminate\<close> wrote, is the word of the line between its two pointers, and no word is empty, holds a blank or
  symbol, or is cut short by the zero of another word; every \<open>EXEC\<close> has fewer than \<^verbatim>\<open>MAXARGS\<close> arguments.
\<close>

theorem parsecmd_words:
  assumes "parsecmd buf = Inr (c, buf')" and "eos \<notin> set buf"
  shows "cmd_ok buf c \<and> (\<forall>w \<in> set_cmd c. cstring_at buf' (fst w) = span_text buf w)"
  using parsecmd_Inr [OF assms(1)] nulterminate_word [of c buf] cmd_ok_spans assms(2) by blast

theorem parsecmd_words_witness:
  "cmd_ok ''ls a>b'' (REDIR (EXEC [(0, 2), (3, 4)]) (5, 6) O_WRONLY_CREATE 1) \<and>
   cstring_at [CHR ''l'', CHR ''s'', eos, CHR ''a'', eos, CHR ''b''] 0 = ''ls'' \<and>
   cstring_at [CHR ''l'', CHR ''s'', eos, CHR ''a'', eos, CHR ''b''] 3 = ''a''"
proof -
  have "parsecmd ''ls a>b'' = Inr (REDIR (EXEC [(0, 2), (3, 4)]) (5, 6) O_WRONLY_CREATE 1,
      [CHR ''l'', CHR ''s'', eos, CHR ''a'', eos, CHR ''b''])"
    by code_simp
  from parsecmd_words [OF this] show ?thesis by (simp add: span_text_def)
qed

text \<open>
  C12. Printing a command line and parsing it gives the command back: for every line built from simple commands
  with redirections, blocks, pipes, sequences and background marks, whose words are well formed and whose
  commands have fewer than \<^verbatim>\<open>MAXARGS\<close> words, \<^verbatim>\<open>parsecmd\<close> accepts the printed line and the command it returns,
  its words read as C strings, is the one the line stands for.
\<close>

theorem parsecmd_roundtrip:
  assumes "line_ok l"
  shows "\<exists>c buf'. parsecmd (render (line_toks l)) = Inr (c, buf') \<and>
    map_cmd (\<lambda>w. cstring_at buf' (fst w)) c = line_cmd l"
proof -
  let ?b = "render (line_toks l)"
  have ok: "list_all tok_ok (line_toks l)" using assms by (rule toks_ok)
  then have a: "at_toks ?b 0 (line_toks l @ [])" by (simp add: at_toks_def)
  obtain c p where c: "parseline (parse_fuel ?b) ?b 0 = Inr (c, p)" "at_toks ?b p []" "words ?b c = line_cmd l"
    using parse_toks(1) [OF a assms, of "parse_fuel ?b"] by (auto simp: parses_def parse_fuel_def)
  have p: "p = length ?b" using c(2) by (auto simp: at_toks_def render_def)
  have r: "parsecmd ?b = Inr (c, nulterminate c ?b)"
    using c(1) p at_toks_peek [OF c(2), of "''''"] by (simp add: parsecmd_def)
  have "map_cmd (\<lambda>w. cstring_at (nulterminate c ?b) (fst w)) c = words ?b c"
    using nulterminate_word [of c ?b] cmd_ok_spans [OF parsecmd_Inr(1) [OF r]] render_eos [OF ok]
    by (intro cmd.map_cong) auto
  then show ?thesis using r c(3) by auto
qed

theorem parsecmd_roundtrip_witness:
  "\<exists>c buf'. parsecmd ''( a > f ; b & ) | c d '' = Inr (c, buf') \<and>
    map_cmd (\<lambda>w. cstring_at buf' (fst w)) c =
      PIPE (LIST (REDIR (EXEC [''a'']) ''f'' O_WRONLY_CREATE 1) (BACK (EXEC [''b'']))) (EXEC [''c'', ''d''])"
  using parsecmd_roundtrip [of "Last (Pipe (Block (Seq (One (Simple [] [(''a'', [To ''f''])])) 0
    (Last (One (Simple [] [(''b'', [])])) 1)) []) (One (Simple [] [(''c'', []), (''d'', [])]))) 0"]
  by (simp add: render_def word_ok_def word_char_def whitespace_def symbols_def)

text \<open>
  C32. The shell wires a pipeline correctly. When the calls succeed, the commands of \<open>c | c' | \<dots>\<close> are started one
  each, in order; the first reads the shell's standard input, every other the pipe its left neighbour writes to; the
  last writes to the standard output; and no process keeps another descriptor of a pipe open.
\<close>

theorem runcmd_pipeline:
  assumes "list_all (\<lambda>c. c \<noteq> []) (c # cs)"
  shows "fst (started (runcmd (pipeline c cs)) (std i o' e) n) = wired c cs i o' e n"
  using started_pipeline [OF assms] by simp

theorem runcmd_pipeline_witness:
  "fst (started (runcmd (PIPE (EXEC [''ls'']) (PIPE (EXEC [''cat'']) (EXEC [''wc''])))) (std (Inherited 0) (Inherited 1) (Inherited 2)) 7) =
    [([''ls''], std (Inherited 0) (WriteEnd 7) (Inherited 2)), ([''cat''], std (ReadEnd 7) (WriteEnd 8) (Inherited 2)),
     ([''wc''], std (ReadEnd 8) (Inherited 1) (Inherited 2))]"
  using runcmd_pipeline [of "[''ls'']" "[[''cat''], [''wc'']]" "Inherited 0" "Inherited 1" "Inherited 2" 7]
  by simp

end
