(* ===== verification/Spinlocks.thy ===== *)
theory Spinlocks
  imports Xv6_Prelude
begin

text \<open>
  Processors and spin locks: \<^verbatim>\<open>struct cpu\<close> (\<^verbatim>\<open>proc.h\<close>), \<^verbatim>\<open>cpuid\<close>, \<^verbatim>\<open>mycpu\<close> (\<^verbatim>\<open>proc.c\<close>) and all of
  \<^verbatim>\<open>spinlock.c\<close>.

  The state of this layer is the record \<open>machine\<close>: the table \<open>cpus\<close> the kernel keeps, which physical
  processor executes the code (\<open>this\<close>), its local APIC identifier and interrupt flag, and every
  \<^verbatim>\<open>struct spinlock\<close> of the kernel, by name. Higher layers extend the record, so an operation of
  this theory works on every kernel state and leaves the extension alone. A processor that waits
  for a lock another processor holds does not come back by itself: \<open>Stop (Spin _)\<close>.
  \<open>lapic_id\<close> is what \<^verbatim>\<open>lapicid\<close> returns on each physical processor (the code returns 0 as long as \<^verbatim>\<open>mpinit\<close> has not
  found the controllers). The return addresses \<^verbatim>\<open>acquire\<close> records in a lock for debugging are left out.

  Shown: \<^verbatim>\<open>pushcli\<close> and \<^verbatim>\<open>popcli\<close> nest; \<^verbatim>\<open>acquire\<close> returns only with the lock taken from nobody, with
  interrupts off, and \<^verbatim>\<open>release\<close> undoes it; taking a lock twice and releasing a lock one does not
  hold both panic; two processors never hold the same lock.
\<close>

section \<open>Processors and locks\<close>

record cpu =
  apicid :: uchar
  started :: uint
  ncli :: int
  intena :: bool
  cproc :: "nat option"

text \<open>The locks of the kernel: one per C object, sleep locks and pipes have one each.\<close>

datatype slid = BufSl nat | InodeSl nat

datatype lockid = PtableLock | TicksLock | KmemLock | BcacheLock | IcacheLock | LogLock
  | FtableLock | ConsLock | IdeLock | SleeplockLk slid | PipeLk uint

record spinlock =
  locked :: bool
  lname :: string
  lcpu :: "nat option"

record machine =
  this :: nat
  lapic_id :: "nat \<Rightarrow> uchar"
  if_flag :: "nat \<Rightarrow> bool"
  ncpu :: nat
  cpus :: "cpu list"
  locks :: "lockid \<Rightarrow> spinlock"

definition lapicid :: "('z machine_scheme, uchar) kop" where
  "lapicid = getk (\<lambda>s. lapic_id s (this s))"

definition readeflags_IF :: "('z machine_scheme, bool) kop" where
  "readeflags_IF = getk (\<lambda>s. if_flag s (this s))"

definition cli :: "('z machine_scheme, unit) kop" where
  "cli = modk (\<lambda>s. s\<lparr>if_flag := (if_flag s)(this s := False)\<rparr>)"

definition sti :: "('z machine_scheme, unit) kop" where
  "sti = modk (\<lambda>s. s\<lparr>if_flag := (if_flag s)(this s := True)\<rparr>)"

text \<open>\<^verbatim>\<open>mycpu\<close> looks its APIC identifier up among the first \<^verbatim>\<open>ncpu\<close> entries of \<^verbatim>\<open>cpus\<close>.\<close>

definition find_cpu :: "uchar \<Rightarrow> nat \<Rightarrow> cpu list \<Rightarrow> nat option" where
  "find_cpu a n cs = find_index (\<lambda>c. apicid c = a) (take n cs)"

definition mycpu :: "('z machine_scheme, nat) kop" where
  "mycpu =
     bindk readeflags_IF (\<lambda>fl.
     if fl then panic ''mycpu called with interrupts enabled\<newline>''
     else bindk lapicid (\<lambda>a.
       bindk (getk (\<lambda>s. find_cpu a (ncpu s) (cpus s))) (\<lambda>r.
       case r of Some i \<Rightarrow> retk i | None \<Rightarrow> panic ''unknown apicid\<newline>'')))"

definition cpuid :: "('z machine_scheme, nat) kop" where
  "cpuid = mycpu"

definition upd_cpu :: "nat \<Rightarrow> (cpu \<Rightarrow> cpu) \<Rightarrow> 'z machine_scheme \<Rightarrow> 'z machine_scheme" where
  "upd_cpu i f s = s\<lparr>cpus := (cpus s)[i := f (cpus s ! i)]\<rparr>"

section \<open>Interrupt nesting\<close>

definition pushcli :: "('z machine_scheme, unit) kop" where
  "pushcli =
     bindk readeflags_IF (\<lambda>fl.
     thenk cli
     (bindk mycpu (\<lambda>c.
      thenk (modk (\<lambda>s. if ncli (cpus s ! c) = 0 then upd_cpu c (\<lambda>k. k\<lparr>intena := fl\<rparr>) s else s))
            (modk (upd_cpu c (\<lambda>k. k\<lparr>ncli := ncli k + 1\<rparr>))))))"

definition popcli :: "('z machine_scheme, unit) kop" where
  "popcli =
     bindk readeflags_IF (\<lambda>fl.
     if fl then panic ''popcli - interruptible''
     else bindk mycpu (\<lambda>c.
       thenk (modk (upd_cpu c (\<lambda>k. k\<lparr>ncli := ncli k - 1\<rparr>)))
       (bindk (getk (\<lambda>s. cpus s ! c)) (\<lambda>me.
        if ncli me < 0 then panic ''popcli''
        else if ncli me = 0 \<and> intena me then sti
        else retk ()))))"

section \<open>Locks\<close>

definition upd_lock :: "lockid \<Rightarrow> (spinlock \<Rightarrow> spinlock) \<Rightarrow> 'z machine_scheme \<Rightarrow> 'z machine_scheme" where
  "upd_lock l f s = s\<lparr>locks := (locks s)(l := f (locks s l))\<rparr>"

definition initlock :: "lockid \<Rightarrow> string \<Rightarrow> ('z machine_scheme, unit) kop" where
  "initlock l nm = modk (upd_lock l (\<lambda>k. k\<lparr>lname := nm, locked := False, lcpu := None\<rparr>))"

definition holding :: "lockid \<Rightarrow> ('z machine_scheme, bool) kop" where
  "holding l =
     thenk pushcli
     (bindk mycpu (\<lambda>c.
      bindk (getk (\<lambda>s. locked (locks s l) \<and> lcpu (locks s l) = Some c)) (\<lambda>r.
      thenk popcli (retk r))))"

text \<open>
  The atomic exchange of the spin loop returns 0 exactly when the lock was free; when it does not,
  the loop goes on until another processor changes the lock.
\<close>

definition acquire :: "lockid \<Rightarrow> ('z machine_scheme, unit) kop" where
  "acquire l =
     thenk pushcli
     (bindk (holding l) (\<lambda>h.
      if h then panic ''acquire''
      else bindk (getk (\<lambda>s. locked (locks s l))) (\<lambda>taken.
        if taken then stopk (Spin ''acquire'')
        else thenk (modk (upd_lock l (\<lambda>k. k\<lparr>locked := True\<rparr>)))
          (bindk mycpu (\<lambda>c. modk (upd_lock l (\<lambda>k. k\<lparr>lcpu := Some c\<rparr>)))))))"

definition release :: "lockid \<Rightarrow> ('z machine_scheme, unit) kop" where
  "release l =
     bindk (holding l) (\<lambda>h.
     if \<not> h then panic ''release''
     else thenk (modk (upd_lock l (\<lambda>k. k\<lparr>lcpu := None\<rparr>)))
       (thenk (modk (upd_lock l (\<lambda>k. k\<lparr>locked := False\<rparr>))) popcli))"

text \<open>
  The call chain \<^verbatim>\<open>getcallerpcs\<close> records: at most ten saved return addresses, then zeros. \<open>ld\<close> reads
  a word of kernel memory.
\<close>

fun pcs_walk :: "(uint \<Rightarrow> uint) \<Rightarrow> nat \<Rightarrow> uint \<Rightarrow> uint list" where
  "pcs_walk ld 0 ebp = []"
| "pcs_walk ld (Suc n) ebp =
     (if ebp = 0 \<or> ebp < 0x80000000 \<or> ebp = 0xffffffff then []
      else ld (ebp + 4) # pcs_walk ld n (ld ebp))"

definition getcallerpcs :: "(uint \<Rightarrow> uint) \<Rightarrow> uint \<Rightarrow> uint list" where
  "getcallerpcs ld v =
     (let pcs = pcs_walk ld 10 (v - 8) in pcs @ replicate (10 - length pcs) 0)"

section \<open>Which processor executes\<close>

definition runs_on :: "'z machine_scheme \<Rightarrow> nat \<Rightarrow> bool" where
  "runs_on s c \<longleftrightarrow> find_cpu (lapic_id s (this s)) (ncpu s) (cpus s) = Some c"

text \<open>What \<^verbatim>\<open>pushcli\<close> and \<^verbatim>\<open>popcli\<close> rely on: inside the outermost pair interrupts are off.\<close>

definition cli_ok :: "'z machine_scheme \<Rightarrow> nat \<Rightarrow> bool" where
  "cli_ok s c \<longleftrightarrow> runs_on s c \<and> 0 \<le> ncli (cpus s ! c) \<and>
     (0 < ncli (cpus s ! c) \<longrightarrow> \<not> if_flag s (this s))"

lemma find_cpu_apicids:
  "find_cpu a n cs = find_index (\<lambda>x. x = a) (take n (map apicid cs))"
proof -
  have "find_index (\<lambda>c. apicid c = a) xs = find_index (\<lambda>x. x = a) (map apicid xs)" for xs
    by (induction xs) auto
  then show ?thesis by (simp add: find_cpu_def take_map)
qed

lemma find_cpu_upd [simp]:
  assumes "apicid v = apicid (cs ! i)"
  shows "find_cpu a n (cs[i := v]) = find_cpu a n cs"
proof -
  have "map apicid (cs[i := v]) = map apicid cs"
    using assms by (metis list_update_id map_update)
  then show ?thesis by (simp add: find_cpu_apicids)
qed

lemma runs_on_length: "runs_on s c \<Longrightarrow> c < length (cpus s)"
  by (auto simp: runs_on_def find_cpu_def dest: find_index_Some)

lemma runs_on_upd_cpu [simp]:
  assumes "\<And>x. apicid (f x) = apicid x"
  shows "runs_on (upd_cpu i f s) c = runs_on s c"
  using assms by (simp add: runs_on_def upd_cpu_def)

lemma runs_on_frame [simp]:
  "runs_on (s\<lparr>if_flag := h\<rparr>) c = runs_on s c" "runs_on (upd_lock l g s) c = runs_on s c"
  by (simp_all add: runs_on_def upd_lock_def)

lemma upd_frame [simp]:
  "this (upd_cpu i f s) = this s" "if_flag (upd_cpu i f s) = if_flag s"
  "locks (upd_cpu i f s) = locks s"
  "this (upd_lock l g s) = this s" "if_flag (upd_lock l g s) = if_flag s"
  "cpus (upd_lock l g s) = cpus s" "cpus (s\<lparr>if_flag := h\<rparr>) = cpus s"
  "locks (upd_lock l g s) l = g (locks s l)"
  by (simp_all add: upd_cpu_def upd_lock_def)

lemma cpus_upd_cpu [simp]: "i < length (cpus s) \<Longrightarrow> cpus (upd_cpu i f s) ! i = f (cpus s ! i)"
  by (simp add: upd_cpu_def)

lemma mycpu_eq: "\<not> if_flag s (this s) \<Longrightarrow> runs_on s c \<Longrightarrow> mycpu s = Ret c s"
  by (simp add: mycpu_def runs_on_def bindk_def readeflags_IF_def getk_def lapicid_def retk_def)

section \<open>Nesting of pushcli and popcli\<close>

definition pushed :: "nat \<Rightarrow> 'z machine_scheme \<Rightarrow> 'z machine_scheme" where
  "pushed c s = s\<lparr>if_flag := (if_flag s)(this s := False),
     cpus := (cpus s)[c := (cpus s ! c)
       \<lparr>intena := (if ncli (cpus s ! c) = 0 then if_flag s (this s) else intena (cpus s ! c)),
        ncli := ncli (cpus s ! c) + 1\<rparr>]\<rparr>"

definition popped :: "nat \<Rightarrow> 'z machine_scheme \<Rightarrow> 'z machine_scheme" where
  "popped c s = s\<lparr>if_flag := (if_flag s)(this s := ncli (cpus s ! c) = 1 \<and> intena (cpus s ! c)),
     cpus := (cpus s)[c := (cpus s ! c)\<lparr>ncli := ncli (cpus s ! c) - 1\<rparr>]\<rparr>"

lemma pushcli_eq:
  assumes "runs_on s c"
  shows "pushcli s = Ret () (pushed c s)"
proof -
  have c: "c < length (cpus s)" using assms by (rule runs_on_length)
  have "mycpu (s\<lparr>if_flag := (if_flag s)(this s := False)\<rparr>)
      = Ret c (s\<lparr>if_flag := (if_flag s)(this s := False)\<rparr>)"
    using assms by (intro mycpu_eq) auto
  then show ?thesis using c
    by (simp add: pushcli_def bindk_def thenk_def readeflags_IF_def getk_def cli_def modk_def
        upd_cpu_def pushed_def)
qed

lemma popcli_eq:
  assumes "runs_on s c" and "\<not> if_flag s (this s)" and "0 < ncli (cpus s ! c)"
  shows "popcli s = Ret () (popped c s)"
proof -
  have c: "c < length (cpus s)" using assms(1) by (rule runs_on_length)
  have eq: "s\<lparr>if_flag := (if_flag s)(this s := False), cpus := k\<rparr> = s\<lparr>cpus := k\<rparr>" for k
  proof -
    have "(if_flag s)(this s := False) = if_flag s" using assms(2) by (simp add: fun_upd_idem)
    then show ?thesis by simp
  qed
  show ?thesis using assms c mycpu_eq [OF assms(2,1)]
    by (auto simp: popcli_def bindk_def thenk_def readeflags_IF_def getk_def modk_def
        upd_cpu_def popped_def sti_def retk_def eq)
qed

lemma runs_on_pushed [simp]: "runs_on (pushed c s) d = runs_on s d"
  by (simp add: runs_on_def pushed_def)

lemma runs_on_popped [simp]: "runs_on (popped c s) d = runs_on s d"
  by (simp add: runs_on_def popped_def)

lemma pushed_props [simp]:
  assumes "runs_on s c"
  shows "ncli (cpus (pushed c s) ! c) = ncli (cpus s ! c) + 1"
    and "\<not> if_flag (pushed c s) (this s)"
    and "this (pushed c s) = this s" and "locks (pushed c s) = locks s"
  using runs_on_length [OF assms] by (simp_all add: pushed_def)

lemma popped_pushed:
  assumes "runs_on s c" and "\<not> if_flag s (this s)" and "0 < ncli (cpus s ! c)"
  shows "popped c (pushed c s) = s"
proof -
  have "(if_flag s)(this s := False) = if_flag s" using assms(2) by (simp add: fun_upd_idem)
  then show ?thesis using assms runs_on_length [OF assms(1)]
    by (simp add: popped_def pushed_def)
qed

lemma push_pop_flag:
  assumes "cli_ok s c"
  shows "if_flag (popped c (pushed c s)) = if_flag s"
    and "ncli (cpus (popped c (pushed c s)) ! c) = ncli (cpus s ! c)"
  using assms runs_on_length [of s c]
  by (auto simp: popped_def pushed_def cli_ok_def fun_eq_iff)

section \<open>Acquire, release, holding\<close>

lemma holding_eq:
  assumes "runs_on s c" and "\<not> if_flag s (this s)" and "0 < ncli (cpus s ! c)"
  shows "holding l s = Ret (locked (locks s l) \<and> lcpu (locks s l) = Some c) s"
proof -
  have pop: "popcli (pushed c s) = Ret () s"
    using assms popcli_eq [of "pushed c s" c] popped_pushed [OF assms] by simp
  have my: "mycpu (pushed c s) = Ret c (pushed c s)"
    using assms by (intro mycpu_eq) simp_all
  show ?thesis using assms(1)
    by (simp add: holding_def thenk_def bindk_def pushcli_eq my getk_def pop retk_def)
qed

definition acquired :: "lockid \<Rightarrow> nat \<Rightarrow> 'z machine_scheme \<Rightarrow> 'z machine_scheme" where
  "acquired l c s = upd_lock l (\<lambda>k. k\<lparr>locked := True, lcpu := Some c\<rparr>) (pushed c s)"

definition released :: "lockid \<Rightarrow> nat \<Rightarrow> 'z machine_scheme \<Rightarrow> 'z machine_scheme" where
  "released l c s = popped c (upd_lock l (\<lambda>k. k\<lparr>lcpu := None, locked := False\<rparr>) s)"

lemma acquire_eq:
  assumes "cli_ok s c"
  shows "acquire l s =
    (if locked (locks s l)
     then if lcpu (locks s l) = Some c then Stop (Panic ''acquire'') else Stop (Spin ''acquire'')
     else Ret () (acquired l c s))"
proof -
  from assms have r: "runs_on s c" and n: "0 \<le> ncli (cpus s ! c)" by (simp_all add: cli_ok_def)
  let ?p = "pushed c s"
  have h: "holding l ?p = Ret (locked (locks s l) \<and> lcpu (locks s l) = Some c) ?p"
    using r n holding_eq [of ?p c l] by simp
  let ?q = "upd_lock l (\<lambda>k. k\<lparr>locked := True\<rparr>) ?p"
  have my: "mycpu ?q = Ret c ?q"
    using r by (intro mycpu_eq) simp_all
  have q: "upd_lock l (\<lambda>k. k\<lparr>lcpu := Some c\<rparr>) ?q = acquired l c s"
    by (simp add: acquired_def upd_lock_def)
  show ?thesis using r
    by (auto simp: acquire_def thenk_def bindk_def pushcli_eq h panic_def stopk_def getk_def
        modk_def my q)
qed

lemma release_eq:
  assumes "runs_on s c" and "\<not> if_flag s (this s)" and "0 < ncli (cpus s ! c)"
  shows "release l s =
    (if locked (locks s l) \<and> lcpu (locks s l) = Some c then Ret () (released l c s)
     else Stop (Panic ''release''))"
proof -
  let ?u = "upd_lock l (\<lambda>k. k\<lparr>locked := False\<rparr>) (upd_lock l (\<lambda>k. k\<lparr>lcpu := None\<rparr>) s)"
  have u: "?u = upd_lock l (\<lambda>k. k\<lparr>lcpu := None, locked := False\<rparr>) s"
    by (simp add: upd_lock_def)
  have "popcli ?u = Ret () (released l c s)"
    using assms popcli_eq [of ?u c] by (simp add: released_def u)
  then show ?thesis using assms
    by (simp add: release_def thenk_def bindk_def holding_eq panic_def stopk_def modk_def)
qed

lemma cli_ok_acquired:
  assumes "cli_ok s c"
  shows "runs_on (acquired l c s) c" and "\<not> if_flag (acquired l c s) (this s)"
    and "ncli (cpus (acquired l c s) ! c) = ncli (cpus s ! c) + 1"
    and "this (acquired l c s) = this s"
    and "locks (acquired l c s) = (locks s)(l := (locks s l)\<lparr>locked := True, lcpu := Some c\<rparr>)"
  using assms pushed_props [of s c] unfolding acquired_def cli_ok_def
  by (simp_all del: pushed_props) (simp_all add: upd_lock_def)

section \<open>Locks leave the rest of the kernel alone\<close>

text \<open>
  A state change of this layer touches the processor table, the locks and the interrupt flags only,
  so whatever a higher layer keeps in its extension of the record is framed.
\<close>

definition mach_eq :: "'z machine_scheme \<Rightarrow> 'z machine_scheme \<Rightarrow> bool" where
  "mach_eq s t \<longleftrightarrow> s\<lparr>cpus := cpus t, locks := locks t, if_flag := if_flag t\<rparr> = t"

definition mframe :: "('z machine_scheme, 'a) kop \<Rightarrow> bool" where
  "mframe m \<longleftrightarrow> (\<forall>s. wpk m (\<lambda>_. mach_eq s) never anyway s)"

lemma mach_eq_refl [simp]: "mach_eq s s"
  by (simp add: mach_eq_def)

lemma mach_eq_trans:
  assumes "mach_eq s t" and "mach_eq t u"
  shows "mach_eq s u"
proof -
  have "u = t\<lparr>cpus := cpus u, locks := locks u, if_flag := if_flag u\<rparr>"
    using assms(2) by (simp only: mach_eq_def)
  also have "\<dots> = (s\<lparr>cpus := cpus t, locks := locks t, if_flag := if_flag t\<rparr>)
      \<lparr>cpus := cpus u, locks := locks u, if_flag := if_flag u\<rparr>"
    using assms(1) by (simp only: mach_eq_def)
  also have "\<dots> = s\<lparr>cpus := cpus u, locks := locks u, if_flag := if_flag u\<rparr>"
    by simp
  finally show ?thesis by (simp only: mach_eq_def)
qed

lemma mach_eq_upd [simp]:
  "mach_eq s (upd_cpu i f s)" "mach_eq s (upd_lock l g s)" "mach_eq s (s\<lparr>if_flag := h\<rparr>)"
  by (simp_all add: mach_eq_def upd_cpu_def upd_lock_def)

lemma mframe_bindk:
  assumes "mframe m" and "\<And>a. mframe (f a)"
  shows "mframe (bindk m f)"
  unfolding mframe_def
proof
  fix s
  have "wpk m (\<lambda>_. mach_eq s) never anyway s" using assms(1) by (simp add: mframe_def)
  then show "wpk (bindk m f) (\<lambda>_. mach_eq s) never anyway s"
    unfolding wp_bindk
  proof (rule wp_mono)
    fix a t assume t: "mach_eq s t"
    have "wpk (f a) (\<lambda>_. mach_eq t) never anyway t" using assms(2) by (simp add: mframe_def)
    then show "wpk (f a) (\<lambda>_. mach_eq s) never anyway t"
      by (rule wp_mono) (auto intro: mach_eq_trans [OF t])
  qed auto
qed

lemma mframe_thenk: "mframe m \<Longrightarrow> mframe n \<Longrightarrow> mframe (thenk m n)"
  by (simp add: thenk_def mframe_bindk)

lemma mframe_basic:
  "mframe (retk a)" "mframe (getk g)" "mframe (panic msg)" "mframe (stopk e)"
  "(\<And>s. mach_eq s (h s)) \<Longrightarrow> mframe (modk h)"
  by (simp_all add: mframe_def wp)

lemma mframe_if: "mframe m \<Longrightarrow> mframe n \<Longrightarrow> mframe (if b then m else n)"
  by simp

lemmas mframe_rules = mframe_bindk mframe_thenk mframe_basic mframe_if

lemma mframe_mycpu: "mframe mycpu"
  unfolding mycpu_def readeflags_IF_def lapicid_def
  by (intro mframe_rules) (auto split: option.split intro: mframe_rules)

lemma mframe_pushcli: "mframe pushcli"
  unfolding pushcli_def readeflags_IF_def cli_def
  by (intro mframe_rules mframe_mycpu) auto

lemma mframe_popcli: "mframe popcli"
  unfolding popcli_def readeflags_IF_def sti_def
  by (intro mframe_rules mframe_mycpu) auto

lemma mframe_holding: "mframe (holding l)"
  unfolding holding_def
  by (intro mframe_rules mframe_mycpu mframe_pushcli mframe_popcli)

lemma mframe_acquire: "mframe (acquire l)"
  unfolding acquire_def
  by (intro mframe_rules mframe_mycpu mframe_pushcli mframe_holding) auto

lemma mframe_release: "mframe (release l)"
  unfolding release_def
  by (intro mframe_rules mframe_popcli mframe_holding) auto

text \<open>The form in which the higher layers use the frame: a postcondition for every change.\<close>

lemma wp_mframe:
  assumes "mframe m" and "\<And>a c k f. Q a (s\<lparr>cpus := c, locks := k, if_flag := f\<rparr>)"
  shows "wpk m Q B anyway s"
proof -
  have "wpk m (\<lambda>_. mach_eq s) never anyway s" using assms(1) by (simp add: mframe_def)
  then show ?thesis
  proof (rule wp_mono)
    fix a t assume "mach_eq s t"
    then have "s\<lparr>cpus := cpus t, locks := locks t, if_flag := if_flag t\<rparr> = t"
      by (simp only: mach_eq_def)
    with assms(2) [where a = a and c = "cpus t" and k = "locks t" and f = "if_flag t"] show "Q a t" by simp
  qed auto
qed

section \<open>The contract of a lock\<close>

text \<open>
  What a critical section relies on. \<open>free\<close> and \<open>held\<close> say who has the lock, \<open>data\<close> is what the lock
  protects; neither operation touches it.
\<close>

locale mutex =
  fixes acq rel :: "('s, unit) kop"
    and free held :: "'s \<Rightarrow> bool"
    and data :: "'s \<Rightarrow> 'd"
  assumes acq_free: "free s \<Longrightarrow> \<exists>t. acq s = Ret () t \<and> held t \<and> data t = data s"
    and rel_held: "held s \<Longrightarrow> \<exists>t. rel s = Ret () t \<and> free t \<and> data t = data s"
begin

lemma critical_section:
  assumes "free s"
    and body: "\<And>t. held t \<Longrightarrow> data t = data s \<Longrightarrow>
      wpk body (\<lambda>r u. held u \<and> Q r (data u)) never never t"
  shows "wpk (thenk acq (bindk body (\<lambda>r. thenk rel (retk r))))
      (\<lambda>r u. free u \<and> Q r (data u)) never never s"
proof -
  from acq_free [OF assms(1)] obtain t where t: "acq s = Ret () t" "held t" "data t = data s" by auto
  have "wpk (thenk rel (retk r)) (\<lambda>r u. free u \<and> Q r (data u)) never never u"
    if "held u \<and> Q r (data u)" for r u
    using rel_held [of u] that by (auto simp: wp wp_Ret_eq)
  with body [OF t(2,3)] show ?thesis
    by (auto simp: wp wp_Ret_eq [of acq, OF t(1)] intro: wp_mono)
qed

lemma section_total:
  assumes "free s" and "\<And>t. held t \<Longrightarrow> held (f t) \<and> data (f t) = g (data t)"
  shows "\<exists>u. thenk acq (thenk (modk f) rel) s = Ret () u \<and> free u \<and> data u = g (data s)"
proof -
  from acq_free [OF assms(1)] obtain t where t: "acq s = Ret () t" "held t" "data t = data s" by auto
  from assms(2) [OF t(2)] t(3) have f: "held (f t)" "data (f t) = g (data s)" by auto
  from rel_held [OF f(1)] obtain u where "rel (f t) = Ret () u" "free u" "data u = data (f t)" by auto
  with f(2) t(1) show ?thesis by (simp add: thenk_def bindk_def modk_def)
qed

end

definition lock_free :: "lockid \<Rightarrow> nat \<Rightarrow> 'z machine_scheme \<Rightarrow> bool" where
  "lock_free l c s \<longleftrightarrow> cli_ok s c \<and> \<not> locked (locks s l)"

definition lock_held :: "lockid \<Rightarrow> nat \<Rightarrow> 'z machine_scheme \<Rightarrow> bool" where
  "lock_held l c s \<longleftrightarrow> runs_on s c \<and> \<not> if_flag s (this s) \<and> 0 < ncli (cpus s ! c) \<and>
     locked (locks s l) \<and> lcpu (locks s l) = Some c"

lemma lock_held_acquired: "lock_free l c s \<Longrightarrow> lock_held l c (acquired l c s)"
  by (simp add: lock_free_def lock_held_def cli_ok_acquired) (simp add: cli_ok_def)

lemma released_props:
  assumes "runs_on s c"
  shows "runs_on (released l c s) c"
    and "locks (released l c s) = (locks s)(l := (locks s l)\<lparr>lcpu := None, locked := False\<rparr>)"
    and "this (released l c s) = this s"
    and "ncli (cpus (released l c s) ! c) = ncli (cpus s ! c) - 1"
    and "if_flag (released l c s)
      = (if_flag s)(this s := ncli (cpus s ! c) = 1 \<and> intena (cpus s ! c))"
  using assms runs_on_length [OF assms]
  by (simp_all add: released_def) (simp_all add: popped_def upd_lock_def)

lemma lock_free_released: "lock_held l c s \<Longrightarrow> lock_free l c (released l c s)"
  by (auto simp: lock_held_def lock_free_def cli_ok_def released_props)

lemma more_acquired: "machine.more (acquired l c s) = machine.more s"
  by (simp add: acquired_def upd_lock_def pushed_def)

lemma more_released: "machine.more (released l c s) = machine.more s"
  by (simp add: released_def upd_lock_def popped_def)

interpretation spin: mutex "acquire l" "release l" "lock_free l c" "lock_held l c" machine.more
  for l c
proof
  fix s :: "'z machine_scheme" assume f: "lock_free l c s"
  then have "acquire l s = Ret () (acquired l c s)"
    using acquire_eq [of s c l] by (simp add: lock_free_def)
  with f show "\<exists>t. acquire l s = Ret () t \<and> lock_held l c t \<and> machine.more t = machine.more s"
    by (simp add: lock_held_acquired more_acquired)
next
  fix s :: "'z machine_scheme" assume h: "lock_held l c s"
  then have "release l s = Ret () (released l c s)"
    using release_eq [of s c l] by (simp add: lock_held_def)
  with h show "\<exists>t. release l s = Ret () t \<and> lock_free l c t \<and> machine.more t = machine.more s"
    by (simp add: lock_free_released more_released)
qed

section \<open>Several processors\<close>

definition cpu_of :: "'z machine_scheme \<Rightarrow> nat \<Rightarrow> nat option" where
  "cpu_of s p = find_cpu (lapic_id s p) (ncpu s) (cpus s)"

definition held_by :: "'z machine_scheme \<Rightarrow> nat \<Rightarrow> lockid set" where
  "held_by s c = {l. locked (locks s l) \<and> lcpu (locks s l) = Some c}"

text \<open>
  Any processor may take or give back any lock at any moment. \<open>idle\<close> is the state \<^verbatim>\<open>main\<close> hands over:
  no lock is taken, no processor is inside \<^verbatim>\<open>pushcli\<close>, and no two processors share an entry.
\<close>

definition idle :: "machine \<Rightarrow> bool" where
  "idle s \<longleftrightarrow> (\<forall>l. \<not> locked (locks s l)) \<and> (\<forall>c < length (cpus s). ncli (cpus s ! c) = 0) \<and>
     (\<forall>p q c. cpu_of s p = Some c \<and> cpu_of s q = Some c \<longrightarrow> p = q)"

inductive lock_step :: "machine \<Rightarrow> machine \<Rightarrow> bool" where
  step_acquire: "acquire l (s\<lparr>this := p\<rparr>) = Ret () t \<Longrightarrow> lock_step s t"
| step_release: "release l (s\<lparr>this := p\<rparr>) = Ret () t \<Longrightarrow> lock_step s t"

inductive lock_reach :: "machine \<Rightarrow> bool" where
  reach_idle: "idle s \<Longrightarrow> lock_reach s"
| reach_step: "lock_reach s \<Longrightarrow> lock_step s t \<Longrightarrow> lock_reach t"

definition lock_inv :: "machine \<Rightarrow> bool" where
  "lock_inv s \<longleftrightarrow>
     (\<forall>p q c. cpu_of s p = Some c \<and> cpu_of s q = Some c \<longrightarrow> p = q) \<and>
     (\<forall>p c. cpu_of s p = Some c \<longrightarrow> finite (held_by s c) \<and>
        ncli (cpus s ! c) = int (card (held_by s c)) \<and> (held_by s c \<noteq> {} \<longrightarrow> \<not> if_flag s p))"

lemma pushcli_Ret_runs_on: "pushcli s = Ret u t \<Longrightarrow> \<exists>c. runs_on s c"
  by (auto simp: pushcli_def bindk_def thenk_def readeflags_IF_def getk_def cli_def modk_def
      mycpu_def lapicid_def panic_def stopk_def runs_on_def split: option.splits res.splits)

lemma acquire_Ret_runs_on: "acquire l s = Ret u t \<Longrightarrow> \<exists>c. runs_on s c"
  by (auto simp: acquire_def thenk_def bindk_def split: res.splits dest: pushcli_Ret_runs_on)

lemma release_Ret_runs_on: "release l s = Ret u t \<Longrightarrow> \<exists>c. runs_on s c"
  by (auto simp: release_def holding_def thenk_def bindk_def split: res.splits
      dest: pushcli_Ret_runs_on)

lemma this_frame [simp]:
  "cpu_of (s\<lparr>this := p\<rparr>) = cpu_of s" "held_by (s\<lparr>this := p\<rparr>) = held_by s"
  "runs_on (s\<lparr>this := p\<rparr>) c \<longleftrightarrow> cpu_of s p = Some c"
  by (simp_all add: cpu_of_def [abs_def] held_by_def [abs_def] runs_on_def)

lemma cpu_of_frame [simp]:
  "cpu_of (acquired l c s) = cpu_of s" "cpu_of (released l c s) = cpu_of s"
  by (simp_all add: cpu_of_def [abs_def] acquired_def released_def pushed_def popped_def upd_lock_def)

lemma lock_inv_idle: "idle s \<Longrightarrow> lock_inv s"
  using runs_on_length [of "s\<lparr>this := p\<rparr>" for p]
  by (auto simp: idle_def lock_inv_def held_by_def)

text \<open>A lock taken joins the locks of its processor; the others keep theirs.\<close>

lemma held_by_acquired:
  assumes "\<not> locked (locks s l)"
  shows "held_by (acquired l c s) d = (if d = c then insert l (held_by s d) else held_by s d)"
  using assms by (auto simp: held_by_def acquired_def upd_lock_def pushed_def)

lemma held_by_released:
  assumes "l \<in> held_by s c"
  shows "held_by (released l c s) d = (if d = c then held_by s d - {l} else held_by s d)"
  using assms by (auto simp: held_by_def released_def upd_lock_def popped_def)

lemma other_cpu:
  assumes "d \<noteq> c"
  shows "cpus (acquired l c s) ! d = cpus s ! d" and "cpus (released l c s) ! d = cpus s ! d"
  using assms by (simp_all add: acquired_def released_def pushed_def popped_def upd_lock_def)

text \<open>Releasing from outside every critical section finds that the lock is not held.\<close>

lemma release_none:
  assumes "cli_ok s c" and "\<not> (locked (locks s l) \<and> lcpu (locks s l) = Some c)"
  shows "release l s = Stop (Panic ''release'')"
proof -
  from assms(1) have r: "runs_on s c" and n: "0 \<le> ncli (cpus s ! c)" by (simp_all add: cli_ok_def)
  have my: "mycpu (pushed c s) = Ret c (pushed c s)" using r by (intro mycpu_eq) simp_all
  have pop: "popcli (pushed c s) = Ret () (popped c (pushed c s))"
    using r n by (intro popcli_eq) simp_all
  show ?thesis using assms(2) r
    by (auto simp: release_def holding_def thenk_def bindk_def pushcli_eq my getk_def pop retk_def
        panic_def stopk_def)
qed

text \<open>A step of one processor needs to be looked at on that processor only.\<close>

lemma lock_inv_local:
  assumes inv: "lock_inv s" and c: "cpu_of s p = Some c" and same: "cpu_of t = cpu_of s"
    and others: "\<And>d. d \<noteq> c \<Longrightarrow> held_by t d = held_by s d \<and> cpus t ! d = cpus s ! d"
    and flags: "\<And>q. q \<noteq> p \<Longrightarrow> if_flag t q = if_flag s q"
    and mine: "finite (held_by t c)" "ncli (cpus t ! c) = int (card (held_by t c))"
      "held_by t c \<noteq> {} \<longrightarrow> \<not> if_flag t p"
  shows "lock_inv t"
proof -
  have "finite (held_by t d) \<and> ncli (cpus t ! d) = int (card (held_by t d)) \<and>
      (held_by t d \<noteq> {} \<longrightarrow> \<not> if_flag t q)" if q: "cpu_of s q = Some d" for q d
  proof (cases "d = c")
    case True
    with q c inv have "q = p" by (auto simp: lock_inv_def)
    with True mine show ?thesis by simp
  next
    case False
    with q c have "q \<noteq> p" by auto
    with False q inv others [OF False] flags [of q] show ?thesis by (auto simp: lock_inv_def)
  qed
  with inv same show ?thesis by (auto simp: lock_inv_def)
qed

lemma lock_invD:
  assumes "lock_inv s" and "cpu_of s p = Some c"
  shows "finite (held_by s c)" "ncli (cpus s ! c) = int (card (held_by s c))"
    "held_by s c \<noteq> {} \<Longrightarrow> \<not> if_flag s p"
  using assms by (auto simp: lock_inv_def)

lemma lock_inv_acquire:
  assumes inv: "lock_inv s" and acq: "acquire l (s\<lparr>this := p\<rparr>) = Ret () t"
  shows "lock_inv t"
proof -
  let ?s = "s\<lparr>this := p\<rparr>"
  from acquire_Ret_runs_on [OF acq] obtain c where c: "cpu_of s p = Some c" by auto
  note h = lock_invD [OF inv c]
  have ok: "cli_ok ?s c" using c h by (auto simp: cli_ok_def card_gt_0_iff)
  from acq have free: "\<not> locked (locks s l)" and t: "t = acquired l c ?s"
    by (auto simp: acquire_eq [OF ok] split: if_splits)
  have nin: "l \<notin> held_by s c" using free by (simp add: held_by_def)
  show ?thesis
  proof (rule lock_inv_local [OF inv c])
    show "if_flag t q = if_flag s q" if "q \<noteq> p" for q
      using t that by (simp add: acquired_def pushed_def upd_lock_def)
    show "held_by t c \<noteq> {} \<longrightarrow> \<not> if_flag t p"
      using t cli_ok_acquired(2) [OF ok, of l] by simp
  qed (use t free h nin cli_ok_acquired(3) [OF ok, of l] in
      \<open>simp_all add: held_by_acquired other_cpu\<close>)
qed

lemma lock_inv_release:
  assumes inv: "lock_inv s" and rel: "release l (s\<lparr>this := p\<rparr>) = Ret () t"
  shows "lock_inv t"
proof -
  let ?s = "s\<lparr>this := p\<rparr>"
  from release_Ret_runs_on [OF rel] obtain c where c: "cpu_of s p = Some c" by auto
  note h = lock_invD [OF inv c]
  have pos: "held_by s c \<noteq> {} \<and> \<not> if_flag s p"
  proof (rule ccontr)
    assume "\<not> ?thesis"
    then have none: "held_by s c = {}" using h(3) by auto
    have ok: "cli_ok ?s c" using c h none by (auto simp: cli_ok_def)
    have "release l ?s = Stop (Panic ''release'')"
      using release_none [OF ok] none by (simp add: held_by_def)
    with rel show False by simp
  qed
  then have n: "0 < ncli (cpus s ! c)" using h by (simp add: card_gt_0_iff)
  from rel pos n c have mem: "l \<in> held_by s c" and t: "t = released l c ?s"
    by (auto simp: release_eq [of ?s c] held_by_def split: if_splits)
  have run: "runs_on ?s c" using c by simp
  show ?thesis
  proof (rule lock_inv_local [OF inv c])
    show "if_flag t q = if_flag s q" if "q \<noteq> p" for q
      using t that released_props(5) [OF run, of l] by simp
    show "held_by t c \<noteq> {} \<longrightarrow> \<not> if_flag t p"
      using t mem h released_props(5) [OF run, of l] by (auto simp: held_by_released card_1_singleton_iff)
  qed (use t mem h n released_props(4) [OF run, of l] in
      \<open>simp_all add: held_by_released other_cpu of_nat_diff\<close>)
qed

lemma lock_reach_inv: "lock_reach s \<Longrightarrow> lock_inv s"
proof (induction rule: lock_reach.induct)
  case (reach_idle s)
  then show ?case by (rule lock_inv_idle)
next
  case (reach_step s t)
  from reach_step.hyps(2) reach_step.IH show ?case
    by (auto elim!: lock_step.cases intro: lock_inv_acquire lock_inv_release)
qed

text \<open>A machine with two processors, used by the witnesses.\<close>

definition cpu0 :: cpu where
  "cpu0 = \<lparr>apicid = 0, started = 1, ncli = 0, intena = False, cproc = None\<rparr>"

definition free_lock :: spinlock where
  "free_lock = \<lparr>locked = False, lname = [], lcpu = None\<rparr>"

definition two_cpus :: machine where
  "two_cpus = \<lparr>this = 0, lapic_id = (\<lambda>p. if p = 0 then 0 else if p = 1 then 1 else 255),
     if_flag = (\<lambda>_. True), ncpu = 2, cpus = [cpu0, cpu0\<lparr>apicid := 1\<rparr>], locks = (\<lambda>_. free_lock)\<rparr>"

lemma two_cpus_idle: "idle two_cpus"
proof -
  have "cpu_of two_cpus p = (if p = 0 then Some 0 else if p = 1 then Some 1 else None)" for p
    by (simp add: cpu_of_def two_cpus_def find_cpu_def cpu0_def)
  then show ?thesis
    by (auto simp: idle_def two_cpus_def free_lock_def cpu0_def less_Suc_eq split: if_splits)
qed

lemma two_cpus_free: "lock_free l 0 two_cpus"
  by (simp add: lock_free_def cli_ok_def runs_on_def two_cpus_def find_cpu_def cpu0_def free_lock_def)

section \<open>Properties\<close>

text \<open>
  C15. Interrupts and locks: in every state that any sequence of \<^verbatim>\<open>acquire\<close> and \<^verbatim>\<open>release\<close> calls by any
  processors can reach, \<^verbatim>\<open>ncli\<close> of a processor is the number of locks it holds, and a processor that
  holds a lock has its interrupts off, so no interrupt handler of its own can spin on that lock.
\<close>

theorem held_locks_counted:
  assumes "lock_reach s" and "cpu_of s p = Some c"
  shows "ncli (cpus s ! c) = int (card (held_by s c)) \<and> (held_by s c \<noteq> {} \<longrightarrow> \<not> if_flag s p)"
  using lock_invD [OF lock_reach_inv [OF assms(1)] assms(2)] by auto

theorem held_locks_counted_witness:
  "\<exists>s. lock_reach s \<and> cpu_of s 0 = Some 0 \<and> held_by s 0 = {PtableLock} \<and>
     ncli (cpus s ! 0) = 1 \<and> \<not> if_flag s 0"
proof -
  let ?s = "acquired PtableLock 0 two_cpus"
  have this0: "two_cpus\<lparr>this := 0\<rparr> = two_cpus" by (simp add: two_cpus_def)
  have "acquire PtableLock two_cpus = Ret () ?s"
    using two_cpus_free [of PtableLock] acquire_eq [of two_cpus 0 PtableLock]
    by (simp add: lock_free_def)
  then have "lock_step two_cpus ?s"
    using lock_step.step_acquire [of PtableLock 0 two_cpus ?s] this0 by simp
  then have r: "lock_reach ?s"
    using lock_reach.intros two_cpus_idle by blast
  have c: "cpu_of ?s 0 = Some 0"
    by (simp add: cpu_of_def two_cpus_def find_cpu_def cpu0_def)
  have "held_by ?s 0 = {PtableLock}"
    using held_by_acquired [of two_cpus PtableLock 0 0]
    by (simp add: two_cpus_def free_lock_def held_by_def)
  with r c held_locks_counted [OF r c] show ?thesis by auto
qed

text \<open>
  C27. \<^verbatim>\<open>acquire\<close> on every branch: it panics when this processor has the lock already, waits for ever
  when another has it, and otherwise returns with the lock held by this processor, interrupts off
  and one more level of nesting; the \<^verbatim>\<open>release\<close> that follows frees the lock and brings back the
  nesting depth and the interrupt flag of before.
\<close>

theorem acquire_release:
  assumes "cli_ok s c"
  shows "(locked (locks s l) \<longrightarrow> acquire l s =
      (if lcpu (locks s l) = Some c then Stop (Panic ''acquire'') else Stop (Spin ''acquire''))) \<and>
    (\<not> locked (locks s l) \<longrightarrow>
      (\<exists>t u. acquire l s = Ret () t \<and> lock_held l c t \<and> ncli (cpus t ! c) = ncli (cpus s ! c) + 1 \<and>
         release l t = Ret () u \<and> \<not> locked (locks u l) \<and> if_flag u = if_flag s \<and>
         ncli (cpus u ! c) = ncli (cpus s ! c)))"
proof (intro conjI impI)
  assume "locked (locks s l)"
  then show "acquire l s =
      (if lcpu (locks s l) = Some c then Stop (Panic ''acquire'') else Stop (Spin ''acquire''))"
    by (simp add: acquire_eq [OF assms])
next
  assume free: "\<not> locked (locks s l)"
  let ?t = "acquired l c s"
  have acq: "acquire l s = Ret () ?t" using free by (simp add: acquire_eq [OF assms])
  have held: "lock_held l c ?t" using assms free by (simp add: lock_held_acquired lock_free_def)
  then have rel: "release l ?t = Ret () (released l c ?t)"
    using release_eq [of ?t c l] by (simp add: lock_held_def)
  have run: "runs_on ?t c" using held by (simp add: lock_held_def)
  have "if_flag (released l c ?t) = if_flag s"
    using push_pop_flag(1) [OF assms]
    by (simp add: released_def acquired_def upd_lock_def popped_def)
  then show "\<exists>t u. acquire l s = Ret () t \<and> lock_held l c t \<and> ncli (cpus t ! c) = ncli (cpus s ! c) + 1 \<and>
      release l t = Ret () u \<and> \<not> locked (locks u l) \<and> if_flag u = if_flag s \<and>
      ncli (cpus u ! c) = ncli (cpus s ! c)"
    using acq held rel released_props [OF run, of l] cli_ok_acquired [OF assms, of l] by auto
qed

theorem acquire_release_witness:
  "\<exists>t u. acquire KmemLock two_cpus = Ret () t \<and> lock_held KmemLock 0 t \<and> release KmemLock t = Ret () u \<and>
     if_flag u = if_flag two_cpus"
  using acquire_release [of two_cpus 0 KmemLock] two_cpus_free [of KmemLock]
  by (auto simp: lock_free_def)

end
