(* ===== verification/Kalloc.thy ===== *)
theory Kalloc
  imports Spinlocks Kmemory
begin

text \<open>
  The physical page allocator, \<^verbatim>\<open>kalloc.c\<close>: \<^verbatim>\<open>kinit1\<close>, \<^verbatim>\<open>kinit2\<close>, \<^verbatim>\<open>freerange\<close>, \<^verbatim>\<open>kfree\<close>, \<^verbatim>\<open>kalloc\<close>.

  The layer adds to the kernel state the memory itself, the flag and head of the free list of
  \<^verbatim>\<open>struct kmem\<close>, and the linker symbols \<^verbatim>\<open>end\<close> and \<^verbatim>\<open>data\<close>. The free list is threaded through the free pages: the
  first word of a free page is the address of the next one.

  Shown: the list is a chain of distinct, aligned pages of allocatable memory, and every operation
  keeps it one; \<^verbatim>\<open>kalloc\<close> takes the head or reports exhaustion; \<^verbatim>\<open>kfree\<close> panics on every address that
  is not such a page; a page is never handed out twice.
\<close>

record kmem = machine +
  use_lock :: bool
  freelist :: uint
  kmemory :: mem
  kend :: uint
  kdata :: uint

abbreviation KERNBASE :: uint where "KERNBASE \<equiv> 0x80000000"
abbreviation PHYSTOP :: uint where "PHYSTOP \<equiv> 0xE000000"
abbreviation PGSIZE :: uint where "PGSIZE \<equiv> 4096"

definition V2P :: "uint \<Rightarrow> uint" where
  "V2P a = a - KERNBASE"

definition P2V :: "uint \<Rightarrow> uint" where
  "P2V a = a + KERNBASE"

definition PGROUNDUP :: "uint \<Rightarrow> uint" where
  "PGROUNDUP sz = (sz + PGSIZE - 1) AND NOT (PGSIZE - 1)"

definition PGROUNDDOWN :: "uint \<Rightarrow> uint" where
  "PGROUNDDOWN a = a AND NOT (PGSIZE - 1)"

definition kfree :: "uint \<Rightarrow> ('z kmem_scheme, unit) kop" where
  "kfree v =
     bindk (getk kend) (\<lambda>end.
     if v mod PGSIZE \<noteq> 0 \<or> v < end \<or> V2P v \<ge> PHYSTOP then panic ''kfree''
     else thenk (modk (\<lambda>s. s\<lparr>kmemory := memset (kmemory s) v 1 4096\<rparr>))
       (bindk (getk use_lock) (\<lambda>ul.
        thenk (whenk ul (acquire KmemLock))
        (thenk (modk (\<lambda>s. s\<lparr>kmemory := store32 (kmemory s) v (freelist s)\<rparr>))
        (thenk (modk (\<lambda>s. s\<lparr>freelist := v\<rparr>))
        (whenk ul (release KmemLock)))))))"

definition kalloc :: "('z kmem_scheme, uint) kop" where
  "kalloc =
     bindk (getk use_lock) (\<lambda>ul.
     thenk (whenk ul (acquire KmemLock))
     (bindk (getk freelist) (\<lambda>r.
      thenk (whenk (r \<noteq> 0) (modk (\<lambda>s. s\<lparr>freelist := load32 (kmemory s) r\<rparr>)))
      (thenk (whenk ul (release KmemLock)) (retk r)))))"

text \<open>
  The loop of \<^verbatim>\<open>freerange\<close>, with one unit of fuel per page; \<open>freerange_fuel\<close> below shows that the
  fuel given is enough.
\<close>

fun freerange_loop :: "nat \<Rightarrow> uint \<Rightarrow> uint \<Rightarrow> ('z kmem_scheme, unit) kop" where
  "freerange_loop 0 p vend = stopk (Fault ''fuel'')"
| "freerange_loop (Suc n) p vend =
     (if p + PGSIZE \<le> vend then thenk (kfree p) (freerange_loop n (p + PGSIZE) vend) else retk ())"

definition freerange :: "uint \<Rightarrow> uint \<Rightarrow> ('z kmem_scheme, unit) kop" where
  "freerange vstart vend =
     (let p = PGROUNDUP vstart in freerange_loop (Suc (unat (vend - p) div 4096)) p vend)"

definition kinit1 :: "uint \<Rightarrow> uint \<Rightarrow> ('z kmem_scheme, unit) kop" where
  "kinit1 vstart vend =
     thenk (initlock KmemLock ''kmem'')
     (thenk (modk (\<lambda>s. s\<lparr>use_lock := False\<rparr>)) (freerange vstart vend))"

definition kinit2 :: "uint \<Rightarrow> uint \<Rightarrow> ('z kmem_scheme, unit) kop" where
  "kinit2 vstart vend = thenk (freerange vstart vend) (modk (\<lambda>s. s\<lparr>use_lock := True\<rparr>))"

section \<open>The free list\<close>

primrec chain :: "mem \<Rightarrow> uint \<Rightarrow> uint list \<Rightarrow> bool" where
  "chain m p [] \<longleftrightarrow> p = 0"
| "chain m p (x # xs) \<longleftrightarrow> p = x \<and> x \<noteq> 0 \<and> chain m (load32 m x) xs"

definition page_ok :: "'z kmem_scheme \<Rightarrow> uint \<Rightarrow> bool" where
  "page_ok s v \<longleftrightarrow> v mod PGSIZE = 0 \<and> kend s \<le> v \<and> V2P v < PHYSTOP"

definition kmem_inv :: "'z kmem_scheme \<Rightarrow> uint list \<Rightarrow> bool" where
  "kmem_inv s xs \<longleftrightarrow> chain (kmemory s) (freelist s) xs \<and> distinct xs \<and> (\<forall>x\<in>set xs. page_ok s x)"

text \<open>The caller may take the lock, where it is used at all.\<close>

definition kready :: "nat \<Rightarrow> 'z kmem_scheme \<Rightarrow> bool" where
  "kready c s \<longleftrightarrow> (use_lock s \<longrightarrow> lock_free KmemLock c s)"

lemma page_ok_ne0: "page_ok s v \<Longrightarrow> v \<noteq> 0"
  by (auto simp: page_ok_def V2P_def)

definition page_of :: "uint \<Rightarrow> uint set" where
  "page_of v = {x. unat (x - v) < 4096}"

lemma word_page: "x mod PGSIZE = 0 \<Longrightarrow> 4096 dvd unat x" for x :: uint
proof -
  assume "x mod PGSIZE = 0"
  then have "unat x mod unat PGSIZE = 0" by (metis unat_0 unat_mod)
  then have "unat PGSIZE dvd unat x" by (rule mod_0_imp_dvd)
  then show ?thesis by simp
qed

text \<open>The bytes of a page share its page number.\<close>

lemma page_of_div:
  assumes "v mod PGSIZE = 0" and "x \<in> page_of v"
  shows "unat x div 4096 = unat v div 4096"
proof -
  obtain b where b: "unat v = 4096 * b" using word_page [OF assms(1)] by (auto elim!: dvdE)
  have "unat v < 2 ^ 32" using unsigned_less [of v] by simp
  with b have "b < 2 ^ 20" by simp
  with b have room: "unat v + unat (x - v) < 2 ^ 32" using assms(2) by (simp add: page_of_def)
  have "v + of_nat (unat (x - v)) = x" by simp
  with unat_add_of_nat [OF room] have "unat x = unat v + unat (x - v)" by metis
  with b assms(2) show ?thesis by (simp add: page_of_def)
qed

lemma pages_disjoint:
  assumes "u mod PGSIZE = 0" and "v mod PGSIZE = 0" and "u \<noteq> v"
  shows "page_of u \<inter> page_of v = {}"
proof -
  obtain a b where "unat u = 4096 * a" "unat v = 4096 * b"
    using word_page [OF assms(1)] word_page [OF assms(2)] by (auto elim!: dvdE)
  moreover from this assms(3) have "a \<noteq> b" by (auto simp: word_unat_eq_iff)
  ultimately have "unat u div 4096 \<noteq> unat v div 4096" by simp
  then have "x \<notin> page_of v" if "x \<in> page_of u" for x
    using page_of_div [OF assms(1) that] page_of_div [OF assms(2), of x] by auto
  then show ?thesis by auto
qed

lemma bytes4_page: "bytes4 v \<subseteq> page_of v"
  by (auto simp: bytes4_def page_of_def)

lemma memset_page: "x \<notin> page_of v \<Longrightarrow> memset m v d 4096 x = m x"
  by (simp add: memset_eq page_of_def)

lemma chain_cong:
  assumes "\<And>x a. x \<in> set xs \<Longrightarrow> a \<in> page_of x \<Longrightarrow> m' a = m a"
  shows "chain m' p xs = chain m p xs"
  using assms
proof (induction xs arbitrary: p)
  case Nil
  then show ?case by simp
next
  case (Cons x xs)
  have "load32 m' x = load32 m x"
    using Cons.prems bytes4_page by (intro load32_cong) auto
  moreover have "chain m' (load32 m x) xs = chain m (load32 m x) xs"
    using Cons.prems by (intro Cons.IH) auto
  ultimately show ?case by simp
qed

lemma kready_frame [simp]:
  "kready c (s\<lparr>kmemory := m\<rparr>) = kready c s" "kready c (s\<lparr>freelist := f\<rparr>) = kready c s"
  by (simp_all add: kready_def lock_free_def cli_ok_def runs_on_def)

section \<open>What the operations do\<close>

lemma kalloc_eq:
  assumes inv: "kmem_inv s xs" and ready: "kready c s"
  shows "\<exists>t. kalloc s = Ret (case xs of [] \<Rightarrow> 0 | x # _ \<Rightarrow> x) t \<and> kmem_inv t (tl xs) \<and> kready c t \<and>
     kmemory t = kmemory s \<and> kend t = kend s \<and> use_lock t = use_lock s \<and> kmem.more t = kmem.more s"
proof -
  have r: "freelist s = (case xs of [] \<Rightarrow> 0 | x # _ \<Rightarrow> x)"
    and nx: "xs \<noteq> [] \<Longrightarrow> freelist s \<noteq> 0 \<and> chain (kmemory s) (load32 (kmemory s) (freelist s)) (tl xs)"
    using inv by (cases xs; auto simp: kmem_inv_def)+
  define g where "g u = (if freelist u \<noteq> 0 then u\<lparr>freelist := load32 (kmemory u) (freelist u)\<rparr> else u)"
    for u :: "'a kmem_scheme"
  have keep: "kmem_inv u (tl xs)" if "freelist u = freelist (g s)" "kmemory u = kmemory s" "kend u = kend s"
    for u :: "'a kmem_scheme"
    using inv nx r that
    by (cases xs) (auto simp: kmem_inv_def g_def page_ok_def)
  show ?thesis
  proof (cases "use_lock s")
    case False
    then have "kalloc s = Ret (freelist s) (g s)"
      by (auto simp: kalloc_def thenk_def bindk_def getk_def modk_def whenk_def retk_def g_def)
    with keep [of "g s"] r False ready show ?thesis by (auto simp: g_def kready_def)
  next
    case True
    with ready have free: "lock_free KmemLock c s" by (simp add: kready_def)
    let ?a = "acquired KmemLock c s"
    have acq: "acquire KmemLock s = Ret () ?a"
      using free acquire_eq [of s c KmemLock] by (simp add: lock_free_def)
    have same: "freelist ?a = freelist s" "kmemory ?a = kmemory s" "kend ?a = kend s"
      "use_lock ?a = use_lock s" "kmem.more ?a = kmem.more s"
      by (simp_all add: acquired_def upd_lock_def pushed_def)
    have held: "lock_held KmemLock c (g ?a)"
      using lock_held_acquired [OF free] by (simp add: g_def lock_held_def runs_on_def)
    then have rel: "release KmemLock (g ?a) = Ret () (released KmemLock c (g ?a))"
      using release_eq [of "g ?a" c KmemLock] by (simp add: lock_held_def)
    let ?t = "released KmemLock c (g ?a)"
    have "kalloc s = Ret (freelist s) ?t"
      using True acq rel same
      by (auto simp: kalloc_def thenk_def bindk_def getk_def modk_def whenk_def retk_def g_def)
    moreover have "freelist ?t = freelist (g s)" "kmemory ?t = kmemory s" "kend ?t = kend s"
      "use_lock ?t = use_lock s" "kmem.more ?t = kmem.more s"
      using same by (simp_all add: released_def upd_lock_def popped_def g_def)
    moreover have "lock_free KmemLock c ?t" using held by (rule lock_free_released)
    ultimately show ?thesis using keep [of ?t] r by (auto simp: kready_def)
  qed
qed

lemma mach_eq_kmem:
  assumes "mach_eq s t"
  shows "freelist t = freelist s" "kmemory t = kmemory s" "kend t = kend s" "use_lock t = use_lock s"
    "kmem.more t = kmem.more s"
proof -
  have t: "t = s\<lparr>cpus := cpus t, locks := locks t, if_flag := if_flag t\<rparr>"
    using assms by (simp only: mach_eq_def)
  show "freelist t = freelist s" "kmemory t = kmemory s" "kend t = kend s" "use_lock t = use_lock s"
    "kmem.more t = kmem.more s"
    by (subst t, simp)+
qed

lemma mach_eq_acquired: "mach_eq s (acquired l c s)"
  by (simp add: mach_eq_def acquired_def upd_lock_def pushed_def)

lemma mach_eq_released: "mach_eq s (released l c s)"
  by (simp add: mach_eq_def released_def upd_lock_def popped_def)

text \<open>An update of the list under the lock, or without it before \<^verbatim>\<open>kinit2\<close>.\<close>

lemma kmem_section:
  assumes ready: "kready c s"
    and keeps: "\<And>u. use_lock (f u) = use_lock u" "\<And>u. lock_held KmemLock c u \<Longrightarrow> lock_held KmemLock c (f u)"
  shows "\<exists>a t. thenk (whenk (use_lock s) (acquire KmemLock))
      (thenk (modk f) (whenk (use_lock s) (release KmemLock))) s = Ret () t \<and>
      kready c t \<and> mach_eq s a \<and> mach_eq (f a) t"
proof (cases "use_lock s")
  case False
  then show ?thesis using keeps(1) [of s]
    by (intro exI [of _ s] exI [of _ "f s"])
       (simp add: thenk_def bindk_def whenk_def retk_def modk_def kready_def)
next
  case True
  with ready have free: "lock_free KmemLock c s" by (simp add: kready_def)
  let ?a = "acquired KmemLock c s"
  let ?t = "released KmemLock c (f ?a)"
  have held: "lock_held KmemLock c (f ?a)" using lock_held_acquired [OF free] by (rule keeps(2))
  then have "release KmemLock (f ?a) = Ret () ?t"
    using release_eq [of "f ?a" c KmemLock] by (simp add: lock_held_def)
  moreover have "acquire KmemLock s = Ret () ?a"
    using free acquire_eq [of s c KmemLock] by (simp add: lock_free_def)
  moreover have "kready c ?t" using lock_free_released [OF held] by (simp add: kready_def)
  ultimately show ?thesis using True mach_eq_acquired [of s KmemLock c] mach_eq_released [of "f ?a" KmemLock c]
    by (intro exI [of _ ?a] exI [of _ ?t]) (simp add: thenk_def bindk_def whenk_def modk_def)
qed

lemma lock_held_kmem [simp]:
  "lock_held l c (s\<lparr>kmemory := m\<rparr>) = lock_held l c s" "lock_held l c (s\<lparr>freelist := f\<rparr>) = lock_held l c s"
  by (simp_all add: lock_held_def runs_on_def)

lemma kfree_eq:
  assumes inv: "kmem_inv s xs" and ready: "kready c s" and ok: "page_ok s v" and new: "v \<notin> set xs"
  shows "\<exists>t. kfree v s = Ret () t \<and> kmem_inv t (v # xs) \<and> kready c t \<and>
     kmemory t = store32 (memset (kmemory s) v 1 4096) v (freelist s) \<and>
     kend t = kend s \<and> use_lock t = use_lock s \<and> kmem.more t = kmem.more s"
proof -
  let ?s = "s\<lparr>kmemory := memset (kmemory s) v 1 4096\<rparr>"
  let ?f = "\<lambda>u. u\<lparr>kmemory := store32 (kmemory u) v (freelist u), freelist := v\<rparr>"
  obtain a t where t: "thenk (whenk (use_lock ?s) (acquire KmemLock))
      (thenk (modk ?f) (whenk (use_lock ?s) (release KmemLock))) ?s = Ret () t"
    and r: "kready c t" and sa: "mach_eq ?s a" and ft: "mach_eq (?f a) t"
    using kmem_section [of c ?s ?f] ready by auto
  have "kfree v s = Ret () t"
    using ok t by (auto simp: page_ok_def kfree_def thenk_def bindk_def getk_def modk_def not_le
        split: res.splits)
  moreover have fields: "freelist t = v" "kmemory t = store32 (memset (kmemory s) v 1 4096) v (freelist s)"
      "kend t = kend s" "use_lock t = use_lock s" "kmem.more t = kmem.more s"
    using mach_eq_kmem [OF sa] mach_eq_kmem [OF ft] by simp_all
  moreover have "kmem_inv t (v # xs)"
  proof -
    have pages: "\<forall>x\<in>set (v # xs). page_ok s x" using inv ok by (simp add: kmem_inv_def)
    have "kmemory t a = kmemory s a" if "x \<in> set xs" "a \<in> page_of x" for x a
    proof -
      have "page_of x \<inter> page_of v = {}"
        using pages that(1) new by (intro pages_disjoint) (auto simp: page_ok_def)
      then have a: "a \<notin> page_of v" using that(2) by auto
      then have "a \<notin> bytes4 v" using bytes4_page [of v] by auto
      with a show ?thesis using fields(2) by (simp add: store32_outside memset_page)
    qed
    then have "chain (kmemory t) (freelist s) xs"
      using inv chain_cong [of xs "kmemory t" "kmemory s"] by (simp add: kmem_inv_def)
    then show ?thesis using inv pages new fields page_ok_ne0 [OF ok]
      by (simp add: kmem_inv_def page_ok_def)
  qed
  ultimately show ?thesis using r by blast
qed

lemma kfree_bad: "\<not> page_ok s v \<Longrightarrow> kfree v s = Stop (Panic ''kfree'')"
proof -
  assume "\<not> page_ok s v"
  then have "v mod PGSIZE \<noteq> 0 \<or> v < kend s \<or> PHYSTOP \<le> V2P v"
    unfolding page_ok_def by (simp only: de_Morgan_conj not_less not_le)
  then show ?thesis by (simp only: kfree_def bindk_def getk_def res.case if_True panic_def stopk_def)
qed

section \<open>Rounding to pages\<close>

lemma page_mask: "w AND NOT (PGSIZE - 1) = push_bit 12 (drop_bit 12 w)" for w :: uint
proof -
  have m: "(PGSIZE - 1 :: uint) = mask 12" by (simp add: mask_eq_exp_minus_1)
  show ?thesis unfolding m by (rule bit_word_eqI) (auto simp: bit_simps)
qed

lemma unat_PGROUNDDOWN: "unat (PGROUNDDOWN a) = unat a div 4096 * 4096"
proof -
  have d: "unat (drop_bit 12 a) = unat a div 4096"
    by (simp add: drop_bit_eq_div unat_div)
  have "unat a < 2 ^ 32" using unsigned_less [of a] by simp
  then have "unat a div 4096 * 4096 < 2 ^ 32" by simp
  then have "unat (drop_bit 12 a * 4096) = unat a div 4096 * 4096"
    using d by (simp add: unat_word_ariths)
  then show ?thesis unfolding PGROUNDDOWN_def page_mask push_bit_eq_mult by simp
qed

lemma PGROUNDUP_DOWN: "PGROUNDUP a = PGROUNDDOWN (a + 4095)"
  by (simp add: PGROUNDUP_def PGROUNDDOWN_def add.commute)

lemma unat_PGROUNDUP:
  assumes "unat a + 4095 < 2 ^ 32"
  shows "unat (PGROUNDUP a) = (unat a + 4095) div 4096 * 4096"
proof -
  have "unat (a + 4095) = unat a + 4095"
    using assms unat_add_of_nat [of a 4095] by simp
  then show ?thesis by (simp add: PGROUNDUP_DOWN unat_PGROUNDDOWN)
qed

definition range_pages :: "uint \<Rightarrow> nat \<Rightarrow> uint list" where
  "range_pages p n = map (\<lambda>i. p + of_nat (4096 * i)) [0..<n]"

lemma range_pages_Suc: "range_pages p (Suc n) = p # range_pages (p + 4096) n"
proof -
  have "map (\<lambda>i. p + of_nat (4096 * i)) (map Suc [0..<n]) = map (\<lambda>i. p + 4096 + of_nat (4096 * i)) [0..<n]"
    by (simp add: add.assoc)
  then show ?thesis
    unfolding range_pages_def by (simp only: upt_rec [of 0 "Suc n"] map_Suc_upt) simp
qed

lemma freerange_loop_eq:
  assumes "unat p + 4096 * n \<le> unat vend" and "unat vend < unat p + 4096 * Suc n"
    and "unat vend + 4096 < 2 ^ 32"
    and "kmem_inv s xs" and "kready c s"
    and "\<forall>x\<in>set (range_pages p n). page_ok s x" and "distinct (range_pages p n)"
    and "set (range_pages p n) \<inter> set xs = {}"
  shows "\<exists>t. freerange_loop (Suc n) p vend s = Ret () t \<and> kmem_inv t (rev (range_pages p n) @ xs) \<and>
     kready c t \<and> kend t = kend s \<and> kmem.more t = kmem.more s"
  using assms
proof (induction n arbitrary: p s xs)
  case 0
  have "unat (p + 4096) = unat p + 4096" using 0 unat_add_of_nat [of p 4096] by simp
  with 0 have "\<not> p + 4096 \<le> vend" by (simp add: word_le_nat_alt)
  with 0 show ?case by (simp add: retk_def range_pages_def)
next
  case (Suc n)
  have next_p: "unat (p + 4096) = unat p + 4096" using Suc.prems unat_add_of_nat [of p 4096] by simp
  then have go: "p + 4096 \<le> vend" using Suc.prems(1) by (simp add: word_le_nat_alt)
  have ok: "page_ok s p" and new: "p \<notin> set xs" and fresh: "p \<notin> set (range_pages (p + 4096) n)"
    using Suc.prems(6,7,8) by (auto simp: range_pages_Suc)
  obtain t where t: "kfree p s = Ret () t" "kmem_inv t (p # xs)" "kready c t" "kend t = kend s"
      "kmem.more t = kmem.more s"
    using kfree_eq [OF Suc.prems(4,5) ok new] by blast
  have "\<exists>u. freerange_loop (Suc n) (p + 4096) vend t = Ret () u \<and>
      kmem_inv u (rev (range_pages (p + 4096) n) @ p # xs) \<and> kready c u \<and> kend u = kend t \<and>
      kmem.more u = kmem.more t"
    using Suc.prems t next_p fresh
    by (intro Suc.IH) (auto simp: range_pages_Suc page_ok_def)
  then show ?case using go t by (auto simp: thenk_def bindk_def range_pages_Suc)
qed

section \<open>The contract of a page allocator\<close>

text \<open>
  What the users of pages rely on: \<open>inv s xs\<close> says which pages are free, an allocation takes one of
  them (or 0 when there is none), a page given back is free again.
\<close>

locale page_allocator =
  fixes alloc :: "('s, 'p) kop" and free :: "'p \<Rightarrow> ('s, unit) kop"
    and inv :: "'s \<Rightarrow> 'p list \<Rightarrow> bool" and ok :: "'s \<Rightarrow> 'p \<Rightarrow> bool" and null :: 'p
  assumes inv_distinct: "inv s xs \<Longrightarrow> distinct xs"
    and inv_ok: "inv s xs \<Longrightarrow> x \<in> set xs \<Longrightarrow> ok s x \<and> x \<noteq> null"
    and alloc_none: "inv s [] \<Longrightarrow> \<exists>t. alloc s = Ret null t \<and> inv t []"
    and alloc_some: "inv s (x # xs) \<Longrightarrow> \<exists>t. alloc s = Ret x t \<and> inv t xs \<and> (\<forall>y. ok t y = ok s y)"
    and free_ok: "inv s xs \<Longrightarrow> ok s x \<Longrightarrow> x \<notin> set xs \<Longrightarrow>
      \<exists>t. free x s = Ret () t \<and> inv t (x # xs) \<and> (\<forall>y. ok t y = ok s y)"
begin

lemma alloc_result:
  assumes "inv s xs"
  obtains r t where "alloc s = Ret r t" and "inv t (tl xs)" and "r = null \<longleftrightarrow> xs = []"
    and "xs \<noteq> [] \<longrightarrow> r = hd xs"
proof (cases xs)
  case Nil
  with assms alloc_none [of s] that show ?thesis by auto
next
  case (Cons x ys)
  with assms alloc_some [of s x ys] inv_ok [of s xs x] that show ?thesis by auto
qed

lemma two_allocs_differ:
  assumes "inv s xs" and "alloc s = Ret p t" and "alloc t = Ret q u" and "q \<noteq> null"
  shows "p \<noteq> null \<and> p \<noteq> q"
proof -
  obtain r t' where r: "alloc s = Ret r t'" "inv t' (tl xs)" "r = null \<longleftrightarrow> xs = []"
    "xs \<noteq> [] \<longrightarrow> r = hd xs" using alloc_result [OF assms(1)] by blast
  obtain r2 u' where r2: "alloc t' = Ret r2 u'" "r2 = null \<longleftrightarrow> tl xs = []"
    "tl xs \<noteq> [] \<longrightarrow> r2 = hd (tl xs)" using alloc_result [OF r(2)] by blast
  from assms r r2 have q: "tl xs \<noteq> []" "q = hd (tl xs)" "p = hd xs" "xs \<noteq> []" by auto
  then obtain a b zs where "xs = a # b # zs" by (cases xs; cases "tl xs") auto
  with inv_distinct [OF assms(1)] q r(1,3) assms(2) show ?thesis by auto
qed

lemma alloc_free_alloc:
  assumes "inv s xs" and "alloc s = Ret p t" and "p \<noteq> null"
  shows "\<exists>u v. free p t = Ret () u \<and> alloc u = Ret p v \<and> inv v (tl xs)"
proof -
  obtain r t' where r: "alloc s = Ret r t'" "inv t' (tl xs)" "r = null \<longleftrightarrow> xs = []"
    "xs \<noteq> [] \<longrightarrow> r = hd xs" using alloc_result [OF assms(1)] by blast
  with assms have t: "inv t (tl xs)" "xs \<noteq> []" "p = hd xs" by auto
  then obtain ys where xs: "xs = p # ys" by (cases xs) auto
  have "ok t p" using alloc_some [of s p ys] inv_ok [OF assms(1), of p] assms(1,2) xs by auto
  moreover have "p \<notin> set (tl xs)" using inv_distinct [OF assms(1)] xs by simp
  ultimately obtain u where "free p t = Ret () u" "inv u (p # tl xs)" using free_ok [OF t(1)] by blast
  moreover from this(2) obtain v where "alloc u = Ret p v" "inv v (tl xs)" using alloc_some by blast
  ultimately show ?thesis by blast
qed

end

interpretation pages: page_allocator kalloc kfree "\<lambda>s xs. kmem_inv s xs \<and> kready c s" page_ok 0
  for c
proof
  fix s :: "'z kmem_scheme" and xs x
  show "distinct xs" if "kmem_inv s xs \<and> kready c s" using that by (simp add: kmem_inv_def)
  show "page_ok s x \<and> x \<noteq> 0" if "kmem_inv s xs \<and> kready c s" "x \<in> set xs"
    using that page_ok_ne0 by (auto simp: kmem_inv_def)
  show "\<exists>t. kalloc s = Ret 0 t \<and> kmem_inv t [] \<and> kready c t" if "kmem_inv s [] \<and> kready c s"
    using that kalloc_eq [of s "[]" c] by auto
  show "\<exists>t. kalloc s = Ret x t \<and> (kmem_inv t xs \<and> kready c t) \<and> (\<forall>y. page_ok t y = page_ok s y)"
    if "kmem_inv s (x # xs) \<and> kready c s"
    using that kalloc_eq [of s "x # xs" c] by (auto simp: page_ok_def)
  show "\<exists>t. kfree x s = Ret () t \<and> (kmem_inv t (x # xs) \<and> kready c t) \<and> (\<forall>y. page_ok t y = page_ok s y)"
    if "kmem_inv s xs \<and> kready c s" "page_ok s x" "x \<notin> set xs"
    using that kfree_eq [of s xs c x] by (auto simp: page_ok_def)
qed

lemma distinct_range_pages:
  assumes "unat p + 4096 * n \<le> 2 ^ 32"
  shows "distinct (range_pages p n)"
proof -
  have "unat (p + of_nat (4096 * i)) = unat p + 4096 * i" if "i < n" for i
    using assms that unat_add_of_nat [of p "4096 * i"] by simp
  then have "inj_on (\<lambda>i. p + of_nat (4096 * i)) (set [0..<n])"
    by (intro inj_onI) (metis add_left_cancel atLeastLessThan_iff mult_left_cancel set_upt zero_neq_numeral)
  then show ?thesis unfolding range_pages_def by (simp add: distinct_map)
qed

text \<open>An empty allocator, used by the witnesses.\<close>

definition demo_kmem :: kmem where
  "demo_kmem = machine.extend two_cpus
     \<lparr>use_lock = True, freelist = 0, kmemory = (\<lambda>_. 0), kend = 0x80200000,
       kdata = 0x80108000\<rparr>"

lemma demo_kmem_inv: "kmem_inv demo_kmem []" "kready 0 demo_kmem" "kend demo_kmem = 0x80200000"
  by (simp_all add: kmem_inv_def kready_def demo_kmem_def machine.defs lock_free_def cli_ok_def
      runs_on_def two_cpus_def find_cpu_def cpu0_def free_lock_def)

section \<open>Properties\<close>

text \<open>
  C16. A page is never handed out twice: as long as the free list is well formed, two allocations in
  a row that succeed return different pages, and a page that is freed is the next one allocated,
  with the list as it was after the first allocation.
\<close>

theorem kalloc_never_twice:
  assumes "kmem_inv s xs" and "kready c s" and "kalloc s = Ret p t" and "p \<noteq> 0"
  shows "(\<forall>q u. kalloc t = Ret q u \<and> q \<noteq> 0 \<longrightarrow> p \<noteq> q) \<and>
    (\<exists>u v. kfree p t = Ret () u \<and> kalloc u = Ret p v \<and> kmem_inv v (tl xs))"
  using pages.two_allocs_differ [of s xs c p t] pages.alloc_free_alloc [of s xs c p t] assms by blast

theorem kalloc_never_twice_witness:
  "\<exists>(s :: kmem) t u v. kmem_inv s [0x80400000] \<and> kready 0 s \<and> kalloc s = Ret 0x80400000 t \<and>
     kfree 0x80400000 t = Ret () u \<and> kalloc u = Ret 0x80400000 v"
proof -
  have "page_ok demo_kmem 0x80400000" by (simp add: page_ok_def demo_kmem_inv V2P_def)
  from kfree_eq [OF demo_kmem_inv(1,2) this] obtain s :: kmem
    where s: "kmem_inv s [0x80400000]" "kready 0 s" by auto
  obtain t where t: "kalloc s = Ret 0x80400000 t" using kalloc_eq [OF s] by auto
  then show ?thesis using kalloc_never_twice [OF s t] s by auto
qed

text \<open>
  C28. \<^verbatim>\<open>freerange\<close> puts exactly the whole pages between its two bounds on the free list, in front of what
  was there, and returns: each page of the range is freed once.
\<close>

theorem freerange_frees:
  assumes "unat vstart + 4095 < 2 ^ 32" and "PGROUNDUP vstart \<le> vend" and "unat vend + 4096 < 2 ^ 32"
    and "pages = range_pages (PGROUNDUP vstart) (unat (vend - PGROUNDUP vstart) div 4096)"
    and "kmem_inv s xs" and "kready c s" and "\<forall>x\<in>set pages. page_ok s x" and "set pages \<inter> set xs = {}"
  shows "\<exists>t. freerange vstart vend s = Ret () t \<and> kmem_inv t (rev pages @ xs) \<and> kready c t"
proof -
  let ?p = "PGROUNDUP vstart"
  let ?n = "unat (vend - ?p) div 4096"
  have d: "unat (vend - ?p) = unat vend - unat ?p" using assms(2) by (rule unat_sub)
  have le: "unat ?p \<le> unat vend" using assms(2) by (simp add: word_le_nat_alt)
  have b: "unat ?p + 4096 * ?n \<le> unat vend" "unat vend < unat ?p + 4096 * Suc ?n"
    using d le by (auto simp: dividend_less_times_div mult.commute)
  moreover have "distinct pages" using b(1) assms(3,4) by (auto intro: distinct_range_pages)
  ultimately show ?thesis
    using freerange_loop_eq [of ?p ?n vend s xs c] assms by (auto simp: freerange_def Let_def)
qed

theorem freerange_frees_witness:
  "\<exists>t. freerange 0x80400000 0x80402000 demo_kmem = Ret () t \<and> kmem_inv t [0x80401000, 0x80400000]"
proof -
  have p: "PGROUNDUP 0x80400000 = 0x80400000" by (simp add: PGROUNDUP_def)
  have l: "range_pages 0x80400000 2 = [0x80400000, 0x80401000]"
    by (simp add: range_pages_def numeral_2_eq_2)
  show ?thesis
    using freerange_frees [where vstart = "0x80400000" and vend = "0x80402000" and s = demo_kmem
        and xs = "[]" and c = 0 and pages = "[0x80400000, 0x80401000]"]
    by (auto simp: p l demo_kmem_inv page_ok_def V2P_def)
qed

end
