(* ===== verification/Runqueues.thy ===== *)
theory Runqueues
  imports Kalloc Complex_Main
begin

text \<open>
  Process table and run queues: the types of \<^verbatim>\<open>proc.h\<close>, the trap frame of \<^verbatim>\<open>x86.h\<close>, and the part of
  \<^verbatim>\<open>proc.c\<close> that keeps \<^verbatim>\<open>rr_q\<close>, \<^verbatim>\<open>lcfs_q\<close> and \<^verbatim>\<open>bjf_q\<close>: the enqueueing statements, \<^verbatim>\<open>shiftOutQueue\<close> and
  \<^verbatim>\<open>cleanupCorresQueue\<close>.

  A \<^verbatim>\<open>struct proc *\<close> is an index into \<^verbatim>\<open>ptable.proc\<close>, \<open>None\<close> the null pointer; a sleep channel is the
  kernel object whose address the code passes. Reading through a null entry of a queue and touching
  an entry past the end of its array are \<open>Fault\<close>s of the model (in C the second one overwrites the
  field \<^verbatim>\<open>pi\<close> that follows the array). A \<^verbatim>\<open>float\<close> is a rational number.

  The layer adds to the kernel state the process table, the three queues, and the global counters
  of \<^verbatim>\<open>proc.c\<close> and \<^verbatim>\<open>trap.c\<close>.

  Shown: an enqueueing appends; taking a process out of its queue removes exactly that process and
  keeps the order of the others; but taking out a process that is not in the queue drops the last
  process of the queue instead.
\<close>

section \<open>Processes\<close>

datatype procstate = UNUSED | EMBRYO | SLEEPING | RUNNABLE | RUNNING | ZOMBIE

datatype schedQ = DEF | RR | LCFS | BJF

text \<open>The address passed to \<^verbatim>\<open>sleep\<close> and \<^verbatim>\<open>wakeup\<close>, by the object it belongs to.\<close>

datatype chan = ChProc nat | ChTicks | ChLog | ChSleep slid | ChBuf nat | ChNread uint | ChNwrite uint
  | ChInput

record trapframe =
  tf_edi :: uint
  tf_esi :: uint
  tf_ebp :: uint
  tf_oesp :: uint
  tf_ebx :: uint
  tf_edx :: uint
  tf_ecx :: uint
  tf_eax :: uint
  tf_gs :: ushort
  tf_fs :: ushort
  tf_es :: ushort
  tf_ds :: ushort
  tf_trapno :: uint
  tf_err :: uint
  tf_eip :: uint
  tf_cs :: ushort
  tf_eflags :: uint
  tf_esp :: uint
  tf_ss :: ushort

definition zero_tf :: trapframe where
  "zero_tf = \<lparr>tf_edi = 0, tf_esi = 0, tf_ebp = 0, tf_oesp = 0, tf_ebx = 0, tf_edx = 0, tf_ecx = 0,
     tf_eax = 0, tf_gs = 0, tf_fs = 0, tf_es = 0, tf_ds = 0, tf_trapno = 0, tf_err = 0, tf_eip = 0,
     tf_cs = 0, tf_eflags = 0, tf_esp = 0, tf_ss = 0\<rparr>"

text \<open>
  Where \<^verbatim>\<open>swtch\<close> resumes a process: in \<^verbatim>\<open>forkret\<close> the first time, later in the call of \<^verbatim>\<open>sched\<close> it left,
  with the local variable \<^verbatim>\<open>intena\<close> of that call.
\<close>

datatype kcontext = NoContext | AtForkret | InYield bool | InSleep bool lockid | InExit bool

record proc =
  sz :: uint
  pgdir :: uint
  kstack :: uint
  pstate :: procstate
  pid :: int
  parent :: "nat option"
  tf :: trapframe
  ctx :: kcontext
  chan :: "chan option"
  killed :: bool
  ofile :: "nat option list"
  cwd :: "nat option"
  pname :: string
  q_type :: schedQ
  priority :: int
  priority_ratio :: rat
  executed_cycle :: rat
  executed_cycle_ratio :: rat
  arrivetime :: uint
  arrivetime_ratio :: rat
  size_ratio :: rat
  running_ticks :: uint
  waiting_time :: uint
  change_running_queue :: bool

abbreviation NPROC :: nat where "NPROC \<equiv> 64"
abbreviation NOFILE :: nat where "NOFILE \<equiv> 16"

section \<open>Queues\<close>

record queue =
  qproc :: "nat option list"
  qpi :: int

text \<open>
  Where \<^verbatim>\<open>swtch\<close> resumes the scheduler of a processor: behind its last \<^verbatim>\<open>swtch\<close>, or inside the loop over
  the table at a given index.
\<close>

datatype sched_context = AfterChosen | AfterTable nat

record ksched = kmem +
  ptable :: "proc list"
  rr_q :: queue
  lcfs_q :: queue
  bjf_q :: queue
  rr_counter :: uint
  nextpid :: int
  initproc :: "nat option"
  ticks :: uint
  first :: bool
  sched_ctx :: "nat \<Rightarrow> sched_context"
  cr3 :: "nat \<Rightarrow> uint"
  esp0 :: "nat \<Rightarrow> uint"
  kpgdir :: uint
  g_ratios :: "int \<times> int \<times> int \<times> int"

definition proc_at :: "'z ksched_scheme \<Rightarrow> nat \<Rightarrow> proc" where
  "proc_at s i = ptable s ! i"

definition upd_proc :: "nat \<Rightarrow> (proc \<Rightarrow> proc) \<Rightarrow> 'z ksched_scheme \<Rightarrow> 'z ksched_scheme" where
  "upd_proc i f s = s\<lparr>ptable := (ptable s)[i := f (ptable s ! i)]\<rparr>"

text \<open>\<^verbatim>\<open>q.pi++; q.proc[q.pi] = p;\<close>\<close>

definition push :: "nat \<Rightarrow> queue \<Rightarrow> stop + queue" where
  "push p q =
     (if 0 \<le> qpi q + 1 \<and> nat (qpi q + 1) < length (qproc q)
      then Inr \<lparr>qproc = (qproc q)[nat (qpi q + 1) := Some p], qpi = qpi q + 1\<rparr>
      else Inl (Fault ''queue full''))"

text \<open>
  The two loops of \<^verbatim>\<open>shiftOutQueue\<close>: the first finds the entry with the process's pid, or ends behind
  the last one; the second swaps the entry to the end.
\<close>

fun find_entry :: "proc list \<Rightarrow> int \<Rightarrow> nat option list \<Rightarrow> stop + nat" where
  "find_entry pt pd [] = Inr 0"
| "find_entry pt pd (None # es) = Inl (Fault ''null entry'')"
| "find_entry pt pd (Some i # es) =
     (if pid (pt ! i) = pd then Inr 0
      else case find_entry pt pd es of Inl e \<Rightarrow> Inl e | Inr k \<Rightarrow> Inr (Suc k))"

function swap_out :: "nat option list \<Rightarrow> nat \<Rightarrow> nat \<Rightarrow> stop + (nat option list \<times> nat)" where
  "swap_out ps qi n =
     (if qi < n
      then if Suc qi < length ps
        then swap_out (ps[qi := ps ! Suc qi, Suc qi := ps ! qi]) (Suc qi) n
        else Inl (Fault ''queue end'')
      else Inr (ps, qi))"
  by pat_completeness auto
termination
  by (relation "measure (\<lambda>(ps, qi, n). n - qi)") auto

definition shift_out :: "proc list \<Rightarrow> queue \<Rightarrow> nat \<Rightarrow> stop + queue" where
  "shift_out pt q p =
     (case find_entry pt (pid (pt ! p)) (take (nat (qpi q + 1)) (qproc q)) of
        Inl e \<Rightarrow> Inl e
      | Inr qi \<Rightarrow>
        (case swap_out (qproc q) qi (nat (qpi q + 1)) of
           Inl e \<Rightarrow> Inl e
         | Inr (ps, qi') \<Rightarrow>
             if qi' < length ps then Inr (q\<lparr>qproc := ps[qi' := None]\<rparr>)
             else Inl (Fault ''queue end'')))"

definition liftq :: "stop + queue \<Rightarrow> (queue \<Rightarrow> 's \<Rightarrow> 's) \<Rightarrow> ('s, unit) kop" where
  "liftq r put = (case r of Inl e \<Rightarrow> stopk e | Inr q \<Rightarrow> modk (put q))"

text \<open>The switch over \<^verbatim>\<open>q_type\<close> that puts a process on its queue.\<close>

definition enqueue :: "schedQ \<Rightarrow> nat \<Rightarrow> ('z ksched_scheme, unit) kop" where
  "enqueue qt p =
     (case qt of
        RR \<Rightarrow> bindk (getk rr_q) (\<lambda>q. liftq (push p q) (\<lambda>q s. s\<lparr>rr_q := q\<rparr>))
      | LCFS \<Rightarrow> bindk (getk lcfs_q) (\<lambda>q. liftq (push p q) (\<lambda>q s. s\<lparr>lcfs_q := q\<rparr>))
      | BJF \<Rightarrow> bindk (getk bjf_q) (\<lambda>q. liftq (push p q) (\<lambda>q s. s\<lparr>bjf_q := q\<rparr>))
      | DEF \<Rightarrow> retk ())"

definition shiftOutQueue ::
  "('z ksched_scheme \<Rightarrow> queue) \<Rightarrow> (queue \<Rightarrow> 'z ksched_scheme \<Rightarrow> 'z ksched_scheme) \<Rightarrow> nat \<Rightarrow>
   ('z ksched_scheme, unit) kop" where
  "shiftOutQueue get put p =
     bindk (holding PtableLock) (\<lambda>h.
     if \<not> h then panic ''scheduling queue lock not held''
     else bindk (getk id) (\<lambda>s. liftq (shift_out (ptable s) (get s) p) put))"

definition cleanupCorresQueue :: "nat \<Rightarrow> ('z ksched_scheme, unit) kop" where
  "cleanupCorresQueue p =
     bindk (getk (\<lambda>s. q_type (proc_at s p))) (\<lambda>qt.
     case qt of
       RR \<Rightarrow> bindk (getk (\<lambda>s. qpi (rr_q s))) (\<lambda>n.
         if n \<le> -1 then panic ''RR: nothing to clean''
         else thenk (shiftOutQueue rr_q (\<lambda>q s. s\<lparr>rr_q := q\<rparr>) p)
           (modk (\<lambda>s. s\<lparr>rr_q := (rr_q s)\<lparr>qpi := qpi (rr_q s) - 1\<rparr>\<rparr>)))
     | LCFS \<Rightarrow> bindk (getk (\<lambda>s. qpi (lcfs_q s))) (\<lambda>n.
         if n \<le> -1 then panic ''LCFS: nothing to clean''
         else thenk (shiftOutQueue lcfs_q (\<lambda>q s. s\<lparr>lcfs_q := q\<rparr>) p)
           (modk (\<lambda>s. s\<lparr>lcfs_q := (lcfs_q s)\<lparr>qpi := qpi (lcfs_q s) - 1\<rparr>\<rparr>)))
     | BJF \<Rightarrow> bindk (getk (\<lambda>s. qpi (bjf_q s))) (\<lambda>n.
         if n \<le> -1 then panic ''BJF: nothing to clean''
         else thenk (shiftOutQueue bjf_q (\<lambda>q s. s\<lparr>bjf_q := q\<rparr>) p)
           (modk (\<lambda>s. s\<lparr>bjf_q := (bjf_q s)\<lparr>qpi := qpi (bjf_q s) - 1\<rparr>\<rparr>)))
     | DEF \<Rightarrow> panic ''defaut scheduling cleanup'')"

definition pinit :: "('z ksched_scheme, unit) kop" where
  "pinit = thenk (initlock PtableLock ''ptable'')
     (modk (\<lambda>s. s\<lparr>rr_q := (rr_q s)\<lparr>qpi := -1\<rparr>, lcfs_q := (lcfs_q s)\<lparr>qpi := -1\<rparr>,
        bjf_q := (bjf_q s)\<lparr>qpi := -1\<rparr>\<rparr>))"

section \<open>A queue as a list\<close>

text \<open>
  The queue of a type (\<open>DEF\<close> has none), and taking a process out of a queue: \<^verbatim>\<open>shiftOutQueue\<close> followed by
  the decrement of \<^verbatim>\<open>pi\<close>.
\<close>

definition queue_of :: "schedQ \<Rightarrow> 'z ksched_scheme \<Rightarrow> queue" where
  "queue_of qt s = (case qt of RR \<Rightarrow> rr_q s | LCFS \<Rightarrow> lcfs_q s | BJF \<Rightarrow> bjf_q s
     | DEF \<Rightarrow> \<lparr>qproc = [], qpi = -1\<rparr>)"

definition set_queue :: "schedQ \<Rightarrow> queue \<Rightarrow> 'z ksched_scheme \<Rightarrow> 'z ksched_scheme" where
  "set_queue qt q s = (case qt of RR \<Rightarrow> s\<lparr>rr_q := q\<rparr> | LCFS \<Rightarrow> s\<lparr>lcfs_q := q\<rparr> | BJF \<Rightarrow> s\<lparr>bjf_q := q\<rparr>
     | DEF \<Rightarrow> s)"

definition take_out :: "proc list \<Rightarrow> nat \<Rightarrow> queue \<Rightarrow> stop + queue" where
  "take_out pt p q =
     (case shift_out pt q p of Inl e \<Rightarrow> Inl e | Inr q' \<Rightarrow> Inr (q'\<lparr>qpi := qpi q' - 1\<rparr>))"

definition contents :: "queue \<Rightarrow> nat list" where
  "contents q = map the (take (nat (qpi q + 1)) (qproc q))"

definition wf_queue :: "queue \<Rightarrow> bool" where
  "wf_queue q \<longleftrightarrow> length (qproc q) = NPROC \<and> -1 \<le> qpi q \<and> qpi q < int NPROC \<and>
     (\<forall>e \<in> set (take (nat (qpi q + 1)) (qproc q)). e \<noteq> None)"

text \<open>\<open>drop_pid\<close> is what taking a process out does to the list.\<close>

definition drop_pid :: "proc list \<Rightarrow> int \<Rightarrow> nat list \<Rightarrow> nat list" where
  "drop_pid pt pd xs =
     (case find_index (\<lambda>i. pid (pt ! i) = pd) xs of
        Some k \<Rightarrow> take k xs @ drop (Suc k) xs
      | None \<Rightarrow> butlast xs)"

lemma wf_queue_entries:
  assumes "wf_queue q"
  shows "take (nat (qpi q + 1)) (qproc q) = map Some (contents q)"
proof -
  have "map Some (map the xs) = xs" if "\<forall>e\<in>set xs. e \<noteq> None" for xs :: "nat option list"
    using that by (induction xs) auto
  with assms show ?thesis by (simp add: contents_def wf_queue_def)
qed

lemma length_contents: "wf_queue q \<Longrightarrow> length (contents q) = nat (qpi q + 1)"
  by (auto simp: contents_def wf_queue_def)

lemma contents_empty: "wf_queue q \<Longrightarrow> contents q = [] \<longleftrightarrow> qpi q = -1"
  by (auto simp: contents_def wf_queue_def)

lemma push_eq:
  assumes "wf_queue q" and "length (contents q) < NPROC"
  shows "\<exists>q'. push p q = Inr q' \<and> wf_queue q' \<and> contents q' = contents q @ [p]"
proof -
  let ?n = "nat (qpi q + 1)"
  have n: "?n < length (qproc q)" "0 \<le> qpi q + 1"
    using assms by (auto simp: length_contents wf_queue_def)
  let ?q = "\<lparr>qproc = (qproc q)[?n := Some p], qpi = qpi q + 1\<rparr>"
  have "nat (qpi q + 1 + 1) = Suc ?n" using n by simp
  then have "take (nat (qpi ?q + 1)) (qproc ?q) = take ?n (qproc q) @ [Some p]"
    using n(1) by (simp add: take_Suc_conv_app_nth)
  then have "wf_queue ?q" "contents ?q = contents q @ [p]"
    using assms(1) n by (auto simp: wf_queue_def contents_def)
  with n show ?thesis by (simp add: push_def)
qed

lemma find_entry_eq:
  "find_entry pt pd (map Some xs) =
     Inr (case find_index (\<lambda>i. pid (pt ! i) = pd) xs of Some k \<Rightarrow> k | None \<Rightarrow> length xs)"
  by (induction xs) (auto split: option.splits)

declare swap_out.simps [simp del]

lemma swap_out_eq:
  assumes "qi \<le> n" and "n < length ps"
  shows "swap_out ps qi n =
    Inr (take qi ps @ take (n - qi) (drop (Suc qi) ps) @ [ps ! qi] @ drop (Suc n) ps, n)"
  using assms
proof (induction "n - qi" arbitrary: ps qi)
  case 0
  then have "qi = n" by simp
  with 0 show ?case by (subst swap_out.simps) (simp add: id_take_nth_drop [symmetric])
next
  case (Suc d)
  let ?ps = "ps[qi := ps ! Suc qi, Suc qi := ps ! qi]"
  have lt: "qi < n" "Suc qi < length ps" using Suc by auto
  then have "swap_out ps qi n = swap_out ?ps (Suc qi) n" by (subst swap_out.simps) simp
  also have "\<dots> = Inr (take (Suc qi) ?ps @ take (n - Suc qi) (drop (Suc (Suc qi)) ?ps) @ [?ps ! Suc qi]
      @ drop (Suc n) ?ps, n)"
    using Suc lt by (intro Suc.hyps) auto
  also have "take (Suc qi) ?ps = take qi ps @ [ps ! Suc qi]"
    using lt by (simp add: take_Suc_conv_app_nth)
  also have "?ps ! Suc qi = ps ! qi" using lt by simp
  also have "drop (Suc (Suc qi)) ?ps = drop (Suc (Suc qi)) ps" by simp
  also have "drop (Suc n) ?ps = drop (Suc n) ps" using lt by simp
  also have "(take qi ps @ [ps ! Suc qi]) @ take (n - Suc qi) (drop (Suc (Suc qi)) ps) @ [ps ! qi]
      @ drop (Suc n) ps = take qi ps @ take (n - qi) (drop (Suc qi) ps) @ [ps ! qi] @ drop (Suc n) ps"
    using lt by (simp add: Cons_nth_drop_Suc [symmetric] take_Cons')
  finally show ?case .
qed

lemma shift_out_eq:
  assumes wf: "wf_queue q" and ne: "contents q \<noteq> []" and room: "length (contents q) < NPROC"
  shows "\<exists>q'. shift_out pt q p = Inr q' \<and> qpi q' = qpi q \<and>
    wf_queue (q'\<lparr>qpi := qpi q' - 1\<rparr>) \<and>
    contents (q'\<lparr>qpi := qpi q' - 1\<rparr>) = drop_pid pt (pid (pt ! p)) (contents q)"
proof -
  let ?c = "contents q" and ?ps = "qproc q"
  define n where "n = length ?c"
  have pi: "nat (qpi q + 1) = n" "nat (qpi q) = n - 1" "0 < n" "qpi q = int n - 1"
    using wf ne by (auto simp: n_def length_contents wf_queue_def contents_empty)
  have n: "n < length ?ps" using wf room by (auto simp: n_def wf_queue_def)
  have ent: "take n ?ps = map Some ?c" using wf_queue_entries [OF wf] pi by simp
  define qi where "qi = (case find_index (\<lambda>i. pid (pt ! i) = pid (pt ! p)) ?c of Some k \<Rightarrow> k | None \<Rightarrow> n)"
  have qi: "qi \<le> n"
    using find_index_Some [of "\<lambda>i. pid (pt ! i) = pid (pt ! p)" ?c]
    by (auto simp: qi_def n_def split: option.split)
  let ?ps' = "(take qi ?ps @ take (n - qi) (drop (Suc qi) ?ps) @ [?ps ! qi] @ drop (Suc n) ?ps)[n := None]"
  have fe: "find_entry pt (pid (pt ! p)) (map Some ?c) = Inr qi"
    unfolding find_entry_eq qi_def n_def ..
  have res: "shift_out pt q p = Inr (q\<lparr>qproc := ?ps'\<rparr>)"
    using qi n fe by (simp add: shift_out_def pi ent swap_out_eq)
  have found: "take (n - 1) ?ps' = take qi (take n ?ps) @ drop (Suc qi) (take n ?ps)" if "qi < n"
    using that n by (cases "n = Suc qi") (auto simp: min_def drop_take)
  have absent: "take (n - 1) ?ps' = butlast (take n ?ps)" if "qi = n"
    using that n by (simp add: butlast_take min_def)
  have "take (n - 1) ?ps' = map Some (drop_pid pt (pid (pt ! p)) ?c)"
  proof (cases "find_index (\<lambda>i. pid (pt ! i) = pid (pt ! p)) ?c")
    case None
    then have "qi = n" by (simp add: qi_def)
    with None show ?thesis
      using absent unfolding ent by (simp only: drop_pid_def map_butlast option.case)
  next
    case (Some k)
    then have "qi = k" "k < n" using find_index_Some [OF Some] by (simp_all add: qi_def n_def)
    with Some show ?thesis
      using found unfolding ent
      by (simp only: drop_pid_def map_append take_map drop_map option.case)
  qed
  then have "take (nat (qpi q)) ?ps' = map Some (drop_pid pt (pid (pt ! p)) ?c)" using pi by simp
  moreover have "length ?ps' = NPROC" using wf n qi by (auto simp: wf_queue_def min_def)
  ultimately obtain ps' where ps': "shift_out pt q p = Inr (q\<lparr>qproc := ps'\<rparr>)" "length ps' = NPROC"
    "take (nat (qpi q)) ps' = map Some (drop_pid pt (pid (pt ! p)) ?c)"
    using res by blast
  show ?thesis
    using wf pi ps'(2,3) by (simp add: ps'(1) wf_queue_def contents_def comp_def)
qed

lemma take_out_eq:
  assumes "wf_queue q" and "contents q \<noteq> []" and "length (contents q) < NPROC"
  shows "\<exists>q'. take_out pt p q = Inr q' \<and> wf_queue q' \<and>
    contents q' = drop_pid pt (pid (pt ! p)) (contents q)"
  using shift_out_eq [OF assms, of pt p] by (auto simp: take_out_def)

text \<open>If the pids in the queue differ, the process itself is what goes; the others keep their order.\<close>

lemma drop_pid_member:
  assumes "inj_on (\<lambda>i. pid (pt ! i)) (set xs)" and "p \<in> set xs"
  shows "drop_pid pt (pid (pt ! p)) xs = remove1 p xs"
  using assms
proof (induction xs)
  case Nil
  then show ?case by simp
next
  case (Cons x xs)
  show ?case
  proof (cases "x = p")
    case True
    then show ?thesis by (simp add: drop_pid_def)
  next
    case False
    then have ne: "pid (pt ! x) \<noteq> pid (pt ! p)" and p: "p \<in> set xs"
      using Cons.prems by (auto simp: inj_on_def)
    obtain k where k: "find_index (\<lambda>i. pid (pt ! i) = pid (pt ! p)) xs = Some k"
      using find_index_exists [OF p, of "\<lambda>i. pid (pt ! i) = pid (pt ! p)"] by auto
    have "drop_pid pt (pid (pt ! p)) xs = remove1 p xs"
      using Cons.prems p by (intro Cons.IH) auto
    with k ne False show ?thesis by (simp add: drop_pid_def)
  qed
qed

lemma drop_pid_absent:
  "\<forall>i\<in>set xs. pid (pt ! i) \<noteq> pd \<Longrightarrow> drop_pid pt pd xs = butlast xs"
  using find_index_None [of "\<lambda>i. pid (pt ! i) = pd" xs] by (simp add: drop_pid_def)

section \<open>The contract of a queue\<close>

locale fifo_queue =
  fixes view :: "'q \<Rightarrow> 'a list"
    and ok :: "'q \<Rightarrow> bool"
    and cap :: nat
    and member :: "'a \<Rightarrow> bool"
    and put :: "'a \<Rightarrow> 'q \<Rightarrow> 'e + 'q"
    and out :: "'a \<Rightarrow> 'q \<Rightarrow> 'e + 'q"
  assumes put_law: "ok q \<Longrightarrow> member p \<Longrightarrow> length (view q) < cap \<Longrightarrow>
      \<exists>q'. put p q = Inr q' \<and> ok q' \<and> view q' = view q @ [p]"
    and out_law: "ok q \<Longrightarrow> p \<in> set (view q) \<Longrightarrow> length (view q) < cap \<Longrightarrow>
      \<exists>q'. out p q = Inr q' \<and> ok q' \<and> view q' = remove1 p (view q)"
begin

lemma put_then_out:
  assumes "ok q" "member p" "p \<notin> set (view q)" "Suc (length (view q)) < cap"
  shows "\<exists>q' q''. put p q = Inr q' \<and> out p q' = Inr q'' \<and> ok q'' \<and> view q'' = view q"
proof -
  obtain q' where q': "put p q = Inr q'" "ok q'" "view q' = view q @ [p]"
    using put_law [of q p] assms by auto
  then obtain q'' where "out p q' = Inr q''" "ok q''" "view q'' = remove1 p (view q')"
    using out_law [of q' p] assms by auto
  with q' assms(3) show ?thesis by (auto simp: remove1_append remove1_idem)
qed

lemma out_then_put:
  assumes "ok q" "member p" "p \<in> set (view q)" "length (view q) < cap"
  shows "\<exists>q' q''. out p q = Inr q' \<and> put p q' = Inr q'' \<and> ok q'' \<and>
    view q'' = remove1 p (view q) @ [p]"
proof -
  obtain q' where q': "out p q = Inr q'" "ok q'" "view q' = remove1 p (view q)"
    using out_law [of q p] assms by auto
  then show ?thesis using put_law [of q' p] assms by (auto simp: length_remove1)
qed

end

interpretation rq: fifo_queue contents
  "\<lambda>q. wf_queue q \<and> inj_on (\<lambda>i. pid (pt ! i)) U \<and> set (contents q) \<subseteq> U" NPROC "\<lambda>p. p \<in> U"
  push "take_out pt" for pt U
proof (unfold_locales, goal_cases)
  case (1 q p)
  then show ?case using push_eq [of q p] by auto
next
  case (2 q p)
  then have "inj_on (\<lambda>i. pid (pt ! i)) (set (contents q))" by (meson inj_on_subset)
  with 2 take_out_eq [of q pt p] drop_pid_member [of pt "contents q" p]
  have "\<exists>q'. take_out pt p q = Inr q' \<and> wf_queue q' \<and> contents q' = remove1 p (contents q)"
    by (cases "contents q = []") auto
  moreover have "set (remove1 p (contents q)) \<subseteq> U" using 2 set_remove1_subset by fastforce
  ultimately show ?case using 2 by auto
qed

section \<open>The queue operations on the kernel state\<close>

lemma queue_of_set_queue [simp]:
  "qt \<noteq> DEF \<Longrightarrow> queue_of qt (set_queue qt q s) = q"
  "qt \<noteq> qt' \<Longrightarrow> queue_of qt (set_queue qt' q s) = queue_of qt s"
  by (cases qt; cases qt'; simp add: queue_of_def set_queue_def)+

lemma set_queue_simps [simp]:
  "ptable (set_queue qt q s) = ptable s" "cpus (set_queue qt q s) = cpus s"
  "locks (set_queue qt q s) = locks s" "if_flag (set_queue qt q s) = if_flag s"
  "this (set_queue qt q s) = this s" "lapic_id (set_queue qt q s) = lapic_id s"
  "ncpu (set_queue qt q s) = ncpu s" "runs_on (set_queue qt q s) c = runs_on s c"
  "nextpid (set_queue qt q s) = nextpid s" "rr_counter (set_queue qt q s) = rr_counter s"
  by (cases qt; simp add: set_queue_def runs_on_def)+

lemma lock_held_set_queue [simp]: "lock_held l c (set_queue qt q s) = lock_held l c s"
  by (simp add: lock_held_def)

lemma enqueue_eq:
  "enqueue qt p s = (if qt = DEF then Ret () s
     else liftq (push p (queue_of qt s)) (set_queue qt) s)"
  by (cases qt) (simp_all add: enqueue_def bindk_def getk_def retk_def liftq_def queue_of_def
      set_queue_def fun_eq_iff modk_def stopk_def split: sum.split)

lemma shiftOutQueue_eq:
  assumes "lock_held PtableLock c s"
  shows "shiftOutQueue get put p s = liftq (shift_out (ptable s) (get s) p) put s"
  using assms holding_eq [of s c PtableLock]
  by (simp add: shiftOutQueue_def bindk_def lock_held_def getk_def)

lemma shift_out_pi: "shift_out pt q p = Inr q' \<Longrightarrow> qpi q' = qpi q"
  by (auto simp: shift_out_def split: sum.splits if_splits prod.splits)

lemma cleanupCorresQueue_eq:
  assumes "lock_held PtableLock c s" and "q_type (proc_at s p) = qt" and "qt \<noteq> DEF"
    and "0 \<le> qpi (queue_of qt s)"
  shows "cleanupCorresQueue p s = liftq (take_out (ptable s) p (queue_of qt s)) (set_queue qt) s"
  using assms by (cases qt) (auto simp: cleanupCorresQueue_def bindk_def thenk_def getk_def modk_def
      shiftOutQueue_eq [OF assms(1)] queue_of_def set_queue_def liftq_def stopk_def take_out_def
      split: sum.split)

lemma cleanup_member:
  assumes "lock_held PtableLock c s" and "q_type (proc_at s p) = qt" and "qt \<noteq> DEF"
    and "wf_queue (queue_of qt s)" and "p \<in> set (contents (queue_of qt s))"
    and "inj_on (\<lambda>i. pid (proc_at s i)) (set (contents (queue_of qt s)))"
    and "length (contents (queue_of qt s)) < NPROC"
  shows "\<exists>q'. cleanupCorresQueue p s = Ret () (set_queue qt q' s) \<and> wf_queue q' \<and>
    contents q' = remove1 p (contents (queue_of qt s))"
proof -
  let ?q = "queue_of qt s"
  have "0 \<le> qpi ?q" using assms(4,5) contents_empty [of ?q] by (fastforce simp: wf_queue_def)
  moreover obtain q' where "take_out (ptable s) p ?q = Inr q'" "wf_queue q'"
    "contents q' = remove1 p (contents ?q)"
    using rq.out_law [of ?q "ptable s" "set (contents ?q)" p] assms(4-7) by (auto simp: proc_at_def)
  ultimately show ?thesis
    using cleanupCorresQueue_eq [OF assms(1-3)] by (auto simp: liftq_def modk_def)
qed

lemma cleanup_full:
  assumes "lock_held PtableLock c s" and "q_type (proc_at s p) = qt" and "qt \<noteq> DEF"
    and "wf_queue (queue_of qt s)" and "length (contents (queue_of qt s)) = NPROC"
  shows "cleanupCorresQueue p s = Stop (Fault ''queue end'')"
proof -
  let ?q = "queue_of qt s" and ?ps = "qproc (queue_of qt s)"
  have pi: "nat (qpi ?q + 1) = 64" "0 \<le> qpi ?q" and len: "length ?ps = 64"
    using assms(4,5) length_contents [of ?q] by (auto simp: wf_queue_def)
  have ent: "take 64 ?ps = map Some (contents ?q)" using wf_queue_entries [OF assms(4)] pi by simp
  have swap: "swap_out xs k 64 = Inl (Fault ''queue end'')" if "k < 64" "length xs = 64" for xs k
    using that
  proof (induction "64 - k" arbitrary: xs k)
    case (Suc d)
    then show ?case by (subst swap_out.simps) auto
  qed simp
  have swap64: "swap_out xs 64 64 = Inr (xs, 64)" for xs by (subst swap_out.simps) simp
  obtain k where k: "find_entry (ptable s) (pid (ptable s ! p)) (map Some (contents ?q)) = Inr k" "k \<le> 64"
  proof
    show "find_entry (ptable s) (pid (ptable s ! p)) (map Some (contents ?q)) = Inr (case find_index
        (\<lambda>i. pid (ptable s ! i) = pid (ptable s ! p)) (contents ?q) of Some k \<Rightarrow> k | None \<Rightarrow> 64)"
      by (simp only: find_entry_eq assms(5))
    show "(case find_index (\<lambda>i. pid (ptable s ! i) = pid (ptable s ! p)) (contents ?q) of
        Some k \<Rightarrow> k | None \<Rightarrow> 64) \<le> 64"
      using assms(5) by (auto dest: find_index_less split: option.split)
  qed
  then have "take_out (ptable s) p ?q = Inl (Fault ''queue end'')"
    using len swap [of k ?ps]
    by (cases "k = 64") (simp_all add: take_out_def shift_out_def pi ent swap64 split: sum.split)
  then show ?thesis
    using cleanupCorresQueue_eq [OF assms(1-3) pi(2)] by (simp add: liftq_def stopk_def)
qed

text \<open>
  A state for the witnesses: one processor inside \<^verbatim>\<open>ptable.lock\<close>, a table whose process \<open>i\<close> has pid
  \<open>i + 1\<close> and is given by its state and queue, and queues given as lists.
\<close>

definition mkproc :: "nat \<Rightarrow> procstate \<times> schedQ \<Rightarrow> proc" where
  "mkproc i sq = \<lparr>sz = 0, pgdir = 0x80400000, kstack = 0x80401000, pstate = fst sq, pid = int i + 1,
     parent = None, tf = zero_tf, ctx = AtForkret, chan = None, killed = False,
     ofile = replicate NOFILE None, cwd = None, pname = [], q_type = snd sq, priority = 0,
     priority_ratio = 0, executed_cycle = 0, executed_cycle_ratio = 0, arrivetime = 0,
     arrivetime_ratio = 0, size_ratio = 0, running_ticks = 0, waiting_time = 0,
     change_running_queue = False\<rparr>"

definition mkqueue :: "nat list \<Rightarrow> queue" where
  "mkqueue xs = \<lparr>qproc = map Some xs @ replicate (NPROC - length xs) None, qpi = int (length xs) - 1\<rparr>"

definition mksched :: "(procstate \<times> schedQ) list \<Rightarrow> nat list \<Rightarrow> nat list \<Rightarrow> nat list \<Rightarrow> ksched" where
  "mksched sqs rr lcfs bjf =
     \<lparr>this = 0, lapic_id = (\<lambda>_. 0), if_flag = (\<lambda>_. False), ncpu = 1, cpus = [cpu0\<lparr>ncli := 1, intena := True\<rparr>],
      locks = (\<lambda>l. if l = PtableLock then \<lparr>locked = True, lname = [], lcpu = Some 0\<rparr> else free_lock),
      use_lock = True, freelist = 0, kmemory = (\<lambda>_. 0), kend = 0x80200000, kdata = 0x80108000,
      ptable = map2 mkproc [0..<NPROC] (sqs @ replicate (NPROC - length sqs) (UNUSED, DEF)),
      rr_q = mkqueue rr, lcfs_q = mkqueue lcfs, bjf_q = mkqueue bjf, rr_counter = 0, nextpid = 65,
      initproc = Some 0, ticks = 0, first = False, sched_ctx = (\<lambda>_. AfterChosen), cr3 = (\<lambda>_. 0),
      esp0 = (\<lambda>_. 0), kpgdir = 0x80300000, g_ratios = (0, 0, 0, 0)\<rparr>"

lemma mkqueue_wf: "length xs \<le> NPROC \<Longrightarrow> wf_queue (mkqueue xs)"
  and mkqueue_contents [simp]: "contents (mkqueue xs) = xs"
  by (auto simp: mkqueue_def wf_queue_def contents_def comp_def)

lemma mksched_simps [simp]:
  "lock_held PtableLock 0 (mksched sqs rr lcfs bjf)"
  "queue_of RR (mksched sqs rr lcfs bjf) = mkqueue rr"
  "queue_of LCFS (mksched sqs rr lcfs bjf) = mkqueue lcfs"
  "queue_of BJF (mksched sqs rr lcfs bjf) = mkqueue bjf"
  by (simp_all add: mksched_def lock_held_def runs_on_def find_cpu_def cpu0_def queue_of_def)

lemma mksched_proc:
  assumes "i < length sqs" and "length sqs \<le> NPROC"
  shows "proc_at (mksched sqs rr lcfs bjf) i = mkproc i (sqs ! i)"
  using assms by (simp add: mksched_def proc_at_def nth_append)

section \<open>Properties\<close>

text \<open>
  C3. Taking out is precise: if a process is in the queue of its type, no two processes there share a
  pid, and the queue is not completely full, then \<^verbatim>\<open>cleanupCorresQueue\<close> returns, removes that
  process, keeps the order of the others, and leaves the rest of the kernel state as it was.
\<close>

theorem cleanup_precise:
  assumes "lock_held PtableLock c s" and "q_type (proc_at s p) = qt" and "qt \<noteq> DEF"
    and "wf_queue (queue_of qt s)" and "p \<in> set (contents (queue_of qt s))"
    and "inj_on (\<lambda>i. pid (proc_at s i)) (set (contents (queue_of qt s)))"
    and "length (contents (queue_of qt s)) < NPROC"
  shows "\<exists>q'. cleanupCorresQueue p s = Ret () (set_queue qt q' s) \<and> wf_queue q' \<and>
    contents q' = remove1 p (contents (queue_of qt s))"
  using assms by (rule cleanup_member)

theorem cleanup_precise_witness:
  "\<exists>q'. cleanupCorresQueue 1 (mksched [(RUNNABLE, RR), (RUNNABLE, RR), (RUNNING, RR)] [0, 1, 2] [] []) =
     Ret () (set_queue RR q' (mksched [(RUNNABLE, RR), (RUNNABLE, RR), (RUNNING, RR)] [0, 1, 2] [] [])) \<and>
     contents q' = [0, 2]"
proof -
  let ?s = "mksched [(RUNNABLE, RR), (RUNNABLE, RR), (RUNNING, RR)] [0, 1, 2] [] []"
  have "inj_on (\<lambda>i. pid (proc_at ?s i)) (set (contents (queue_of RR ?s)))"
    by (simp add: mksched_proc mkproc_def inj_on_def)
  then show ?thesis
    using cleanup_precise [where s = ?s and p = 1 and qt = RR and c = 0]
    by (auto simp: mksched_proc mkproc_def mkqueue_wf)
qed

text \<open>
  C25. Taking out a process that is not there: \<^verbatim>\<open>shiftOutQueue\<close> does not notice, and the process at the
  end of the queue loses its place.
\<close>

theorem cleanup_drops_bystander:
  assumes "lock_held PtableLock c s" and "q_type (proc_at s p) = qt" and "qt \<noteq> DEF"
    and "wf_queue (queue_of qt s)" and "contents (queue_of qt s) = xs @ [y]"
    and "\<forall>i\<in>set (contents (queue_of qt s)). pid (proc_at s i) \<noteq> pid (proc_at s p)"
    and "length (contents (queue_of qt s)) < NPROC"
  shows "\<exists>q'. cleanupCorresQueue p s = Ret () (set_queue qt q' s) \<and> wf_queue q' \<and> contents q' = xs"
proof -
  let ?q = "queue_of qt s"
  have ne: "contents ?q \<noteq> []" using assms(5) by simp
  then have "0 \<le> qpi ?q" using assms(4) contents_empty [of ?q] by (fastforce simp: wf_queue_def)
  moreover obtain q' where "take_out (ptable s) p ?q = Inr q'" "wf_queue q'" "contents q' = xs"
    using take_out_eq [OF assms(4) ne assms(7), of "ptable s" p] assms(5,6)
      drop_pid_absent [of "contents ?q" "ptable s" "pid (ptable s ! p)"]
    by (auto simp: proc_at_def)
  ultimately show ?thesis
    using cleanupCorresQueue_eq [OF assms(1-3)] by (auto simp: liftq_def modk_def)
qed

theorem cleanup_drops_bystander_witness:
  "\<exists>q'. cleanupCorresQueue 2 (mksched [(RUNNABLE, RR), (RUNNABLE, RR), (RUNNING, RR)] [0, 1] [] []) =
     Ret () (set_queue RR q' (mksched [(RUNNABLE, RR), (RUNNABLE, RR), (RUNNING, RR)] [0, 1] [] [])) \<and>
     contents q' = [0]"
  using cleanup_drops_bystander [where s = "mksched [(RUNNABLE, RR), (RUNNABLE, RR), (RUNNING, RR)] [0, 1] [] []"
      and p = 2 and qt = RR and c = 0 and xs = "[0]" and y = 1]
  by (auto simp: mksched_proc mkproc_def mkqueue_wf)

end
