(* ===== verification/Scheduler.thy ===== *)
theory Scheduler
  imports Runqueues
begin

text \<open>
  The scheduler half of \<^verbatim>\<open>proc.c\<close>: \<^verbatim>\<open>scheduler\<close>, \<^verbatim>\<open>sched\<close>, \<^verbatim>\<open>yield\<close>, \<^verbatim>\<open>sleep\<close>, \<^verbatim>\<open>wakeup\<close>, \<^verbatim>\<open>kill\<close>,
  \<^verbatim>\<open>agingMechanism\<close>, \<^verbatim>\<open>change_queue\<close> and the BJF parameters, with \<^verbatim>\<open>switchuvm\<close> and \<^verbatim>\<open>switchkvm\<close> of \<^verbatim>\<open>vm.c\<close>.

  A context switch has two halves. \<^verbatim>\<open>sched\<close> ends in \<open>Block\<close>: the process is suspended with its
  continuation in \<open>ctx\<close> and the processor is back in its scheduler, at the place \<open>sched_ctx\<close> says, which
  \<open>scheduler_back\<close> runs. \<open>scheduler_round\<close> and \<open>scheduler_back\<close> return the process they switched to, if any;
  that process goes on in \<open>resume\<close>. \<^verbatim>\<open>ptable.lock\<close> is held across each switch.

  Of the task state segment that \<^verbatim>\<open>switchuvm\<close> loads, the state has the stack pointer \<open>esp0\<close>. \<^verbatim>\<open>change_queue\<close> and \<^verbatim>\<open>change_local_bjf\<close> look, for
  a number that no process has, at the entry behind the process table: a \<open>Fault\<close>. Their messages to the console are left out.

  Shown: an invariant that ties queues, states and types together, its preservation by every
  operation that does not move a running process, and what the scheduler chooses.
\<close>

section \<open>The current process\<close>

definition myproc :: "('z ksched_scheme, nat option) kop" where
  "myproc = thenk pushcli
     (bindk mycpu (\<lambda>c. bindk (getk (\<lambda>s. cproc (cpus s ! c))) (\<lambda>p. thenk popcli (retk p))))"

text \<open>\<^verbatim>\<open>myproc()->f\<close>, read and written.\<close>

definition nonnull :: "'a option \<Rightarrow> ('s, 'a) kop" where
  "nonnull x = (case x of None \<Rightarrow> stopk (Fault ''null'') | Some a \<Rightarrow> retk a)"

definition myid :: "('z ksched_scheme, nat) kop" where
  "myid = bindk myproc nonnull"

definition myget :: "(proc \<Rightarrow> 'a) \<Rightarrow> ('z ksched_scheme, 'a) kop" where
  "myget f = bindk myid (\<lambda>i. getk (\<lambda>s. f (proc_at s i)))"

definition myset :: "(proc \<Rightarrow> proc) \<Rightarrow> ('z ksched_scheme, unit) kop" where
  "myset f = bindk myid (\<lambda>i. modk (upd_proc i f))"

definition randGen :: "uint \<Rightarrow> ('z ksched_scheme, uint) kop" where
  "randGen seed = getk (\<lambda>s.
     (drop_bit 2 (push_bit 1 (push_bit 5 (seed + ticks s) div 13) * 17) - ticks s div 3) div 3)"

section \<open>Leaving the processor\<close>

text \<open>\<^verbatim>\<open>sched\<close> up to its \<^verbatim>\<open>swtch\<close>; \<open>k\<close> is the continuation of its caller.\<close>

definition sched :: "(bool \<Rightarrow> kcontext) \<Rightarrow> ('z ksched_scheme, 'a) kop" where
  "sched k =
     bindk myproc (\<lambda>p.
     bindk (holding PtableLock) (\<lambda>h.
     if \<not> h then panic ''sched ptable.lock''
     else bindk mycpu (\<lambda>c. bindk (getk (\<lambda>s. ncli (cpus s ! c))) (\<lambda>n.
     if n \<noteq> 1 then panic ''sched locks''
     else bindk (nonnull p) (\<lambda>i. bindk (getk (\<lambda>s. pstate (proc_at s i))) (\<lambda>st.
     if st = RUNNING then panic ''sched running''
     else bindk readeflags_IF (\<lambda>f.
     if f then panic ''sched interruptible''
     else bindk mycpu (\<lambda>c. bindk (getk (\<lambda>s. intena (cpus s ! c))) (\<lambda>ie.
     (\<lambda>s. Block (upd_proc i (\<lambda>p. p\<lparr>ctx := k ie\<rparr>) s)))))))))))"

definition yield :: "('z ksched_scheme, unit) kop" where
  "yield =
     thenk (acquire PtableLock)
    (thenk (myset (\<lambda>p. p\<lparr>running_ticks := 0\<rparr>))
    (bindk (myget q_type) (\<lambda>qt.
     thenk (whenk (qt = RR) (modk (\<lambda>s. s\<lparr>rr_counter := rr_counter s + 1\<rparr>)))
    (bindk (myget change_running_queue) (\<lambda>moved.
     thenk (whenk moved (bindk (myget q_type) (\<lambda>qt. bindk myid (\<lambda>i.
       thenk (enqueue qt i) (myset (\<lambda>p. p\<lparr>change_running_queue := False\<rparr>))))))
    (thenk (myset (\<lambda>p. p\<lparr>pstate := RUNNABLE\<rparr>))
     (sched InYield)))))))"

definition sleep :: "chan \<Rightarrow> lockid option \<Rightarrow> ('z ksched_scheme, 'a) kop" where
  "sleep ch lk =
     bindk myproc (\<lambda>p.
     case p of None \<Rightarrow> panic ''sleep''
     | Some i \<Rightarrow>
       (case lk of None \<Rightarrow> panic ''sleep without lk''
        | Some l \<Rightarrow>
           thenk (whenk (l \<noteq> PtableLock) (thenk (acquire PtableLock) (release l)))
          (thenk (cleanupCorresQueue i)
          (thenk (modk (upd_proc i (\<lambda>p. p\<lparr>chan := Some ch\<rparr>)))
          (thenk (modk (upd_proc i (\<lambda>p. p\<lparr>pstate := SLEEPING\<rparr>)))
           (sched (\<lambda>ie. InSleep ie l)))))))"

text \<open>The second halves, run when the scheduler switches back to process \<open>i\<close>.\<close>

definition sched_return :: "bool \<Rightarrow> ('z ksched_scheme, unit) kop" where
  "sched_return ie = bindk mycpu (\<lambda>c. modk (upd_cpu c (\<lambda>k. k\<lparr>intena := ie\<rparr>)))"

definition sleep_return :: "nat \<Rightarrow> lockid \<Rightarrow> ('z ksched_scheme, unit) kop" where
  "sleep_return i l =
     thenk (modk (upd_proc i (\<lambda>p. p\<lparr>chan := None\<rparr>)))
       (whenk (l \<noteq> PtableLock) (thenk (release PtableLock) (acquire l)))"

definition resume :: "nat \<Rightarrow> ('z ksched_scheme, unit) kop \<Rightarrow> ('z ksched_scheme, unit) kop" where
  "resume i forkret =
     bindk (getk (\<lambda>s. ctx (proc_at s i))) (\<lambda>k.
     case k of
       NoContext \<Rightarrow> stopk (Fault ''null context'')
     | AtForkret \<Rightarrow> forkret
     | InYield ie \<Rightarrow> thenk (sched_return ie) (release PtableLock)
     | InSleep ie l \<Rightarrow> thenk (sched_return ie) (sleep_return i l)
     | InExit ie \<Rightarrow> thenk (sched_return ie) (panic ''zombie exit''))"

section \<open>Waking up\<close>

definition wakeup1 :: "chan \<Rightarrow> ('z ksched_scheme, unit) kop" where
  "wakeup1 ch = foreach [0..<NPROC] (\<lambda>i.
     bindk (getk (\<lambda>s. proc_at s i)) (\<lambda>p.
     whenk (pstate p = SLEEPING \<and> chan p = Some ch)
       (thenk (enqueue (q_type p) i) (modk (upd_proc i (\<lambda>p. p\<lparr>pstate := RUNNABLE\<rparr>))))))"

definition wakeup :: "chan \<Rightarrow> ('z ksched_scheme, unit) kop" where
  "wakeup ch = thenk (acquire PtableLock) (thenk (wakeup1 ch) (release PtableLock))"

definition find_pid :: "int \<Rightarrow> 'z ksched_scheme \<Rightarrow> nat option" where
  "find_pid pd s = find_index (\<lambda>p. pid p = pd) (ptable s)"

definition kill :: "int \<Rightarrow> ('z ksched_scheme, int) kop" where
  "kill pd =
     thenk (acquire PtableLock)
    (bindk (getk (find_pid pd)) (\<lambda>f.
     case f of
       None \<Rightarrow> thenk (release PtableLock) (retk (-1))
     | Some i \<Rightarrow>
        thenk (modk (upd_proc i (\<lambda>p. p\<lparr>killed := True\<rparr>)))
       (bindk (getk (\<lambda>s. proc_at s i)) (\<lambda>p.
        thenk (whenk (pstate p = SLEEPING)
          (thenk (enqueue (q_type p) i) (modk (upd_proc i (\<lambda>p. p\<lparr>pstate := RUNNABLE\<rparr>)))))
        (thenk (release PtableLock) (retk 0))))))"

section \<open>Moving between queues\<close>

definition age :: "nat \<Rightarrow> ('z ksched_scheme, unit) kop" where
  "age i =
     bindk (getk (\<lambda>s. pstate (proc_at s i))) (\<lambda>st.
     whenk (st = RUNNABLE)
      (thenk (modk (upd_proc i (\<lambda>p. p\<lparr>waiting_time := waiting_time p + 1\<rparr>)))
      (bindk (getk (\<lambda>s. proc_at s i)) (\<lambda>p.
       whenk (2000 < waiting_time p \<and> q_type p \<noteq> RR)
        (thenk (cleanupCorresQueue i)
        (thenk (modk (upd_proc i (\<lambda>p. p\<lparr>q_type := RR\<rparr>)))
         (enqueue RR i)))))))"

definition agingMechanism :: "('z ksched_scheme, unit) kop" where
  "agingMechanism =
     bindk (holding PtableLock) (\<lambda>h.
     thenk (whenk (\<not> h) (acquire PtableLock))
    (thenk (foreach [0..<NPROC] age)
     (release PtableLock)))"

definition queue_id :: "int \<Rightarrow> schedQ option" where
  "queue_id n = (if n = 0 then Some DEF else if n = 1 then Some RR else if n = 2 then Some LCFS
     else if n = 3 then Some BJF else None)"

definition change_queue :: "int \<Rightarrow> int \<Rightarrow> ('z ksched_scheme, unit) kop" where
  "change_queue pd queueID =
     thenk (acquire PtableLock)
    (bindk (getk (find_pid pd)) (\<lambda>f.
     case f of
       None \<Rightarrow> stopk (Fault ''ptable end'')
     | Some i \<Rightarrow>
        bindk (getk (\<lambda>s. pstate (proc_at s i))) (\<lambda>st.
        thenk (whenk (st = RUNNING \<or> st = RUNNABLE) (cleanupCorresQueue i))
       (thenk
         (case queue_id queueID of
            None \<Rightarrow> retk ()
          | Some qt \<Rightarrow> thenk (modk (upd_proc i (\<lambda>p. p\<lparr>q_type := qt\<rparr>)))
              (whenk (st = RUNNABLE) (enqueue qt i)))
       (thenk (whenk (st = RUNNING) (modk (upd_proc i (\<lambda>p. p\<lparr>change_running_queue := True\<rparr>))))
        (release PtableLock))))))"

definition set_bjf :: "int \<Rightarrow> int \<Rightarrow> int \<Rightarrow> int \<Rightarrow> proc \<Rightarrow> proc" where
  "set_bjf pRatio aRatio eRatio sRatio p = p\<lparr>priority_ratio := of_int pRatio,
     arrivetime_ratio := of_int aRatio, executed_cycle_ratio := of_int eRatio, size_ratio := of_int sRatio\<rparr>"

definition change_local_bjf :: "int \<Rightarrow> int \<Rightarrow> int \<Rightarrow> int \<Rightarrow> int \<Rightarrow> ('z ksched_scheme, int) kop" where
  "change_local_bjf pd pRatio aRatio eRatio sRatio =
     thenk (acquire PtableLock)
    (bindk (getk (find_pid pd)) (\<lambda>f.
     case f of
       None \<Rightarrow> stopk (Fault ''ptable end'')
     | Some i \<Rightarrow> thenk (modk (upd_proc i (set_bjf pRatio aRatio eRatio sRatio)))
         (thenk (release PtableLock) (retk 0))))"

definition change_global_bjf :: "int \<Rightarrow> int \<Rightarrow> int \<Rightarrow> int \<Rightarrow> ('z ksched_scheme, int) kop" where
  "change_global_bjf pRatio aRatio eRatio sRatio =
     thenk (acquire PtableLock)
    (thenk (foreach [0..<NPROC] (\<lambda>i. modk (upd_proc i (set_bjf pRatio aRatio eRatio sRatio))))
    (thenk (release PtableLock)
    (thenk (modk (\<lambda>s. s\<lparr>g_ratios := (pRatio, aRatio, eRatio, sRatio)\<rparr>))
     (retk 0))))"

section \<open>Choosing a process\<close>

text \<open>
  The conversion of a \<^verbatim>\<open>float\<close> to \<^verbatim>\<open>int\<close> truncates; out of range the x87 stores the smallest \<^verbatim>\<open>int\<close>.
\<close>

definition float_to_int :: "rat \<Rightarrow> int" where
  "float_to_int x = (let t = (if 0 \<le> x then \<lfloor>x\<rfloor> else \<lceil>x\<rceil>) in
     if - 2147483648 \<le> t \<and> t < 2147483648 then t else - 2147483648)"

definition calculate_rank :: "proc \<Rightarrow> int" where
  "calculate_rank p = float_to_int (of_int (priority p) * priority_ratio p +
     of_nat (unat (arrivetime p)) * arrivetime_ratio p + executed_cycle p * executed_cycle_ratio p)"

definition entry :: "queue \<Rightarrow> nat \<Rightarrow> ('s, nat) kop" where
  "entry q k = (if k < length (qproc q) then nonnull (qproc q ! k) else stopk (Fault ''queue end''))"

text \<open>A loop over entries of a queue that stops at the first runnable process.\<close>

fun first_runnable :: "queue \<Rightarrow> nat list \<Rightarrow> ('z ksched_scheme, nat option) kop" where
  "first_runnable q [] = retk None"
| "first_runnable q (k # ks) =
     bindk (entry q k) (\<lambda>p. bindk (getk (\<lambda>s. pstate (proc_at s p))) (\<lambda>st.
     if st = RUNNABLE then retk (Some p) else first_runnable q ks))"

text \<open>\<^verbatim>\<open>(rr_counter + k) % (rr_q.pi + 1)\<close>, in unsigned arithmetic.\<close>

definition rr_index :: "uint \<Rightarrow> int \<Rightarrow> nat \<Rightarrow> nat" where
  "rr_index counter n k = unat ((counter + of_nat k) mod of_int (n + 1))"

definition pick_rr :: "('z ksched_scheme, nat option) kop" where
  "pick_rr = bindk (getk id) (\<lambda>s. let q = rr_q s; idx = rr_index (rr_counter s) (qpi q) in
     bindk (entry q (idx 0)) (\<lambda>p.
     case pstate (proc_at s p) of
       RUNNABLE \<Rightarrow> retk (Some p)
     | RUNNING \<Rightarrow> first_runnable q (map (\<lambda>i. idx (i + 1)) [0..<nat (qpi q)])
     | _ \<Rightarrow> panic ''No runnable process\<newline>''))"

definition pick_lcfs :: "('z ksched_scheme, nat option) kop" where
  "pick_lcfs = bindk (getk id) (\<lambda>s. let q = lcfs_q s in
     bindk (entry q (nat (qpi q))) (\<lambda>p.
     case pstate (proc_at s p) of
       RUNNABLE \<Rightarrow> retk (Some p)
     | RUNNING \<Rightarrow> first_runnable q (rev [0..<nat (qpi q)])
     | _ \<Rightarrow> panic ''No runnable process\<newline>''))"

text \<open>The BJF loop computes a best process, but \<^verbatim>\<open>found_runnable\<close> stays zero.\<close>

fun best_bjf :: "queue \<Rightarrow> nat list \<Rightarrow> nat option \<Rightarrow> rat \<Rightarrow> ('z ksched_scheme, nat option) kop" where
  "best_bjf q [] p worst_rank = retk p"
| "best_bjf q (k # ks) p worst_rank =
     bindk (entry q k) (\<lambda>i. bindk (getk (\<lambda>s. proc_at s i)) (\<lambda>pr.
     if pstate pr \<noteq> RUNNABLE then best_bjf q ks p worst_rank
     else if of_int (calculate_rank pr) < worst_rank
       then best_bjf q ks (Some i) (of_int (calculate_rank pr))
       else best_bjf q ks p worst_rank))"

definition pick_bjf :: "('z ksched_scheme, nat option) kop" where
  "pick_bjf = bindk (getk bjf_q) (\<lambda>q.
     bindk (best_bjf q [0..<nat (qpi q)] None 999999999) (\<lambda>p.
     let found_runnable = False in retk (if found_runnable then p else None)))"

section \<open>The scheduler loop\<close>

definition switchkvm :: "('z ksched_scheme, unit) kop" where
  "switchkvm = modk (\<lambda>s. s\<lparr>cr3 := (cr3 s)(this s := V2P (kpgdir s))\<rparr>)"

definition switchuvm :: "nat option \<Rightarrow> ('z ksched_scheme, unit) kop" where
  "switchuvm p =
     (case p of None \<Rightarrow> panic ''switchuvm: no process''
      | Some i \<Rightarrow> bindk (getk (\<lambda>s. proc_at s i)) (\<lambda>p.
         if kstack p = 0 then panic ''switchuvm: no kstack''
         else if pgdir p = 0 then panic ''switchuvm: no pgdir''
         else thenk pushcli (bindk mycpu (\<lambda>c.
           thenk (modk (\<lambda>s. s\<lparr>esp0 := (esp0 s)(c := kstack p + 4096)\<rparr>))
          (thenk (modk (\<lambda>s. s\<lparr>cr3 := (cr3 s)(this s := V2P (pgdir p))\<rparr>))
           popcli)))))"

text \<open>The statements before \<^verbatim>\<open>swtch\<close>; afterwards the processor runs process \<open>i\<close>.\<close>

definition run_process :: "nat \<Rightarrow> nat \<Rightarrow> sched_context \<Rightarrow> ('z ksched_scheme, nat option) kop" where
  "run_process c i k =
     thenk (modk (upd_proc i (\<lambda>p. p\<lparr>waiting_time := 0\<rparr>)))
    (thenk (modk (upd_cpu c (\<lambda>x. x\<lparr>cproc := Some i\<rparr>)))
    (thenk (switchuvm (Some i))
    (thenk (modk (upd_proc i (\<lambda>p. p\<lparr>pstate := RUNNING\<rparr>)))
    (thenk (modk (\<lambda>s. s\<lparr>sched_ctx := (sched_ctx s)(c := k)\<rparr>))
     (retk (Some i))))))"

text \<open>The loop over the table from index \<open>n\<close> on.\<close>

definition scan_table :: "nat \<Rightarrow> nat \<Rightarrow> ('z ksched_scheme, nat option) kop" where
  "scan_table c n =
     bindk (getk (\<lambda>s. find_index (\<lambda>p. pstate p = RUNNABLE) (drop n (ptable s)))) (\<lambda>f.
     case f of
       Some k \<Rightarrow> run_process c (n + k) (AfterTable (n + k))
     | None \<Rightarrow> thenk (release PtableLock) (retk None))"

definition scheduler_start :: "('z ksched_scheme, nat) kop" where
  "scheduler_start = bindk mycpu (\<lambda>c. thenk (modk (upd_cpu c (\<lambda>x. x\<lparr>cproc := None\<rparr>))) (retk c))"

definition scheduler_round :: "nat \<Rightarrow> ('z ksched_scheme, nat option) kop" where
  "scheduler_round c =
     thenk sti
    (thenk (acquire PtableLock)
    (bindk (getk id) (\<lambda>s.
     let chosen = (\<lambda>p. case p of Some i \<Rightarrow> run_process c i AfterChosen
       | None \<Rightarrow> thenk (release PtableLock) (retk None)) in
     if 0 \<le> qpi (rr_q s) then bindk pick_rr chosen
     else if 0 \<le> qpi (lcfs_q s) then bindk pick_lcfs chosen
     else if 0 \<le> qpi (bjf_q s) then bindk pick_bjf chosen
     else scan_table c 0)))"

definition scheduler_back :: "nat \<Rightarrow> ('z ksched_scheme, nat option) kop" where
  "scheduler_back c =
     thenk switchkvm
    (thenk (modk (upd_cpu c (\<lambda>x. x\<lparr>cproc := None\<rparr>)))
    (bindk (getk (\<lambda>s. sched_ctx s c)) (\<lambda>k.
     case k of
       AfterChosen \<Rightarrow> thenk (release PtableLock) (retk None)
     | AfterTable n \<Rightarrow> scan_table c (n + 1))))"

section \<open>Steps inside the lock\<close>

lemma sched_machine_simps [simp]:
  "ptable (acquired l c s) = ptable s" "ptable (released l c s) = ptable s"
  "ptable (upd_cpu c g s) = ptable s"
  "queue_of qt (acquired l c s) = queue_of qt s" "queue_of qt (released l c s) = queue_of qt s"
  "queue_of qt (upd_cpu c g s) = queue_of qt s"
  "nextpid (acquired l c s) = nextpid s" "nextpid (released l c s) = nextpid s"
  "nextpid (upd_cpu c g s) = nextpid s"
  "rr_counter (acquired l c s) = rr_counter s" "rr_counter (released l c s) = rr_counter s"
  "rr_counter (upd_cpu c g s) = rr_counter s"
  "sched_ctx (acquired l c s) = sched_ctx s" "sched_ctx (released l c s) = sched_ctx s"
  "sched_ctx (upd_cpu c g s) = sched_ctx s"
  by (simp_all add: acquired_def released_def upd_lock_def pushed_def popped_def upd_cpu_def queue_of_def
      split: schedQ.split)

lemma proc_at_simps [simp]:
  "proc_at (acquired l c s) i = proc_at s i" "proc_at (released l c s) i = proc_at s i"
  "proc_at (upd_cpu c g s) i = proc_at s i" "proc_at (set_queue qt q s) i = proc_at s i"
  by (simp_all add: proc_at_def)

lemma upd_proc_simps [simp]:
  "length (ptable (upd_proc i f s)) = length (ptable s)"
  "queue_of qt (upd_proc i f s) = queue_of qt s" "nextpid (upd_proc i f s) = nextpid s"
  "cpus (upd_proc i f s) = cpus s" "locks (upd_proc i f s) = locks s" "this (upd_proc i f s) = this s"
  "if_flag (upd_proc i f s) = if_flag s" "sched_ctx (upd_proc i f s) = sched_ctx s"
  "lapic_id (upd_proc i f s) = lapic_id s" "ncpu (upd_proc i f s) = ncpu s"
  "rr_counter (upd_proc i f s) = rr_counter s"
  by (simp_all add: upd_proc_def queue_of_def split: schedQ.split)

lemma queue_of_other [simp]:
  "queue_of qt (s\<lparr>rr_counter := n\<rparr>) = queue_of qt s" "queue_of qt (s\<lparr>cr3 := r\<rparr>) = queue_of qt s"
  "queue_of qt (s\<lparr>esp0 := r\<rparr>) = queue_of qt s" "queue_of qt (s\<lparr>sched_ctx := k\<rparr>) = queue_of qt s"
  by (simp_all add: queue_of_def split: schedQ.split)

lemma proc_at_upd_proc:
  "i < length (ptable s) \<Longrightarrow> proc_at (upd_proc i f s) j = (if j = i then f (proc_at s i) else proc_at s j)"
  by (simp add: proc_at_def upd_proc_def)

lemma runs_on_upd_proc [simp]: "runs_on (upd_proc i f s) c = runs_on s c"
  by (simp add: runs_on_def)

lemma lock_held_upd_proc [simp]: "lock_held l c (upd_proc i f s) = lock_held l c s"
  by (simp add: lock_held_def)

lemma wp_acquire:
  assumes "lock_free l c s"
  shows "wpk (acquire l) Q B E s = Q () (acquired l c s)"
  using assms acquire_eq [of s c l] by (simp add: lock_free_def wp_Ret_eq)

lemma wp_release:
  assumes "lock_held l c s"
  shows "wpk (release l) Q B E s = Q () (released l c s)"
  using assms release_eq [of s c l] by (simp add: lock_held_def wp_Ret_eq)

lemma wp_holding:
  assumes "lock_held l c s"
  shows "wpk (holding l) Q B E s = Q True s"
  using assms holding_eq [of s c l] by (simp add: lock_held_def wp_Ret_eq)

lemma wp_mycpu:
  assumes "lock_held l c s"
  shows "wpk mycpu Q B E s = Q c s"
  using assms mycpu_eq [of s c] by (simp add: lock_held_def wp_Ret_eq)

text \<open>With a lock held, \<^verbatim>\<open>myproc\<close> reads the processor's entry and changes nothing.\<close>

lemma myproc_eq:
  assumes "lock_held l c s"
  shows "myproc s = Ret (cproc (cpus s ! c)) s"
proof -
  have r: "runs_on s c" "\<not> if_flag s (this s)" "0 < ncli (cpus s ! c)"
    using assms by (simp_all add: lock_held_def)
  have len: "c < length (cpus s)" using r(1) by (rule runs_on_length)
  have my: "mycpu (pushed c s) = Ret c (pushed c s)"
    using r by (intro mycpu_eq) simp_all
  have pop: "popcli (pushed c s) = Ret () s"
    using r popcli_eq [of "pushed c s" c] popped_pushed [OF r] by simp
  have "cproc (cpus (pushed c s) ! c) = cproc (cpus s ! c)" using len by (simp add: pushed_def)
  then show ?thesis
    using r(1) by (simp add: myproc_def thenk_def bindk_def pushcli_eq my getk_def pop retk_def)
qed

lemma wp_myproc:
  assumes "lock_held l c s"
  shows "wpk myproc Q B E s = Q (cproc (cpus s ! c)) s"
  using myproc_eq [OF assms] by (rule wp_Ret_eq)

lemma my_eq:
  assumes "lock_held l c s" and "cproc (cpus s ! c) = Some i"
  shows "myid s = Ret i s" and "myget f s = Ret (f (proc_at s i)) s" and "myset g s = Ret () (upd_proc i g s)"
  using assms myproc_eq [OF assms(1)]
  by (simp_all add: myid_def myget_def myset_def bindk_def nonnull_def retk_def getk_def modk_def)

lemma wp_my:
  assumes "lock_held l c s" and "cproc (cpus s ! c) = Some i"
  shows "wpk myid Q B E s = Q i s"
    and "wpk (myget f) R B E s = R (f (proc_at s i)) s"
    and "wpk (myset g) U B E s = U () (upd_proc i g s)"
  using assms by (simp_all add: myid_def myget_def myset_def wp wp_myproc [OF assms(1)] nonnull_def)

text \<open>\<^verbatim>\<open>sched\<close> called the way it wants to be called suspends the process.\<close>

lemma sched_eq:
  assumes "lock_held PtableLock c s" and "cproc (cpus s ! c) = Some i"
    and "ncli (cpus s ! c) = 1" and "pstate (proc_at s i) \<noteq> RUNNING"
  shows "sched k s = Block (upd_proc i (\<lambda>p. p\<lparr>ctx := k (intena (cpus s ! c))\<rparr>) s)"
proof -
  have "holding PtableLock s = Ret True s" "mycpu s = Ret c s" "\<not> if_flag s (this s)"
    using assms(1) holding_eq [of s c PtableLock] mycpu_eq [of s c] by (simp_all add: lock_held_def)
  then show ?thesis
    using assms myproc_eq [OF assms(1)]
    by (simp add: sched_def bindk_def getk_def nonnull_def retk_def readeflags_IF_def)
qed

section \<open>Queues, states and types agree\<close>

text \<open>
  A process is due in a queue when it is runnable, or running without having been moved by
  \<^verbatim>\<open>change_queue\<close>. \<open>rq_inv X s\<close>: but for the processes in \<open>X\<close>, which are in no queue, each queue holds exactly
  the due processes of its type, each once; no process that runs, will run or sleeps is of type \<open>DEF\<close>
  or lacks a kernel stack or a page table; live pids are different and below \<^verbatim>\<open>nextpid\<close>; only running processes carry the mark of \<^verbatim>\<open>change_queue\<close>.
\<close>

definition due :: "proc \<Rightarrow> bool" where
  "due p \<longleftrightarrow> pstate p = RUNNABLE \<or> (pstate p = RUNNING \<and> \<not> change_running_queue p)"

definition proc_ok :: "proc \<Rightarrow> bool" where
  "proc_ok p \<longleftrightarrow> (pstate p \<in> {SLEEPING, RUNNABLE, RUNNING} \<longrightarrow>
       q_type p \<noteq> DEF \<and> kstack p \<noteq> 0 \<and> pgdir p \<noteq> 0) \<and>
     (change_running_queue p \<longrightarrow> pstate p = RUNNING)"

definition live :: "'z ksched_scheme \<Rightarrow> nat set" where
  "live s = {i. i < NPROC \<and> pstate (proc_at s i) \<noteq> UNUSED}"

definition queued :: "nat set \<Rightarrow> schedQ \<Rightarrow> 'z ksched_scheme \<Rightarrow> bool" where
  "queued X qt s \<longleftrightarrow> wf_queue (queue_of qt s) \<and> distinct (contents (queue_of qt s)) \<and>
     set (contents (queue_of qt s)) =
       {i. i < NPROC \<and> i \<notin> X \<and> due (proc_at s i) \<and> q_type (proc_at s i) = qt}"

definition rq_inv :: "nat set \<Rightarrow> 'z ksched_scheme \<Rightarrow> bool" where
  "rq_inv X s \<longleftrightarrow> length (ptable s) = NPROC \<and> (\<forall>qt. qt \<noteq> DEF \<longrightarrow> queued X qt s) \<and>
     (\<forall>i < NPROC. i \<notin> X \<longrightarrow> proc_ok (proc_at s i)) \<and>
     inj_on (\<lambda>i. pid (proc_at s i)) (live s) \<and> (\<forall>i \<in> live s. pid (proc_at s i) < nextpid s)"

lemma rq_inv_length: "rq_inv X s \<Longrightarrow> length (ptable s) = NPROC"
  by (simp add: rq_inv_def)

lemma rq_inv_queued: "rq_inv X s \<Longrightarrow> qt \<noteq> DEF \<Longrightarrow> queued X qt s"
  by (simp add: rq_inv_def)

text \<open>The invariant reads only the table, the queues and \<^verbatim>\<open>nextpid\<close>.\<close>

lemma rq_inv_frame:
  assumes "rq_inv X s" and "ptable t = ptable s" and "nextpid t = nextpid s"
    and "\<And>qt. queue_of qt t = queue_of qt s"
  shows "rq_inv X t"
  using assms by (simp add: rq_inv_def queued_def live_def proc_at_def)

lemma rq_inv_machine [simp]:
  "rq_inv X (acquired l c s) = rq_inv X s" "rq_inv X (released l c s) = rq_inv X s"
  "rq_inv X (upd_cpu c g s) = rq_inv X s"
  by (simp_all add: rq_inv_def queued_def live_def)

text \<open>Changing a process outside the queues, or in fields the invariant does not read.\<close>

lemma live_upd_proc:
  assumes "i < length (ptable s)" and "pstate (f (proc_at s i)) = UNUSED \<longleftrightarrow> pstate (proc_at s i) = UNUSED"
  shows "live (upd_proc i f s) = live s"
  using assms by (auto simp: live_def proc_at_upd_proc)

lemma rq_inv_upd_out:
  assumes inv: "rq_inv X s" and i: "i \<in> X" "i < NPROC"
    and f: "pid (f (proc_at s i)) = pid (proc_at s i)"
      "pstate (f (proc_at s i)) = UNUSED \<longleftrightarrow> pstate (proc_at s i) = UNUSED"
  shows "rq_inv X (upd_proc i f s)"
proof -
  have len: "i < length (ptable s)" using inv i by (simp add: rq_inv_def)
  have "queued X qt (upd_proc i f s)" if "qt \<noteq> DEF" for qt
    using rq_inv_queued [OF inv that] i len by (auto simp: queued_def proc_at_upd_proc)
  moreover have "(\<lambda>j. pid (proc_at (upd_proc i f s) j)) = (\<lambda>j. pid (proc_at s j))"
    using len f by (auto simp: proc_at_upd_proc)
  ultimately show ?thesis
    using inv i len live_upd_proc [of i s f] f(2) f(1) by (auto simp: rq_inv_def proc_at_upd_proc)
qed

lemma rq_inv_upd_due:
  assumes inv: "rq_inv X s" and i: "i < NPROC"
    and f: "pid (f (proc_at s i)) = pid (proc_at s i)"
      "pstate (f (proc_at s i)) = UNUSED \<longleftrightarrow> pstate (proc_at s i) = UNUSED"
      "q_type (f (proc_at s i)) = q_type (proc_at s i)"
    and eq: "due (f (proc_at s i)) = due (proc_at s i)" "proc_ok (proc_at s i) \<longrightarrow> proc_ok (f (proc_at s i))"
  shows "rq_inv X (upd_proc i f s)"
proof -
  have len: "i < length (ptable s)" using inv i by (simp add: rq_inv_def)
  have "queued X qt (upd_proc i f s)" if "qt \<noteq> DEF" for qt
    using rq_inv_queued [OF inv that] i len eq f by (auto simp: queued_def proc_at_upd_proc)
  moreover have "(\<lambda>j. pid (proc_at (upd_proc i f s) j)) = (\<lambda>j. pid (proc_at s j))"
    using len f by (auto simp: proc_at_upd_proc)
  ultimately show ?thesis
    using inv i len live_upd_proc [of i s f] f eq by (auto simp: rq_inv_def proc_at_upd_proc)
qed

lemma rq_inv_upd_same:
  assumes "rq_inv X s" and "i < NPROC"
    and "pid (f (proc_at s i)) = pid (proc_at s i)" "pstate (f (proc_at s i)) = pstate (proc_at s i)"
      "q_type (f (proc_at s i)) = q_type (proc_at s i)"
      "change_running_queue (f (proc_at s i)) = change_running_queue (proc_at s i)"
      "kstack (f (proc_at s i)) = kstack (proc_at s i)" "pgdir (f (proc_at s i)) = pgdir (proc_at s i)"
  shows "rq_inv X (upd_proc i f s)"
  using assms by (intro rq_inv_upd_due) (simp_all add: due_def proc_ok_def)

text \<open>A process that is not due may be put into the set of exceptions, and taken from it.\<close>

lemma rq_inv_insert:
  assumes "rq_inv X s" and "\<not> due (proc_at s i)"
  shows "rq_inv (insert i X) s"
proof -
  have "queued (insert i X) qt s" if "qt \<noteq> DEF" for qt
    using rq_inv_queued [OF assms(1) that] assms(2) by (auto simp: queued_def)
  then show ?thesis using assms(1) by (simp add: rq_inv_def)
qed

lemma rq_inv_delete:
  assumes "rq_inv X s" and "\<not> due (proc_at s i)" and "proc_ok (proc_at s i)"
  shows "rq_inv (X - {i}) s"
proof -
  have "queued (X - {i}) qt s" if "qt \<noteq> DEF" for qt
    using rq_inv_queued [OF assms(1) that] assms(2) by (auto simp: queued_def)
  then show ?thesis using assms(1,3) by (auto simp: rq_inv_def)
qed

lemma queued_member:
  "queued X qt s \<Longrightarrow> j \<in> set (contents (queue_of qt s)) \<longleftrightarrow>
     j < NPROC \<and> j \<notin> X \<and> due (proc_at s j) \<and> q_type (proc_at s j) = qt"
  by (simp add: queued_def)

lemma queued_live: "queued X qt s \<Longrightarrow> set (contents (queue_of qt s)) \<subseteq> live s"
  by (rule subsetI) (auto simp: queued_member live_def due_def)

lemma queued_card: "queued X qt s \<Longrightarrow> length (contents (queue_of qt s)) = card (set (contents (queue_of qt s)))"
  unfolding queued_def using distinct_card by metis

lemma queued_room:
  assumes "queued X qt s" and "i \<in> X" and "i < NPROC"
  shows "length (contents (queue_of qt s)) < NPROC"
proof -
  let ?c = "contents (queue_of qt s)"
  have "set ?c \<subseteq> {..<NPROC} - {i}" using assms by (auto simp: queued_def)
  then have "card (set ?c) \<le> card ({..<NPROC} - {i})" by (intro card_mono) auto
  also have "\<dots> < NPROC" using assms(3) by simp
  finally show ?thesis using queued_card [OF assms(1)] by simp
qed

lemma queued_full:
  assumes q: "queued X qt s" and "length (contents (queue_of qt s)) = NPROC"
  shows "\<forall>j < NPROC. due (proc_at s j)"
proof -
  let ?c = "contents (queue_of qt s)"
  have "set ?c \<subseteq> {..<NPROC}" using queued_member [OF q] by auto
  moreover have "card (set ?c) = card {..<NPROC}" using queued_card [OF q] assms(2) by simp
  ultimately have "set ?c = {..<NPROC}" by (intro card_subset_eq) auto
  then show ?thesis using queued_member [OF q] by auto
qed

text \<open>Putting a process back: afterwards it may be made due, or has been before.\<close>

lemma enqueue_inv:
  assumes inv: "rq_inv X s" and i: "i \<in> X" "i < NPROC" and qt: "qt \<noteq> DEF"
  shows "\<exists>q'. enqueue qt i s = Ret () (set_queue qt q' s) \<and>
    contents q' = contents (queue_of qt s) @ [i] \<and>
    (\<forall>f. pid (f (proc_at s i)) = pid (proc_at s i) \<and> due (f (proc_at s i)) \<and>
      q_type (f (proc_at s i)) = qt \<and> proc_ok (f (proc_at s i)) \<and> pstate (proc_at s i) \<noteq> UNUSED \<longrightarrow>
      rq_inv (X - {i}) (upd_proc i f (set_queue qt q' s)))"
proof -
  let ?q = "queue_of qt s"
  have q: "queued X qt s" using inv qt by (rule rq_inv_queued)
  obtain q' where q': "push i ?q = Inr q'" "wf_queue q'" "contents q' = contents ?q @ [i]"
    using push_eq [of ?q i] q queued_room [OF q i] by (auto simp: queued_def)
  have len: "i < length (ptable s)" using inv i by (simp add: rq_inv_def)
  have "rq_inv (X - {i}) (upd_proc i f (set_queue qt q' s))"
    if f: "pid (f (proc_at s i)) = pid (proc_at s i)" "due (f (proc_at s i))"
      "q_type (f (proc_at s i)) = qt" "proc_ok (f (proc_at s i))" "pstate (proc_at s i) \<noteq> UNUSED" for f
  proof -
    let ?t = "upd_proc i f (set_queue qt q' s)"
    have at: "proc_at ?t j = (if j = i then f (proc_at s i) else proc_at s j)" for j
      using len by (simp add: proc_at_upd_proc)
    have "queued (X - {i}) qt' ?t" if "qt' \<noteq> DEF" for qt'
    proof (cases "qt' = qt")
      case True
      then show ?thesis using q i q' f qt by (auto simp: queued_def at)
    next
      case False
      then show ?thesis
        using rq_inv_queued [OF inv that] i f by (auto simp: queued_def at)
    qed
    moreover have "live ?t = live s"
      using f(2,5) len by (auto simp: live_def at due_def)
    moreover have "(\<lambda>j. pid (proc_at ?t j)) = (\<lambda>j. pid (proc_at s j))" using f(1) by (auto simp: at)
    ultimately show ?thesis using inv f by (auto simp: rq_inv_def at)
  qed
  with q' show ?thesis by (auto simp: enqueue_eq qt liftq_def modk_def)
qed

text \<open>Taking a due process out; only a queue that holds the whole table makes it fail.\<close>

lemma cleanup_inv:
  assumes inv: "rq_inv X s" and lock: "lock_held PtableLock c s"
    and i: "i \<notin> X" "i < NPROC" "due (proc_at s i)"
  shows "(\<exists>q'. cleanupCorresQueue i s = Ret () (set_queue (q_type (proc_at s i)) q' s) \<and>
      contents q' = remove1 i (contents (queue_of (q_type (proc_at s i)) s)) \<and>
      rq_inv (insert i X) (set_queue (q_type (proc_at s i)) q' s)) \<or>
    (cleanupCorresQueue i s = Stop (Fault ''queue end'') \<and>
      length (contents (queue_of (q_type (proc_at s i)) s)) = NPROC)"
proof -
  let ?qt = "q_type (proc_at s i)"
  let ?q = "queue_of ?qt s"
  have "proc_ok (proc_at s i)" using inv i by (simp add: rq_inv_def)
  then have qt: "?qt \<noteq> DEF" using i(3) by (auto simp: proc_ok_def due_def)
  then have q: "queued X ?qt s" by (rule rq_inv_queued [OF inv])
  then have mem: "i \<in> set (contents ?q)" using i by (simp add: queued_def)
  have "set (contents ?q) \<subseteq> live s" using q by (rule queued_live)
  then have inj: "inj_on (\<lambda>i. pid (proc_at s i)) (set (contents ?q))"
    using inv by (auto simp: rq_inv_def intro: inj_on_subset)
  show ?thesis
  proof (cases "length (contents ?q) < NPROC")
    case True
    obtain q' where q': "cleanupCorresQueue i s = Ret () (set_queue ?qt q' s)" "wf_queue q'"
      "contents q' = remove1 i (contents ?q)"
      using cleanup_member [OF lock refl qt _ mem inj True] q by (auto simp: queued_def)
    have "queued (insert i X) qt' (set_queue ?qt q' s)" if "qt' \<noteq> DEF" for qt'
      using rq_inv_queued [OF inv that] q q' qt
      by (cases "qt' = ?qt") (auto simp: queued_def)
    then have "rq_inv (insert i X) (set_queue ?qt q' s)"
      using inv by (auto simp: rq_inv_def live_def)
    with q' show ?thesis by blast
  next
    case False
    have "length (contents ?q) = card (set (contents ?q))" using q by (rule queued_card)
    also have "\<dots> \<le> card {..<NPROC}" using q by (intro card_mono) (auto simp: queued_def)
    finally have "length (contents ?q) = NPROC" using False by simp
    with cleanup_full [OF lock refl qt] q show ?thesis by (simp add: queued_def)
  qed
qed

text \<open>What the operations inside the lock may change.\<close>

definition rq_frame :: "'z ksched_scheme \<Rightarrow> 'z ksched_scheme \<Rightarrow> bool" where
  "rq_frame s t \<longleftrightarrow> s\<lparr>ptable := ptable t, rr_q := rr_q t, lcfs_q := lcfs_q t, bjf_q := bjf_q t\<rparr> = t"

lemma rq_frame_refl [simp]: "rq_frame s s"
  by (simp add: rq_frame_def)

lemma rq_frame_upd [simp]: "rq_frame s (upd_proc i f s)" "rq_frame s (set_queue qt q s)"
  by (simp_all add: rq_frame_def upd_proc_def set_queue_def split: schedQ.split)

lemma rq_frame_trans:
  assumes "rq_frame s t" and "rq_frame t u"
  shows "rq_frame s u"
proof -
  have "u = t\<lparr>ptable := ptable u, rr_q := rr_q u, lcfs_q := lcfs_q u, bjf_q := bjf_q u\<rparr>"
    using assms(2) by (simp only: rq_frame_def)
  also have "\<dots> = s\<lparr>ptable := ptable t, rr_q := rr_q t, lcfs_q := lcfs_q t, bjf_q := bjf_q t\<rparr>
      \<lparr>ptable := ptable u, rr_q := rr_q u, lcfs_q := lcfs_q u, bjf_q := bjf_q u\<rparr>"
    using assms(1) by (simp only: rq_frame_def)
  finally show ?thesis by (simp add: rq_frame_def)
qed

lemma rq_frameD:
  assumes "rq_frame s t"
  shows "cpus t = cpus s" "locks t = locks s" "this t = this s" "if_flag t = if_flag s"
    "lapic_id t = lapic_id s" "ncpu t = ncpu s" "nextpid t = nextpid s" "sched_ctx t = sched_ctx s"
    "rr_counter t = rr_counter s" "ticks t = ticks s"
proof -
  obtain a b c d where "t = s\<lparr>ptable := a, rr_q := b, lcfs_q := c, bjf_q := d\<rparr>"
    using assms by (metis rq_frame_def)
  then show "cpus t = cpus s" "locks t = locks s" "this t = this s" "if_flag t = if_flag s"
    "lapic_id t = lapic_id s" "ncpu t = ncpu s" "nextpid t = nextpid s" "sched_ctx t = sched_ctx s"
    "rr_counter t = rr_counter s" "ticks t = ticks s"
    by simp_all
qed

lemma lock_held_frame:
  assumes "rq_frame s t"
  shows "lock_held l c t = lock_held l c s"
  by (simp add: lock_held_def runs_on_def rq_frameD [OF assms])

text \<open>A whole section: \<^verbatim>\<open>ptable.lock\<close> taken, table and queues changed, the lock given back.\<close>

definition section_of :: "nat \<Rightarrow> 'z ksched_scheme \<Rightarrow> 'z ksched_scheme \<Rightarrow> bool" where
  "section_of c s t \<longleftrightarrow> (\<exists>u. rq_frame (acquired PtableLock c s) u \<and> t = released PtableLock c u)"

lemma map_upd_same [simp]: "(map f xs)[c := f (xs ! c)] = map f xs"
  by (metis list_update_id map_update)

lemma cproc_machine [simp]:
  "map cproc (cpus (acquired l c s)) = map cproc (cpus s)"
  "map cproc (cpus (released l c s)) = map cproc (cpus s)"
  by (simp_all add: acquired_def released_def upd_lock_def pushed_def popped_def map_update)

lemma section_ofI: "rq_frame (acquired PtableLock c s) u \<Longrightarrow> section_of c s (released PtableLock c u)"
  by (auto simp: section_of_def)

lemma section_of_props:
  assumes "section_of c s t" and "lock_free PtableLock c s"
  shows "lock_free PtableLock c t" and "map cproc (cpus t) = map cproc (cpus s)"
    and "sched_ctx t = sched_ctx s" and "nextpid t = nextpid s" and "rr_counter t = rr_counter s"
proof -
  let ?a = "acquired PtableLock c s"
  obtain u where u: "rq_frame ?a u" "t = released PtableLock c u"
    using assms(1) by (auto simp: section_of_def)
  have "lock_held PtableLock c u"
    using lock_held_frame [OF u(1)] lock_held_acquired [OF assms(2)] by simp
  then show "lock_free PtableLock c t" by (simp add: u(2) lock_free_released)
  show "map cproc (cpus t) = map cproc (cpus s)" "sched_ctx t = sched_ctx s" "nextpid t = nextpid s"
    "rr_counter t = rr_counter s"
    by (simp_all add: u(2) rq_frameD [OF u(1)])
qed

text \<open>An operation that runs its body under the lock.\<close>

lemma wp_section:
  assumes free: "lock_free PtableLock c s"
    and body: "wpk m (\<lambda>a u. rq_frame (acquired PtableLock c s) u \<and>
      (\<forall>t. section_of c s t \<and> ptable t = ptable u \<and> (\<forall>qt. queue_of qt t = queue_of qt u) \<longrightarrow> Q a t))
      never E (acquired PtableLock c s)"
  shows "wpk (thenk (acquire PtableLock) (bindk m (\<lambda>a. thenk (release PtableLock) (retk a)))) Q never E s"
proof -
  let ?a = "acquired PtableLock c s"
  have "wpk m (\<lambda>a. wpk (thenk (release PtableLock) (retk a)) Q never E) never E ?a"
    using body
  proof (rule wp_mono)
    fix a u assume u: "rq_frame ?a u \<and> (\<forall>t. section_of c s t \<and> ptable t = ptable u \<and>
      (\<forall>qt. queue_of qt t = queue_of qt u) \<longrightarrow> Q a t)"
    then have "lock_held PtableLock c u"
      using lock_held_frame [of ?a u] lock_held_acquired [OF free] by simp
    with u show "wpk (thenk (release PtableLock) (retk a)) Q never E u"
      by (auto simp: wp_thenk wp_release wp_retk section_of_def)
  qed auto
  then show ?thesis by (simp add: wp_thenk wp_acquire [OF free] wp_bindk)
qed

section \<open>Waking up\<close>

definition sleeps_on :: "chan \<Rightarrow> proc \<Rightarrow> bool" where
  "sleeps_on ch p \<longleftrightarrow> pstate p = SLEEPING \<and> chan p = Some ch"

definition awake :: "proc \<Rightarrow> proc" where
  "awake p = p\<lparr>pstate := RUNNABLE\<rparr>"

lemma make_runnable:
  assumes inv: "rq_inv {} s" and i: "i < NPROC" and st: "pstate (proc_at s i) = SLEEPING"
  shows "\<exists>q'. thenk (enqueue (q_type (proc_at s i)) i) (modk (upd_proc i (\<lambda>p. p\<lparr>pstate := RUNNABLE\<rparr>))) s =
      Ret () (upd_proc i awake (set_queue (q_type (proc_at s i)) q' s)) \<and>
    contents q' = contents (queue_of (q_type (proc_at s i)) s) @ [i] \<and> q_type (proc_at s i) \<noteq> DEF \<and>
    rq_inv {} (upd_proc i awake (set_queue (q_type (proc_at s i)) q' s))"
proof -
  let ?qt = "q_type (proc_at s i)"
  have ok: "proc_ok (proc_at s i)" using inv i by (simp add: rq_inv_def)
  then have qt: "?qt \<noteq> DEF" using st by (simp add: proc_ok_def)
  have inv': "rq_inv {i} s" using rq_inv_insert [OF inv, of i] st by (simp add: due_def)
  have aw: "(\<lambda>p. p\<lparr>pstate := RUNNABLE\<rparr>) = awake" by (simp add: awake_def fun_eq_iff)
  have "due (awake (proc_at s i))" "proc_ok (awake (proc_at s i))"
    using ok st by (auto simp: awake_def due_def proc_ok_def)
  moreover obtain q' where q': "enqueue ?qt i s = Ret () (set_queue ?qt q' s)"
    "contents q' = contents (queue_of ?qt s) @ [i]"
    "\<forall>f. pid (f (proc_at s i)) = pid (proc_at s i) \<and> due (f (proc_at s i)) \<and>
      q_type (f (proc_at s i)) = ?qt \<and> proc_ok (f (proc_at s i)) \<and> pstate (proc_at s i) \<noteq> UNUSED \<longrightarrow>
      rq_inv ({i} - {i}) (upd_proc i f (set_queue ?qt q' s))"
    using enqueue_inv [OF inv' _ i qt] by auto
  ultimately have "rq_inv {} (upd_proc i awake (set_queue ?qt q' s))"
    using st by (simp add: awake_def)
  moreover have "thenk (enqueue ?qt i) (modk (upd_proc i (\<lambda>p. p\<lparr>pstate := RUNNABLE\<rparr>))) s =
      Ret () (upd_proc i awake (set_queue ?qt q' s))"
    by (simp only: thenk_def bindk_def q'(1) res.case modk_def aw)
  ultimately show ?thesis using q' qt by blast
qed

lemma wake_loop:
  assumes "rq_inv {} s" and "distinct is" and "set is \<subseteq> {..<NPROC}"
  shows "\<exists>t. foreach is (\<lambda>i. bindk (getk (\<lambda>s. proc_at s i)) (\<lambda>p.
       whenk (pstate p = SLEEPING \<and> chan p = Some ch)
         (thenk (enqueue (q_type p) i) (modk (upd_proc i (\<lambda>p. p\<lparr>pstate := RUNNABLE\<rparr>)))))) s = Ret () t \<and>
    rq_inv {} t \<and> rq_frame s t \<and>
    (\<forall>j. proc_at t j = (if j \<in> set is \<and> sleeps_on ch (proc_at s j) then awake (proc_at s j) else proc_at s j)) \<and>
    (\<forall>qt. qt \<noteq> DEF \<longrightarrow> contents (queue_of qt t) = contents (queue_of qt s) @
      filter (\<lambda>j. sleeps_on ch (proc_at s j) \<and> q_type (proc_at s j) = qt) is)"
    (is "\<exists>t. foreach is ?body s = _ \<and> _")
  using assms
proof (induction "is" arbitrary: s)
  case Nil
  then show ?case by (simp add: retk_def)
next
  case (Cons i is')
  have i: "i < NPROC" "i \<notin> set is'" using Cons.prems by auto
  obtain s1 where s1: "?body i s = Ret () s1" "rq_inv {} s1" "rq_frame s s1"
    "\<forall>j. proc_at s1 j = (if j = i \<and> sleeps_on ch (proc_at s j) then awake (proc_at s j) else proc_at s j)"
    "\<forall>qt. qt \<noteq> DEF \<longrightarrow> contents (queue_of qt s1) = contents (queue_of qt s) @
      filter (\<lambda>j. sleeps_on ch (proc_at s j) \<and> q_type (proc_at s j) = qt) [i]"
  proof (cases "sleeps_on ch (proc_at s i)")
    case False
    then show ?thesis
      using Cons.prems(1) by (intro that [of s]) (auto simp: bindk_def getk_def whenk_def sleeps_on_def retk_def)
  next
    case True
    let ?qt = "q_type (proc_at s i)"
    obtain q' where q': "thenk (enqueue ?qt i) (modk (upd_proc i (\<lambda>p. p\<lparr>pstate := RUNNABLE\<rparr>))) s =
        Ret () (upd_proc i awake (set_queue ?qt q' s))"
      "contents q' = contents (queue_of ?qt s) @ [i]" "?qt \<noteq> DEF"
      "rq_inv {} (upd_proc i awake (set_queue ?qt q' s))"
      using make_runnable [OF Cons.prems(1) i(1)] True by (auto simp: sleeps_on_def)
    have len: "i < length (ptable (set_queue ?qt q' s))" using Cons.prems(1) i by (simp add: rq_inv_def)
    have cont: "contents (queue_of qt (upd_proc i awake (set_queue ?qt q' s))) = contents (queue_of qt s) @
      filter (\<lambda>j. sleeps_on ch (proc_at s j) \<and> q_type (proc_at s j) = qt) [i]" if "qt \<noteq> DEF" for qt
      using q' True that by (cases "qt = ?qt") auto
    show ?thesis
      using True q' cont proc_at_upd_proc [OF len, of awake]
      by (intro that [of "upd_proc i awake (set_queue ?qt q' s)"])
        (auto simp: bindk_def getk_def whenk_def sleeps_on_def intro: rq_frame_trans [OF rq_frame_upd(2) rq_frame_upd(1)])
  qed
  obtain t where t: "foreach is' ?body s1 = Ret () t" "rq_inv {} t" "rq_frame s1 t"
    "\<forall>j. proc_at t j = (if j \<in> set is' \<and> sleeps_on ch (proc_at s1 j) then awake (proc_at s1 j) else proc_at s1 j)"
    "\<forall>qt. qt \<noteq> DEF \<longrightarrow> contents (queue_of qt t) = contents (queue_of qt s1) @
      filter (\<lambda>j. sleeps_on ch (proc_at s1 j) \<and> q_type (proc_at s1 j) = qt) is'"
    using Cons.IH [OF s1(2)] Cons.prems by auto
  have same: "proc_at s1 j = proc_at s j" if "j \<in> set is'" for j using s1(4) i that by auto
  have "filter (\<lambda>j. sleeps_on ch (proc_at s1 j) \<and> q_type (proc_at s1 j) = qt) is' =
      filter (\<lambda>j. sleeps_on ch (proc_at s j) \<and> q_type (proc_at s j) = qt) is'" for qt
    using same by (intro filter_cong) auto
  then have "\<forall>qt. qt \<noteq> DEF \<longrightarrow> contents (queue_of qt t) = contents (queue_of qt s) @
      filter (\<lambda>j. sleeps_on ch (proc_at s j) \<and> q_type (proc_at s j) = qt) (i # is')"
    using t(5) s1(5) by auto
  moreover have "foreach (i # is') ?body s = Ret () t"
    using s1(1) t(1) by (simp add: thenk_def bindk_def)
  moreover have "\<forall>j. proc_at t j = (if j \<in> set (i # is') \<and> sleeps_on ch (proc_at s j)
      then awake (proc_at s j) else proc_at s j)"
    using t(4) s1(4) i by auto
  ultimately show ?case using t(2) rq_frame_trans [OF s1(3) t(3)] by blast
qed

lemma wakeup1_eq:
  assumes "rq_inv {} s"
  shows "\<exists>t. wakeup1 ch s = Ret () t \<and> rq_inv {} t \<and> rq_frame s t \<and>
    (\<forall>j. proc_at t j = (if j < NPROC \<and> sleeps_on ch (proc_at s j) then awake (proc_at s j) else proc_at s j)) \<and>
    (\<forall>qt. qt \<noteq> DEF \<longrightarrow> contents (queue_of qt t) = contents (queue_of qt s) @
      filter (\<lambda>j. sleeps_on ch (proc_at s j) \<and> q_type (proc_at s j) = qt) [0..<NPROC])"
  using wake_loop [OF assms, of "[0..<NPROC]" ch]
  by (simp add: wakeup1_def lessThan_atLeast0 del: upt_rec_numeral)

section \<open>Aging\<close>

definition aged :: "proc \<Rightarrow> proc" where
  "aged p = (if pstate p = RUNNABLE
     then p\<lparr>waiting_time := waiting_time p + 1,
       q_type := (if 2000 < waiting_time p + 1 then RR else q_type p)\<rparr>
     else p)"

text \<open>The one way these operations fail: every process of the table is due, in one queue.\<close>

definition full_queue :: "'z ksched_scheme \<Rightarrow> stop \<Rightarrow> bool" where
  "full_queue s e \<longleftrightarrow> e = Fault ''queue end'' \<and> (\<forall>j < NPROC. due (proc_at s j))"

lemma full_queue_cong:
  "(\<And>j. j < NPROC \<Longrightarrow> due (proc_at t j) = due (proc_at s j)) \<Longrightarrow> full_queue t = full_queue s"
  by (auto simp: full_queue_def fun_eq_iff)

lemma upd_proc_id: "i < length (ptable s) \<Longrightarrow> upd_proc i (\<lambda>p. p) s = s"
  by (simp add: upd_proc_def)

lemma upd_proc_cong: "f (proc_at s i) = g (proc_at s i) \<Longrightarrow> upd_proc i f s = upd_proc i g s"
  by (simp add: upd_proc_def proc_at_def)

lemma wp_cleanup_inv:
  assumes "rq_inv X s" "lock_held PtableLock c s" "i \<notin> X" "i < NPROC" "due (proc_at s i)"
    and "\<And>q'. rq_inv (insert i X) (set_queue (q_type (proc_at s i)) q' s) \<Longrightarrow>
      Q () (set_queue (q_type (proc_at s i)) q' s)"
    and "\<forall>j < NPROC. due (proc_at s j) \<Longrightarrow> E (Fault ''queue end'')"
  shows "wpk (cleanupCorresQueue i) Q B E s"
proof -
  have qt: "q_type (proc_at s i) \<noteq> DEF"
    using assms(1,3-5) by (auto simp: rq_inv_def proc_ok_def due_def)
  show ?thesis
    using cleanup_inv [OF assms(1-5)] assms(6,7) queued_full [OF rq_inv_queued [OF assms(1) qt]]
    by (auto simp: wpk_def)
qed

lemma wp_enqueue_inv:
  assumes "rq_inv X s" "i \<in> X" "i < NPROC" "qt \<noteq> DEF"
    and "\<And>q'. (\<forall>f. pid (f (proc_at s i)) = pid (proc_at s i) \<and> due (f (proc_at s i)) \<and>
      q_type (f (proc_at s i)) = qt \<and> proc_ok (f (proc_at s i)) \<and> pstate (proc_at s i) \<noteq> UNUSED \<longrightarrow>
      rq_inv (X - {i}) (upd_proc i f (set_queue qt q' s))) \<Longrightarrow> Q () (set_queue qt q' s)"
  shows "wpk (enqueue qt i) Q B E s"
  using enqueue_inv [OF assms(1-4)] assms(5) by (auto simp: wpk_def)

text \<open>Moving a runnable process to another queue.\<close>

lemma requeue_inv:
  assumes inv: "rq_inv {} s" and lock: "lock_held PtableLock c s" and i: "i < NPROC"
    and st: "pstate (proc_at s i) = RUNNABLE" and qt: "qt \<noteq> DEF"
  shows "wpk (thenk (cleanupCorresQueue i)
      (thenk (modk (upd_proc i (\<lambda>p. p\<lparr>q_type := qt\<rparr>))) (enqueue qt i)))
    (\<lambda>_ t. rq_inv {} t \<and> rq_frame s t \<and>
      (\<forall>j. proc_at t j = (if j = i then (proc_at s i)\<lparr>q_type := qt\<rparr> else proc_at s j)))
    never (full_queue s) s"
  unfolding wp
proof (rule wp_cleanup_inv [OF inv lock])
  let ?qt = "q_type (proc_at s i)" and ?f = "\<lambda>p. p\<lparr>q_type := qt\<rparr>"
  fix q' assume q': "rq_inv {i} (set_queue ?qt q' s)"
  let ?t = "upd_proc i ?f (set_queue ?qt q' s)"
  have len: "i < length (ptable (set_queue ?qt q' s))" using q' i by (simp add: rq_inv_def)
  have t: "rq_inv {i} ?t" using q' i by (intro rq_inv_upd_out) auto
  have at: "proc_at ?t j = (if j = i then ?f (proc_at s i) else proc_at s j)" for j
    using len by (simp add: proc_at_upd_proc)
  have ok: "proc_ok (proc_at s i)" using inv i by (simp add: rq_inv_def)
  show "wpk (enqueue qt i) (\<lambda>_ t. rq_inv {} t \<and> rq_frame s t \<and>
      (\<forall>j. proc_at t j = (if j = i then ?f (proc_at s i) else proc_at s j))) never (full_queue s) ?t"
  proof (rule wp_enqueue_inv [OF t _ i qt])
    fix q'' assume all: "\<forall>f. pid (f (proc_at ?t i)) = pid (proc_at ?t i) \<and> due (f (proc_at ?t i)) \<and>
        q_type (f (proc_at ?t i)) = qt \<and> proc_ok (f (proc_at ?t i)) \<and> pstate (proc_at ?t i) \<noteq> UNUSED \<longrightarrow>
        rq_inv ({i} - {i}) (upd_proc i f (set_queue qt q'' ?t))"
    have "rq_inv {} (upd_proc i (\<lambda>p. p) (set_queue qt q'' ?t))"
      using all [rule_format, of "\<lambda>p. p"] ok st qt by (simp add: at due_def proc_ok_def)
    then have "rq_inv {} (set_queue qt q'' ?t)" using len by (simp add: upd_proc_id)
    moreover have "rq_frame s (set_queue qt q'' ?t)"
      by (rule rq_frame_trans [OF rq_frame_trans [OF rq_frame_upd(2) rq_frame_upd(1)] rq_frame_upd(2)])
    ultimately show "rq_inv {} (set_queue qt q'' ?t) \<and> rq_frame s (set_queue qt q'' ?t) \<and>
        (\<forall>j. proc_at (set_queue qt q'' ?t) j = (if j = i then ?f (proc_at s i) else proc_at s j))"
      by (simp add: at)
  qed simp
qed (use i st in \<open>simp_all add: due_def full_queue_def\<close>)

lemma age_inv:
  assumes inv: "rq_inv {} s" and lock: "lock_held PtableLock c s" and i: "i < NPROC"
  shows "wpk (age i) (\<lambda>_ t. rq_inv {} t \<and> rq_frame s t \<and>
    (\<forall>j. proc_at t j = (if j = i then aged (proc_at s i) else proc_at s j))) never (full_queue s) s"
proof (cases "pstate (proc_at s i) = RUNNABLE")
  case False
  with inv show ?thesis by (auto simp: age_def wp aged_def)
next
  case True
  let ?f = "\<lambda>p. p\<lparr>waiting_time := waiting_time p + 1\<rparr>"
  let ?t = "upd_proc i ?f s"
  have len: "i < length (ptable s)" using inv i by (simp add: rq_inv_def)
  have t: "rq_inv {} ?t" using inv i by (intro rq_inv_upd_same) auto
  have at: "proc_at ?t j = (if j = i then ?f (proc_at s i) else proc_at s j)" for j
    using len by (simp add: proc_at_upd_proc)
  have st: "pstate (proc_at ?t i) = RUNNABLE" using True by (simp add: at)
  have lock': "lock_held PtableLock c ?t" using lock by simp
  have due: "full_queue ?t = full_queue s" by (rule full_queue_cong) (simp add: at due_def)
  show ?thesis
  proof (cases "2000 < waiting_time (proc_at ?t i) \<and> q_type (proc_at ?t i) \<noteq> RR")
    case False
    then show ?thesis using True t at by (auto simp: age_def wp aged_def)
  next
    case big: True
    have "wpk (thenk (cleanupCorresQueue i)
          (thenk (modk (upd_proc i (\<lambda>p. p\<lparr>q_type := RR\<rparr>))) (enqueue RR i)))
        (\<lambda>_ t. rq_inv {} t \<and> rq_frame s t \<and>
          (\<forall>j. proc_at t j = (if j = i then aged (proc_at s i) else proc_at s j))) never (full_queue s) ?t"
      using requeue_inv [OF t lock' i st schedQ.distinct(2)] unfolding due
      by (rule wp_mono) (use big True in \<open>auto simp: at aged_def intro: rq_frame_trans [OF rq_frame_upd(1)]\<close>)
    then show ?thesis using True big by (simp add: age_def wp)
  qed
qed

lemma age_loop:
  assumes "rq_inv {} s" and "lock_held PtableLock c s" and "distinct is" and "set is \<subseteq> {..<NPROC}"
  shows "wpk (foreach is age) (\<lambda>_ t. rq_inv {} t \<and> rq_frame s t \<and>
    (\<forall>j. proc_at t j = (if j \<in> set is then aged (proc_at s j) else proc_at s j))) never (full_queue s) s"
  using assms
proof (induction "is" arbitrary: s)
  case Nil
  then show ?case by (simp add: wp)
next
  case (Cons i is')
  have "wpk (age i) (\<lambda>_ t. rq_inv {} t \<and> rq_frame s t \<and>
      (\<forall>j. proc_at t j = (if j = i then aged (proc_at s i) else proc_at s j))) never (full_queue s) s"
    using Cons.prems by (intro age_inv) auto
  then show ?case
    unfolding foreach.simps wp
  proof (rule wp_mono)
    fix t assume t: "rq_inv {} t \<and> rq_frame s t \<and>
      (\<forall>j. proc_at t j = (if j = i then aged (proc_at s i) else proc_at s j))"
    then have due: "full_queue t = full_queue s"
      by (intro full_queue_cong) (simp add: due_def aged_def)
    have "wpk (foreach is' age) (\<lambda>_ u. rq_inv {} u \<and> rq_frame t u \<and>
        (\<forall>j. proc_at u j = (if j \<in> set is' then aged (proc_at t j) else proc_at t j))) never (full_queue t) t"
      using t Cons.prems lock_held_frame [of s t] by (intro Cons.IH) auto
    then show "wpk (foreach is' age) (\<lambda>_ u. rq_inv {} u \<and> rq_frame s u \<and>
        (\<forall>j. proc_at u j = (if j \<in> set (i # is') then aged (proc_at s j) else proc_at s j))) never (full_queue s) t"
      unfolding due by (rule wp_mono) (use t Cons.prems in \<open>auto intro: rq_frame_trans\<close>)
  qed auto
qed

lemma aging_inv:
  assumes inv: "rq_inv {} s" and free: "lock_free PtableLock c s" and cli: "0 < ncli (cpus s ! c)"
  shows "wpk agingMechanism (\<lambda>_ t. rq_inv {} t \<and> lock_free PtableLock c t \<and>
    (\<exists>u. rq_frame (acquired PtableLock c s) u \<and> t = released PtableLock c u) \<and>
    (\<forall>j < NPROC. proc_at t j = aged (proc_at s j))) never (full_queue s) s"
proof -
  let ?a = "acquired PtableLock c s"
  have h: "holding PtableLock s = Ret False s"
    using free cli holding_eq [of s c PtableLock] by (simp add: lock_free_def cli_ok_def)
  have a: "lock_held PtableLock c ?a" "rq_inv {} ?a"
    using lock_held_acquired [OF free] inv by simp_all
  have due: "full_queue ?a = full_queue s" by (rule full_queue_cong) simp
  have "wpk (thenk (foreach [0..<NPROC] age) (release PtableLock)) (\<lambda>_ t. rq_inv {} t \<and>
      lock_free PtableLock c t \<and> (\<exists>u. rq_frame ?a u \<and> t = released PtableLock c u) \<and>
      (\<forall>j < NPROC. proc_at t j = aged (proc_at s j))) never (full_queue s) ?a"
    unfolding wp_thenk
    using age_loop [OF a(2,1), of "[0..<NPROC]"] unfolding due
  proof (rule wp_mono)
    fix u assume u: "rq_inv {} u \<and> rq_frame ?a u \<and>
      (\<forall>j. proc_at u j = (if j \<in> set [0..<NPROC] then aged (proc_at ?a j) else proc_at ?a j))"
    then have "lock_held PtableLock c u" using a(1) lock_held_frame by blast
    with u show "wpk (release PtableLock) (\<lambda>_ t. rq_inv {} t \<and> lock_free PtableLock c t \<and>
      (\<exists>u. rq_frame ?a u \<and> t = released PtableLock c u) \<and>
      (\<forall>j < NPROC. proc_at t j = aged (proc_at s j))) never (full_queue s) u"
      by (auto simp: wp_release lock_free_released)
  qed auto
  then show ?thesis
    by (simp add: agingMechanism_def wp_bindk wp_Ret_eq [of "holding PtableLock", OF h])
      (simp add: wpf wp_acquire [OF free] del: upt_rec_numeral)
qed

section \<open>Moving a process by hand\<close>

lemma find_pid_bound: "rq_inv X s \<Longrightarrow> find_pid pd s = Some i \<Longrightarrow> i < NPROC \<and> pid (proc_at s i) = pd"
  using find_index_Some [of "\<lambda>p. pid p = pd" "ptable s" i]
  by (simp add: find_pid_def rq_inv_def proc_at_def)

lemma rq_inv_mark:
  assumes inv: "rq_inv {i} s" and i: "i < NPROC" and st: "pstate (proc_at s i) = RUNNING"
    and qt: "q_type (proc_at s i) \<noteq> DEF" "kstack (proc_at s i) \<noteq> 0" "pgdir (proc_at s i) \<noteq> 0"
  shows "rq_inv {} (upd_proc i (\<lambda>p. p\<lparr>change_running_queue := True\<rparr>) s)"
proof -
  let ?t = "upd_proc i (\<lambda>p. p\<lparr>change_running_queue := True\<rparr>) s"
  have at: "proc_at ?t i = (proc_at s i)\<lparr>change_running_queue := True\<rparr>"
    using inv i by (simp add: rq_inv_def proc_at_upd_proc)
  have "rq_inv {i} ?t" using inv i by (intro rq_inv_upd_out) auto
  then have "rq_inv ({i} - {i}) ?t"
    by (rule rq_inv_delete) (use st qt in \<open>auto simp: at due_def proc_ok_def\<close>)
  then show ?thesis by simp
qed

definition move_body :: "nat \<Rightarrow> schedQ \<Rightarrow> procstate \<Rightarrow> ('z ksched_scheme, unit) kop" where
  "move_body i qt st =
     thenk (whenk (st = RUNNING \<or> st = RUNNABLE) (cleanupCorresQueue i))
    (thenk (thenk (modk (upd_proc i (\<lambda>p. p\<lparr>q_type := qt\<rparr>))) (whenk (st = RUNNABLE) (enqueue qt i)))
     (whenk (st = RUNNING) (modk (upd_proc i (\<lambda>p. p\<lparr>change_running_queue := True\<rparr>)))))"

text \<open>\<^verbatim>\<open>change_queue\<close> to an existing queue, for a process that is not yet marked.\<close>

definition moved :: "schedQ \<Rightarrow> proc \<Rightarrow> proc" where
  "moved qt p = (if pstate p = RUNNING then p\<lparr>q_type := qt, change_running_queue := True\<rparr>
     else p\<lparr>q_type := qt\<rparr>)"

lemma move_inv:
  assumes inv: "rq_inv {} s" and lock: "lock_held PtableLock c s" and i: "i < NPROC"
    and qt: "qt \<noteq> DEF" and unmarked: "\<not> change_running_queue (proc_at s i)"
  shows "wpk (move_body i qt (pstate (proc_at s i))) (\<lambda>_ t. rq_inv {} t \<and> rq_frame s t \<and>
    (\<forall>j. proc_at t j = (if j = i then moved qt (proc_at s i) else proc_at s j))) never (full_queue s) s"
proof -
  let ?st = "pstate (proc_at s i)" and ?f = "\<lambda>p. p\<lparr>q_type := qt\<rparr>"
  have len: "i < length (ptable s)" and ok: "proc_ok (proc_at s i)" using inv i by (simp_all add: rq_inv_def)
  consider "?st = RUNNABLE" | "?st = RUNNING" | "?st \<noteq> RUNNABLE" "?st \<noteq> RUNNING" by blast
  then show ?thesis
  proof cases
    case 1
    have mv: "moved qt (proc_at s i) = ?f (proc_at s i)" by (simp add: moved_def 1)
    show ?thesis
      using requeue_inv [OF inv lock i 1 qt] unfolding move_body_def 1 mv
      by (simp add: wpf split del: if_split)
  next
    case 2
    have mem: "kstack (proc_at s i) \<noteq> 0" "pgdir (proc_at s i) \<noteq> 0"
      using inv i 2 by (auto simp: rq_inv_def proc_ok_def)
    have "wpk (cleanupCorresQueue i) (\<lambda>_ t. rq_inv {} (upd_proc i (\<lambda>p. p\<lparr>change_running_queue := True\<rparr>)
        (upd_proc i ?f t)) \<and> rq_frame s t \<and> (\<forall>j. proc_at t j = proc_at s j) \<and> length (ptable t) = NPROC)
        never (full_queue s) s"
    proof (rule wp_cleanup_inv [OF inv lock])
      fix q' assume q': "rq_inv {i} (set_queue (q_type (proc_at s i)) q' s)"
      then have "rq_inv {i} (upd_proc i ?f (set_queue (q_type (proc_at s i)) q' s))"
        using i by (intro rq_inv_upd_out) auto
      from rq_inv_mark [OF this i] 2 qt len mem
      show "rq_inv {} (upd_proc i (\<lambda>p. p\<lparr>change_running_queue := True\<rparr>)
          (upd_proc i ?f (set_queue (q_type (proc_at s i)) q' s))) \<and>
          rq_frame s (set_queue (q_type (proc_at s i)) q' s) \<and>
          (\<forall>j. proc_at (set_queue (q_type (proc_at s i)) q' s) j = proc_at s j) \<and>
          length (ptable (set_queue (q_type (proc_at s i)) q' s)) = NPROC"
        using rq_inv_length [OF inv] by (simp add: proc_at_upd_proc)
    qed (use i 2 unmarked in \<open>auto simp: due_def full_queue_def\<close>)
    then have "wpk (cleanupCorresQueue i) (\<lambda>_ t. wpk (thenk (modk (upd_proc i ?f))
        (modk (upd_proc i (\<lambda>p. p\<lparr>change_running_queue := True\<rparr>)))) (\<lambda>_ t. rq_inv {} t \<and> rq_frame s t \<and>
      (\<forall>j. proc_at t j = (if j = i then moved qt (proc_at s i) else proc_at s j))) never (full_queue s) t)
      never (full_queue s) s"
      by (rule wp_mono)
        (use i 2 in \<open>auto simp: wp moved_def proc_at_upd_proc intro: rq_frame_trans [OF _ rq_frame_trans [OF rq_frame_upd(1) rq_frame_upd(1)]]\<close>)
    then show ?thesis unfolding move_body_def 2 by (simp add: wpf)
  next
    case 3
    let ?t = "upd_proc i ?f s"
    have at: "proc_at ?t j = (if j = i then ?f (proc_at s i) else proc_at s j)" for j
      using len by (simp add: proc_at_upd_proc)
    have "rq_inv {i} ?t"
      using rq_inv_insert [OF inv, of i] 3 i by (intro rq_inv_upd_out) (auto simp: due_def)
    then have "rq_inv ({i} - {i}) ?t"
      by (rule rq_inv_delete) (use ok 3 qt unmarked in \<open>auto simp: at due_def proc_ok_def\<close>)
    with 3 at unmarked show ?thesis by (auto simp: move_body_def wp moved_def)
  qed
qed

lemma change_queue_section:
  assumes inv: "rq_inv {} s" and free: "lock_free PtableLock c s"
    and found: "find_pid pd s = Some i" and unmarked: "\<not> change_running_queue (proc_at s i)"
    and qt: "queue_id n = Some qt" "qt \<noteq> DEF"
  shows "wpk (change_queue pd n) (\<lambda>_ t. rq_inv {} t \<and> section_of c s t \<and>
    (\<forall>j. proc_at t j = (if j = i then moved qt (proc_at s i) else proc_at s j))) never (full_queue s) s"
proof -
  let ?a = "acquired PtableLock c s"
  have held: "lock_held PtableLock c ?a" using lock_held_acquired [OF free] .
  have find: "find_pid pd ?a = Some i" using found by (simp add: find_pid_def)
  have i: "i < NPROC" using find_pid_bound [OF inv found] by simp
  have move: "wpk (move_body i qt (pstate (proc_at ?a i))) (\<lambda>_ t. rq_inv {} t \<and> rq_frame ?a t \<and>
      (\<forall>j. proc_at t j = (if j = i then moved qt (proc_at ?a i) else proc_at ?a j))) never (full_queue ?a) ?a"
    using inv unmarked qt i held by (intro move_inv) auto
  have due: "full_queue ?a = full_queue s" by (rule full_queue_cong) simp
  have "wpk (thenk (move_body i qt (pstate (proc_at ?a i))) (release PtableLock)) (\<lambda>_ t. rq_inv {} t \<and>
      section_of c s t \<and> (\<forall>j. proc_at t j = (if j = i then moved qt (proc_at s i) else proc_at s j)))
      never (full_queue s) ?a"
    unfolding wp_thenk using move unfolding due
  proof (rule wp_mono)
    fix u assume u: "rq_inv {} u \<and> rq_frame ?a u \<and>
      (\<forall>j. proc_at u j = (if j = i then moved qt (proc_at ?a i) else proc_at ?a j))"
    then have "lock_held PtableLock c u" using held lock_held_frame by blast
    with u show "wpk (release PtableLock) (\<lambda>_ t. rq_inv {} t \<and> section_of c s t \<and>
        (\<forall>j. proc_at t j = (if j = i then moved qt (proc_at s i) else proc_at s j))) never (full_queue s) u"
      by (auto simp: wp_release intro: section_ofI)
  qed auto
  moreover have "change_queue pd n s = thenk (move_body i qt (pstate (proc_at ?a i))) (release PtableLock) ?a"
  proof -
    have "acquire PtableLock s = Ret () ?a"
      using free acquire_eq [of s c PtableLock] by (simp add: lock_free_def)
    then show ?thesis
      by (simp add: change_queue_def move_body_def thenk_Ret bindk_getk find qt thenk_assoc)
  qed
  ultimately show ?thesis by (simp add: wpk_def)
qed

lemma upd_proc_comp: "upd_proc i g (upd_proc i f s) = upd_proc i (\<lambda>p. g (f p)) s"
  by (cases "i < length (ptable s)") (simp_all add: upd_proc_def list_update_beyond)

lemma wakeup_section:
  assumes inv: "rq_inv {} s" and free: "lock_free PtableLock c s"
  shows "wpk (wakeup ch) (\<lambda>_ t. rq_inv {} t \<and> section_of c s t \<and>
    (\<forall>j. proc_at t j = (if j < NPROC \<and> sleeps_on ch (proc_at s j) then awake (proc_at s j) else proc_at s j)) \<and>
    (\<forall>qt. qt \<noteq> DEF \<longrightarrow> contents (queue_of qt t) = contents (queue_of qt s) @
      filter (\<lambda>j. sleeps_on ch (proc_at s j) \<and> q_type (proc_at s j) = qt) [0..<NPROC])) never never s"
proof -
  let ?a = "acquired PtableLock c s"
  have a: "rq_inv {} ?a" using inv by simp
  obtain u where u: "wakeup1 ch ?a = Ret () u" "rq_inv {} u" "rq_frame ?a u"
    "\<forall>j. proc_at u j = (if j < NPROC \<and> sleeps_on ch (proc_at s j) then awake (proc_at s j) else proc_at s j)"
    "\<forall>qt. qt \<noteq> DEF \<longrightarrow> contents (queue_of qt u) = contents (queue_of qt s) @
      filter (\<lambda>j. sleeps_on ch (proc_at s j) \<and> q_type (proc_at s j) = qt) [0..<NPROC]"
    using wakeup1_eq [OF a, of ch] by auto
  have "lock_held PtableLock c u"
    using lock_held_frame [OF u(3)] lock_held_acquired [OF free] by simp
  then show ?thesis
    using u(2-5) unfolding wakeup_def wp_thenk wp_acquire [OF free] wp_Ret_eq [of "wakeup1 ch", OF u(1)]
    by (auto simp: wp_release section_of_def simp del: upt_rec_numeral)
qed

definition struck :: "proc \<Rightarrow> proc" where
  "struck p = (if pstate p = SLEEPING then awake (p\<lparr>killed := True\<rparr>) else p\<lparr>killed := True\<rparr>)"

lemma kill_section:
  assumes inv: "rq_inv {} s" and free: "lock_free PtableLock c s"
  shows "wpk (kill pd) (\<lambda>r t. rq_inv {} t \<and> section_of c s t \<and>
    (case find_pid pd s of
       None \<Rightarrow> r = -1 \<and> (\<forall>j. proc_at t j = proc_at s j)
     | Some i \<Rightarrow> r = 0 \<and> (\<forall>j. proc_at t j = (if j = i then struck (proc_at s j) else proc_at s j))))
    never never s"
proof -
  let ?a = "acquired PtableLock c s"
  have held: "lock_held PtableLock c ?a" using lock_held_acquired [OF free] .
  have find: "find_pid pd ?a = find_pid pd s" by (simp add: find_pid_def)
  show ?thesis
  proof (cases "find_pid pd s")
    case None
    then show ?thesis
      using held inv
      by (auto simp: kill_def wp wp_acquire [OF free] find wp_release intro!: section_ofI)
  next
    case (Some i)
    have i: "i < NPROC" using find_pid_bound [OF inv Some] by simp
    let ?t = "upd_proc i (\<lambda>p. p\<lparr>killed := True\<rparr>) ?a"
    have t: "rq_inv {} ?t" using inv i by (intro rq_inv_upd_same) auto
    have len: "i < length (ptable ?a)" using inv i by (simp add: rq_inv_def)
    have at: "proc_at ?t j = (if j = i then (proc_at s i)\<lparr>killed := True\<rparr> else proc_at s j)" for j
      using len by (simp add: proc_at_upd_proc)
    show ?thesis
    proof (cases "pstate (proc_at s i) = SLEEPING")
      case False
      then show ?thesis
        using Some held t at
        by (auto simp: kill_def wp wp_acquire [OF free] find wp_release struck_def intro!: section_ofI)
    next
      case True
      then have "pstate (proc_at ?t i) = SLEEPING" by (simp add: at)
      from make_runnable [OF t i this] obtain q' where q':
        "thenk (enqueue (q_type (proc_at ?t i)) i) (modk (upd_proc i (\<lambda>p. p\<lparr>pstate := RUNNABLE\<rparr>))) ?t =
          Ret () (upd_proc i awake (set_queue (q_type (proc_at ?t i)) q' ?t))"
        "rq_inv {} (upd_proc i awake (set_queue (q_type (proc_at ?t i)) q' ?t))" by blast
      let ?u = "upd_proc i awake (set_queue (q_type (proc_at ?t i)) q' ?t)"
      have "rq_frame ?a ?u"
        by (rule rq_frame_trans [OF rq_frame_trans [OF rq_frame_upd(1) rq_frame_upd(2)] rq_frame_upd(1)])
      moreover have "proc_at ?u j = (if j = i then struck (proc_at s j) else proc_at s j)" for j
        using len True by (simp add: proc_at_upd_proc at struck_def)
      moreover have "kill pd s = Ret 0 (released PtableLock c ?u)"
      proof -
        have "acquire PtableLock s = Ret () ?a" "release PtableLock ?u = Ret () (released PtableLock c ?u)"
          using free held acquire_eq [of s c PtableLock] release_eq [of ?u c PtableLock]
          by (simp_all add: lock_free_def lock_held_def)
        then show ?thesis
          using q'(1) True Some by (simp add: kill_def thenk_Ret bindk_getk find whenk_def at thenk_modk retk_def)
      qed
      ultimately show ?thesis
        using Some q'(2) by (auto simp: wpk_def intro: section_ofI)
    qed
  qed
qed

section \<open>Giving up the processor\<close>

text \<open>What \<^verbatim>\<open>scheduler\<close> does when a process comes back to it.\<close>

lemma scheduler_back_eq:
  assumes held: "lock_held PtableLock c s" and k: "sched_ctx s c = AfterChosen"
  shows "scheduler_back c s = Ret None (released PtableLock c
    (upd_cpu c (\<lambda>x. x\<lparr>cproc := None\<rparr>) (s\<lparr>cr3 := (cr3 s)(this s := V2P (kpgdir s))\<rparr>)))"
    (is "_ = Ret None (released _ _ ?u)")
proof -
  have "lock_held PtableLock c ?u"
    using held runs_on_length [of s c]
    by (auto simp: lock_held_def runs_on_def upd_cpu_def find_cpu_apicids map_update)
  then have "release PtableLock ?u = Ret () (released PtableLock c ?u)"
    using release_eq [of ?u c PtableLock] by (simp add: lock_held_def)
  then show ?thesis
    using k by (simp add: scheduler_back_def switchkvm_def thenk_modk bindk_getk thenk_Ret retk_def)
qed

definition yielded :: "bool \<Rightarrow> proc \<Rightarrow> proc" where
  "yielded ie p = p\<lparr>running_ticks := 0, change_running_queue := False, pstate := RUNNABLE, ctx := InYield ie\<rparr>"

text \<open>A process that runs on a processor with no lock held may yield.\<close>

definition running_on :: "nat \<Rightarrow> nat \<Rightarrow> 'z ksched_scheme \<Rightarrow> bool" where
  "running_on c i s \<longleftrightarrow> i < NPROC \<and> cproc (cpus s ! c) = Some i \<and> pstate (proc_at s i) = RUNNING"

lemma cproc_nth [simp]:
  assumes "runs_on s c"
  shows "cproc (cpus (acquired l c s) ! c) = cproc (cpus s ! c)"
    "cproc (cpus (released l c s) ! c) = cproc (cpus s ! c)"
  using runs_on_length [OF assms]
  by (simp_all add: acquired_def released_def upd_lock_def pushed_def popped_def)

text \<open>The part of \<^verbatim>\<open>yield\<close> that makes the process runnable, in its new queue if it was moved.\<close>

lemma yield_requeue:
  assumes inv: "rq_inv {} s" and held: "lock_held PtableLock c s" and run: "running_on c i s"
  shows "\<exists>t. bindk (myget change_running_queue) (\<lambda>moved. thenk (whenk moved (bindk (myget q_type) (\<lambda>qt.
       bindk myid (\<lambda>i. thenk (enqueue qt i) (myset (\<lambda>p. p\<lparr>change_running_queue := False\<rparr>))))))
      (myset (\<lambda>p. p\<lparr>pstate := RUNNABLE\<rparr>))) s = Ret () t \<and> rq_inv {} t \<and> rq_frame s t \<and>
    (\<forall>j. proc_at t j = (if j = i then (proc_at s i)\<lparr>change_running_queue := False, pstate := RUNNABLE\<rparr>
       else proc_at s j))"
proof -
  let ?p = "proc_at s i" and ?g = "\<lambda>p. p\<lparr>pstate := RUNNABLE\<rparr>"
  let ?qt = "q_type (proc_at s i)" and ?h = "\<lambda>p. p\<lparr>change_running_queue := False\<rparr>"
  let ?G = "\<lambda>p. p\<lparr>change_running_queue := False, pstate := RUNNABLE\<rparr>"
  have i: "i < NPROC" "i < length (ptable s)" and st: "pstate ?p = RUNNING"
    and cp: "cproc (cpus s ! c) = Some i"
    using run inv by (simp_all add: running_on_def rq_inv_def)
  note my = my_eq [OF held cp]
  show ?thesis
  proof (cases "change_running_queue ?p")
    case False
    have "rq_inv {} (upd_proc i ?g s)"
      using inv i st False by (intro rq_inv_upd_due) (auto simp: due_def proc_ok_def)
    then show ?thesis
      using False i by (auto simp: bindk_Ret my whenk_def thenk_Ret retk_def proc_at_upd_proc)
  next
    case True
    have qt: "?qt \<noteq> DEF" "kstack ?p \<noteq> 0" "pgdir ?p \<noteq> 0"
      using inv i st by (auto simp: rq_inv_def proc_ok_def)
    have "rq_inv {i} s" using rq_inv_insert [OF inv, of i] True st by (simp add: due_def)
    then obtain q' where q': "enqueue ?qt i s = Ret () (set_queue ?qt q' s)"
      "\<forall>f. pid (f ?p) = pid ?p \<and> due (f ?p) \<and> q_type (f ?p) = ?qt \<and> proc_ok (f ?p) \<and> pstate ?p \<noteq> UNUSED \<longrightarrow>
        rq_inv ({i} - {i}) (upd_proc i f (set_queue ?qt q' s))"
      using enqueue_inv [of "{i}" s i ?qt] i qt by auto
    let ?e = "set_queue ?qt q' s"
    have "rq_inv {} (upd_proc i ?G ?e)"
      using q'(2) [rule_format, of ?G] qt st by (simp add: due_def proc_ok_def)
    moreover have "rq_frame s (upd_proc i ?G ?e)"
      by (rule rq_frame_trans [OF rq_frame_upd(2) rq_frame_upd(1)])
    moreover have "myset ?h ?e = Ret () (upd_proc i ?h ?e)"
      "myset ?g (upd_proc i ?h ?e) = Ret () (upd_proc i ?G ?e)"
      using my_eq(3) [of PtableLock c ?e i ?h] my_eq(3) [of PtableLock c "upd_proc i ?h ?e" i ?g] held cp
      by (simp_all add: upd_proc_comp)
    ultimately show ?thesis
      using True i by (auto simp: bindk_Ret my thenk_assoc whenk_def
          q'(1) thenk_Ret proc_at_upd_proc)
  qed
qed

lemma yield_inv:
  assumes inv: "rq_inv {} s" and free: "lock_free PtableLock c s" and ncli: "ncli (cpus s ! c) = 0"
    and run: "running_on c i s"
  shows "\<exists>t ie. yield s = Block t \<and> rq_inv {} t \<and> lock_held PtableLock c t \<and>
      map cproc (cpus t) = map cproc (cpus s) \<and> sched_ctx t = sched_ctx s \<and>
      (\<forall>j. proc_at t j = (if j = i then yielded ie (proc_at s i) else proc_at s j)) \<and>
      rr_counter t = rr_counter s + (if q_type (proc_at s i) = RR then 1 else 0)"
proof -
  let ?a = "acquired PtableLock c s" and ?p = "proc_at s i"
  let ?ie = "intena (cpus ?a ! c)" and ?tick = "\<lambda>s. s\<lparr>rr_counter := rr_counter s + 1\<rparr>"
  define s1 where "s1 = upd_proc i (\<lambda>p. p\<lparr>running_ticks := 0\<rparr>) ?a"
  define s2 where "s2 = (if q_type ?p = RR then ?tick s1 else s1)"
  have on: "runs_on s c" "cproc (cpus s ! c) = Some i" and i: "i < NPROC"
    using free run by (simp_all add: lock_free_def cli_ok_def running_on_def)
  then have cp: "cproc (cpus ?a ! c) = Some i" and n1: "ncli (cpus ?a ! c) = 1"
    using free ncli cli_ok_acquired(3) [of s c PtableLock] by (simp_all add: lock_free_def)
  have held: "lock_held PtableLock c ?a" using lock_held_acquired [OF free] .
  have len: "i < length (ptable s)" using inv i by (simp add: rq_inv_def)
  have eq2: "ptable s2 = ptable s1" "cpus s2 = cpus ?a" "sched_ctx s2 = sched_ctx s" "nextpid s2 = nextpid s"
    "rr_counter s2 = rr_counter s + (if q_type ?p = RR then 1 else 0)"
    "\<And>l. lock_held l c s2 = lock_held l c ?a" "\<And>qt. queue_of qt s2 = queue_of qt s"
    by (simp_all add: s2_def s1_def lock_held_def runs_on_def)
  have "proc_at s2 = proc_at s1" by (simp add: fun_eq_iff proc_at_def eq2(1))
  then have at2: "proc_at s2 j = (if j = i then ?p\<lparr>running_ticks := 0\<rparr> else proc_at s j)" for j
    using len by (simp add: s1_def proc_at_upd_proc)
  have "rq_inv {} s1" unfolding s1_def using inv i by (intro rq_inv_upd_same) auto
  then have "rq_inv {} s2" using rq_inv_frame [of "{}" s1 s2] eq2 by (simp add: s1_def)
  moreover have "running_on c i s2" using run cp by (simp add: running_on_def at2 eq2)
  ultimately obtain s3 where s3: "bindk (myget change_running_queue) (\<lambda>moved. thenk (whenk moved
       (bindk (myget q_type) (\<lambda>qt. bindk myid (\<lambda>i. thenk (enqueue qt i)
         (myset (\<lambda>p. p\<lparr>change_running_queue := False\<rparr>)))))) (myset (\<lambda>p. p\<lparr>pstate := RUNNABLE\<rparr>))) s2 = Ret () s3"
      "rq_inv {} s3" "rq_frame s2 s3"
      "\<forall>j. proc_at s3 j = (if j = i then (proc_at s2 i)\<lparr>change_running_queue := False, pstate := RUNNABLE\<rparr>
       else proc_at s2 j)"
    using yield_requeue [of s2 c i] held eq2(6) by blast
  note fr = rq_frameD [OF s3(3)] lock_held_frame [OF s3(3)]
  let ?t = "upd_proc i (\<lambda>p. p\<lparr>ctx := InYield ?ie\<rparr>) s3"
  have sch: "sched InYield s3 = Block ?t"
    using sched_eq [of c s3 i InYield] cp n1 held s3(4) by (simp add: fr eq2)
  have my: "myset (\<lambda>p. p\<lparr>running_ticks := 0\<rparr>) ?a = Ret () s1" "myget q_type s1 = Ret (q_type ?p) s1"
    using my_eq(3) [OF held cp] my_eq(2) [of PtableLock c s1 i q_type] held cp len
    by (simp_all add: s1_def proc_at_upd_proc)
  have acq: "acquire PtableLock s = Ret () ?a"
    using free acquire_eq [of s c PtableLock] by (simp add: lock_free_def)
  have "yield s = thenk (bindk (myget change_running_queue) (\<lambda>moved. thenk (whenk moved
       (bindk (myget q_type) (\<lambda>qt. bindk myid (\<lambda>i. thenk (enqueue qt i)
         (myset (\<lambda>p. p\<lparr>change_running_queue := False\<rparr>)))))) (myset (\<lambda>p. p\<lparr>pstate := RUNNABLE\<rparr>))))
      (sched InYield) s2"
    by (simp add: yield_def thenk_Ret acq my bindk_Ret thenk_assoc s2_def whenk_def thenk_modk retk_def)
  then have "yield s = Block ?t" using s3(1) sch by (simp add: thenk_Ret)
  moreover have "rq_inv {} ?t" using s3(2) i by (intro rq_inv_upd_same) auto
  moreover have "proc_at ?t j = (if j = i then yielded ?ie ?p else proc_at s j)" for j
    using i rq_inv_length [OF s3(2)] s3(4) by (simp add: proc_at_upd_proc at2 yielded_def)
  ultimately show ?thesis using held by (auto simp: fr eq2 cong: conj_cong)
qed

text \<open>The part of \<^verbatim>\<open>sleep\<close> under \<^verbatim>\<open>ptable.lock\<close>, for a process that \<^verbatim>\<open>change_queue\<close> has not moved.\<close>

definition slept :: "chan \<Rightarrow> kcontext \<Rightarrow> proc \<Rightarrow> proc" where
  "slept ch k p = p\<lparr>chan := Some ch, pstate := SLEEPING, ctx := k\<rparr>"

lemma sleep_body:
  assumes inv: "rq_inv {} s" and held: "lock_held PtableLock c s" and ncli: "ncli (cpus s ! c) = 1"
    and run: "running_on c i s" and unmarked: "\<not> change_running_queue (proc_at s i)"
  shows "wpk (thenk (cleanupCorresQueue i) (thenk (modk (upd_proc i (\<lambda>p. p\<lparr>chan := Some ch\<rparr>)))
      (thenk (modk (upd_proc i (\<lambda>p. p\<lparr>pstate := SLEEPING\<rparr>))) (sched k :: ('z ksched_scheme, 'a) kop))))
    (\<lambda>_. never) (\<lambda>t. rq_inv {} t \<and> rq_frame s t \<and>
      (\<forall>j. proc_at t j = (if j = i then slept ch (k (intena (cpus s ! c))) (proc_at s i) else proc_at s j)))
    (full_queue s) s"
  unfolding wp_thenk
proof (rule wp_cleanup_inv [OF inv held])
  let ?qt = "q_type (proc_at s i)" and ?f = "\<lambda>p. p\<lparr>chan := Some ch, pstate := SLEEPING\<rparr>"
  let ?k = "k (intena (cpus s ! c))"
  fix q' assume q': "rq_inv {i} (set_queue ?qt q' s)"
  let ?u = "upd_proc i ?f (set_queue ?qt q' s)"
  let ?t = "upd_proc i (\<lambda>p. p\<lparr>ctx := ?k\<rparr>) ?u"
  have i: "i < NPROC" "i < length (ptable s)" and st: "pstate (proc_at s i) = RUNNING"
    and ok: "proc_ok (proc_at s i)"
    using run inv by (auto simp: running_on_def rq_inv_def)
  have at: "proc_at ?t j = (if j = i then slept ch ?k (proc_at s i) else proc_at s j)" for j
    using i by (simp add: proc_at_upd_proc slept_def)
  have "rq_inv {i} ?t" unfolding upd_proc_comp using q' i st by (intro rq_inv_upd_out) auto
  then have "rq_inv ({i} - {i}) ?t"
    by (rule rq_inv_delete) (use ok st unmarked in \<open>auto simp: at slept_def due_def proc_ok_def\<close>)
  then have "rq_inv {} ?t" by simp
  moreover have "rq_frame s ?t"
    by (rule rq_frame_trans [OF rq_frame_trans [OF rq_frame_upd(2) rq_frame_upd(1)] rq_frame_upd(1)])
  moreover have "(sched k :: ('z ksched_scheme, 'a) kop) ?u = Block ?t"
    using sched_eq [of c ?u i k] held ncli run i by (simp add: running_on_def proc_at_upd_proc)
  ultimately show "wpk (modk (upd_proc i (\<lambda>p. p\<lparr>chan := Some ch\<rparr>))) (\<lambda>_. wpk (modk (upd_proc i (\<lambda>p. p\<lparr>pstate := SLEEPING\<rparr>)))
      (\<lambda>_. wpk (sched k :: ('z ksched_scheme, 'a) kop) (\<lambda>_. never) (\<lambda>t. rq_inv {} t \<and> rq_frame s t \<and>
        (\<forall>j. proc_at t j = (if j = i then slept ch ?k (proc_at s i) else proc_at s j))) (full_queue s))
      (\<lambda>t. rq_inv {} t \<and> rq_frame s t \<and>
        (\<forall>j. proc_at t j = (if j = i then slept ch ?k (proc_at s i) else proc_at s j))) (full_queue s))
      (\<lambda>t. rq_inv {} t \<and> rq_frame s t \<and>
        (\<forall>j. proc_at t j = (if j = i then slept ch ?k (proc_at s i) else proc_at s j))) (full_queue s) (set_queue ?qt q' s)"
    using at by (simp add: wp_modk upd_proc_comp) (simp add: wpk_def)
qed (use run unmarked in \<open>simp_all add: running_on_def due_def full_queue_def\<close>)

text \<open>Exchanging the caller's lock for \<^verbatim>\<open>ptable.lock\<close>, as \<^verbatim>\<open>sleep\<close> does first.\<close>

lemma exchange_locks:
  assumes held: "lock_held l c s" and free: "lock_free PtableLock c s" and ncli: "ncli (cpus s ! c) = 1"
  defines "t \<equiv> released l c (acquired PtableLock c s)"
  shows "acquire PtableLock s = Ret () (acquired PtableLock c s)" "release l (acquired PtableLock c s) = Ret () t"
    "lock_held PtableLock c t" "ncli (cpus t ! c) = 1" "\<not> locked (locks t l)"
proof -
  let ?a = "acquired PtableLock c s"
  have ne: "l \<noteq> PtableLock" using held free by (auto simp: lock_held_def lock_free_def)
  have ok: "cli_ok s c" using free by (simp add: lock_free_def)
  note a = cli_ok_acquired [OF ok, of PtableLock]
  show "acquire PtableLock s = Ret () ?a"
    using free acquire_eq [OF ok, of PtableLock] by (simp add: lock_free_def)
  have hl: "lock_held l c ?a" using held a ne by (simp add: lock_held_def)
  then show "release l ?a = Ret () t" using release_eq [of ?a c l] by (simp add: lock_held_def t_def)
  have on: "runs_on ?a c" using a by simp
  note r = released_props [OF on, of l]
  show "lock_held PtableLock c t" "ncli (cpus t ! c) = 1" "\<not> locked (locks t l)"
    using r a ncli ne by (simp_all add: t_def lock_held_def)
qed

lemma sleep_inv:
  assumes inv: "rq_inv {} s" and held: "lock_held l c s" and ncli: "ncli (cpus s ! c) = 1"
    and free: "l \<noteq> PtableLock \<Longrightarrow> lock_free PtableLock c s"
    and run: "running_on c i s" and unmarked: "\<not> change_running_queue (proc_at s i)"
  shows "wpk (sleep ch (Some l) :: ('z ksched_scheme, 'a) kop) (\<lambda>_. never) (\<lambda>t. rq_inv {} t \<and> lock_held PtableLock c t \<and>
      map cproc (cpus t) = map cproc (cpus s) \<and> sched_ctx t = sched_ctx s \<and>
      (l \<noteq> PtableLock \<longrightarrow> \<not> locked (locks t l)) \<and>
      (\<exists>ie. \<forall>j. proc_at t j = (if j = i then slept ch (InSleep ie l) (proc_at s i) else proc_at s j)))
    (full_queue s) s"
proof -
  let ?body = "thenk (cleanupCorresQueue i) (thenk (modk (upd_proc i (\<lambda>p. p\<lparr>chan := Some ch\<rparr>)))
      (thenk (modk (upd_proc i (\<lambda>p. p\<lparr>pstate := SLEEPING\<rparr>))) (sched (\<lambda>ie. InSleep ie l) :: ('z ksched_scheme, 'a) kop)))"
  define u where "u = (if l = PtableLock then s else released l c (acquired PtableLock c s))"
  have on: "runs_on s c" "cproc (cpus s ! c) = Some i" using held run by (simp_all add: lock_held_def running_on_def)
  have u: "lock_held PtableLock c u" "ncli (cpus u ! c) = 1" "l \<noteq> PtableLock \<longrightarrow> \<not> locked (locks u l)"
    using held ncli exchange_locks [OF held free ncli] by (auto simp: u_def)
  have same: "map cproc (cpus u) = map cproc (cpus s)" "sched_ctx u = sched_ctx s" "rq_inv {} u"
    "proc_at u = proc_at s" "running_on c i u"
    using inv run on cli_ok_acquired(1) [of s c PtableLock] free
    by (auto simp: u_def fun_eq_iff running_on_def lock_free_def)
  have "sleep ch (Some l) s = ?body u"
    using myproc_eq [OF held] on(2) exchange_locks(1,2) [OF held free ncli]
    by (simp add: sleep_def bindk_Ret whenk_def u_def thenk_assoc thenk_Ret retk_def)
  moreover have due: "full_queue u = full_queue s" by (rule full_queue_cong) (simp add: same)
  have "wpk ?body (\<lambda>_. never) (\<lambda>t. rq_inv {} t \<and> rq_frame u t \<and>
      (\<forall>j. proc_at t j = (if j = i then slept ch (InSleep (intena (cpus u ! c)) l) (proc_at u i) else proc_at u j)))
    (full_queue u) u"
    using u same unmarked by (intro sleep_body) auto
  then have "wpk ?body (\<lambda>_. never) (\<lambda>t. rq_inv {} t \<and> lock_held PtableLock c t \<and>
      map cproc (cpus t) = map cproc (cpus s) \<and> sched_ctx t = sched_ctx s \<and>
      (l \<noteq> PtableLock \<longrightarrow> \<not> locked (locks t l)) \<and>
      (\<exists>ie. \<forall>j. proc_at t j = (if j = i then slept ch (InSleep ie l) (proc_at s i) else proc_at s j)))
    (full_queue s) u"
    unfolding due by (rule wp_mono) (use u same in \<open>auto simp: lock_held_frame rq_frameD\<close>)
  ultimately show ?thesis by (simp add: wpk_def)
qed

end
