(* ===== verification/Dispatch.thy ===== *)
theory Dispatch
  imports Scheduler
begin

text \<open>
  What the scheduler chooses, and the properties of the scheduling operations as wholes.

  \<open>pick_rr\<close> and \<open>pick_lcfs\<close> are compared with a search in the queue read as a list: round robin is the
  first runnable process of the queue rotated to \<^verbatim>\<open>rr_counter\<close>, last-come-first-served is the last runnable
  process of the queue. The BJF branch of the code computes a process but never runs it.
\<close>

section \<open>Searching a queue\<close>

abbreviation runnable_at :: "'z ksched_scheme \<Rightarrow> nat \<Rightarrow> bool" where
  "runnable_at s i \<equiv> pstate (proc_at s i) = RUNNABLE"

lemma entry_eq:
  assumes "wf_queue q" and "k < length (contents q)"
  shows "entry q k s = Ret (contents q ! k) s"
proof -
  have len: "length (contents q) \<le> length (qproc q)"
    using assms(1) by (auto simp: length_contents wf_queue_def)
  have "take (length (contents q)) (qproc q) = map Some (contents q)"
    using wf_queue_entries [OF assms(1)] length_contents [OF assms(1)] by simp
  then have "qproc q ! k = Some (contents q ! k)"
    using assms(2) by (metis nth_map nth_take)
  then show ?thesis using assms(2) len by (simp add: entry_def nonnull_def retk_def)
qed

lemma first_runnable_eq:
  assumes "wf_queue q" and "\<forall>k\<in>set ks. k < length (contents q)"
  shows "first_runnable q ks s = Ret (find (runnable_at s) (map ((!) (contents q)) ks)) s"
  using assms(2)
proof (induction ks)
  case Nil
  then show ?case by (simp add: retk_def)
next
  case (Cons k ks)
  then show ?case using entry_eq [OF assms(1), of k s]
    by (simp add: bindk_Ret bindk_getk retk_def)
qed

text \<open>Members of a queue are runnable or running, so the panics of the scheduler are not reached.\<close>

lemma queued_states:
  assumes "queued {} qt s" and "i \<in> set (contents (queue_of qt s))"
  shows "pstate (proc_at s i) = RUNNABLE \<or> pstate (proc_at s i) = RUNNING"
  using assms by (auto simp: queued_member due_def)

lemma pick_lcfs_eq:
  assumes q: "queued {} LCFS s" and pi: "0 \<le> qpi (lcfs_q s)"
  shows "pick_lcfs s = Ret (find (runnable_at s) (rev (contents (lcfs_q s)))) s"
proof -
  let ?q = "lcfs_q s" and ?xs = "contents (lcfs_q s)"
  have wf: "wf_queue ?q" using q by (simp add: queued_def queue_of_def)
  define n where "n = nat (qpi ?q)"
  have len: "length ?xs = Suc n" using pi length_contents [OF wf] by (simp add: n_def nat_add_distrib)
  have rev: "rev ?xs = ?xs ! n # map ((!) ?xs) (rev [0..<n])"
  proof -
    have "rev ?xs = rev (map ((!) ?xs) [0..<Suc n])" using len by (metis map_nth)
    also have "\<dots> = ?xs ! n # map ((!) ?xs) (rev [0..<n])" by (simp add: rev_map)
    finally show ?thesis .
  qed
  have "?xs ! n \<in> set ?xs" using len by simp
  then have st: "runnable_at s (?xs ! n) \<or> pstate (proc_at s (?xs ! n)) = RUNNING"
    using queued_states [OF q, of "?xs ! n"] by (simp add: queue_of_def)
  have "entry ?q n s = Ret (?xs ! n) s" using len by (intro entry_eq wf) simp
  moreover have "first_runnable ?q (rev [0..<n]) s = Ret (find (runnable_at s) (map ((!) ?xs) (rev [0..<n]))) s"
    using len by (intro first_runnable_eq wf) auto
  ultimately show ?thesis
    using st by (auto simp: pick_lcfs_def Let_def bindk_getk bindk_Ret n_def [symmetric] rev retk_def)
qed

text \<open>The round-robin order the code walks, with the wrap-around of its unsigned arithmetic.\<close>

definition rr_order :: "uint \<Rightarrow> nat list \<Rightarrow> nat list" where
  "rr_order counter xs = map (\<lambda>k. xs ! unat ((counter + of_nat k) mod of_nat (length xs))) [0..<length xs]"

lemma pick_rr_eq:
  assumes q: "queued {} RR s" and pi: "0 \<le> qpi (rr_q s)"
  shows "pick_rr s = Ret (find (runnable_at s) (rr_order (rr_counter s) (contents (rr_q s)))) s"
proof -
  let ?q = "rr_q s" and ?xs = "contents (rr_q s)" and ?c = "rr_counter s"
  have wf: "wf_queue ?q" using q by (simp add: queued_def queue_of_def)
  define n where "n = nat (qpi ?q)"
  have len: "length ?xs = Suc n" using pi length_contents [OF wf] by (simp add: n_def nat_add_distrib)
  have small: "Suc n \<le> 64" using wf len by (auto simp: wf_queue_def length_contents)
  let ?at = "rr_index ?c (qpi ?q)"
  have "qpi ?q + 1 = int (Suc n)" using pi by (simp add: n_def)
  then have at: "?at k = unat ((?c + of_nat k) mod of_nat (Suc n))" for k
    by (simp only: rr_index_def of_int_of_nat_eq)
  have sz: "unat (of_nat (Suc n) :: uint) = Suc n"
    using small by (simp add: unat_of_nat del: of_nat_Suc)
  have lt: "?at k < length ?xs" for k
    unfolding at len unat_mod sz by simp
  have ord: "rr_order ?c ?xs = ?xs ! ?at 0 # map ((!) ?xs) (map (\<lambda>i. ?at (i + 1)) [0..<n])"
    unfolding rr_order_def len at by (simp add: upt_conv_Cons map_Suc_upt [symmetric] del: upt_Suc)
  have "?xs ! ?at 0 \<in> set ?xs" using lt by simp
  then have st: "runnable_at s (?xs ! ?at 0) \<or> pstate (proc_at s (?xs ! ?at 0)) = RUNNING"
    using queued_states [OF q] by (simp add: queue_of_def)
  have "entry ?q (?at 0) s = Ret (?xs ! ?at 0) s" using lt by (intro entry_eq wf)
  moreover have "first_runnable ?q (map (\<lambda>i. ?at (i + 1)) [0..<n]) s =
      Ret (find (runnable_at s) (map ((!) ?xs) (map (\<lambda>i. ?at (i + 1)) [0..<n]))) s"
    using lt by (intro first_runnable_eq wf) auto
  ultimately show ?thesis
    using st by (auto simp: pick_rr_def bindk_getk bindk_Ret Let_def n_def [symmetric] ord retk_def)
qed

text \<open>Until the counter comes near its limit this is the queue rotated to the counter.\<close>

lemma rr_order_rotate:
  assumes "unat counter + length xs < 2 ^ 32" and "xs \<noteq> []"
  shows "rr_order counter xs = rotate (unat counter) xs"
proof (rule nth_equalityI)
  show "length (rr_order counter xs) = length (rotate (unat counter) xs)" by (simp add: rr_order_def)
  fix k assume "k < length (rr_order counter xs)"
  then have k: "k < length xs" by (simp add: rr_order_def)
  have "unat (of_nat (length xs) :: uint) = length xs" using assms(1) by (simp add: unat_of_nat)
  moreover have "unat (counter + of_nat k) = unat counter + k"
    using assms(1) k by (simp add: unat_add_of_nat)
  ultimately show "rr_order counter xs ! k = rotate (unat counter) xs ! k"
    using k by (simp add: rr_order_def nth_rotate unat_mod)
qed

section \<open>One round of the scheduler\<close>

text \<open>The process a round would run: round robin first, then last come first served, never BJF.\<close>

definition choice :: "'z ksched_scheme \<Rightarrow> nat option" where
  "choice s = (if contents (rr_q s) \<noteq> [] then find (runnable_at s) (rr_order (rr_counter s) (contents (rr_q s)))
     else find (runnable_at s) (rev (contents (lcfs_q s))))"

lemma best_bjf_returns:
  assumes "wf_queue q" and "\<forall>k\<in>set ks. k < length (contents q)"
  shows "\<exists>r. best_bjf q ks p w s = Ret r s"
  using assms(2)
proof (induction ks arbitrary: p w)
  case Nil
  then show ?case by (simp add: retk_def)
next
  case (Cons k ks)
  then show ?case using entry_eq [OF assms(1), of k s]
    by (simp add: bindk_Ret bindk_getk)
qed

lemma pick_bjf_eq:
  assumes "queued {} BJF s" and "0 \<le> qpi (bjf_q s)"
  shows "pick_bjf s = Ret None s"
proof -
  have wf: "wf_queue (bjf_q s)" using assms(1) by (simp add: queued_def queue_of_def)
  then have "\<exists>r. best_bjf (bjf_q s) [0..<nat (qpi (bjf_q s))] None 999999999 s = Ret r s"
    using assms(2) by (intro best_bjf_returns) (auto simp: length_contents)
  then show ?thesis by (auto simp: pick_bjf_def bindk_getk bindk_Ret retk_def)
qed

lemma find_in_set: "find P xs = Some x \<Longrightarrow> x \<in> set xs \<and> P x"
  by (auto simp: find_Some_iff)

lemma rr_order_subset: "xs \<noteq> [] \<Longrightarrow> length xs \<le> NPROC \<Longrightarrow> set (rr_order counter xs) \<subseteq> set xs"
proof -
  assume xs: "xs \<noteq> []" "length xs \<le> NPROC"
  then have "unat (of_nat (length xs) :: uint) = length xs" by (simp add: unat_of_nat)
  with xs show ?thesis by (auto simp: rr_order_def unat_mod)
qed

lemma choice_runnable:
  assumes inv: "rq_inv {} s" and "choice s = Some i"
  shows "i < NPROC" and "runnable_at s i"
proof -
  have q: "queued {} RR s" "queued {} LCFS s" using inv by (simp_all add: rq_inv_def)
  have "length (contents (rr_q s)) \<le> NPROC"
    using q(1) length_contents [of "rr_q s"] by (auto simp: queued_def queue_of_def wf_queue_def)
  then have "i \<in> set (contents (rr_q s)) \<or> i \<in> set (contents (lcfs_q s))"
    using assms(2) rr_order_subset [of "contents (rr_q s)" "rr_counter s"]
    by (auto simp: choice_def split: if_splits dest!: find_in_set)
  then show "i < NPROC" using q queued_member [of "{}" _ s i] by (auto simp: queue_of_def dest: queued_member)
  show "runnable_at s i"
    using assms(2) by (auto simp: choice_def split: if_splits dest!: find_in_set)
qed

lemma switchuvm_eq:
  assumes held: "lock_held l c s" and "kstack (proc_at s i) \<noteq> 0" and "pgdir (proc_at s i) \<noteq> 0"
  shows "switchuvm (Some i) s = Ret () (s\<lparr>esp0 := (esp0 s)(c := kstack (proc_at s i) + 4096),
    cr3 := (cr3 s)(this s := V2P (pgdir (proc_at s i)))\<rparr>)"
proof -
  let ?w = "\<lambda>s. s\<lparr>esp0 := (esp0 s)(c := kstack (proc_at s i) + 4096),
    cr3 := (cr3 s)(this s := V2P (pgdir (proc_at s i)))\<rparr>"
  let ?p = "(pushed c s)\<lparr>esp0 := (esp0 s)(c := kstack (proc_at s i) + 4096),
    cr3 := (cr3 s)(this s := V2P (pgdir (proc_at s i)))\<rparr>"
  have r: "runs_on s c" "\<not> if_flag s (this s)" "0 < ncli (cpus s ! c)"
    using held by (simp_all add: lock_held_def)
  have my: "mycpu (pushed c s) = Ret c (pushed c s)" using r by (intro mycpu_eq) simp_all
  have on: "runs_on ?p c" using r(1) by (simp add: runs_on_def pushed_def find_cpu_apicids map_update)
  have "popcli ?p = Ret () (popped c ?p)"
    using popcli_eq [OF on] r runs_on_length [OF r(1)] by (simp add: pushed_def)
  also have "popped c ?p = ?w (popped c (pushed c s))"
    by (simp add: popped_def pushed_def proc_at_def)
  also have "\<dots> = ?w s" using popped_pushed [OF r] by simp
  finally have pop: "popcli ?p = Ret () (?w s)" .
  have same: "esp0 (pushed c s) = esp0 s" "cr3 (pushed c s) = cr3 s" "this (pushed c s) = this s"
    by (simp_all add: pushed_def)
  show ?thesis
    using assms(2,3) r(1) pop my
    by (simp add: switchuvm_def bindk_getk thenk_Ret bindk_Ret pushcli_eq thenk_modk same)
qed

lemma switched_upd_proc: "cr3 (upd_proc i f s) = cr3 s" "esp0 (upd_proc i f s) = esp0 s"
  by (simp_all add: upd_proc_def)

lemma lock_held_cproc:
  "c < length (cpus s) \<Longrightarrow> lock_held l c (upd_cpu c (\<lambda>x. x\<lparr>cproc := y\<rparr>) s) = lock_held l c s"
  by (simp add: lock_held_def runs_on_def upd_cpu_def find_cpu_apicids map_update)

definition started_run :: "proc \<Rightarrow> proc" where
  "started_run p = p\<lparr>waiting_time := 0, pstate := RUNNING\<rparr>"

lemma run_process_eq:
  assumes held: "lock_held PtableLock c s" and inv: "rq_inv {} s" and i: "i < NPROC" and st: "runnable_at s i"
  shows "\<exists>t. run_process c i k s = Ret (Some i) t \<and> rq_inv {} t \<and> lock_held PtableLock c t \<and>
    (\<forall>j. proc_at t j = (if j = i then started_run (proc_at s i) else proc_at s j)) \<and>
    map cproc (cpus t) = (map cproc (cpus s))[c := Some i] \<and> sched_ctx t = (sched_ctx s)(c := k) \<and>
    cr3 t = (cr3 s)(this s := V2P (pgdir (proc_at s i))) \<and> esp0 t = (esp0 s)(c := kstack (proc_at s i) + 4096) \<and>
    rr_counter t = rr_counter s \<and>
    (\<forall>qt. queue_of qt t = queue_of qt s)"
proof -
  have ok: "proc_ok (proc_at s i)" and len: "i < length (ptable s)" using inv i by (simp_all add: rq_inv_def)
  then have mem: "kstack (proc_at s i) \<noteq> 0" "pgdir (proc_at s i) \<noteq> 0" and mark: "\<not> change_running_queue (proc_at s i)"
    using st by (auto simp: proc_ok_def)
  let ?f = "\<lambda>p. p\<lparr>waiting_time := 0\<rparr>" and ?g = "\<lambda>p. p\<lparr>pstate := RUNNING\<rparr>"
  let ?c = "\<lambda>x. x\<lparr>cproc := Some i\<rparr>"
  define u where "u = upd_cpu c ?c (upd_proc i ?f s)"
  have len_c: "c < length (cpus s)" using held by (simp add: lock_held_def runs_on_length)
  have at: "proc_at u j = (if j = i then ?f (proc_at s i) else proc_at s j)" for j
    using len by (simp add: u_def proc_at_upd_proc)
  have "rq_inv {} (upd_proc i ?f s)" using inv i by (intro rq_inv_upd_same) auto
  then have u: "rq_inv {} u" "lock_held PtableLock c u"
    using held len_c by (simp_all add: u_def lock_held_cproc)
  define v where "v = u\<lparr>esp0 := (esp0 u)(c := kstack (proc_at u i) + 4096),
    cr3 := (cr3 u)(this u := V2P (pgdir (proc_at u i)))\<rparr>"
  have sw: "switchuvm (Some i) u = Ret () v"
    unfolding v_def using u(2) mem by (intro switchuvm_eq) (auto simp: at)
  let ?t = "(upd_proc i ?g v)\<lparr>sched_ctx := (sched_ctx v)(c := k)\<rparr>"
  have v: "ptable v = ptable u" "cpus v = cpus u" "nextpid v = nextpid u" "\<And>qt. queue_of qt v = queue_of qt u"
    "lock_held PtableLock c v"
    using u(2) by (simp_all add: v_def lock_held_def runs_on_def)
  have "rq_inv {} v" by (rule rq_inv_frame [OF u(1)]) (simp_all add: v)
  then have "rq_inv {} (upd_proc i ?g v)"
    using i st mark ok v(1) at by (intro rq_inv_upd_due) (auto simp: proc_at_def due_def proc_ok_def)
  then have "rq_inv {} ?t" by (rule rq_inv_frame) simp_all
  moreover have "run_process c i k s = Ret (Some i) ?t"
    by (simp add: run_process_def thenk_modk thenk_Ret sw u_def [symmetric] retk_def)
  moreover have "proc_at ?t j = (if j = i then started_run (proc_at s i) else proc_at s j)" for j
    using at [of j] v(1) len by (auto simp: proc_at_def upd_proc_def started_run_def u_def)
  moreover have "lock_held PtableLock c ?t" using v(5) by (simp add: lock_held_def runs_on_def)
  moreover have "map cproc (cpus ?t) = (map cproc (cpus s))[c := Some i]"
    using v(2) by (simp add: u_def upd_cpu_def map_update)
  moreover have "sched_ctx v = sched_ctx s" "rr_counter v = rr_counter s" "queue_of qt u = queue_of qt s"
    "cr3 v = (cr3 s)(this s := V2P (pgdir (proc_at s i)))" "esp0 v = (esp0 s)(c := kstack (proc_at s i) + 4096)" for qt
    by (simp_all add: v_def at) (simp_all add: u_def upd_cpu_def upd_proc_def queue_of_def split: schedQ.split)
  ultimately show ?thesis
    by (intro exI [of _ ?t]) (simp add: v(4) switched_upd_proc)
qed

lemma sti_free:
  assumes "lock_free PtableLock c s" and "ncli (cpus s ! c) = 0"
  shows "lock_free PtableLock c (s\<lparr>if_flag := (if_flag s)(this s := True)\<rparr>)"
  using assms by (simp add: lock_free_def cli_ok_def runs_on_def)

lemma empty_queues_idle:
  assumes inv: "rq_inv {} s" and "contents (rr_q s) = []" "contents (lcfs_q s) = []" "contents (bjf_q s) = []"
  shows "\<not> runnable_at s i \<or> \<not> i < NPROC"
proof (rule ccontr)
  assume "\<not> ?thesis"
  then have i: "runnable_at s i" "i < NPROC" by simp_all
  then have "q_type (proc_at s i) \<noteq> DEF" "due (proc_at s i)"
    using inv by (auto simp: rq_inv_def proc_ok_def due_def)
  then have "i \<in> set (contents (queue_of (q_type (proc_at s i)) s))"
    using queued_member [OF rq_inv_queued [OF inv]] i by simp
  with assms(2-4) \<open>q_type (proc_at s i) \<noteq> DEF\<close> show False
    by (cases "q_type (proc_at s i)") (simp_all add: queue_of_def)
qed

text \<open>A round, from the top of the loop: no process to run, or a switch to the chosen one.\<close>

lemma scheduler_round_inv:
  assumes inv: "rq_inv {} s" and free: "lock_free PtableLock c s" and ncli: "ncli (cpus s ! c) = 0"
  shows "\<exists>t. scheduler_round c s = Ret (choice s) t \<and> rq_inv {} t \<and>
    (case choice s of
       None \<Rightarrow> lock_free PtableLock c t \<and> map cproc (cpus t) = map cproc (cpus s) \<and> sched_ctx t = sched_ctx s \<and>
         (\<forall>j. proc_at t j = proc_at s j) \<and> (\<forall>qt. queue_of qt t = queue_of qt s)
     | Some i \<Rightarrow> lock_held PtableLock c t \<and> map cproc (cpus t) = (map cproc (cpus s))[c := Some i] \<and>
         sched_ctx t = (sched_ctx s)(c := AfterChosen) \<and> (\<forall>qt. queue_of qt t = queue_of qt s) \<and>
         cr3 t = (cr3 s)(this s := V2P (pgdir (proc_at s i))) \<and> esp0 t = (esp0 s)(c := kstack (proc_at s i) + 4096) \<and>
         (\<forall>j. proc_at t j = (if j = i then started_run (proc_at s i) else proc_at s j)))"
proof -
  let ?s = "s\<lparr>if_flag := (if_flag s)(this s := True)\<rparr>"
  let ?a = "acquired PtableLock c ?s"
  let ?chosen = "\<lambda>p. case p of Some i \<Rightarrow> run_process c i AfterChosen
    | None \<Rightarrow> thenk (release PtableLock) (retk None)"
  have free': "lock_free PtableLock c ?s" using sti_free [OF free ncli] .
  have held: "lock_held PtableLock c ?a" using lock_held_acquired [OF free'] .
  have same: "proc_at ?a = proc_at s" "rr_q ?a = rr_q s" "lcfs_q ?a = lcfs_q s" "bjf_q ?a = bjf_q s"
    "rr_counter ?a = rr_counter s" "ptable ?a = ptable s" "\<And>qt. queue_of qt ?a = queue_of qt s"
    "map cproc (cpus ?a) = map cproc (cpus s)" "sched_ctx ?a = sched_ctx s" "nextpid ?a = nextpid s"
    "cr3 ?a = cr3 s" "esp0 ?a = esp0 s" "this ?a = this s"
    by (simp_all add: fun_eq_iff proc_at_def acquired_def upd_lock_def pushed_def queue_of_def map_update
        split: schedQ.split)
  have inv': "rq_inv {} ?a" by (rule rq_inv_frame [OF inv]) (simp_all only: same)
  have q: "queued {} qt ?a" if "qt \<noteq> DEF" for qt using rq_inv_queued [OF inv' that] .
  have wf: "wf_queue (rr_q s)" "wf_queue (lcfs_q s)" "wf_queue (bjf_q s)"
    using q [of RR] q [of LCFS] q [of BJF] by (simp_all add: queued_def queue_of_def same)
  have none: "thenk (release PtableLock) (retk None) ?a = Ret None (released PtableLock c ?a)"
    using held release_eq [of ?a c PtableLock] by (simp add: lock_held_def thenk_Ret retk_def)
  have start: "scheduler_round c s = (if 0 \<le> qpi (rr_q s) then bindk pick_rr ?chosen
      else if 0 \<le> qpi (lcfs_q s) then bindk pick_lcfs ?chosen
      else if 0 \<le> qpi (bjf_q s) then bindk pick_bjf ?chosen else scan_table c 0) ?a"
    using free' acquire_eq [of ?s c PtableLock]
    by (simp add: scheduler_round_def sti_def thenk_modk thenk_Ret bindk_getk Let_def same lock_free_def)
  have ne: "0 \<le> qpi x \<longleftrightarrow> contents x \<noteq> []" if "wf_queue x" for x
    using that contents_empty [OF that] by (auto simp: wf_queue_def)
  have rd: "scheduler_round c s = ?chosen (choice s) ?a"
  proof -
    have run: "runnable_at ?a = runnable_at s" by (simp add: same fun_eq_iff)
    have idle: "find_index (\<lambda>p. pstate p = RUNNABLE) (ptable s) = None"
      if "contents (rr_q s) = []" "contents (lcfs_q s) = []" "contents (bjf_q s) = []"
      using empty_queues_idle [OF inv that] rq_inv_length [OF inv]
      unfolding find_index_None by (auto simp: in_set_conv_nth proc_at_def)
    show ?thesis
      using pick_rr_eq [of ?a] pick_lcfs_eq [of ?a] pick_bjf_eq [of ?a] q none idle
      unfolding start choice_def
      by (auto simp: ne wf same run bindk_Ret scan_table_def bindk_getk)
  qed
  show ?thesis
  proof (cases "choice s")
    case None
    have "proc_at (released PtableLock c ?a) j = proc_at s j" for j using same(1) by (simp add: fun_eq_iff)
    moreover have "rq_inv {} (released PtableLock c ?a)" using inv' by simp
    ultimately show ?thesis
      unfolding rd None option.case none using lock_free_released [OF held] same(7-9) by auto
  next
    case (Some i)
    have i: "i < NPROC" "runnable_at ?a i" using choice_runnable [OF inv Some] by (simp_all add: same)
    from run_process_eq [OF held inv' i, of AfterChosen] show ?thesis
      using rd Some same by auto
  qed
qed

section \<open>Example states\<close>

text \<open>The example states of the run queues, with all locks free and a process on the processor or none.\<close>

definition mkfree :: "nat option \<Rightarrow> (procstate \<times> schedQ) list \<Rightarrow> nat list \<Rightarrow> nat list \<Rightarrow> nat list \<Rightarrow> ksched" where
  "mkfree cp sqs rr lcfs bjf = (mksched sqs rr lcfs bjf)\<lparr>locks := (\<lambda>_. free_lock), if_flag := (\<lambda>_. True),
     cpus := [cpu0\<lparr>cproc := cp\<rparr>]\<rparr>"

definition members :: "(procstate \<times> schedQ) list \<Rightarrow> schedQ \<Rightarrow> nat list" where
  "members sqs qt = filter (\<lambda>i. (fst (sqs ! i) = RUNNABLE \<or> fst (sqs ! i) = RUNNING) \<and> snd (sqs ! i) = qt)
     [0..<length sqs]"

lemma mkfree_simps [simp]:
  "lock_free l 0 (mkfree cp sqs rr lcfs bjf)" "cpus (mkfree cp sqs rr lcfs bjf) = [cpu0\<lparr>cproc := cp\<rparr>]"
  "queue_of qt (mkfree cp sqs rr lcfs bjf) = queue_of qt (mksched sqs rr lcfs bjf)"
  "proc_at (mkfree cp sqs rr lcfs bjf) i = proc_at (mksched sqs rr lcfs bjf) i"
  "rr_q (mkfree cp sqs rr lcfs bjf) = mkqueue rr" "lcfs_q (mkfree cp sqs rr lcfs bjf) = mkqueue lcfs"
  "bjf_q (mkfree cp sqs rr lcfs bjf) = mkqueue bjf" "rr_counter (mkfree cp sqs rr lcfs bjf) = 0"
  "sched_ctx (mkfree cp sqs rr lcfs bjf) = (\<lambda>_. AfterChosen)"
  by (simp_all add: mkfree_def mksched_def lock_free_def cli_ok_def runs_on_def find_cpu_def cpu0_def
      free_lock_def queue_of_def proc_at_def split: schedQ.split)

lemma mkfree_inv:
  assumes "length sqs \<le> NPROC" and "distinct rr" "distinct lcfs" "distinct bjf"
    and "set rr = set (members sqs RR)" "set lcfs = set (members sqs LCFS)" "set bjf = set (members sqs BJF)"
    and "\<forall>sq\<in>set sqs. fst sq \<in> {SLEEPING, RUNNABLE, RUNNING} \<longrightarrow> snd sq \<noteq> DEF"
  shows "rq_inv {} (mkfree cp sqs rr lcfs bjf)"
proof -
  let ?s = "mkfree cp sqs rr lcfs bjf"
  have at: "proc_at ?s i = (if i < length sqs then mkproc i (sqs ! i) else mkproc i (UNUSED, DEF))"
    if "i < NPROC" for i
    using that assms(1) by (simp add: mkfree_def mksched_def proc_at_def nth_append)
  have due: "due (mkproc i sq) \<longleftrightarrow> fst sq = RUNNABLE \<or> fst sq = RUNNING" for i sq
    by (simp add: due_def mkproc_def)
  have ty: "q_type (mkproc i sq) = snd sq" for i sq by (simp add: mkproc_def)
  have mem: "set (members sqs qt) = {i. i < NPROC \<and> due (proc_at ?s i) \<and> q_type (proc_at ?s i) = qt}" for qt
    using assms(1) by (auto simp: members_def at due ty simp del: mkfree_simps split: if_splits)
  have small: "length xs \<le> NPROC" if "distinct xs" "set xs = set (members sqs qt)" for xs qt
  proof -
    have "length xs = card (set xs)" using that(1) by (simp add: distinct_card)
    also have "\<dots> \<le> card {..<NPROC}" unfolding that(2) mem by (intro card_mono) auto
    finally show ?thesis by simp
  qed
  have "queued {} qt ?s" if "qt \<noteq> DEF" for qt
    using that assms(2-7) small mkqueue_wf mem
    by (cases qt) (simp_all add: queued_def)
  moreover have "proc_ok (proc_at ?s i)" if "i < NPROC" for i
    using that assms(8) nth_mem [of i sqs] by (auto simp: at proc_ok_def mkproc_def simp del: mkfree_simps)
  moreover have "pid (proc_at ?s i) = int i + 1" if "i < NPROC" for i
    using that by (simp add: at mkproc_def del: mkfree_simps)
  ultimately show ?thesis
    by (auto simp: rq_inv_def live_def inj_on_def simp del: mkfree_simps) (simp_all add: mkfree_def mksched_def)
qed

section \<open>Properties\<close>

text \<open>
  C5. Waking up: \<^verbatim>\<open>wakeup\<close> returns; exactly the processes that sleep on the channel become runnable; they are
  appended to the queues of their types in the order of the process table, and nothing else in
  table or queues changes; the lock is free again and the queue invariant holds.
\<close>

theorem wakeup_exact:
  assumes "rq_inv {} s" and "lock_free PtableLock c s"
  shows "\<exists>t. wakeup ch s = Ret () t \<and> rq_inv {} t \<and> lock_free PtableLock c t \<and>
    (\<forall>j < NPROC. proc_at t j = (if pstate (proc_at s j) = SLEEPING \<and> chan (proc_at s j) = Some ch
       then (proc_at s j)\<lparr>pstate := RUNNABLE\<rparr> else proc_at s j)) \<and>
    (\<forall>qt. qt \<noteq> DEF \<longrightarrow> contents (queue_of qt t) = contents (queue_of qt s) @
       filter (\<lambda>j. pstate (proc_at s j) = SLEEPING \<and> chan (proc_at s j) = Some ch \<and> q_type (proc_at s j) = qt)
         [0..<NPROC])"
  using wp_total [OF wakeup_section [OF assms, of ch]] section_of_props(1) [OF _ assms(2)]
  by (auto simp: sleeps_on_def awake_def simp del: upt_rec_numeral)

theorem wakeup_exact_witness:
  "\<exists>t. wakeup ChTicks (upd_proc 0 (\<lambda>p. p\<lparr>chan := Some ChTicks\<rparr>) (mkfree None [(SLEEPING, RR)] [] [] [])) = Ret () t \<and>
     runnable_at t 0 \<and> contents (rr_q t) = [0]"
  (is "\<exists>t. wakeup _ ?s = _ \<and> _")
proof -
  have "rq_inv {} (mkfree None [(SLEEPING, RR)] [] [] [])" by (rule mkfree_inv) (simp_all add: members_def)
  then have inv: "rq_inv {} ?s" by (intro rq_inv_upd_same) auto
  have at: "proc_at ?s j = (if j = 0 then (mkproc 0 (SLEEPING, RR))\<lparr>chan := Some ChTicks\<rparr> else mkproc j (UNUSED, DEF))"
    if "j < NPROC" for j
    using that by (simp add: upd_proc_def mkfree_def mksched_def proc_at_def nth_Cons')
  have "[0..<NPROC] = 0 # [1..<NPROC]" by (simp add: upt_conv_Cons)
  moreover have "filter (\<lambda>j. pstate (proc_at ?s j) = SLEEPING \<and> chan (proc_at ?s j) = Some ChTicks \<and>
      q_type (proc_at ?s j) = RR) [1..<NPROC] = []"
    unfolding filter_empty_conv by (auto simp: at mkproc_def simp del: upt_rec_numeral)
  ultimately have "filter (\<lambda>j. pstate (proc_at ?s j) = SLEEPING \<and> chan (proc_at ?s j) = Some ChTicks \<and>
      q_type (proc_at ?s j) = RR) [0..<NPROC] = [0]"
    by (simp add: at mkproc_def del: upt_rec_numeral)
  moreover have "lock_free PtableLock 0 ?s"
    using mkfree_simps(1) [of PtableLock None "[(SLEEPING, RR)]" "[]" "[]" "[]"]
    by (simp add: lock_free_def cli_ok_def)
  moreover have "contents (queue_of RR ?s) = []" by simp
  ultimately show ?thesis
    using wakeup_exact [OF inv, of 0 ChTicks] at [of 0]
    by (auto simp: queue_of_def mkproc_def simp del: upt_rec_numeral)
qed

text \<open>
  C9. What a scheduling round runs. If the round-robin queue is not empty, the first runnable process of
  that queue counted cyclically from \<^verbatim>\<open>rr_counter\<close>, and nothing if it has no runnable process: the other
  queues are then not looked at. If it is empty, the last runnable process of the last-come-first-served queue.
  The counter is assumed at least 64 below the word's limit, so that counting from it does not wrap around.
  The round returns. A chosen process is then running on this processor and is its current process, with page
  table register and kernel stack switched to its own, its waiting time is zero and the table's lock is held;
  everything else about the processes is as before.
\<close>

theorem scheduler_chooses:
  assumes "rq_inv {} s" and "lock_free PtableLock c s" and "ncli (cpus s ! c) = 0"
    and "unat (rr_counter s) + NPROC < 2 ^ 32"
    and "r = (if contents (rr_q s) \<noteq> [] then find (runnable_at s) (rotate (unat (rr_counter s)) (contents (rr_q s)))
      else find (runnable_at s) (rev (contents (lcfs_q s))))"
  shows "\<exists>t. scheduler_round c s = Ret r t \<and> rq_inv {} t \<and>
    (\<forall>i. r = Some i \<longrightarrow> lock_held PtableLock c t \<and> cproc (cpus t ! c) = Some i \<and>
       pstate (proc_at t i) = RUNNING \<and> waiting_time (proc_at t i) = 0 \<and>
       cr3 t (this s) = V2P (pgdir (proc_at t i)) \<and> esp0 t c = kstack (proc_at t i) + 4096) \<and>
    (\<forall>j. proc_at t j = (if r = Some j then (proc_at s j)\<lparr>waiting_time := 0, pstate := RUNNING\<rparr> else proc_at s j))"
proof -
  have "queued {} RR s" using assms(1) by (simp add: rq_inv_def)
  then have "length (contents (rr_q s)) \<le> NPROC"
    using length_contents [of "rr_q s"] by (auto simp: queued_def queue_of_def wf_queue_def)
  then have r: "choice s = r"
    using assms(4,5) rr_order_rotate [of "rr_counter s" "contents (rr_q s)"] by (simp add: choice_def)
  obtain t where t: "scheduler_round c s = Ret (choice s) t" "rq_inv {} t"
    "\<forall>i. choice s = Some i \<longrightarrow> map cproc (cpus t) = (map cproc (cpus s))[c := Some i] \<and> lock_held PtableLock c t \<and>
       cr3 t = (cr3 s)(this s := V2P (pgdir (proc_at s i))) \<and> esp0 t = (esp0 s)(c := kstack (proc_at s i) + 4096)"
    "\<forall>j. proc_at t j = (if choice s = Some j then started_run (proc_at s j) else proc_at s j)"
    using scheduler_round_inv [OF assms(1-3)] by (cases "choice s") auto
  have c: "c < length (cpus s)" using assms(2) by (simp add: lock_free_def cli_ok_def runs_on_length)
  have "cproc (cpus t ! c) = Some i" if "choice s = Some i" for i
  proof -
    have m: "map cproc (cpus t) = (map cproc (cpus s))[c := Some i]" using t(3) that by blast
    then have "length (cpus t) = length (cpus s)" by (metis length_list_update length_map)
    then show ?thesis using m c by (metis length_map nth_list_update_eq nth_map)
  qed
  with t r show ?thesis by (auto simp: started_run_def)
qed

theorem scheduler_chooses_witness:
  "\<exists>t. scheduler_round 0 (mkfree None [(RUNNING, RR), (RUNNABLE, RR), (RUNNABLE, LCFS)] [0, 1] [2] []) = Ret (Some 1) t \<and>
     pstate (proc_at t 1) = RUNNING"
  (is "\<exists>t. scheduler_round 0 ?s = _ \<and> _")
proof -
  have inv: "rq_inv {} ?s" by (rule mkfree_inv) (auto simp: members_def)
  have "find (runnable_at ?s) (rotate (unat (rr_counter ?s)) (contents (rr_q ?s))) = Some 1"
    by (simp add: mksched_proc mkproc_def)
  then show ?thesis using scheduler_chooses [OF inv, of 0 "Some 1"] by (auto simp: cpu0_def)
qed

text \<open>
  C24. Processes of the BJF queue are never scheduled: when only that queue has processes, a round of
  the scheduler runs nothing, whatever is runnable, and leaves every process as it was.
\<close>

theorem bjf_never_runs:
  assumes "rq_inv {} s" and "lock_free PtableLock c s" and "ncli (cpus s ! c) = 0"
    and "contents (rr_q s) = []" and "contents (lcfs_q s) = []"
  shows "\<exists>t. scheduler_round c s = Ret None t \<and> lock_free PtableLock c t \<and>
    (\<forall>j. proc_at t j = proc_at s j) \<and> contents (bjf_q t) = contents (bjf_q s)"
proof -
  have none: "choice s = None" using assms(4,5) by (simp add: choice_def)
  obtain t where "scheduler_round c s = Ret None t" "lock_free PtableLock c t"
    "\<forall>j. proc_at t j = proc_at s j" "\<forall>qt. queue_of qt t = queue_of qt s"
    using scheduler_round_inv [OF assms(1-3)] unfolding none by auto
  then show ?thesis by (auto simp: queue_of_def dest: spec [of _ BJF])
qed

theorem bjf_never_runs_witness:
  "\<exists>t. scheduler_round 0 (mkfree None [(RUNNABLE, BJF), (RUNNABLE, BJF)] [] [] [0, 1]) = Ret None t \<and>
     runnable_at t 0 \<and> runnable_at t 1"
  (is "\<exists>t. scheduler_round 0 ?s = _ \<and> _")
proof -
  have inv: "rq_inv {} ?s" by (rule mkfree_inv) (auto simp: members_def)
  have "runnable_at ?s 0" "runnable_at ?s 1" by (simp_all add: mksched_proc mkproc_def)
  then show ?thesis using bjf_never_runs [OF inv, of 0] by (auto simp: cpu0_def)
qed



end
