(* ===== verification/Quiet.thy ===== *)
theory Quiet
  imports Dispatch
begin

text \<open>
  Critical sections without contention.

  \<open>quiet c i s\<close>: processor \<open>c\<close> runs process \<open>i\<close>, holds no spin lock, finds every spin lock free, and no process waits on
  a channel of the file system. Then taking a lock, changing what it protects and giving it back is the change
  alone: the state of the processor and of the locks comes back exactly. The operations of the upper layers are
  shown to be plain state updates in such states.
\<close>

definition fs_chan :: "chan \<Rightarrow> bool" where
  "fs_chan ch = (case ch of ChSleep _ \<Rightarrow> True | ChLog \<Rightarrow> True | ChBuf _ \<Rightarrow> True | _ \<Rightarrow> False)"

definition nobody_waits :: "chan \<Rightarrow> 'z ksched_scheme \<Rightarrow> bool" where
  "nobody_waits ch s \<longleftrightarrow> (\<forall>p\<in>set (ptable s). \<not> (pstate p = SLEEPING \<and> chan p = Some ch))"

definition quiet :: "nat \<Rightarrow> nat \<Rightarrow> 'z ksched_scheme \<Rightarrow> bool" where
  "quiet c i s \<longleftrightarrow> runs_on s c \<and> ncli (cpus s ! c) = 0 \<and> intena (cpus s ! c) = if_flag s (this s) \<and>
     cproc (cpus s ! c) = Some i \<and> (\<forall>l. \<not> locked (locks s l) \<and> lcpu (locks s l) = None) \<and>
     length (ptable s) = NPROC \<and> (\<forall>ch. fs_chan ch \<longrightarrow> nobody_waits ch s)"

text \<open>A processor inside at most the locks it holds: what taking one more lock needs to be undone exactly.\<close>

definition settled :: "nat \<Rightarrow> 'z machine_scheme \<Rightarrow> bool" where
  "settled c s \<longleftrightarrow> cli_ok s c \<and> (ncli (cpus s ! c) = 0 \<longrightarrow> intena (cpus s ! c) = if_flag s (this s))"

lemma quiet_settled: "quiet c i s \<Longrightarrow> settled c s"
  by (simp add: quiet_def settled_def cli_ok_def)

lemma popped_pushed_settled:
  assumes "settled c s"
  shows "popped c (pushed c s) = s"
proof -
  have c: "c < length (cpus s)" using assms runs_on_length by (auto simp: settled_def cli_ok_def)
  show ?thesis
  proof (cases "ncli (cpus s ! c) = 0")
    case True
    then have "intena (cpus s ! c) = if_flag s (this s)" using assms by (simp add: settled_def)
    then have "(cpus s ! c)\<lparr>intena := if_flag s (this s), ncli := 0\<rparr> = cpus s ! c"
      using True by (cases "cpus s ! c") simp
    then show ?thesis using True c by (simp add: popped_def pushed_def)
  next
    case False
    then show ?thesis using assms popped_pushed [of s c] by (auto simp: settled_def cli_ok_def)
  qed
qed

lemma released_acquired:
  assumes "settled c s" and "\<not> locked (locks s l)" and "lcpu (locks s l) = None"
  shows "released l c (acquired l c s) = s"
proof -
  have "(locks s l)\<lparr>locked := True, lcpu := Some c, lcpu := None, locked := False\<rparr> = locks s l"
    using assms(2,3) by (cases "locks s l") simp
  then have "upd_lock l (\<lambda>k. k\<lparr>lcpu := None, locked := False\<rparr>) (acquired l c s) = pushed c s"
    using assms by (simp add: acquired_def upd_lock_def pushed_def fun_upd_idem)
  then show ?thesis using popped_pushed_settled [OF assms(1)] by (simp add: released_def)
qed

lemma acquired_props:
  fixes s :: "'z ksched_scheme"
  assumes "settled c s"
  shows "settled c (acquired l c s)" "runs_on (acquired l c s) c" "\<not> if_flag (acquired l c s) (this (acquired l c s))"
    "0 < ncli (cpus (acquired l c s) ! c)" "cproc (cpus (acquired l c s) ! c) = cproc (cpus s ! c)"
    "locks (acquired l c s) = (locks s)(l := (locks s l)\<lparr>locked := True, lcpu := Some c\<rparr>)"
    "ptable (acquired l c s) = ptable s"
proof -
  have r: "runs_on s c" "0 \<le> ncli (cpus s ! c)" using assms by (auto simp: settled_def cli_ok_def)
  have c: "c < length (cpus s)" using r(1) by (rule runs_on_length)
  show "runs_on (acquired l c s) c" "\<not> if_flag (acquired l c s) (this (acquired l c s))"
    "0 < ncli (cpus (acquired l c s) ! c)" "cproc (cpus (acquired l c s) ! c) = cproc (cpus s ! c)"
    "locks (acquired l c s) = (locks s)(l := (locks s l)\<lparr>locked := True, lcpu := Some c\<rparr>)"
    "ptable (acquired l c s) = ptable s"
    using r c by (simp_all add: acquired_def upd_lock_def pushed_def runs_on_def)
  then show "settled c (acquired l c s)" by (simp add: settled_def cli_ok_def)
qed

lemma acquire_free:
  assumes "settled c s" and "\<not> locked (locks s l)"
  shows "acquire l s = Ret () (acquired l c s)"
  using assms acquire_eq [of s c l] by (simp add: settled_def)

lemma release_acquired:
  fixes s :: "'z ksched_scheme"
  assumes "settled c s" and "\<not> locked (locks s l)" and "lcpu (locks s l) = None"
  shows "release l (acquired l c s) = Ret () s"
  using acquired_props [OF assms(1), of l] release_eq [of "acquired l c s" c l] released_acquired [OF assms] by simp

text \<open>An update that does not look at the processor commutes with taking a lock.\<close>

definition lockless :: "('z ksched_scheme \<Rightarrow> 'z ksched_scheme) \<Rightarrow> bool" where
  "lockless f \<longleftrightarrow> (\<forall>s h k m. f (s\<lparr>if_flag := h, cpus := k, locks := m\<rparr>) = (f s)\<lparr>if_flag := h, cpus := k, locks := m\<rparr>) \<and>
     (\<forall>s. this (f s) = this s \<and> lapic_id (f s) = lapic_id s \<and> ncpu (f s) = ncpu s \<and> if_flag (f s) = if_flag s \<and>
        cpus (f s) = cpus s \<and> locks (f s) = locks s)"

lemma acquired_form:
  "acquired l c s = s\<lparr>if_flag := if_flag (acquired l c s), cpus := cpus (acquired l c s), locks := locks (acquired l c s)\<rparr>"
  by (simp add: acquired_def upd_lock_def pushed_def)

lemma lockless_acquired:
  assumes "lockless f"
  shows "f (acquired l c s) = acquired l c (f s)"
proof -
  have "f (acquired l c s) =
      (f s)\<lparr>if_flag := if_flag (acquired l c s), cpus := cpus (acquired l c s), locks := locks (acquired l c s)\<rparr>"
    using assms by (subst acquired_form) (simp add: lockless_def)
  also have "\<dots> = acquired l c (f s)"
    using assms by (simp add: acquired_def upd_lock_def pushed_def lockless_def)
  finally show ?thesis .
qed

lemma settled_lockless: "lockless f \<Longrightarrow> settled c (f s) = settled c s"
  by (simp add: lockless_def settled_def cli_ok_def runs_on_def)

lemma section_lockless:
  assumes "settled c s" and "\<not> locked (locks s l)" and "lcpu (locks s l) = None" and "lockless f"
  shows "thenk (acquire l) (thenk (modk f) (release l)) s = Ret () (f s)"
proof -
  have "locks (f s) = locks s" using assms(4) by (simp add: lockless_def)
  then have "release l (acquired l c (f s)) = Ret () (f s)"
    using assms by (intro release_acquired) (simp_all add: settled_lockless)
  then show ?thesis using assms acquire_free [of c s l]
    by (simp add: thenk_Ret thenk_modk lockless_acquired)
qed

lemma wakeup1_nobody:
  assumes "nobody_waits ch s" and "length (ptable s) = NPROC"
  shows "wakeup1 ch s = Ret () s"
proof -
  have "foreach is (\<lambda>i. bindk (getk (\<lambda>s. proc_at s i)) (\<lambda>p.
      whenk (pstate p = SLEEPING \<and> chan p = Some ch)
       (thenk (enqueue (q_type p) i) (modk (upd_proc i (\<lambda>p. p\<lparr>pstate := RUNNABLE\<rparr>)))))) s = Ret () s"
    if "set is \<subseteq> {0..<NPROC}" for "is"
    using that
  proof (induction "is")
    case (Cons i "is")
    then have "ptable s ! i \<in> set (ptable s)" using assms(2) by (auto intro: nth_mem)
    then have "\<not> (pstate (proc_at s i) = SLEEPING \<and> chan (proc_at s i) = Some ch)"
      using assms(1) by (simp add: nobody_waits_def proc_at_def)
    then have "bindk (getk (\<lambda>s. proc_at s i)) (\<lambda>p. whenk (pstate p = SLEEPING \<and> chan p = Some ch)
       (thenk (enqueue (q_type p) i) (modk (upd_proc i (\<lambda>p. p\<lparr>pstate := RUNNABLE\<rparr>))))) s = Ret () s"
      by (auto simp: bindk_def getk_def whenk_def retk_def)
    then show ?case using Cons by (simp add: thenk_Ret)
  qed (simp add: retk_def)
  then show ?thesis by (simp add: wakeup1_def del: upt_rec_numeral)
qed

lemma wakeup_nobody:
  assumes "settled c s" and "\<not> locked (locks s PtableLock)" and "lcpu (locks s PtableLock) = None"
    and "nobody_waits ch s" and "length (ptable s) = NPROC"
  shows "wakeup ch s = Ret () s"
proof -
  have "wakeup1 ch (acquired PtableLock c s) = Ret () (acquired PtableLock c s)"
    using assms acquired_props(7) [OF assms(1)] by (intro wakeup1_nobody) (simp_all add: nobody_waits_def)
  then show ?thesis using assms acquire_free [OF assms(1,2)] release_acquired [OF assms(1,2,3)]
    by (simp add: wakeup_def thenk_Ret)
qed

lemma my_settled:
  assumes "settled c s" and "cproc (cpus s ! c) = Some i"
  shows "myid s = Ret i s" and "myget f s = Ret (f (proc_at s i)) s" and "myset g s = Ret () (upd_proc i g s)"
proof -
  have r: "runs_on s c" "0 \<le> ncli (cpus s ! c)" using assms by (auto simp: settled_def cli_ok_def)
  have c: "c < length (cpus s)" using r(1) by (rule runs_on_length)
  have my: "mycpu (pushed c s) = Ret c (pushed c s)" using r by (intro mycpu_eq) simp_all
  have pop: "popcli (pushed c s) = Ret () s"
    using r popcli_eq [of "pushed c s" c] popped_pushed_settled [OF assms(1)] by simp
  have "cproc (cpus (pushed c s) ! c) = cproc (cpus s ! c)" using c by (simp add: pushed_def)
  then have "myproc s = Ret (Some i) s"
    using r(1) assms(2) by (simp add: myproc_def thenk_def bindk_def pushcli_eq my getk_def pop retk_def)
  then show "myid s = Ret i s" "myget f s = Ret (f (proc_at s i)) s" "myset g s = Ret () (upd_proc i g s)"
    by (simp_all add: myid_def myget_def myset_def bindk_def nonnull_def retk_def getk_def modk_def)
qed

end
