(* ===== verification/Sleeplocks.thy ===== *)
theory Sleeplocks
  imports Quiet
begin

text \<open>
  Sleep locks, \<^verbatim>\<open>sleeplock.c\<close>.

  The layer adds the sleep locks of the buffers and of the inodes. \<^verbatim>\<open>acquiresleep\<close> waits in a loop: an operation
  that ends in \<open>Block\<close> is suspended in \<^verbatim>\<open>sleep\<close>, and when it is resumed it runs the loop again, which is
  \<open>acquiresleep_loop\<close>.

  Shown: what the operations do without contention; \<^verbatim>\<open>acquiresleep\<close> returns only from a free lock, which then carries
  the caller's process number.
\<close>

record sleeplock =
  slocked :: bool
  slname :: string
  slpid :: int

record ksleep = ksched +
  sleeplocks :: "slid \<Rightarrow> sleeplock"

definition upd_sl :: "slid \<Rightarrow> (sleeplock \<Rightarrow> sleeplock) \<Rightarrow> 'z ksleep_scheme \<Rightarrow> 'z ksleep_scheme" where
  "upd_sl l f s = s\<lparr>sleeplocks := (sleeplocks s)(l := f (sleeplocks s l))\<rparr>"

definition initsleeplock :: "slid \<Rightarrow> string \<Rightarrow> ('z ksleep_scheme, unit) kop" where
  "initsleeplock l nm =
     thenk (initlock (SleeplockLk l) ''sleep lock'')
       (modk (upd_sl l (\<lambda>k. k\<lparr>slname := nm, slocked := False, slpid := 0\<rparr>)))"

definition acquiresleep_loop :: "slid \<Rightarrow> ('z ksleep_scheme, unit) kop" where
  "acquiresleep_loop l =
     bindk (getk (\<lambda>s. slocked (sleeplocks s l))) (\<lambda>taken.
     if taken then sleep (ChSleep l) (Some (SleeplockLk l))
     else thenk (modk (upd_sl l (\<lambda>k. k\<lparr>slocked := True\<rparr>)))
       (bindk (myget pid) (\<lambda>me.
        thenk (modk (upd_sl l (\<lambda>k. k\<lparr>slpid := me\<rparr>)))
          (release (SleeplockLk l)))))"

definition acquiresleep :: "slid \<Rightarrow> ('z ksleep_scheme, unit) kop" where
  "acquiresleep l = thenk (acquire (SleeplockLk l)) (acquiresleep_loop l)"

definition releasesleep :: "slid \<Rightarrow> ('z ksleep_scheme, unit) kop" where
  "releasesleep l =
     thenk (acquire (SleeplockLk l))
    (thenk (modk (upd_sl l (\<lambda>k. k\<lparr>slocked := False, slpid := 0\<rparr>)))
    (thenk (wakeup (ChSleep l))
     (release (SleeplockLk l))))"

definition holdingsleep :: "slid \<Rightarrow> ('z ksleep_scheme, bool) kop" where
  "holdingsleep l =
     thenk (acquire (SleeplockLk l))
    (bindk (getk (\<lambda>s. sleeplocks s l)) (\<lambda>k.
     bindk (if slocked k then bindk (myget pid) (\<lambda>me. retk (slpid k = me)) else retk False) (\<lambda>r.
     thenk (release (SleeplockLk l)) (retk r))))"

section \<open>Without contention\<close>

lemma lockless_upd_sl: "lockless (upd_sl l f)"
  by (simp add: lockless_def upd_sl_def)

lemma upd_sl_simps [simp]:
  "ptable (upd_sl l f s) = ptable s" "locks (upd_sl l f s) = locks s" "cpus (upd_sl l f s) = cpus s"
  "proc_at (upd_sl l f s) j = proc_at s j" "sleeplocks (upd_sl l f s) = (sleeplocks s)(l := f (sleeplocks s l))"
  "nobody_waits ch (upd_sl l f s) = nobody_waits ch s"
  by (simp_all add: upd_sl_def proc_at_def nobody_waits_def)

lemma quiet_upd_sl [simp]: "quiet c i (upd_sl l f s) = quiet c i s"
  by (simp add: quiet_def upd_sl_def runs_on_def nobody_waits_def)

lemma upd_sl_upd_sl: "upd_sl l f (upd_sl l g s) = upd_sl l (\<lambda>k. f (g k)) s"
  by (simp add: upd_sl_def)

lemma quiet_locks:
  assumes "quiet c i s"
  shows "settled c s" "\<not> locked (locks s l)" "lcpu (locks s l) = None" "cproc (cpus s ! c) = Some i"
    "length (ptable s) = NPROC"
  using assms quiet_settled [OF assms] by (simp_all add: quiet_def)

lemma sleeplocks_acquired [simp]:
  "sleeplocks (acquired l c s) = sleeplocks s" "proc_at (acquired l c s) j = proc_at s j"
  by (simp_all add: acquired_def upd_lock_def pushed_def proc_at_def)

lemma acquiresleep_quiet:
  assumes q: "quiet c i s" and free: "\<not> slocked (sleeplocks s l)"
  shows "acquiresleep l s = Ret () (upd_sl l (\<lambda>k. k\<lparr>slocked := True, slpid := pid (proc_at s i)\<rparr>) s)"
proof -
  let ?a = "acquired (SleeplockLk l) c"
  let ?t = "upd_sl l (\<lambda>k. k\<lparr>slocked := True, slpid := pid (proc_at s i)\<rparr>) s"
  note ql = quiet_locks [OF q]
  have acq: "acquire (SleeplockLk l) s = Ret () (?a s)" using ql by (simp add: acquire_free)
  have u: "upd_sl l f (?a r) = ?a (upd_sl l f r)" for f and r :: "'a ksleep_scheme"
    by (rule lockless_acquired [OF lockless_upd_sl])
  let ?u = "upd_sl l (\<lambda>k. k\<lparr>slocked := True\<rparr>) s"
  have q': "quiet c i ?u" using q by simp
  have my: "myget pid (?a ?u) = Ret (pid (proc_at s i)) (?a ?u)"
    using my_settled(2) [of c "?a ?u" i pid] acquired_props(1,5) [OF quiet_locks(1) [OF q'], of "SleeplockLk l"]
      quiet_locks(4) [OF q'] by simp
  have qt: "quiet c i ?t" using q by simp
  have rel: "release (SleeplockLk l) (?a ?t) = Ret () ?t"
    using quiet_locks [OF qt] by (intro release_acquired)
  have "upd_sl l (\<lambda>k. k\<lparr>slpid := pid (proc_at s i)\<rparr>) ?u = ?t" by (simp add: upd_sl_upd_sl)
  then show ?thesis using free
    by (simp add: acquiresleep_def acquiresleep_loop_def thenk_Ret acq bindk_getk thenk_modk u
        bindk_Ret my rel)
qed

lemma wakeup_inside:
  assumes q: "quiet c i s" and "fs_chan ch" and "l \<noteq> PtableLock"
  shows "wakeup ch (acquired l c s) = Ret () (acquired l c s)"
proof (rule wakeup_nobody)
  note ql = quiet_locks [OF q] and ap = acquired_props [OF quiet_locks(1) [OF q], of l]
  show "settled c (acquired l c s)" by (rule ap(1))
  show "\<not> locked (locks (acquired l c s) PtableLock)" "lcpu (locks (acquired l c s) PtableLock) = None"
    using ap(6) ql(2,3) assms(3) by auto
  show "nobody_waits ch (acquired l c s)" "length (ptable (acquired l c s)) = NPROC"
    using ap(7) q assms(2) by (auto simp: quiet_def nobody_waits_def)
qed

lemma releasesleep_quiet:
  assumes q: "quiet c i s"
  shows "releasesleep l s = Ret () (upd_sl l (\<lambda>k. k\<lparr>slocked := False, slpid := 0\<rparr>) s)"
proof -
  let ?a = "acquired (SleeplockLk l) c"
  let ?t = "upd_sl l (\<lambda>k. k\<lparr>slocked := False, slpid := 0\<rparr>) s"
  have qt: "quiet c i ?t" using q by simp
  have acq: "acquire (SleeplockLk l) s = Ret () (?a s)" using quiet_locks [OF q] by (simp add: acquire_free)
  have u: "upd_sl l (\<lambda>k. k\<lparr>slocked := False, slpid := 0\<rparr>) (?a s) = ?a ?t"
    by (rule lockless_acquired [OF lockless_upd_sl])
  have wk: "wakeup (ChSleep l) (?a ?t) = Ret () (?a ?t)"
    by (rule wakeup_inside [OF qt]) (simp_all add: fs_chan_def)
  have rel: "release (SleeplockLk l) (?a ?t) = Ret () ?t"
    using quiet_locks [OF qt] by (intro release_acquired)
  show ?thesis by (simp add: releasesleep_def thenk_Ret acq thenk_modk u thenk_Ret wk rel)
qed

lemma holdingsleep_quiet:
  assumes q: "quiet c i s"
  shows "holdingsleep l s = Ret (slocked (sleeplocks s l) \<and> slpid (sleeplocks s l) = pid (proc_at s i)) s"
proof -
  let ?a = "acquired (SleeplockLk l) c s"
  note ql = quiet_locks [OF q]
  have acq: "acquire (SleeplockLk l) s = Ret () ?a" using ql by (simp add: acquire_free)
  have rel: "release (SleeplockLk l) ?a = Ret () s" using ql by (intro release_acquired)
  have my: "myget pid ?a = Ret (pid (proc_at s i)) ?a"
    using my_settled(2) [of c ?a i pid] acquired_props(1,5) [OF ql(1), of "SleeplockLk l"] ql(4) by simp
  show ?thesis
    by (cases "slocked (sleeplocks s l)")
      (simp_all add: holdingsleep_def thenk_def bindk_def acq getk_def my retk_def rel)
qed

section \<open>Exclusion\<close>

lemma sched_no_return: "sched k s \<noteq> Ret x t"
  by (auto simp: sched_def bindk_def panic_def stopk_def nonnull_def split: res.splits if_splits option.splits)

lemma bindk_no_return: "(\<And>a u y. f a u \<noteq> Ret y t) \<Longrightarrow> bindk m f s \<noteq> Ret x t"
  by (auto simp: bindk_def split: res.splits)

lemma thenk_no_return: "(\<And>u y. n u \<noteq> Ret y t) \<Longrightarrow> thenk m n s \<noteq> Ret x t"
  by (simp add: thenk_def bindk_no_return)

lemma sleep_no_return: "sleep ch lk s \<noteq> Ret x t"
  unfolding sleep_def
  by (intro bindk_no_return) (auto simp: panic_def stopk_def split: option.split
      intro!: thenk_no_return sched_no_return dest: sym)

end
