(* ===== verification/Bio.thy ===== *)
theory Bio
  imports Sleeplocks
begin

text \<open>
  The disk of the memory-file-system kernel, \<^verbatim>\<open>memide.c\<close>, and the buffer cache, \<^verbatim>\<open>bio.c\<close>.

  The disk is the list of its blocks. The list of buffers linked through \<^verbatim>\<open>next\<close> from \<^verbatim>\<open>bcache.head\<close> is \<open>lru\<close>, a list
  of indices; the list through \<^verbatim>\<open>prev\<close> is its reverse. \<open>dhist\<close> records, newest first, the contents the disk had before
  each block write: it is not part of the program and says what a crash between two writes leaves behind.
\<close>

abbreviation BSIZE :: nat where "BSIZE \<equiv> 512"
abbreviation NBUF :: nat where "NBUF \<equiv> 30"

type_synonym block = "uchar list"

record buf =
  bvalid :: bool
  bdirty :: bool
  bdev :: uint
  blockno :: uint
  refcnt :: uint
  bdata :: block

record kbio = ksleep +
  disk :: "block list"
  dhist :: "block list list"
  bufs :: "buf list"
  lru :: "nat list"

definition buf_at :: "'z kbio_scheme \<Rightarrow> nat \<Rightarrow> buf" where
  "buf_at s i = bufs s ! i"

definition upd_buf :: "nat \<Rightarrow> (buf \<Rightarrow> buf) \<Rightarrow> 'z kbio_scheme \<Rightarrow> 'z kbio_scheme" where
  "upd_buf i f s = s\<lparr>bufs := (bufs s)[i := f (bufs s ! i)]\<rparr>"

section \<open>The disk\<close>

definition ideinit :: "block list \<Rightarrow> ('z kbio_scheme, unit) kop" where
  "ideinit img = modk (\<lambda>s. s\<lparr>disk := img\<rparr>)"

definition ideintr :: "('z kbio_scheme, unit) kop" where
  "ideintr = retk ()"

definition disk_write :: "nat \<Rightarrow> block \<Rightarrow> 'z kbio_scheme \<Rightarrow> 'z kbio_scheme" where
  "disk_write n b s = s\<lparr>dhist := disk s # dhist s, disk := (disk s)[n := b]\<rparr>"

definition iderw :: "nat \<Rightarrow> ('z kbio_scheme, unit) kop" where
  "iderw i =
     bindk (holdingsleep (BufSl i)) (\<lambda>h.
     if \<not> h then panic ''iderw: buf not locked''
     else bindk (getk (\<lambda>s. buf_at s i)) (\<lambda>b.
     if bvalid b \<and> \<not> bdirty b then panic ''iderw: nothing to do''
     else if bdev b \<noteq> 1 then panic ''iderw: request not for disk 1''
     else bindk (getk (\<lambda>s. length (disk s))) (\<lambda>disksize.
     if unat (blockno b) \<ge> disksize then panic ''iderw: block out of range''
     else
       thenk (if bdirty b
              then thenk (modk (upd_buf i (\<lambda>b. b\<lparr>bdirty := False\<rparr>)))
                (modk (disk_write (unat (blockno b)) (bdata b)))
              else modk (\<lambda>s. upd_buf i (\<lambda>b. b\<lparr>bdata := disk s ! unat (blockno b)\<rparr>) s))
         (modk (upd_buf i (\<lambda>b. b\<lparr>bvalid := True\<rparr>))))))"

section \<open>The cache\<close>

definition binit :: "('z kbio_scheme, unit) kop" where
  "binit =
     thenk (initlock BcacheLock ''bcache'')
    (thenk (modk (\<lambda>s. s\<lparr>lru := []\<rparr>))
     (foreach [0..<NBUF] (\<lambda>i.
        thenk (initsleeplock (BufSl i) ''buffer'') (modk (\<lambda>s. s\<lparr>lru := i # lru s\<rparr>)))))"

definition bget :: "uint \<Rightarrow> uint \<Rightarrow> ('z kbio_scheme, nat) kop" where
  "bget dev bno =
     thenk (acquire BcacheLock)
    (bindk (getk (\<lambda>s. List.find (\<lambda>i. bdev (buf_at s i) = dev \<and> blockno (buf_at s i) = bno) (lru s))) (\<lambda>hit.
     case hit of
       Some i \<Rightarrow>
         thenk (modk (upd_buf i (\<lambda>b. b\<lparr>refcnt := refcnt b + 1\<rparr>)))
        (thenk (release BcacheLock)
        (thenk (acquiresleep (BufSl i))
         (retk i)))
     | None \<Rightarrow>
         bindk (getk (\<lambda>s. List.find (\<lambda>i. refcnt (buf_at s i) = 0 \<and> \<not> bdirty (buf_at s i)) (rev (lru s)))) (\<lambda>free.
         case free of
           Some i \<Rightarrow>
             thenk (modk (upd_buf i (\<lambda>b. b\<lparr>bdev := dev, blockno := bno, bvalid := False, bdirty := False,
               refcnt := 1\<rparr>)))
            (thenk (release BcacheLock)
            (thenk (acquiresleep (BufSl i))
             (retk i)))
         | None \<Rightarrow> panic ''bget: no buffers'')))"

definition bread :: "uint \<Rightarrow> uint \<Rightarrow> ('z kbio_scheme, nat) kop" where
  "bread dev bno =
     bindk (bget dev bno) (\<lambda>i.
     bindk (getk (\<lambda>s. bvalid (buf_at s i))) (\<lambda>v.
     thenk (whenk (\<not> v) (iderw i)) (retk i)))"

definition bwrite :: "nat \<Rightarrow> ('z kbio_scheme, unit) kop" where
  "bwrite i =
     bindk (holdingsleep (BufSl i)) (\<lambda>h.
     if \<not> h then panic ''bwrite''
     else thenk (modk (upd_buf i (\<lambda>b. b\<lparr>bdirty := True\<rparr>))) (iderw i))"

definition brelse :: "nat \<Rightarrow> ('z kbio_scheme, unit) kop" where
  "brelse i =
     bindk (holdingsleep (BufSl i)) (\<lambda>h.
     if \<not> h then panic ''brelse''
     else thenk (releasesleep (BufSl i))
      (thenk (acquire BcacheLock)
      (thenk (modk (upd_buf i (\<lambda>b. b\<lparr>refcnt := refcnt b - 1\<rparr>)))
      (thenk (modk (\<lambda>s. if refcnt (buf_at s i) = 0 then s\<lparr>lru := i # removeAll i (lru s)\<rparr> else s))
       (release BcacheLock)))))"

end
