(* ===== verification/Cache.thy ===== *)
theory Cache
  imports Bio
begin

text \<open>
  The behaviour of the buffer cache (\<^verbatim>\<open>bio.c\<close>) when no other process interferes.

  \<open>binv\<close> is the invariant of the cache for a process that holds the buffers \<open>H\<close>; \<open>view\<close> is the contents of a block as
  the kernel sees it. Every operation is shown to be an operation on a \<open>volume\<close>: the contents of the blocks, the disk,
  the history of the disk and the blocks kept back for the log. The locale \<open>block_cache\<close> is the contract the file
  system and the log use; the clients' patterns (update a block, copy a block) are proved in it, and \<open>bcache\<close>
  interprets it with the code of \<^verbatim>\<open>bio.c\<close>.
\<close>

section \<open>The invariant of the cache\<close>

lemma lockless_upd_buf: "lockless (upd_buf k f)"
  by (simp add: lockless_def upd_buf_def)

lemma upd_buf_simps [simp]:
  "ptable (upd_buf k f s) = ptable s" "locks (upd_buf k f s) = locks s" "cpus (upd_buf k f s) = cpus s"
  "proc_at (upd_buf k f s) j = proc_at s j" "sleeplocks (upd_buf k f s) = sleeplocks s"
  "disk (upd_buf k f s) = disk s" "dhist (upd_buf k f s) = dhist s" "lru (upd_buf k f s) = lru s"
  "length (bufs (upd_buf k f s)) = length (bufs s)" "kbio.more (upd_buf k f s) = kbio.more s"
  "disk (upd_sl l g s) = disk s" "dhist (upd_sl l g s) = dhist s" "lru (upd_sl l g s) = lru s"
  "bufs (upd_sl l g s) = bufs s" "kbio.more (upd_sl l g s) = kbio.more s" "buf_at (upd_sl l g s) j = buf_at s j"
  by (simp_all add: upd_buf_def proc_at_def upd_sl_def buf_at_def)

lemma buf_at_upd_buf: "buf_at (upd_buf k f s) j = (if j = k \<and> k < length (bufs s) then f (buf_at s k) else buf_at s j)"
  by (cases "k < length (bufs s)") (auto simp: buf_at_def upd_buf_def list_update_beyond not_less)

lemma quiet_upd_buf [simp]:
  "quiet c i (upd_buf k f s) = quiet c i s" "quiet c i (s\<lparr>lru := xs\<rparr>) = quiet c i s"
  "quiet c i (disk_write n b s) = quiet c i s"
  by (simp_all add: quiet_def upd_buf_def runs_on_def nobody_waits_def disk_write_def)

text \<open>\<open>H\<close> are the buffers the running process holds.\<close>

definition cached :: "'z kbio_scheme \<Rightarrow> nat \<Rightarrow> uint \<Rightarrow> bool" where
  "cached s k b \<longleftrightarrow> bdev (buf_at s k) = 1 \<and> blockno (buf_at s k) = b"

definition held_ok :: "nat \<Rightarrow> nat set \<Rightarrow> 'z kbio_scheme \<Rightarrow> bool" where
  "held_ok i H s \<longleftrightarrow> H \<subseteq> {0..<NBUF} \<and>
     (\<forall>k<NBUF. refcnt (buf_at s k) = (if k \<in> H then 1 else 0) \<and> slocked (sleeplocks s (BufSl k)) = (k \<in> H) \<and>
        (k \<in> H \<longrightarrow> slpid (sleeplocks s (BufSl k)) = pid (proc_at s i)))"

definition lists_ok :: "'z kbio_scheme \<Rightarrow> bool" where
  "lists_ok s \<longleftrightarrow> length (bufs s) = NBUF \<and> distinct (lru s) \<and> set (lru s) = {0..<NBUF}"

definition unique_ok :: "'z kbio_scheme \<Rightarrow> bool" where
  "unique_ok s \<longleftrightarrow> (\<forall>k<NBUF. \<forall>j<NBUF. \<forall>b. cached s k b \<longrightarrow> cached s j b \<longrightarrow> k = j)"

definition dirty_ok :: "'z kbio_scheme \<Rightarrow> bool" where
  "dirty_ok s \<longleftrightarrow> (\<forall>k<NBUF. bdirty (buf_at s k) \<longrightarrow> bvalid (buf_at s k) \<and> bdev (buf_at s k) = 1)"

definition clean_ok :: "nat set \<Rightarrow> 'z kbio_scheme \<Rightarrow> bool" where
  "clean_ok H s \<longleftrightarrow> (\<forall>k<NBUF. \<forall>b. cached s k b \<longrightarrow> bvalid (buf_at s k) \<longrightarrow> unat b < length (disk s) \<and>
     (k \<notin> H \<longrightarrow> \<not> bdirty (buf_at s k) \<longrightarrow> bdata (buf_at s k) = disk s ! unat b))"

definition binv :: "nat \<Rightarrow> nat \<Rightarrow> nat set \<Rightarrow> 'z kbio_scheme \<Rightarrow> bool" where
  "binv c i H s \<longleftrightarrow> quiet c i s \<and> lists_ok s \<and> held_ok i H s \<and> unique_ok s \<and> dirty_ok s \<and> clean_ok H s"

text \<open>The contents of a block as the kernel sees it: the cached copy, or else the disk.\<close>

definition view :: "'z kbio_scheme \<Rightarrow> uint \<Rightarrow> block" where
  "view s b = (case List.find (\<lambda>k. cached s k b \<and> bvalid (buf_at s k)) [0..<NBUF] of
     Some k \<Rightarrow> bdata (buf_at s k) | None \<Rightarrow> disk s ! unat b)"

definition dirty_blocks :: "'z kbio_scheme \<Rightarrow> uint set" where
  "dirty_blocks s = {b. \<exists>k<NBUF. cached s k b \<and> bdirty (buf_at s k)}"

definition spare :: "nat set \<Rightarrow> 'z kbio_scheme \<Rightarrow> bool" where
  "spare H s \<longleftrightarrow> (\<exists>k<NBUF. k \<notin> H \<and> \<not> bdirty (buf_at s k))"

lemma binvD:
  assumes "binv c i H s"
  shows "quiet c i s" "length (bufs s) = NBUF" "distinct (lru s)" "set (lru s) = {0..<NBUF}" "H \<subseteq> {0..<NBUF}"
    "held_ok i H s" "unique_ok s" "dirty_ok s" "clean_ok H s" "lists_ok s"
  using assms by (simp_all add: binv_def lists_ok_def held_ok_def)

lemma held_okD:
  assumes "held_ok i H s" and "k < NBUF"
  shows "refcnt (buf_at s k) = (if k \<in> H then 1 else 0)" "slocked (sleeplocks s (BufSl k)) = (k \<in> H)"
    "k \<in> H \<Longrightarrow> slpid (sleeplocks s (BufSl k)) = pid (proc_at s i)"
  using assms by (simp_all add: held_ok_def)

lemma unique_okD: "unique_ok s \<Longrightarrow> k < NBUF \<Longrightarrow> j < NBUF \<Longrightarrow> cached s k b \<Longrightarrow> cached s j b \<Longrightarrow> k = j"
  unfolding unique_ok_def by blast

lemma dirty_okD: "dirty_ok s \<Longrightarrow> k < NBUF \<Longrightarrow> bdirty (buf_at s k) \<Longrightarrow> bvalid (buf_at s k) \<and> bdev (buf_at s k) = 1"
  unfolding dirty_ok_def by blast

lemma clean_okD:
  assumes "clean_ok H s" and "k < NBUF" and "cached s k b" and "bvalid (buf_at s k)"
  shows "unat b < length (disk s)" "k \<notin> H \<Longrightarrow> \<not> bdirty (buf_at s k) \<Longrightarrow> bdata (buf_at s k) = disk s ! unat b"
  using assms unfolding clean_ok_def by blast+

lemma find_Some_iff_unique:
  assumes "k \<in> set xs" and "P k" and "\<And>j. j \<in> set xs \<Longrightarrow> P j \<Longrightarrow> j = k"
  shows "List.find P xs = Some k"
  using assms
proof (induction xs)
  case (Cons x xs)
  show ?case
  proof (cases "P x")
    case True
    then have "x = k" using Cons.prems(3) [of x] by simp
    then show ?thesis using True by simp
  next
    case False
    then have "k \<in> set xs" using Cons.prems(1,2) by auto
    then have "List.find P xs = Some k"
      using Cons.prems(2) by (rule Cons.IH) (rule Cons.prems(3), simp_all)
    then show ?thesis using False by simp
  qed
qed simp

lemma find_None: "(\<And>j. j \<in> set xs \<Longrightarrow> \<not> P j) \<Longrightarrow> List.find P xs = None"
  by (induction xs) auto

lemma find_exists: "k \<in> set xs \<Longrightarrow> P k \<Longrightarrow> \<exists>j. List.find P xs = Some j \<and> j \<in> set xs \<and> P j"
  by (induction xs) auto

lemma view_cached:
  assumes "binv c i H s" and "k < NBUF" and "cached s k b" and "bvalid (buf_at s k)"
  shows "view s b = bdata (buf_at s k)"
proof -
  have "List.find (\<lambda>k. cached s k b \<and> bvalid (buf_at s k)) [0..<NBUF] = Some k"
    proof (rule find_Some_iff_unique)
    show "k \<in> set [0..<NBUF]" using assms(2) by (simp del: upt_rec_numeral)
    show "cached s k b \<and> bvalid (buf_at s k)" using assms by simp
    fix j assume "j \<in> set [0..<NBUF]" "cached s j b \<and> bvalid (buf_at s j)"
    then show "j = k"
      using unique_okD [OF binvD(7) [OF assms(1)], of j k b] assms(2,3) by (simp del: upt_rec_numeral)
  qed
  then show ?thesis by (simp add: view_def del: upt_rec_numeral)
qed

lemma view_uncached:
  assumes "\<And>k. k < NBUF \<Longrightarrow> cached s k b \<Longrightarrow> \<not> bvalid (buf_at s k)"
  shows "view s b = disk s ! unat b"
proof -
  have "List.find (\<lambda>k. cached s k b \<and> bvalid (buf_at s k)) [0..<NBUF] = None"
    using assms by (intro find_None) (auto simp del: upt_rec_numeral)
  then show ?thesis by (simp add: view_def del: upt_rec_numeral)
qed

text \<open>When two states agree on the cached copies of a block, they agree on its contents.\<close>

lemma view_cong:
  assumes "binv c i H s" and "binv c i' H' t" and "disk t ! unat b = disk s ! unat b"
    and "\<And>k. k < NBUF \<Longrightarrow> cached t k b \<Longrightarrow> bvalid (buf_at t k) \<Longrightarrow>
      (\<exists>j<NBUF. cached s j b \<and> bvalid (buf_at s j) \<and> bdata (buf_at s j) = bdata (buf_at t k)) \<or>
      (bdata (buf_at t k) = disk s ! unat b \<and> (\<forall>j<NBUF. cached s j b \<longrightarrow> \<not> bvalid (buf_at s j)))"
    and "\<And>j. j < NBUF \<Longrightarrow> cached s j b \<Longrightarrow> bvalid (buf_at s j) \<Longrightarrow>
      (\<exists>k<NBUF. cached t k b \<and> bvalid (buf_at t k)) \<or> bdata (buf_at s j) = disk s ! unat b"
  shows "view t b = view s b"
proof (cases "\<exists>k<NBUF. cached t k b \<and> bvalid (buf_at t k)")
  case True
  then obtain k where k: "k < NBUF" "cached t k b" "bvalid (buf_at t k)" by auto
  have t: "view t b = bdata (buf_at t k)" by (rule view_cached [OF assms(2) k])
  from assms(4) [OF k] show ?thesis
  proof
    assume "\<exists>j<NBUF. cached s j b \<and> bvalid (buf_at s j) \<and> bdata (buf_at s j) = bdata (buf_at t k)"
    then show ?thesis using t view_cached [OF assms(1)] by auto
  next
    assume "bdata (buf_at t k) = disk s ! unat b \<and> (\<forall>j<NBUF. cached s j b \<longrightarrow> \<not> bvalid (buf_at s j))"
    then show ?thesis using t view_uncached [of s b] by auto
  qed
next
  case False
  then have t: "view t b = disk t ! unat b" by (intro view_uncached) auto
  show ?thesis
  proof (cases "\<exists>j<NBUF. cached s j b \<and> bvalid (buf_at s j)")
    case True
    then obtain j where j: "j < NBUF" "cached s j b" "bvalid (buf_at s j)" by auto
    then have "bdata (buf_at s j) = disk s ! unat b" using assms(5) [OF j] False by auto
    then show ?thesis using t view_cached [OF assms(1) j] assms(3) by simp
  next
    case False
    then show ?thesis using t view_uncached [of s b] assms(3) by auto
  qed
qed

section \<open>What the operations do\<close>

definition grab :: "nat \<Rightarrow> nat \<Rightarrow> (buf \<Rightarrow> buf) \<Rightarrow> 'z kbio_scheme \<Rightarrow> 'z kbio_scheme" where
  "grab i k f s = upd_sl (BufSl k) (\<lambda>x. x\<lparr>slocked := True, slpid := pid (proc_at s i)\<rparr>) (upd_buf k f s)"

lemma bio_acquired [simp]:
  "buf_at (acquired l c s) j = buf_at s j" "lru (acquired l c s) = lru s"
  by (simp_all add: acquired_def upd_lock_def pushed_def buf_at_def)

lemma take_buffer:
  assumes q: "quiet c i s" and free: "\<not> slocked (sleeplocks s (BufSl k))"
  shows "thenk (modk (upd_buf k f)) (thenk (release BcacheLock) (thenk (acquiresleep (BufSl k)) (retk k)))
    (acquired BcacheLock c s) = Ret k (grab i k f s)"
proof -
  have q': "quiet c i (upd_buf k f s)" using q by simp
  have u: "upd_buf k f (acquired BcacheLock c s) = acquired BcacheLock c (upd_buf k f s)"
    by (rule lockless_acquired [OF lockless_upd_buf])
  have rel: "release BcacheLock (acquired BcacheLock c (upd_buf k f s)) = Ret () (upd_buf k f s)"
    using quiet_locks [OF q'] by (intro release_acquired)
  have sl: "acquiresleep (BufSl k) (upd_buf k f s) = Ret () (grab i k f s)"
    using acquiresleep_quiet [OF q', of "BufSl k"] free by (simp add: grab_def)
  show ?thesis by (simp add: thenk_modk u thenk_Ret rel sl retk_def)
qed

lemma bget_hit:
  assumes inv: "binv c i H s" and k: "k < NBUF" "k \<notin> H" "cached s k b"
  shows "bget 1 b s = Ret k (grab i k (\<lambda>x. x\<lparr>refcnt := refcnt x + 1\<rparr>) s)"
proof -
  note q = binvD(1) [OF inv]
  have acq: "acquire BcacheLock s = Ret () (acquired BcacheLock c s)"
    using quiet_locks [OF q] by (simp add: acquire_free)
  have "List.find (\<lambda>i. bdev (buf_at s i) = 1 \<and> blockno (buf_at s i) = b) (lru s) = Some k"
  proof (rule find_Some_iff_unique)
    show "k \<in> set (lru s)" using k(1) binvD(4) [OF inv] by simp
    show "bdev (buf_at s k) = 1 \<and> blockno (buf_at s k) = b" using k(3) by (simp add: cached_def)
    fix j assume "j \<in> set (lru s)" "bdev (buf_at s j) = 1 \<and> blockno (buf_at s j) = b"
    then show "j = k"
      using unique_okD [OF binvD(7) [OF inv], of j k b] k binvD(4) [OF inv] by (simp add: cached_def)
  qed
  then show ?thesis
    using take_buffer [OF q, of k "\<lambda>x. x\<lparr>refcnt := refcnt x + 1\<rparr>"] held_okD(2) [OF binvD(6) [OF inv] k(1)] k(2) acq
    by (simp add: bget_def thenk_Ret bindk_getk)
qed

lemma bget_miss:
  assumes inv: "binv c i H s" and sp: "spare H s" and miss: "\<And>k. k < NBUF \<Longrightarrow> \<not> cached s k b"
  shows "\<exists>k<NBUF. k \<notin> H \<and> \<not> bdirty (buf_at s k) \<and>
    bget 1 b s = Ret k (grab i k (\<lambda>x. x\<lparr>bdev := 1, blockno := b, bvalid := False, bdirty := False, refcnt := 1\<rparr>) s)"
proof -
  note q = binvD(1) [OF inv]
  have acq: "acquire BcacheLock s = Ret () (acquired BcacheLock c s)"
    using quiet_locks [OF q] by (simp add: acquire_free)
  have none: "List.find (\<lambda>i. bdev (buf_at s i) = 1 \<and> blockno (buf_at s i) = b) (lru s) = None"
    using miss binvD(4) [OF inv] by (intro find_None) (auto simp: cached_def)
  obtain j where j: "j < NBUF" "j \<notin> H" "\<not> bdirty (buf_at s j)" using sp by (auto simp: spare_def)
  then have "j \<in> set (rev (lru s))" "refcnt (buf_at s j) = 0 \<and> \<not> bdirty (buf_at s j)"
    using binvD(4) [OF inv] held_okD(1) [OF binvD(6) [OF inv] j(1)] by auto
  from find_exists [where P = "\<lambda>i. refcnt (buf_at s i) = 0 \<and> \<not> bdirty (buf_at s i)", OF this]
  obtain k where f: "List.find (\<lambda>i. refcnt (buf_at s i) = 0 \<and> \<not> bdirty (buf_at s i)) (rev (lru s)) = Some k"
    and k: "k \<in> set (rev (lru s))" "refcnt (buf_at s k) = 0" "\<not> bdirty (buf_at s k)" by auto
  have kn: "k < NBUF" using k(1) binvD(4) [OF inv] by auto
  have kH: "k \<notin> H" using held_okD(1) [OF binvD(6) [OF inv] kn] k(2) by (auto split: if_splits)
  have "\<not> slocked (sleeplocks s (BufSl k))" using held_okD(2) [OF binvD(6) [OF inv] kn] kH by simp
  from take_buffer [OF q this, of "\<lambda>x. x\<lparr>bdev := 1, blockno := b, bvalid := False, bdirty := False, refcnt := 1\<rparr>"]
  have "bget 1 b s = Ret k (grab i k (\<lambda>x. x\<lparr>bdev := 1, blockno := b, bvalid := False, bdirty := False, refcnt := 1\<rparr>) s)"
    using acq none f by (simp add: bget_def thenk_Ret bindk_getk)
  then show ?thesis using kn kH k(3) by blast
qed

lemma iderw_eq:
  assumes q: "quiet c i s" and h: "slocked (sleeplocks s (BufSl k))" "slpid (sleeplocks s (BufSl k)) = pid (proc_at s i)"
    and d: "bdev (buf_at s k) = 1" "unat (blockno (buf_at s k)) < length (disk s)"
    and w: "\<not> bvalid (buf_at s k) \<or> bdirty (buf_at s k)"
  shows "iderw k s = Ret () (if bdirty (buf_at s k)
     then disk_write (unat (blockno (buf_at s k))) (bdata (buf_at s k)) (upd_buf k (\<lambda>x. x\<lparr>bdirty := False, bvalid := True\<rparr>) s)
     else upd_buf k (\<lambda>x. x\<lparr>bdata := disk s ! unat (blockno (buf_at s k)), bvalid := True\<rparr>) s)"
proof -
  have hs: "holdingsleep (BufSl k) s = Ret True s" using holdingsleep_quiet [OF q, of "BufSl k"] h by simp
  have uu: "upd_buf k f (upd_buf k g s) = upd_buf k (\<lambda>x. f (g x)) s" for f g
    by (cases "k < length (bufs s)") (simp_all add: upd_buf_def list_update_beyond not_less)
  have ud: "upd_buf k f (disk_write n x t) = disk_write n x (upd_buf k f t)" for f n x and t :: "'a kbio_scheme"
    by (simp add: upd_buf_def disk_write_def)
  have const: "upd_buf k (\<lambda>x. x\<lparr>bdata := disk s ! unat (blockno x), bvalid := True\<rparr>) s
      = upd_buf k (\<lambda>x. x\<lparr>bdata := disk s ! unat (blockno (buf_at s k)), bvalid := True\<rparr>) s"
    by (simp add: upd_buf_def buf_at_def)
  show ?thesis
  proof (cases "bdirty (buf_at s k)")
    case True
    then show ?thesis using hs d
      by (simp add: iderw_def bindk_Ret bindk_getk not_le thenk_modk thenk_assoc uu ud) (simp add: modk_def uu ud)
  next
    case False
    then show ?thesis using hs d w
      by (simp add: iderw_def bindk_Ret bindk_getk not_le thenk_modk) (simp add: modk_def uu const)
  qed
qed

lemma upd_buf_cong: "f (buf_at s k) = g (buf_at s k) \<Longrightarrow> upd_buf k f s = upd_buf k g s"
  by (simp add: upd_buf_def buf_at_def)

lemma upd_buf_upd_buf: "upd_buf k f (upd_buf k g s) = upd_buf k (\<lambda>x. f (g x)) s"
  by (cases "k < length (bufs s)") (simp_all add: upd_buf_def list_update_beyond not_less)

lemma upd_buf_upd_sl: "upd_buf k f (upd_sl l g s) = upd_sl l g (upd_buf k f s)"
  by (simp add: upd_buf_def upd_sl_def)

lemma grab_simps [simp]:
  "disk (grab i k f s) = disk s" "dhist (grab i k f s) = dhist s" "lru (grab i k f s) = lru s"
  "length (bufs (grab i k f s)) = length (bufs s)" "kbio.more (grab i k f s) = kbio.more s"
  "proc_at (grab i k f s) j = proc_at s j" "quiet c i (grab i k f s) = quiet c i s"
  by (simp_all add: grab_def)

lemma buf_at_grab: "buf_at (grab i k f s) j = (if j = k \<and> k < length (bufs s) then f (buf_at s k) else buf_at s j)"
  by (simp add: grab_def buf_at_upd_buf)

lemma sleeplocks_grab:
  "sleeplocks (grab i k f s) l = (if l = BufSl k
     then (sleeplocks s l)\<lparr>slocked := True, slpid := pid (proc_at s i)\<rparr> else sleeplocks s l)"
  by (simp add: grab_def upd_sl_def)

lemma upd_buf_grab: "upd_buf k f (grab i k g s) = grab i k (\<lambda>x. f (g x)) s"
  by (simp add: grab_def upd_buf_upd_sl upd_buf_upd_buf)

lemma grab_cong: "f (buf_at s k) = g (buf_at s k) \<Longrightarrow> grab i k f s = grab i k g s"
  by (simp add: grab_def upd_buf_cong [of f s k g])

lemma bread_fill:
  assumes q: "quiet c i s" and k: "k < length (bufs s)" and g: "bget 1 b s = Ret k (grab i k f s)"
    and f: "bdev (f (buf_at s k)) = 1" "blockno (f (buf_at s k)) = b" "bvalid (f (buf_at s k)) \<or> \<not> bdirty (f (buf_at s k))"
    and b: "unat b < length (disk s)"
  shows "bread 1 b s = Ret k (grab i k (\<lambda>x. if bvalid (f x) then f x else (f x)\<lparr>bdata := disk s ! unat b, bvalid := True\<rparr>) s)"
proof (cases "bvalid (f (buf_at s k))")
  case True
  then have "grab i k (\<lambda>x. if bvalid (f x) then f x else (f x)\<lparr>bdata := disk s ! unat b, bvalid := True\<rparr>) s = grab i k f s"
    by (intro grab_cong) simp
  then show ?thesis using True g k
    by (simp add: bread_def bindk_Ret bindk_getk buf_at_grab whenk_def thenk_Ret retk_def)
next
  case False
  have "iderw k (grab i k f s) = Ret () (upd_buf k (\<lambda>x. x\<lparr>bdata := disk s ! unat b, bvalid := True\<rparr>) (grab i k f s))"
    using iderw_eq [of c i "grab i k f s" k] q k f b False by (simp add: buf_at_grab sleeplocks_grab)
  also have "upd_buf k (\<lambda>x. x\<lparr>bdata := disk s ! unat b, bvalid := True\<rparr>) (grab i k f s)
      = grab i k (\<lambda>x. if bvalid (f x) then f x else (f x)\<lparr>bdata := disk s ! unat b, bvalid := True\<rparr>) s"
    unfolding upd_buf_grab using False by (intro grab_cong) simp
  finally show ?thesis using False g k
    by (simp add: bread_def bindk_Ret bindk_getk buf_at_grab whenk_def thenk_Ret retk_def)
qed

text \<open>Either way \<^verbatim>\<open>bread\<close> claims one buffer and leaves the contents of the block in it.\<close>

abbreviation filled :: "uint \<Rightarrow> block \<Rightarrow> buf \<Rightarrow> buf" where
  "filled b d x \<equiv> x\<lparr>bvalid := True, bdev := 1, blockno := b, refcnt := 1, bdata := d\<rparr>"

definition takes :: "nat set \<Rightarrow> 'z kbio_scheme \<Rightarrow> nat \<Rightarrow> uint \<Rightarrow> bool" where
  "takes H s k b \<longleftrightarrow> k < NBUF \<and> k \<notin> H \<and>
     (cached s k b \<or> (\<forall>j<NBUF. \<not> cached s j b) \<and> \<not> bdirty (buf_at s k))"

lemma bread_eq:
  assumes inv: "binv c i H s" and b: "unat b < length (disk s)" and nh: "\<And>k. k \<in> H \<Longrightarrow> \<not> cached s k b"
    and sp: "spare H s \<or> b \<in> dirty_blocks s"
  shows "\<exists>k. takes H s k b \<and> bread 1 b s = Ret k (grab i k (filled b (view s b)) s)"
proof (cases "\<exists>k<NBUF. cached s k b")
  case True
  then obtain k where k: "k < NBUF" "cached s k b" by auto
  have kH: "k \<notin> H" using nh k(2) by auto
  let ?f = "\<lambda>x. x\<lparr>refcnt := refcnt x + 1\<rparr>"
  have d: "bdev (buf_at s k) = 1" "blockno (buf_at s k) = b" using k(2) by (simp_all add: cached_def)
  have r: "refcnt (buf_at s k) = 0" using held_okD(1) [OF binvD(6) [OF inv] k(1)] kH by simp
  have v: "bvalid (buf_at s k) \<or> \<not> bdirty (buf_at s k)" using dirty_okD [OF binvD(8) [OF inv] k(1)] by blast
  have "bread 1 b s = Ret k (grab i k (\<lambda>x. if bvalid (?f x) then ?f x else (?f x)\<lparr>bdata := disk s ! unat b, bvalid := True\<rparr>) s)"
    by (rule bread_fill [OF binvD(1) [OF inv] _ bget_hit [OF inv k(1) kH k(2)]])
      (use k d v b binvD(2) [OF inv] in simp_all)
  also have "grab i k (\<lambda>x. if bvalid (?f x) then ?f x else (?f x)\<lparr>bdata := disk s ! unat b, bvalid := True\<rparr>) s
      = grab i k (filled b (view s b)) s"
  proof (rule grab_cong, cases "bvalid (buf_at s k)")
    case True
    then have "view s b = bdata (buf_at s k)" by (rule view_cached [OF inv k])
    then show "(if bvalid (?f (buf_at s k)) then ?f (buf_at s k) else (?f (buf_at s k))\<lparr>bdata := disk s ! unat b, bvalid := True\<rparr>)
      = filled b (view s b) (buf_at s k)" using True d r by simp
  next
    case False
    have "view s b = disk s ! unat b"
      using False unique_okD [OF binvD(7) [OF inv] k(1) _ k(2)] by (intro view_uncached) blast
    then show "(if bvalid (?f (buf_at s k)) then ?f (buf_at s k) else (?f (buf_at s k))\<lparr>bdata := disk s ! unat b, bvalid := True\<rparr>)
      = filled b (view s b) (buf_at s k)" using False d r by simp
  qed
  finally show ?thesis using k kH by (auto simp: takes_def)
next
  case False
  then have "spare H s" using sp by (auto simp: dirty_blocks_def)
  let ?f = "\<lambda>x. x\<lparr>bdev := 1, blockno := b, bvalid := False, bdirty := False, refcnt := 1\<rparr>"
  from bget_miss [OF inv \<open>spare H s\<close>] False obtain k where k: "k < NBUF" "k \<notin> H" "\<not> bdirty (buf_at s k)"
    and g: "bget 1 b s = Ret k (grab i k ?f s)" by blast
  have "view s b = disk s ! unat b" using False by (intro view_uncached) blast
  then have "grab i k (\<lambda>x. if bvalid (?f x) then ?f x else (?f x)\<lparr>bdata := disk s ! unat b, bvalid := True\<rparr>) s
      = grab i k (filled b (view s b)) s" using k(3) by (intro grab_cong) simp
  then have "bread 1 b s = Ret k (grab i k (filled b (view s b)) s)"
    using bread_fill [OF binvD(1) [OF inv] _ g _ _ _ b] k binvD(2) [OF inv] by simp
  then show ?thesis using k False by (auto simp: takes_def)
qed

section \<open>The cache as a volume\<close>

text \<open>
  What the clients of the cache see: the contents of every block, the disk and its history, and the blocks whose
  contents must not leave the cache.
\<close>

record volume =
  vdata :: "uint \<Rightarrow> block"
  vdisk :: "block list"
  vhist :: "block list list"
  vdirty :: "uint set"

definition volume_of :: "'z kbio_scheme \<Rightarrow> volume" where
  "volume_of s = \<lparr>vdata = view s, vdisk = disk s, vhist = dhist s, vdirty = dirty_blocks s\<rparr>"

definition vput :: "uint \<Rightarrow> block \<Rightarrow> volume \<Rightarrow> volume" where
  "vput b d v = v\<lparr>vdata := (vdata v)(b := d)\<rparr>"

definition vwrite :: "uint \<Rightarrow> volume \<Rightarrow> volume" where
  "vwrite b v = v\<lparr>vdisk := (vdisk v)[unat b := vdata v b], vhist := vdisk v # vhist v, vdirty := vdirty v - {b}\<rparr>"

definition vmark :: "uint \<Rightarrow> volume \<Rightarrow> volume" where
  "vmark b v = v\<lparr>vdirty := insert b (vdirty v)\<rparr>"

lemma cached_grab:
  "k < length (bufs s) \<Longrightarrow> cached (grab i k (filled b d) s) j b' = (if j = k then b' = b else cached s j b')"
  by (auto simp: cached_def buf_at_grab)

lemma takes_other:
  assumes "binv c i H s" and "takes H s k b" and "j < NBUF" and "cached s j b"
  shows "j = k"
  using assms unique_okD [OF binvD(7) [OF assms(1)]] by (auto simp: takes_def)

lemma binv_grab:
  assumes inv: "binv c i H s" and tk: "takes H s k b" and b: "unat b < length (disk s)"
  shows "binv c i (insert k H) (grab i k (filled b (view s b)) s)"
proof -
  let ?t = "grab i k (filled b (view s b)) s"
  have k: "k < NBUF" and len: "length (bufs s) = NBUF" using tk binvD(2) [OF inv] by (simp_all add: takes_def)
  then have kl: "k < length (bufs s)" by simp
  have "held_ok i (insert k H) ?t"
    unfolding held_ok_def
  proof (intro conjI allI impI)
    show "insert k H \<subseteq> {0..<NBUF}" using binvD(5) [OF inv] k by simp
    fix j assume j: "j < NBUF"
    note ho = held_okD [OF binvD(6) [OF inv] j]
    show "refcnt (buf_at ?t j) = (if j \<in> insert k H then 1 else 0)"
      using ho(1) kl by (cases "j = k") (simp_all add: buf_at_grab)
    show "slocked (sleeplocks ?t (BufSl j)) = (j \<in> insert k H)"
      using ho(2) by (cases "j = k") (simp_all add: sleeplocks_grab)
    assume "j \<in> insert k H"
    then show "slpid (sleeplocks ?t (BufSl j)) = pid (proc_at ?t i)"
      using ho(3) by (cases "j = k") (simp_all add: sleeplocks_grab)
  qed
  moreover have "unique_ok ?t"
    unfolding unique_ok_def cached_grab [OF kl]
  proof (intro allI impI)
    fix j j' b' assume j: "j < NBUF" "j' < NBUF"
      and c: "if j = k then b' = b else cached s j b'" "if j' = k then b' = b else cached s j' b'"
    show "j = j'"
    proof (cases "b' = b")
      case True
      then have "j = k" "j' = k"
        using takes_other [OF inv tk j(1)] takes_other [OF inv tk j(2)] c by metis+
      then show ?thesis by simp
    next
      case False
      then have "cached s j b'" "cached s j' b'" using c by metis+
      then show ?thesis by (rule unique_okD [OF binvD(7) [OF inv] j])
    qed
  qed
  moreover have "dirty_ok ?t"
    unfolding dirty_ok_def
  proof (intro allI impI)
    fix j assume "j < NBUF" "bdirty (buf_at ?t j)"
    then show "bvalid (buf_at ?t j) \<and> bdev (buf_at ?t j) = 1"
      using dirty_okD [OF binvD(8) [OF inv], of j] kl by (cases "j = k") (simp_all add: buf_at_grab)
  qed
  moreover have "clean_ok (insert k H) ?t"
    unfolding clean_ok_def
  proof (intro allI impI)
    fix j b' assume j: "j < NBUF" "cached ?t j b'" "bvalid (buf_at ?t j)"
    show "unat b' < length (disk ?t) \<and> (j \<notin> insert k H \<longrightarrow> \<not> bdirty (buf_at ?t j) \<longrightarrow> bdata (buf_at ?t j) = disk ?t ! unat b')"
      using j clean_okD [OF binvD(9) [OF inv] j(1)] b kl
      by (cases "j = k") (simp_all add: cached_grab buf_at_grab)
  qed
  ultimately show ?thesis using inv by (simp add: binv_def lists_ok_def)
qed

lemma view_grab:
  assumes inv: "binv c i H s" and tk: "takes H s k b" and b: "unat b < length (disk s)"
  shows "view (grab i k (filled b (view s b)) s) b' = view s b'"
proof -
  let ?t = "grab i k (filled b (view s b)) s"
  note inv' = binv_grab [OF inv tk b]
  have k: "k < NBUF" and kl: "k < length (bufs s)" using tk binvD(2) [OF inv] by (simp_all add: takes_def)
  show ?thesis
  proof (cases "b' = b")
    case True
    have "view ?t b = view s b"
      using view_cached [OF inv' k, of b] kl by (simp add: cached_grab buf_at_grab)
    then show ?thesis using True by simp
  next
    case False
    show ?thesis
    proof (rule view_cong [OF inv inv'])
      show "disk ?t ! unat b' = disk s ! unat b'" by simp
      fix j assume j: "j < NBUF" "cached ?t j b'" "bvalid (buf_at ?t j)"
      then show "(\<exists>j'<NBUF. cached s j' b' \<and> bvalid (buf_at s j') \<and> bdata (buf_at s j') = bdata (buf_at ?t j)) \<or>
          (bdata (buf_at ?t j) = disk s ! unat b' \<and> (\<forall>j'<NBUF. cached s j' b' \<longrightarrow> \<not> bvalid (buf_at s j')))"
        using False kl by (intro disjI1 exI [of _ j]) (auto simp: cached_grab buf_at_grab split: if_splits)
    next
      fix j assume j: "j < NBUF" "cached s j b'" "bvalid (buf_at s j)"
      show "(\<exists>k<NBUF. cached ?t k b' \<and> bvalid (buf_at ?t k)) \<or> bdata (buf_at s j) = disk s ! unat b'"
      proof (cases "j = k")
        case True
        then have "\<not> bdirty (buf_at s k)" "k \<notin> H" using tk j(2) False by (auto simp: takes_def cached_def)
        then show ?thesis using True clean_okD(2) [OF binvD(9) [OF inv] j] by simp
      next
        case False
        then show ?thesis using j kl by (intro disjI1 exI [of _ j]) (simp add: cached_grab buf_at_grab)
      qed
    qed
  qed
qed

lemma dirty_grab:
  assumes "binv c i H s" and tk: "takes H s k b"
  shows "dirty_blocks (grab i k (filled b d) s) = dirty_blocks s"
proof -
  have kl: "k < length (bufs s)" using tk binvD(2) [OF assms(1)] by (simp_all add: takes_def)
  have eq: "cached s k b' = (b' = b)" if "bdirty (buf_at s k)" for b'
    using that tk by (auto simp: takes_def cached_def)
  have "(cached (grab i k (filled b d) s) j b' \<and> bdirty (buf_at (grab i k (filled b d) s) j))
      = (cached s j b' \<and> bdirty (buf_at s j))" for j b'
    using kl eq by (auto simp: cached_grab buf_at_grab)
  then show ?thesis by (simp add: dirty_blocks_def)
qed

text \<open>\<^verbatim>\<open>bread\<close> of a block that is not held adds a held buffer and changes no block.\<close>

lemma bread_volume:
  assumes inv: "binv c i H s" and b: "unat b < length (disk s)" and nh: "\<And>k. k \<in> H \<Longrightarrow> \<not> cached s k b"
    and sp: "spare H s \<or> b \<in> dirty_blocks s"
  shows "\<exists>k t. bread 1 b s = Ret k t \<and> k \<notin> H \<and> binv c i (insert k H) t \<and> volume_of t = volume_of s \<and>
    cached t k b \<and> bvalid (buf_at t k) \<and> kbio.more t = kbio.more s \<and> (\<forall>j\<in>H. buf_at t j = buf_at s j)"
proof -
  obtain k where tk: "takes H s k b" and r: "bread 1 b s = Ret k (grab i k (filled b (view s b)) s)"
    using bread_eq [OF assms] by auto
  have k: "k < length (bufs s)" "k \<notin> H" using tk binvD(2) [OF inv] by (simp_all add: takes_def)
  have "view (grab i k (filled b (view s b)) s) = view s" by (rule ext) (rule view_grab [OF inv tk b])
  then show ?thesis
    using r k binv_grab [OF inv tk b] dirty_grab [OF inv tk]
    by (intro exI [of _ k] exI [of _ "grab i k (filled b (view s b)) s"])
      (auto simp: volume_of_def cached_grab buf_at_grab)
qed

text \<open>An update of a held buffer that keeps its place in the cache.\<close>

definition owned :: "nat \<Rightarrow> nat \<Rightarrow> nat set \<Rightarrow> 'z kbio_scheme \<Rightarrow> bool" where
  "owned c i H s \<longleftrightarrow> binv c i H s \<and> (\<forall>k\<in>H. bvalid (buf_at s k) \<and> bdev (buf_at s k) = 1)"

abbreviation blk :: "'z kbio_scheme \<Rightarrow> nat \<Rightarrow> uint" where
  "blk s k \<equiv> blockno (buf_at s k)"

lemma ownedD:
  assumes "owned c i H s"
  shows "binv c i H s" "k \<in> H \<Longrightarrow> k < NBUF" "k \<in> H \<Longrightarrow> k < length (bufs s)" "k \<in> H \<Longrightarrow> cached s k (blk s k)"
    "k \<in> H \<Longrightarrow> bvalid (buf_at s k)" "k \<in> H \<Longrightarrow> unat (blk s k) < length (disk s)"
proof -
  show inv: "binv c i H s" using assms by (simp add: owned_def)
  show n: "k \<in> H \<Longrightarrow> k < NBUF" using binvD(5) [OF inv] by auto
  show "k \<in> H \<Longrightarrow> k < length (bufs s)" using n binvD(2) [OF inv] by simp
  show cc: "k \<in> H \<Longrightarrow> cached s k (blk s k)" using assms by (simp add: owned_def cached_def)
  show v: "k \<in> H \<Longrightarrow> bvalid (buf_at s k)" using assms by (simp add: owned_def)
  show "k \<in> H \<Longrightarrow> unat (blk s k) < length (disk s)"
    using clean_okD(1) [OF binvD(9) [OF inv] n cc v] by simp
qed

abbreviation keeps_place :: "(buf \<Rightarrow> buf) \<Rightarrow> bool" where
  "keeps_place f \<equiv> (\<forall>x. bdev (f x) = bdev x \<and> blockno (f x) = blockno x \<and> refcnt (f x) = refcnt x \<and>
     (bvalid x \<longrightarrow> bvalid (f x)))"

lemma cached_upd_buf: "keeps_place f \<Longrightarrow> cached (upd_buf k f s) j b = cached s j b"
  by (simp add: cached_def buf_at_upd_buf)

lemma owned_upd_buf:
  assumes ow: "owned c i H s" and k: "k \<in> H" and f: "keeps_place f"
  shows "owned c i H (upd_buf k f s)"
proof -
  let ?t = "upd_buf k f s"
  note inv = ownedD(1) [OF ow]
  have kl: "k < length (bufs s)" by (rule ownedD(3) [OF ow k])
  have "held_ok i H ?t"
    unfolding held_ok_def
  proof (intro conjI allI impI)
    show "H \<subseteq> {0..<NBUF}" by (rule binvD(5) [OF inv])
    fix j assume j: "j < NBUF"
    note ho = held_okD [OF binvD(6) [OF inv] j]
    show "refcnt (buf_at ?t j) = (if j \<in> H then 1 else 0)" using ho(1) f by (cases "j = k") (simp_all add: buf_at_upd_buf)
    show "slocked (sleeplocks ?t (BufSl j)) = (j \<in> H)" using ho(2) by simp
    assume "j \<in> H"
    then show "slpid (sleeplocks ?t (BufSl j)) = pid (proc_at ?t i)" using ho(3) by simp
  qed
  moreover have "unique_ok ?t" using binvD(7) [OF inv] by (simp only: unique_ok_def cached_upd_buf [OF f])
  moreover have "dirty_ok ?t"
    unfolding dirty_ok_def
  proof (intro allI impI)
    fix j assume "j < NBUF" "bdirty (buf_at ?t j)"
    then show "bvalid (buf_at ?t j) \<and> bdev (buf_at ?t j) = 1"
      using dirty_okD [OF binvD(8) [OF inv], of j] kl ow k f
      by (cases "j = k") (simp_all add: buf_at_upd_buf owned_def)
  qed
  moreover have "clean_ok H ?t"
    unfolding clean_ok_def cached_upd_buf [OF f]
  proof (intro allI impI)
    fix j b assume j: "j < NBUF" "cached s j b" "bvalid (buf_at ?t j)"
    show "unat b < length (disk ?t) \<and> (j \<notin> H \<longrightarrow> \<not> bdirty (buf_at ?t j) \<longrightarrow> bdata (buf_at ?t j) = disk ?t ! unat b)"
    proof (cases "j = k")
      case True
      then have "blk s k = b" using j(2) by (simp add: cached_def)
      then show ?thesis using ownedD(6) [OF ow k] True k by simp
    next
      case False
      then show ?thesis using j clean_okD [OF binvD(9) [OF inv] j(1,2)] by (simp add: buf_at_upd_buf)
    qed
  qed
  moreover have "\<forall>j\<in>H. bvalid (buf_at ?t j) \<and> bdev (buf_at ?t j) = 1"
    using ow f by (simp add: owned_def buf_at_upd_buf)
  ultimately show ?thesis using inv by (simp add: owned_def binv_def lists_ok_def)
qed

lemma view_other:
  assumes "\<And>j. j < NBUF \<Longrightarrow> cached t j b = cached s j b"
    and "\<And>j. j < NBUF \<Longrightarrow> cached s j b \<Longrightarrow> buf_at t j = buf_at s j"
    and "disk t ! unat b = disk s ! unat b"
  shows "view t b = view s b"
proof -
  have "List.find (\<lambda>k. cached t k b \<and> bvalid (buf_at t k)) [0..<NBUF]
      = List.find (\<lambda>k. cached s k b \<and> bvalid (buf_at s k)) [0..<NBUF]"
    using assms(1,2) by (intro find_cong refl) (auto simp del: upt_rec_numeral)
  moreover have "bdata (buf_at t k) = bdata (buf_at s k)"
    if "List.find (\<lambda>k. cached s k b \<and> bvalid (buf_at s k)) [0..<NBUF] = Some k" for k
  proof -
    have "k \<in> set [0..<NBUF]" "cached s k b"
      using that by (auto simp: find_Some_iff simp del: upt_rec_numeral)
    then show ?thesis using assms(2) [of k] by (simp del: upt_rec_numeral)
  qed
  ultimately show ?thesis using assms(3) by (simp add: view_def split: option.split del: upt_rec_numeral)
qed

lemma view_upd_buf:
  assumes ow: "owned c i H s" and k: "k \<in> H" and f: "keeps_place f"
  shows "view (upd_buf k f s) = (view s)(blk s k := bdata (f (buf_at s k)))"
proof (rule ext)
  fix b
  show "view (upd_buf k f s) b = ((view s)(blk s k := bdata (f (buf_at s k)))) b"
  proof (cases "b = blk s k")
    case True
    have "view (upd_buf k f s) (blk s k) = bdata (buf_at (upd_buf k f s) k)"
      using ownedD(2,3,4,5) [OF ow k] f
      by (intro view_cached [OF ownedD(1) [OF owned_upd_buf [OF ow k f]]])
        (simp_all add: cached_upd_buf buf_at_upd_buf)
    then show ?thesis using True ownedD(3) [OF ow k] by (simp add: buf_at_upd_buf)
  next
    case False
    then have "\<not> cached s k b" by (simp add: cached_def)
    then have "view (upd_buf k f s) b = view s b"
      using f by (intro view_other) (auto simp: cached_upd_buf buf_at_upd_buf)
    then show ?thesis using False by simp
  qed
qed

lemma dirty_upd_buf:
  assumes ow: "owned c i H s" and k: "k \<in> H" and f: "keeps_place f"
  shows "dirty_blocks (upd_buf k f s) = (if bdirty (f (buf_at s k)) then insert (blk s k) (dirty_blocks s)
    else dirty_blocks s - {blk s k})"
proof -
  note kn = ownedD(2,3,4) [OF ow k]
  have u: "j = k" if "j < NBUF" "cached s j (blk s k)" for j
    using unique_okD [OF binvD(7) [OF ownedD(1) [OF ow]] that(1) kn(1) that(2) kn(3)] .
  have m: "b \<in> dirty_blocks (upd_buf k f s) \<longleftrightarrow> (if b = blk s k then bdirty (f (buf_at s k)) else b \<in> dirty_blocks s)" for b
  proof (cases "b = blk s k")
    case True
    have "b \<in> dirty_blocks (upd_buf k f s) \<longleftrightarrow> bdirty (buf_at (upd_buf k f s) k)"
      unfolding dirty_blocks_def mem_Collect_eq cached_upd_buf [OF f] using True u kn by blast
    then show ?thesis using True kn(2) by (simp add: buf_at_upd_buf)
  next
    case False
    then have "\<not> cached s k b" by (simp add: cached_def)
    then show ?thesis using False f
      by (auto simp: dirty_blocks_def cached_upd_buf buf_at_upd_buf)
  qed
  show ?thesis by (rule set_eqI) (simp add: m del: upd_buf_simps)
qed

lemma disk_write_simps [simp]:
  "buf_at (disk_write n d s) j = buf_at s j" "bufs (disk_write n d s) = bufs s" "lru (disk_write n d s) = lru s"
  "sleeplocks (disk_write n d s) = sleeplocks s" "proc_at (disk_write n d s) j = proc_at s j"
  "kbio.more (disk_write n d s) = kbio.more s" "disk (disk_write n d s) = (disk s)[n := d]"
  "dhist (disk_write n d s) = disk s # dhist s" "cached (disk_write n d s) j b = cached s j b"
  "dirty_blocks (disk_write n d s) = dirty_blocks s" "held_ok i H (disk_write n d s) = held_ok i H s"
  by (simp_all add: disk_write_def buf_at_def proc_at_def cached_def dirty_blocks_def held_ok_def)

lemma owned_disk_write:
  assumes ow: "owned c i H s" and k: "k \<in> H" and d: "d = bdata (buf_at s k)"
  shows "owned c i H (disk_write (unat (blk s k)) d s)"
proof -
  note inv = ownedD(1) [OF ow]
  have "clean_ok H (disk_write (unat (blk s k)) d s)"
    unfolding clean_ok_def disk_write_simps
  proof (intro allI impI)
    fix j b assume j: "j < NBUF" "cached s j b" "bvalid (buf_at s j)"
    note cl = clean_okD [OF binvD(9) [OF inv] j]
    show "unat b < length ((disk s)[unat (blk s k) := d]) \<and>
        (j \<notin> H \<longrightarrow> \<not> bdirty (buf_at s j) \<longrightarrow> bdata (buf_at s j) = (disk s)[unat (blk s k) := d] ! unat b)"
    proof (cases "b = blk s k")
      case True
      then have "j = k" using unique_okD [OF binvD(7) [OF inv] j(1) ownedD(2) [OF ow k] j(2)] ownedD(4) [OF ow k] by simp
      then show ?thesis using cl(1) k by simp
    next
      case False
      then have "unat (blk s k) \<noteq> unat b" by (simp add: word_unat_eq_iff)
      then show ?thesis using cl by simp
    qed
  qed
  then show ?thesis using ow by (simp add: owned_def binv_def lists_ok_def unique_ok_def dirty_ok_def)
qed

lemma view_disk_write:
  assumes ow: "owned c i H s" and k: "k \<in> H" and d: "d = bdata (buf_at s k)"
  shows "view (disk_write (unat (blk s k)) d s) = view s"
proof (rule ext)
  fix b
  show "view (disk_write (unat (blk s k)) d s) b = view s b"
  proof (cases "b = blk s k")
    case True
    then show ?thesis
      using view_cached [OF ownedD(1) [OF ow] ownedD(2) [OF ow k] ownedD(4) [OF ow k] ownedD(5) [OF ow k]]
        view_cached [OF ownedD(1) [OF owned_disk_write [OF ow k d]] ownedD(2) [OF ow k], of "blk s k"]
        ownedD(4,5) [OF ow k] by simp
  next
    case False
    then have "unat (blk s k) \<noteq> unat b" by (simp add: word_unat_eq_iff)
    then show ?thesis by (intro view_other) simp_all
  qed
qed

text \<open>\<^verbatim>\<open>bwrite\<close> of a held buffer writes its contents to the disk and to no other place.\<close>

lemma bwrite_eq:
  assumes ow: "owned c i H s" and k: "k \<in> H"
  shows "bwrite k s = Ret () (disk_write (unat (blk s k)) (bdata (buf_at s k)) (upd_buf k (\<lambda>x. x\<lparr>bdirty := False\<rparr>) s))"
proof -
  note inv = ownedD(1) [OF ow] and kn = ownedD(2,3) [OF ow k]
  note q = binvD(1) [OF inv]
  have sl: "slocked (sleeplocks s (BufSl k))" "slpid (sleeplocks s (BufSl k)) = pid (proc_at s i)"
    using held_okD(2,3) [OF binvD(6) [OF inv] kn(1)] k by simp_all
  let ?s = "upd_buf k (\<lambda>x. x\<lparr>bdirty := True\<rparr>) s"
  have io: "iderw k ?s = Ret () (disk_write (unat (blockno (buf_at ?s k))) (bdata (buf_at ?s k))
      (upd_buf k (\<lambda>x. x\<lparr>bdirty := False, bvalid := True\<rparr>) ?s))"
    using iderw_eq [of c i ?s k] q sl ownedD(4,6) [OF ow k] kn(2) by (simp add: buf_at_upd_buf cached_def)
  have "upd_buf k (\<lambda>x. x\<lparr>bdirty := False, bvalid := True\<rparr>) ?s = upd_buf k (\<lambda>x. x\<lparr>bdirty := False\<rparr>) s"
    unfolding upd_buf_upd_buf using ownedD(5) [OF ow k] by (intro upd_buf_cong) simp
  then show ?thesis using io kn(2) holdingsleep_quiet [OF q, of "BufSl k"] sl
    by (simp add: bwrite_def bindk_Ret thenk_modk buf_at_upd_buf)
qed

lemma bwrite_volume:
  assumes ow: "owned c i H s" and k: "k \<in> H"
  shows "\<exists>t. bwrite k s = Ret () t \<and> owned c i H t \<and> volume_of t = vwrite (blk s k) (volume_of s) \<and>
    kbio.more t = kbio.more s \<and> (\<forall>j. blk t j = blk s j)"
proof -
  let ?u = "upd_buf k (\<lambda>x. x\<lparr>bdirty := False\<rparr>) s"
  let ?t = "disk_write (unat (blk s k)) (bdata (buf_at s k)) ?u"
  note kl = ownedD(3) [OF ow k]
  have ou: "owned c i H ?u" by (rule owned_upd_buf [OF ow k]) simp
  have b: "blk ?u k = blk s k" "bdata (buf_at ?u k) = bdata (buf_at s k)" using kl by (simp_all add: buf_at_upd_buf)
  have ot: "owned c i H ?t" "view ?t = view ?u"
    using owned_disk_write [OF ou k refl] view_disk_write [OF ou k refl] b by simp_all
  have vb: "view s (blk s k) = bdata (buf_at s k)"
    by (rule view_cached [OF ownedD(1) [OF ow] ownedD(2) [OF ow k] ownedD(4) [OF ow k] ownedD(5) [OF ow k]])
  have "view ?u = view s" using view_upd_buf [OF ow k, of "\<lambda>x. x\<lparr>bdirty := False\<rparr>"] vb by (simp add: fun_upd_idem)
  moreover have "dirty_blocks ?u = dirty_blocks s - {blk s k}"
    using dirty_upd_buf [OF ow k, of "\<lambda>x. x\<lparr>bdirty := False\<rparr>"] by simp
  ultimately have "volume_of ?t = vwrite (blk s k) (volume_of s)"
    using ot(2) vb by (simp add: volume_of_def vwrite_def)
  moreover have "blk ?t j = blk s j" for j by (simp add: buf_at_upd_buf)
  ultimately show ?thesis using bwrite_eq [OF ow k] ot(1) by (intro exI [of _ ?t]) simp
qed

section \<open>Releasing a buffer\<close>

definition dropped :: "nat \<Rightarrow> 'z kbio_scheme \<Rightarrow> 'z kbio_scheme" where
  "dropped k s = (upd_buf k (\<lambda>x. x\<lparr>refcnt := 0\<rparr>)
     (upd_sl (BufSl k) (\<lambda>x. x\<lparr>slocked := False, slpid := 0\<rparr>) s))\<lparr>lru := k # removeAll k (lru s)\<rparr>"

lemma lockless_comp: "lockless f \<Longrightarrow> lockless g \<Longrightarrow> lockless (\<lambda>s. g (f s))"
  unfolding lockless_def by metis

lemma lockless_touch: "lockless (\<lambda>s. if refcnt (buf_at s k) = 0 then s\<lparr>lru := k # removeAll k (lru s)\<rparr> else s)"
  by (simp add: lockless_def buf_at_def)

lemma brelse_eq:
  assumes ow: "owned c i H s" and k: "k \<in> H"
  shows "brelse k s = Ret () (dropped k s)"
proof -
  note inv = ownedD(1) [OF ow] and kn = ownedD(2,3) [OF ow k]
  note q = binvD(1) [OF inv]
  let ?s = "upd_sl (BufSl k) (\<lambda>x. x\<lparr>slocked := False, slpid := 0\<rparr>) s"
  let ?f = "\<lambda>x. x\<lparr>refcnt := refcnt x - 1\<rparr>"
  let ?g = "\<lambda>s. if refcnt (buf_at s k) = 0 then s\<lparr>lru := k # removeAll k (lru s)\<rparr> else s"
  have sl: "slocked (sleeplocks s (BufSl k))" "slpid (sleeplocks s (BufSl k)) = pid (proc_at s i)"
    using held_okD(2,3) [OF binvD(6) [OF inv] kn(1)] k by simp_all
  have hs: "holdingsleep (BufSl k) s = Ret True s" using holdingsleep_quiet [OF q, of "BufSl k"] sl by simp
  have q': "quiet c i ?s" using q by simp
  have fg: "lockless (\<lambda>s. ?g (upd_buf k ?f s))"
    by (rule lockless_comp [OF lockless_upd_buf lockless_touch])
  have sec: "thenk (acquire BcacheLock) (thenk (modk (\<lambda>s. ?g (upd_buf k ?f s))) (release BcacheLock)) ?s
      = Ret () (?g (upd_buf k ?f ?s))"
    using quiet_locks [OF q'] fg by (intro section_lockless)
  have mm: "thenk (modk f) (thenk (modk g) m) = thenk (modk (\<lambda>s. g (f s))) m" for f g and m :: "('a kbio_scheme, unit) kop"
    by (simp add: fun_eq_iff thenk_modk)
  have "refcnt (buf_at s k) = 1" using held_okD(1) [OF binvD(6) [OF inv] kn(1)] k by simp
  then have "?g (upd_buf k ?f ?s) = dropped k s"
    using kn(2) upd_buf_cong [of ?f ?s k "\<lambda>x. x\<lparr>refcnt := 0\<rparr>"] by (simp add: dropped_def buf_at_upd_buf)
  then show ?thesis using hs sec releasesleep_quiet [OF q, of "BufSl k"]
    by (simp add: brelse_def bindk_Ret thenk_Ret mm)
qed

lemma dropped_simps [simp]:
  "disk (dropped k s) = disk s" "dhist (dropped k s) = dhist s" "kbio.more (dropped k s) = kbio.more s"
  "length (bufs (dropped k s)) = length (bufs s)" "lru (dropped k s) = k # removeAll k (lru s)"
  "proc_at (dropped k s) j = proc_at s j" "quiet c i (dropped k s) = quiet c i s"
  by (simp_all add: dropped_def proc_at_def)

lemma buf_at_dropped: "buf_at (dropped k s) j = (if j = k \<and> k < length (bufs s) then (buf_at s k)\<lparr>refcnt := 0\<rparr> else buf_at s j)"
  using buf_at_upd_buf [of k "\<lambda>x. x\<lparr>refcnt := 0\<rparr>" "upd_sl (BufSl k) (\<lambda>x. x\<lparr>slocked := False, slpid := 0\<rparr>) s" j]
  by (simp add: dropped_def buf_at_def)

lemma sleeplocks_dropped:
  "sleeplocks (dropped k s) l = (if l = BufSl k then (sleeplocks s l)\<lparr>slocked := False, slpid := 0\<rparr> else sleeplocks s l)"
  by (simp add: dropped_def upd_sl_def)

lemma buf_dropped [simp]:
  "cached (dropped k s) j b = cached s j b" "bvalid (buf_at (dropped k s) j) = bvalid (buf_at s j)"
  "bdirty (buf_at (dropped k s) j) = bdirty (buf_at s j)" "bdata (buf_at (dropped k s) j) = bdata (buf_at s j)"
  "bdev (buf_at (dropped k s) j) = bdev (buf_at s j)" "blockno (buf_at (dropped k s) j) = blockno (buf_at s j)"
  by (simp_all add: buf_at_dropped cached_def)

lemma view_dropped [simp]:
  "view (dropped k s) = view s" "dirty_blocks (dropped k s) = dirty_blocks s"
  by (simp_all add: view_def dirty_blocks_def fun_eq_iff split: option.split del: upt_rec_numeral)

lemma coherent:
  assumes inv: "binv c i H s" and b: "\<And>k. k \<in> H \<Longrightarrow> \<not> cached s k b"
  shows "b \<in> dirty_blocks s \<or> view s b = disk s ! unat b"
proof (cases "\<exists>k<NBUF. cached s k b \<and> bvalid (buf_at s k)")
  case True
  then obtain k where k: "k < NBUF" "cached s k b" "bvalid (buf_at s k)" by auto
  then show ?thesis
    using view_cached [OF inv k] clean_okD(2) [OF binvD(9) [OF inv] k] b [of k] by (auto simp: dirty_blocks_def)
next
  case False
  then have "view s b = disk s ! unat b" by (intro view_uncached) blast
  then show ?thesis ..
qed

lemma brelse_volume:
  assumes ow: "owned c i H s" and k: "k \<in> H"
    and settled: "blk s k \<in> dirty_blocks s \<or> view s (blk s k) = disk s ! unat (blk s k)"
  shows "\<exists>t. brelse k s = Ret () t \<and> owned c i (H - {k}) t \<and> volume_of t = volume_of s \<and>
    kbio.more t = kbio.more s \<and> (\<forall>j. blk t j = blk s j)"
proof (intro exI conjI allI)
  note inv = ownedD(1) [OF ow] and kn = ownedD(2,3,4,5) [OF ow k]
  let ?t = "dropped k s"
  show "brelse k s = Ret () ?t" by (rule brelse_eq [OF ow k])
  show "volume_of ?t = volume_of s" by (simp add: volume_of_def)
  show "kbio.more ?t = kbio.more s" by simp
  show "blk ?t j = blk s j" for j by simp
  have "held_ok i (H - {k}) ?t"
    unfolding held_ok_def
  proof (intro conjI allI impI)
    show "H - {k} \<subseteq> {0..<NBUF}" using binvD(5) [OF inv] by blast
    fix j assume j: "j < NBUF"
    note ho = held_okD [OF binvD(6) [OF inv] j]
    show "refcnt (buf_at ?t j) = (if j \<in> H - {k} then 1 else 0)"
      using ho(1) kn(2) by (cases "j = k") (simp_all add: buf_at_dropped)
    show "slocked (sleeplocks ?t (BufSl j)) = (j \<in> H - {k})"
      using ho(2) by (cases "j = k") (simp_all add: sleeplocks_dropped)
    assume "j \<in> H - {k}"
    then show "slpid (sleeplocks ?t (BufSl j)) = pid (proc_at ?t i)" using ho(3) by (simp add: sleeplocks_dropped)
  qed
  moreover have "clean_ok (H - {k}) ?t"
    unfolding clean_ok_def
  proof (intro allI impI)
    fix j b assume j: "j < NBUF" "cached ?t j b" "bvalid (buf_at ?t j)"
    then have jc: "cached s j b" "bvalid (buf_at s j)" by simp_all
    note cl = clean_okD [OF binvD(9) [OF inv] j(1) jc]
    show "unat b < length (disk ?t) \<and>
        (j \<notin> H - {k} \<longrightarrow> \<not> bdirty (buf_at ?t j) \<longrightarrow> bdata (buf_at ?t j) = disk ?t ! unat b)"
    proof (cases "j = k")
      case True
      then have b: "blk s k = b" using jc by (simp add: cached_def)
      have "b \<notin> dirty_blocks s" if "\<not> bdirty (buf_at s k)"
        unfolding dirty_blocks_def using that True unique_okD [OF binvD(7) [OF inv] _ kn(1) _ jc(1) [unfolded True]] by blast
      then show ?thesis using True cl(1) settled view_cached [OF inv kn(1) kn(3) kn(4)] b by auto
    next
      case False
      then show ?thesis using cl by simp
    qed
  qed
  moreover have "lists_ok ?t"
    using binvD(2,3) [OF inv] kn(1) by (simp add: lists_ok_def distinct_removeAll binvD(4) [OF inv] insert_absorb)
  moreover have "unique_ok ?t" "dirty_ok ?t" using binvD(7,8) [OF inv] by (simp_all add: unique_ok_def dirty_ok_def)
  ultimately show "owned c i (H - {k}) ?t" using ow by (simp add: owned_def binv_def)
qed

text \<open>As long as the dirty blocks and the held buffers do not fill the cache, a buffer is left.\<close>

lemma spare_card:
  assumes inv: "binv c i H s" and lt: "card H + card (dirty_blocks s) < NBUF"
  shows "spare H s"
proof (rule ccontr)
  assume ns: "\<not> spare H s"
  let ?D = "{k. k < NBUF \<and> bdirty (buf_at s k)}"
  have fH: "finite H" using binvD(5) [OF inv] finite_subset by blast
  have "inj_on (blk s) ?D"
  proof (rule inj_onI)
    fix j k assume "j \<in> ?D" "k \<in> ?D" and e: "blk s j = blk s k"
    then have jk: "j < NBUF" "k < NBUF" "cached s j (blk s k)" "cached s k (blk s k)"
      using dirty_okD [OF binvD(8) [OF inv]] by (auto simp: cached_def)
    then show "j = k" by (rule unique_okD [OF binvD(7) [OF inv]])
  qed
  moreover have "blk s ` ?D = dirty_blocks s"
    using dirty_okD [OF binvD(8) [OF inv]] by (auto simp: dirty_blocks_def cached_def)
  ultimately have "card ?D = card (dirty_blocks s)" using card_image by metis
  moreover have "{0..<NBUF} \<subseteq> H \<union> ?D" using ns by (auto simp: spare_def)
  then have "card {0..<NBUF} \<le> card (H \<union> ?D)" using fH by (intro card_mono) auto
  moreover have "card (H \<union> ?D) \<le> card H + card ?D" by (rule card_Un_le)
  ultimately show False using lt by simp
qed

lemma put_volume:
  assumes ow: "owned c i H s" and k: "k \<in> H"
  shows "owned c i H (upd_buf k (\<lambda>x. x\<lparr>bdata := g (bdata x)\<rparr>) s) \<and>
    volume_of (upd_buf k (\<lambda>x. x\<lparr>bdata := g (bdata x)\<rparr>) s) = vput (blk s k) (g (bdata (buf_at s k))) (volume_of s)"
proof -
  have "dirty_blocks (upd_buf k (\<lambda>x. x\<lparr>bdata := g (bdata x)\<rparr>) s) = dirty_blocks s"
    using ownedD(2,4) [OF ow k] by (auto simp: dirty_blocks_def cached_upd_buf buf_at_upd_buf)
  then show ?thesis
    using owned_upd_buf [OF ow k, of "\<lambda>x. x\<lparr>bdata := g (bdata x)\<rparr>"]
      view_upd_buf [OF ow k, of "\<lambda>x. x\<lparr>bdata := g (bdata x)\<rparr>"]
    by (simp add: volume_of_def vput_def)
qed

section \<open>The interface of the cache\<close>

definition vcopy :: "uint \<Rightarrow> uint \<Rightarrow> volume \<Rightarrow> volume" where
  "vcopy a b v = vwrite b (vput b (vdata v a) v)"

text \<open>
  What \<^verbatim>\<open>log.c\<close> and \<^verbatim>\<open>fs.c\<close> rely on. A client holds buffers \<open>H\<close>; \<open>rd\<close>, \<open>wr\<close> and \<open>rel\<close> are the calls, and \<open>put\<close> a
  store into the data of a held buffer.
\<close>

locale block_cache =
  fixes ok :: "nat set \<Rightarrow> 's \<Rightarrow> bool" and vol :: "'s \<Rightarrow> volume" and bno :: "'s \<Rightarrow> nat \<Rightarrow> uint"
    and data :: "'s \<Rightarrow> nat \<Rightarrow> block" and rest :: "'s \<Rightarrow> 'r"
    and rd :: "uint \<Rightarrow> ('s, nat) kop" and wr rel :: "nat \<Rightarrow> ('s, unit) kop"
    and put :: "nat \<Rightarrow> (block \<Rightarrow> block) \<Rightarrow> 's \<Rightarrow> 's" and nbuf :: nat
  assumes data_vol: "ok H s \<Longrightarrow> k \<in> H \<Longrightarrow> data s k = vdata (vol s) (bno s k)"
    and fin: "ok H s \<Longrightarrow> finite H"
    and synced: "ok H s \<Longrightarrow> b \<notin> bno s ` H \<Longrightarrow> b \<in> vdirty (vol s) \<or> vdata (vol s) b = vdisk (vol s) ! unat b"
    and rd_law: "ok H s \<Longrightarrow> b \<notin> bno s ` H \<Longrightarrow> unat b < length (vdisk (vol s)) \<Longrightarrow>
      b \<in> vdirty (vol s) \<or> card H + card (vdirty (vol s)) < nbuf \<Longrightarrow>
      \<exists>k t. rd b s = Ret k t \<and> k \<notin> H \<and> ok (insert k H) t \<and> vol t = vol s \<and> bno t k = b \<and> rest t = rest s \<and>
        (\<forall>j\<in>H. bno t j = bno s j)"
    and wr_law: "ok H s \<Longrightarrow> k \<in> H \<Longrightarrow>
      \<exists>t. wr k s = Ret () t \<and> ok H t \<and> vol t = vwrite (bno s k) (vol s) \<and> rest t = rest s \<and> bno t = bno s"
    and rel_law: "ok H s \<Longrightarrow> k \<in> H \<Longrightarrow>
      bno s k \<in> vdirty (vol s) \<or> vdata (vol s) (bno s k) = vdisk (vol s) ! unat (bno s k) \<Longrightarrow>
      \<exists>t. rel k s = Ret () t \<and> ok (H - {k}) t \<and> vol t = vol s \<and> rest t = rest s \<and> bno t = bno s"
    and put_law: "ok H s \<Longrightarrow> k \<in> H \<Longrightarrow> ok H (put k g s) \<and>
      vol (put k g s) = vput (bno s k) (g (data s k)) (vol s) \<and> rest (put k g s) = rest s \<and> bno (put k g s) = bno s"
    and put_put: "put k g (put k h s) = put k (\<lambda>x. g (h x)) s"
begin

text \<open>A block written back is on the disk.\<close>

lemma write_put:
  assumes "ok H s" and "k \<in> H" and "unat (bno s k) < length (vdisk (vol s))"
  shows "\<exists>t. thenk (modk (put k g)) (wr k) s = Ret () t \<and> ok H t \<and> rest t = rest s \<and> bno t = bno s \<and>
    vol t = vwrite (bno s k) (vput (bno s k) (g (data s k)) (vol s)) \<and>
    vdata (vol t) (bno s k) = vdisk (vol t) ! unat (bno s k)"
proof -
  note p = put_law [OF assms(1,2), of g]
  obtain t where t: "wr k (put k g s) = Ret () t" "ok H t" "vol t = vwrite (bno s k) (vol (put k g s))"
    "rest t = rest s" "bno t = bno s"
    using wr_law [of H "put k g s" k] p assms(2) by auto
  have v: "vol t = vwrite (bno s k) (vput (bno s k) (g (data s k)) (vol s))" using t(3) p by simp
  then have "vdata (vol t) (bno s k) = vdisk (vol t) ! unat (bno s k)"
    using assms(3) by (simp add: vwrite_def vput_def)
  then show ?thesis using t v by (simp add: thenk_modk)
qed

text \<open>Read a block, change it, write it back.\<close>

lemma update_block:
  assumes ok: "ok {} s" and b: "unat b < length (vdisk (vol s))" and room: "b \<in> vdirty (vol s) \<or> card (vdirty (vol s)) < nbuf"
  shows "\<exists>t. bindk (rd b) (\<lambda>k. thenk (modk (put k g)) (thenk (wr k) (rel k))) s = Ret () t \<and> ok {} t \<and> rest t = rest s \<and>
    vol t = vwrite b (vput b (g (vdata (vol s) b)) (vol s))"
proof -
  obtain k t1 where r: "rd b s = Ret k t1" and t1: "ok {k} t1" "vol t1 = vol s" "bno t1 k = b" "rest t1 = rest s"
    using rd_law [OF ok, of b] b room by auto
  have d: "data t1 k = vdata (vol s) b" using data_vol [OF t1(1)] t1(2,3) by simp
  obtain t2 where w: "thenk (modk (put k g)) (wr k) t1 = Ret () t2" and t2: "ok {k} t2" "rest t2 = rest s" "bno t2 k = b"
    "vol t2 = vwrite b (vput b (g (vdata (vol s) b)) (vol s))" "vdata (vol t2) b = vdisk (vol t2) ! unat b"
    using write_put [OF t1(1), of k g] b t1 d by auto
  obtain t3 where "rel k t2 = Ret () t3" "ok {} t3" "vol t3 = vol t2" "rest t3 = rest s"
    using rel_law [OF t2(1), of k] t2 by auto
  moreover have "bindk (rd b) (\<lambda>k. thenk (modk (put k g)) (thenk (wr k) (rel k))) s = rel k t2"
    using r w by (simp add: bindk_Ret thenk_Ret thenk_assoc [symmetric])
  ultimately show ?thesis using t2(4) by auto
qed

lemma look_block:
  assumes ok: "ok {} s" and b: "unat b < length (vdisk (vol s))" and room: "b \<in> vdirty (vol s) \<or> card (vdirty (vol s)) < nbuf"
  shows "\<exists>k t. rd b s = Ret k t \<and> ok {k} t \<and> vol t = vol s \<and> rest t = rest s \<and> data t k = vdata (vol s) b \<and> bno t k = b"
proof -
  obtain k t where r: "rd b s = Ret k t" and t: "ok {k} t" "vol t = vol s" "bno t k = b" "rest t = rest s"
    using rd_law [OF ok, of b] b room by auto
  then show ?thesis using data_vol [OF t(1), of k] by auto
qed

lemma unlook_block:
  assumes "ok {} s" and "ok {k} t" and "vol t = vol s" and "bno t k = b"
  shows "\<exists>u. rel k t = Ret () u \<and> ok {} u \<and> vol u = vol s \<and> rest u = rest t"
  using rel_law [OF assms(2), of k] assms synced [OF assms(1), of b] by auto

text \<open>
  Copying block \<open>a\<close> into block \<open>b\<close> with both buffers held; \<^verbatim>\<open>write_log\<close> reads the target first, \<^verbatim>\<open>install_trans\<close> the
  source.
\<close>

lemma read_two:
  assumes ok: "ok {} s" and xy: "x \<noteq> y" "unat x < length (vdisk (vol s))" "unat y < length (vdisk (vol s))"
    and room: "x \<in> vdirty (vol s) \<or> card (vdirty (vol s)) < nbuf" "y \<in> vdirty (vol s) \<or> Suc (card (vdirty (vol s))) < nbuf"
  shows "\<exists>i j t. bindk (rd x) (\<lambda>i. bindk (rd y) (f i)) s = f i j t \<and> ok {i, j} t \<and> i \<noteq> j \<and> bno t i = x \<and> bno t j = y \<and>
    vol t = vol s \<and> rest t = rest s"
proof -
  obtain i t1 where r1: "rd x s = Ret i t1" and t1: "ok {i} t1" "vol t1 = vol s" "bno t1 i = x" "rest t1 = rest s"
    using rd_law [OF ok, of x] xy room by auto
  obtain j t where r2: "rd y t1 = Ret j t" and t: "j \<noteq> i" "ok {j, i} t" "vol t = vol s" "bno t j = y" "rest t = rest s" "bno t i = x"
    using rd_law [OF t1(1), of y] xy room t1 by auto
  have "bindk (rd x) (\<lambda>i. bindk (rd y) (f i)) s = f i j t" using r1 r2 by (simp add: bindk_Ret)
  then show ?thesis using t by (intro exI [of _ i] exI [of _ j] exI [of _ t]) (auto simp: insert_commute)
qed

lemma copy_held:
  assumes ok: "ok {i, j} s" and ij: "i \<noteq> j" "bno s i = a" "bno s j = b" "a \<noteq> b" and b: "unat b < length (vdisk (vol s))"
    and sy: "a \<in> vdirty (vol s) \<or> vdata (vol s) a = vdisk (vol s) ! unat a"
  shows "\<exists>t. thenk (modk (\<lambda>s. put j (\<lambda>_. data s i) s)) (thenk (wr j) (thenk (rel i) (rel j))) s = Ret () t \<and>
    ok {} t \<and> rest t = rest s \<and> vol t = vcopy a b (vol s)"
proof -
  have d: "data s i = vdata (vol s) a" using data_vol [OF ok, of i] ij by simp
  obtain t1 where w: "thenk (modk (put j (\<lambda>_. data s i))) (wr j) s = Ret () t1" and t1: "ok {i, j} t1" "rest t1 = rest s"
    "bno t1 = bno s" "vol t1 = vcopy a b (vol s)" "vdata (vol t1) b = vdisk (vol t1) ! unat b"
    using write_put [OF ok, of j "\<lambda>_. data s i"] b ij d by (auto simp: vcopy_def)
  have ab: "unat b \<noteq> unat a" using ij(4) by (simp add: word_unat_eq_iff)
  have "a \<in> vdirty (vol t1) \<or> vdata (vol t1) a = vdisk (vol t1) ! unat a"
    using sy ij(4) ab t1(4) by (auto simp: vcopy_def vwrite_def vput_def)
  then obtain t2 where r2: "rel i t1 = Ret () t2" and t2: "ok {j} t2" "vol t2 = vol t1" "rest t2 = rest s" "bno t2 = bno s"
    using rel_law [OF t1(1), of i] ij t1 by auto
  obtain t3 where r3: "rel j t2 = Ret () t3" and t3: "ok {} t3" "vol t3 = vol t1" "rest t3 = rest s"
    using rel_law [OF t2(1), of j] ij t1 t2 by auto
  have "thenk (modk (\<lambda>s. put j (\<lambda>_. data s i) s)) (thenk (wr j) (thenk (rel i) (rel j))) s
      = thenk (thenk (modk (put j (\<lambda>_. data s i))) (wr j)) (thenk (rel i) (rel j)) s"
    by (simp add: thenk_assoc thenk_modk)
  then show ?thesis using w r2 r3 t3 t1(4) by (simp add: thenk_Ret)
qed

end

interpretation bcache: block_cache "owned c i" volume_of "\<lambda>s k. blockno (buf_at s k)" "\<lambda>s k. bdata (buf_at s k)" kbio.more
  "bread 1" bwrite brelse "\<lambda>k g. upd_buf k (\<lambda>x. x\<lparr>bdata := g (bdata x)\<rparr>)" NBUF for c i
proof (unfold_locales, goal_cases)
  case (1 H s k)
  then show ?case
    using view_cached [OF ownedD(1) [OF 1(1)] ownedD(2) [OF 1] ownedD(4) [OF 1] ownedD(5) [OF 1]]
    by (simp add: volume_of_def)
next
  case (2 H s)
  then show ?case using binvD(5) [OF ownedD(1) [OF 2]] finite_subset by blast
next
  case (3 H s b)
  then show ?case using coherent [OF ownedD(1) [OF 3(1)], of b] by (auto simp: volume_of_def cached_def)
next
  case (4 H s b)
  then have nh: "\<And>k. k \<in> H \<Longrightarrow> \<not> cached s k b" by (auto simp: cached_def)
  have "spare H s \<or> b \<in> dirty_blocks s" using 4 spare_card [OF ownedD(1) [OF 4(1)]] by (auto simp: volume_of_def)
  from bread_volume [OF ownedD(1) [OF 4(1)] _ nh this] 4(3) obtain k t where
    t: "bread 1 b s = Ret k t" "k \<notin> H" "binv c i (insert k H) t" "volume_of t = volume_of s" "cached t k b"
      "bvalid (buf_at t k)" "kbio.more t = kbio.more s" "\<forall>j\<in>H. buf_at t j = buf_at s j"
    by (auto simp: volume_of_def)
  then have "owned c i (insert k H) t" using 4(1) by (simp add: owned_def cached_def)
  then show ?case using t by (intro exI [of _ k] exI [of _ t]) (simp add: cached_def)
next
  case (5 H s k)
  then show ?case using bwrite_volume [OF 5] by auto
next
  case (6 H s k)
  then show ?case using brelse_volume [OF 6(1,2)] by (auto simp: volume_of_def)
next
  case (7 H s k g)
  then show ?case using put_volume [OF 7, of g] by (simp add: buf_at_upd_buf fun_eq_iff)
next
  case (8 k g h s)
  then show ?case by (simp add: upd_buf_upd_buf)
qed


section \<open>A state for witnesses\<close>

text \<open>A machine at rest whose cache has one buffer in use.\<close>

definition demo_bio :: "block list \<Rightarrow> buf \<Rightarrow> kbio" where
  "demo_bio d b = ksleep.extend
     (ksched.extend ((mkfree (Some 0) [(RUNNING, RR)] [] [] [])\<lparr>cpus := [cpu0\<lparr>cproc := Some 0, intena := True\<rparr>]\<rparr>)
       \<lparr>sleeplocks = (\<lambda>_. \<lparr>slocked = False, slname = [], slpid = 0\<rparr>)\<rparr>)
     \<lparr>disk = d, dhist = [],
      bufs = b # replicate 29 \<lparr>bvalid = False, bdirty = False, bdev = 0, blockno = 0, refcnt = 0, bdata = []\<rparr>,
      lru = [0..<NBUF]\<rparr>"

lemma demo_quiet: "quiet 0 0 (demo_bio d b)"
  by (simp add: quiet_def demo_bio_def ksleep.defs ksched.defs mkfree_def mksched_def runs_on_def find_cpu_def cpu0_def
    free_lock_def nobody_waits_def) (auto simp: set_zip mkproc_def nth_Cons')

lemma demo_simps [simp]:
  "disk (demo_bio d b) = d" "dhist (demo_bio d b) = []" "lru (demo_bio d b) = [0..<NBUF]"
  "length (bufs (demo_bio d b)) = NBUF" "\<not> slocked (sleeplocks (demo_bio d b) l)"
  by (simp_all add: demo_bio_def ksleep.defs ksched.defs del: upt_rec_numeral)

lemma demo_buf: "k < NBUF \<Longrightarrow> buf_at (demo_bio d b) k = (if k = 0 then b
    else \<lparr>bvalid = False, bdirty = False, bdev = 0, blockno = 0, refcnt = 0, bdata = []\<rparr>)"
  by (simp add: demo_bio_def buf_at_def ksleep.defs ksched.defs nth_Cons')

lemma demo_owned:
  assumes "bdev b = 1" and "bvalid b" and "refcnt b = 0" and "unat (blockno b) < length d"
    and "\<not> bdirty b \<Longrightarrow> bdata b = d ! unat (blockno b)"
  shows "owned 0 0 {} (demo_bio d b)"
proof -
  have "lists_ok (demo_bio d b)" by (simp add: lists_ok_def del: upt_rec_numeral)
  moreover have "held_ok 0 {} (demo_bio d b)" using assms(3) by (simp add: held_ok_def demo_buf)
  moreover have "unique_ok (demo_bio d b)" by (auto simp: unique_ok_def cached_def demo_buf split: if_splits)
  moreover have "dirty_ok (demo_bio d b)" using assms by (simp add: dirty_ok_def demo_buf)
  moreover have "clean_ok {} (demo_bio d b)" using assms by (auto simp: clean_ok_def cached_def demo_buf split: if_splits)
  ultimately show ?thesis by (simp add: owned_def binv_def demo_quiet)
qed

lemma demo_dirty:
  assumes "bdev b = 1"
  shows "dirty_blocks (demo_bio d b) = (if bdirty b then {blockno b} else {})"
proof -
  have "(\<exists>k<NBUF. cached (demo_bio d b) k x \<and> bdirty (buf_at (demo_bio d b) k)) \<longleftrightarrow> bdirty b \<and> x = blockno b" for x
    using assms by (auto simp: cached_def demo_buf split: if_splits intro!: exI [of _ 0])
  then show ?thesis by (simp add: dirty_blocks_def)
qed

lemma demo_view:
  assumes "owned 0 0 {} (demo_bio d b)" and "bdev b = 1" and "bvalid b"
  shows "view (demo_bio d b) (blockno b) = bdata b"
  using view_cached [OF ownedD(1) [OF assms(1)], of 0 "blockno b"] assms by (simp add: cached_def demo_buf)

end
