(* ===== verification/Log.thy ===== *)
theory Log
  imports Cache
begin

text \<open>
  The write-ahead log, \<^verbatim>\<open>log.c\<close>, with the layout of blocks: little-endian words, and the super block read by
  \<^verbatim>\<open>readsb\<close> (\<^verbatim>\<open>fs.c\<close>).

  The check of \<^verbatim>\<open>initlog\<close> that a log header fits into a block compares two constants and is left out. A negative count in the header on the
  disk is read as an empty log, for which all loops over the log do the same.

  \<^verbatim>\<open>begin_op\<close> waits in a loop; an operation that ends in \<open>Block\<close> runs \<open>begin_op_loop\<close> again when it is resumed.
\<close>

section \<open>Words in blocks\<close>

definition le32 :: "uchar list \<Rightarrow> uint" where
  "le32 bs = ucast (bs ! 0) OR push_bit 8 (ucast (bs ! 1)) OR push_bit 16 (ucast (bs ! 2)) OR
     push_bit 24 (ucast (bs ! 3))"

definition bytes32 :: "uint \<Rightarrow> uchar list" where
  "bytes32 w = [ucast w, ucast (drop_bit 8 w), ucast (drop_bit 16 w), ucast (drop_bit 24 w)]"

definition get32 :: "block \<Rightarrow> nat \<Rightarrow> uint" where
  "get32 b k = le32 (drop (4 * k) b)"

definition put_bytes :: "nat \<Rightarrow> uchar list \<Rightarrow> block \<Rightarrow> block" where
  "put_bytes ofs bs b = take ofs b @ bs @ drop (ofs + length bs) b"

definition put32 :: "nat \<Rightarrow> uint \<Rightarrow> block \<Rightarrow> block" where
  "put32 k w = put_bytes (4 * k) (bytes32 w)"

record superblock =
  sb_size :: uint
  sb_nblocks :: uint
  sb_ninodes :: uint
  sb_nlog :: uint
  sb_logstart :: uint
  sb_inodestart :: uint
  sb_bmapstart :: uint

definition decode_sb :: "block \<Rightarrow> superblock" where
  "decode_sb b = \<lparr>sb_size = get32 b 0, sb_nblocks = get32 b 1, sb_ninodes = get32 b 2, sb_nlog = get32 b 3,
     sb_logstart = get32 b 4, sb_inodestart = get32 b 5, sb_bmapstart = get32 b 6\<rparr>"

definition readsb :: "uint \<Rightarrow> ('z kbio_scheme, superblock) kop" where
  "readsb dev =
     bindk (bread dev 1) (\<lambda>bp.
     bindk (getk (\<lambda>s. decode_sb (bdata (buf_at s bp)))) (\<lambda>sb.
     thenk (brelse bp) (retk sb)))"

section \<open>The log\<close>

abbreviation LOGSIZE :: nat where "LOGSIZE \<equiv> 30"
abbreviation MAXOPBLOCKS :: nat where "MAXOPBLOCKS \<equiv> 10"

record logrec =
  lstart :: uint
  lsize :: uint
  outstanding :: int
  committing :: bool
  ldev :: uint
  lh_n :: nat
  lh_block :: "uint list"

record klog = kbio +
  log :: logrec

definition upd_log :: "(logrec \<Rightarrow> logrec) \<Rightarrow> 'z klog_scheme \<Rightarrow> 'z klog_scheme" where
  "upd_log f s = s\<lparr>log := f (log s)\<rparr>"

definition install_one :: "nat \<Rightarrow> ('z klog_scheme, unit) kop" where
  "install_one tail =
     bindk (getk log) (\<lambda>l.
     bindk (bread (ldev l) (lstart l + of_nat tail + 1)) (\<lambda>lbuf.
     bindk (bread (ldev l) (lh_block l ! tail)) (\<lambda>dbuf.
     thenk (modk (\<lambda>s. upd_buf dbuf (\<lambda>b. b\<lparr>bdata := bdata (buf_at s lbuf)\<rparr>) s))
    (thenk (bwrite dbuf)
    (thenk (brelse lbuf)
     (brelse dbuf))))))"

definition install_trans :: "('z klog_scheme, unit) kop" where
  "install_trans = bindk (getk (\<lambda>s. lh_n (log s))) (\<lambda>n. foreach [0..<n] install_one)"

text \<open>
  The count read from the disk is not checked; a count above the size of the array would write behind it.
\<close>

definition read_head :: "('z klog_scheme, unit) kop" where
  "read_head =
     bindk (getk log) (\<lambda>l.
     bindk (bread (ldev l) (lstart l)) (\<lambda>buf.
     bindk (getk (\<lambda>s. bdata (buf_at s buf))) (\<lambda>d.
     let n = sint (get32 d 0) in
     if int LOGSIZE < n then stopk (Fault ''log header'')
     else
      thenk (modk (upd_log (\<lambda>l. l\<lparr>lh_n := nat n\<rparr>)))
     (thenk (foreach [0..<nat n] (\<lambda>i.
        modk (upd_log (\<lambda>l. l\<lparr>lh_block := (lh_block l)[i := get32 d (i + 1)]\<rparr>))))
      (brelse buf)))))"

definition write_head :: "('z klog_scheme, unit) kop" where
  "write_head =
     bindk (getk log) (\<lambda>l.
     bindk (bread (ldev l) (lstart l)) (\<lambda>buf.
     thenk (modk (upd_buf buf (\<lambda>b. b\<lparr>bdata := put32 0 (of_nat (lh_n l)) (bdata b)\<rparr>)))
    (thenk (foreach [0..<lh_n l] (\<lambda>i.
       modk (upd_buf buf (\<lambda>b. b\<lparr>bdata := put32 (i + 1) (lh_block l ! i) (bdata b)\<rparr>))))
    (thenk (bwrite buf)
     (brelse buf)))))"

definition recover_from_log :: "('z klog_scheme, unit) kop" where
  "recover_from_log =
     thenk read_head
    (thenk install_trans
    (thenk (modk (upd_log (\<lambda>l. l\<lparr>lh_n := 0\<rparr>)))
     write_head))"

definition initlog :: "uint \<Rightarrow> ('z klog_scheme, unit) kop" where
  "initlog dev =
     thenk (initlock LogLock ''log'')
    (bindk (readsb dev) (\<lambda>sb.
     thenk (modk (upd_log (\<lambda>l. l\<lparr>lstart := sb_logstart sb, lsize := sb_nlog sb, ldev := dev\<rparr>)))
     recover_from_log))"

definition begin_op_loop :: "('z klog_scheme, unit) kop" where
  "begin_op_loop =
     bindk (getk log) (\<lambda>l.
     if committing l then sleep ChLog (Some LogLock)
     else if int (lh_n l) + (outstanding l + 1) * int MAXOPBLOCKS > int LOGSIZE then sleep ChLog (Some LogLock)
     else thenk (modk (upd_log (\<lambda>l. l\<lparr>outstanding := outstanding l + 1\<rparr>))) (release LogLock))"

definition begin_op :: "('z klog_scheme, unit) kop" where
  "begin_op = thenk (acquire LogLock) begin_op_loop"

definition write_log_one :: "nat \<Rightarrow> ('z klog_scheme, unit) kop" where
  "write_log_one tail =
     bindk (getk log) (\<lambda>l.
     bindk (bread (ldev l) (lstart l + of_nat tail + 1)) (\<lambda>to.
     bindk (bread (ldev l) (lh_block l ! tail)) (\<lambda>from.
     thenk (modk (\<lambda>s. upd_buf to (\<lambda>b. b\<lparr>bdata := bdata (buf_at s from)\<rparr>) s))
    (thenk (bwrite to)
    (thenk (brelse from)
     (brelse to))))))"

definition write_log :: "('z klog_scheme, unit) kop" where
  "write_log = bindk (getk (\<lambda>s. lh_n (log s))) (\<lambda>n. foreach [0..<n] write_log_one)"

definition commit :: "('z klog_scheme, unit) kop" where
  "commit =
     bindk (getk (\<lambda>s. lh_n (log s))) (\<lambda>n.
     whenk (0 < n)
      (thenk write_log
      (thenk write_head
      (thenk install_trans
      (thenk (modk (upd_log (\<lambda>l. l\<lparr>lh_n := 0\<rparr>)))
       write_head)))))"

definition end_op :: "('z klog_scheme, unit) kop" where
  "end_op =
     thenk (acquire LogLock)
    (thenk (modk (upd_log (\<lambda>l. l\<lparr>outstanding := outstanding l - 1\<rparr>)))
    (bindk (getk log) (\<lambda>l.
     if committing l then panic ''log.committing''
     else
       let do_commit = (outstanding l = 0) in
       thenk (if do_commit then modk (upd_log (\<lambda>l. l\<lparr>committing := True\<rparr>)) else wakeup ChLog)
      (thenk (release LogLock)
       (whenk do_commit
         (thenk commit
         (thenk (acquire LogLock)
         (thenk (modk (upd_log (\<lambda>l. l\<lparr>committing := False\<rparr>)))
         (thenk (wakeup ChLog)
          (release LogLock))))))))))"

definition log_write :: "nat \<Rightarrow> ('z klog_scheme, unit) kop" where
  "log_write i =
     bindk (getk log) (\<lambda>l.
     if lh_n l \<ge> LOGSIZE \<or> int (lh_n l) \<ge> sint (lsize l) - 1 then panic ''too big a transaction''
     else if outstanding l < 1 then panic ''log_write outside of trans''
     else
      thenk (acquire LogLock)
     (bindk (getk (\<lambda>s. blockno (buf_at s i))) (\<lambda>bno.
      bindk (getk (\<lambda>s. case find_index (\<lambda>x. x = bno) (take (lh_n (log s)) (lh_block (log s))) of
        Some k \<Rightarrow> k | None \<Rightarrow> lh_n (log s))) (\<lambda>k.
      thenk (modk (upd_log (\<lambda>l. l\<lparr>lh_block := (lh_block l)[k := bno],
         lh_n := (if k = lh_n l then lh_n l + 1 else lh_n l)\<rparr>)))
     (thenk (modk (upd_buf i (\<lambda>b. b\<lparr>bdirty := True\<rparr>)))
      (release LogLock))))))"

end
