(* ===== verification/Recovery.thy ===== *)
theory Recovery
  imports Log
begin

text \<open>
  Recovery and commit of the log (\<^verbatim>\<open>log.c\<close>), over the volume the buffer cache implements.

  \<open>recovered\<close> is what recovery makes of a disk, as a pure function. Shown: \<^verbatim>\<open>recover_from_log\<close> computes it and may itself
  be interrupted; \<^verbatim>\<open>commit\<close> is atomic with respect to it at every disk in the history \<open>dhist\<close>; \<^verbatim>\<open>log_write\<close> keeps the log in
  memory and the dirty blocks of the cache together; and, as the base for the file system, a transaction that changes
  one block is atomic from \<^verbatim>\<open>begin_op\<close> to \<^verbatim>\<open>end_op\<close>.
\<close>

section \<open>Words in blocks\<close>

lemma foreach_steps:
  assumes "\<And>i s. i < n \<Longrightarrow> P i s \<Longrightarrow> \<exists>t. f i s = Ret () t \<and> P (Suc i) t" and "P 0 s"
  shows "\<exists>t. foreach [0..<n] f s = Ret () t \<and> P n t"
proof -
  have "\<exists>t. foreach [m..<n] f s = Ret () t \<and> P n t" if "m \<le> n" "P m s" for m s
    using that
  proof (induction "n - m" arbitrary: m s)
    case 0
    then show ?case by (auto simp: retk_def)
  next
    case (Suc k)
    then have m: "m < n" by simp
    obtain u where u: "f m s = Ret () u" "P (Suc m) u" using assms(1) [OF m Suc.prems(2)] by auto
    have "k = n - Suc m" "Suc m \<le> n" using Suc.hyps(2) m by simp_all
    then obtain t where "foreach [Suc m..<n] f u = Ret () t" "P n t" using Suc.hyps(1) u(2) by blast
    then show ?case using u m by (auto simp: upt_conv_Cons thenk_Ret)
  qed
  from this [of 0 s] assms(2) show ?thesis by simp
qed

lemma le32_bytes32 [simp]: "le32 (bytes32 w @ r) = w"
proof -
  have "le32 (bytes32 w @ r) = ucast (ucast w :: 8 word) OR push_bit 8 (ucast (ucast (drop_bit 8 w) :: 8 word)) OR
     push_bit 16 (ucast (ucast (drop_bit 16 w) :: 8 word)) OR push_bit 24 (ucast (ucast (drop_bit 24 w) :: 8 word))"
    by (simp add: le32_def bytes32_def)
  also have "\<dots> = w" (is "?e = w")
  proof (rule bit_word_eqI)
    fix n assume n: "n < LENGTH(32)"
    consider "n < 8" | "8 \<le> n" "n < 16" | "16 \<le> n" "n < 24" | "24 \<le> n" "n < 32" using n by fastforce
    then show "bit ?e n = bit w n"
      by cases (auto simp: bit_simps)
  qed
  finally show ?thesis .
qed

lemma length_bytes32 [simp]: "length (bytes32 w) = 4"
  by (simp add: bytes32_def)

lemma length_put_bytes: "ofs + length bs \<le> length b \<Longrightarrow> length (put_bytes ofs bs b) = length b"
  by (simp add: put_bytes_def)

lemma nth_put_bytes:
  assumes "ofs + length bs \<le> length b" and "n < length b"
  shows "put_bytes ofs bs b ! n = (if ofs \<le> n \<and> n < ofs + length bs then bs ! (n - ofs) else b ! n)"
  using assms by (auto simp: put_bytes_def nth_append min_def)

lemma get_put32:
  assumes "4 * k + 4 \<le> length b" and "4 * j + 4 \<le> length b"
  shows "get32 (put32 k w b) j = (if j = k then w else get32 b j)"
proof (cases "j = k")
  case True
  have "drop (4 * k) (put32 k w b) = bytes32 w @ drop (4 * k + 4) b" using assms by (simp add: put32_def put_bytes_def)
  then show ?thesis using True by (simp add: get32_def)
next
  case False
  have "drop (4 * j) (put32 k w b) ! m = drop (4 * j) b ! m" if "m < 4" for m
  proof -
    have "\<not> (4 * k \<le> 4 * j + m \<and> 4 * j + m < 4 * k + 4)" using that False by presburger
    then show ?thesis using that assms by (auto simp: put32_def nth_put_bytes length_put_bytes)
  qed
  then show ?thesis using False by (simp add: get32_def le32_def)
qed

lemma length_put32 [simp]: "4 * k + 4 \<le> length b \<Longrightarrow> length (put32 k w b) = length b"
  by (simp add: put32_def length_put_bytes)

section \<open>What recovery makes of a disk\<close>

definition slot :: "uint \<Rightarrow> nat \<Rightarrow> uint" where
  "slot L i = L + of_nat i + 1"

definition header_blocks :: "block \<Rightarrow> uint list" where
  "header_blocks d = map (\<lambda>i. get32 d (i + 1)) [0..<nat (sint (get32 d 0))]"

definition install :: "uint \<Rightarrow> uint list \<Rightarrow> block list \<Rightarrow> block list" where
  "install L bs d = fold (\<lambda>(i, b) d. d[unat b := d ! unat (slot L i)]) (enumerate 0 bs) d"

definition recovered :: "uint \<Rightarrow> block list \<Rightarrow> block list" where
  "recovered L d = (install L (header_blocks (d ! unat L)) d)[unat L := put32 0 0 (d ! unat L)]"

lemma install_Nil [simp]: "install L [] d = d"
  by (simp add: install_def)

lemma install_snoc: "install L (bs @ [b]) d = (install L bs d)[unat b := install L bs d ! unat (slot L (length bs))]"
  by (simp add: install_def enumerate_append_eq)

lemma length_install [simp]: "length (install L bs d) = length d"
  by (induction bs rule: rev_induct) (simp_all add: install_snoc)

lemma install_other: "x \<notin> unat ` set bs \<Longrightarrow> install L bs d ! x = d ! x"
  by (induction bs rule: rev_induct) (auto simp: install_snoc)

lemma install_distinct:
  assumes "distinct bs" and "i < length bs" and "unat (bs ! i) < length d" and "\<And>j. j < length bs \<Longrightarrow> unat (slot L j) \<notin> unat ` set bs"
  shows "install L bs d ! unat (bs ! i) = d ! unat (slot L i)"
  using assms
proof (induction bs rule: rev_induct)
  case (snoc b bs)
  show ?case
  proof (cases "i < length bs")
    case True
    then have "bs ! i \<noteq> b" using snoc.prems(1) nth_mem by fastforce
    then have "unat b \<noteq> unat (bs ! i)" by (simp add: word_unat_eq_iff)
    then show ?thesis using snoc True by (simp add: install_snoc nth_append)
  next
    case False
    then have i: "i = length bs" using snoc.prems(2) by simp
    then have "unat (slot L i) \<notin> unat ` set bs" using snoc.prems(4) [of i] by simp
    then show ?thesis using snoc.prems(3) i by (simp add: install_snoc install_other)
  qed
qed simp

text \<open>Installing again, from a disk that has some of the blocks installed, gives the same disk.\<close>

lemma install_agree:
  assumes "length d' = length d" and "\<And>x. x \<notin> T \<Longrightarrow> d' ! x = d ! x"
    and "\<And>j. j < length bs \<Longrightarrow> unat (slot L j) \<notin> T \<union> unat ` set bs"
  shows "x \<notin> T \<or> x \<in> unat ` set bs \<Longrightarrow> x < length d \<Longrightarrow> install L bs d' ! x = install L bs d ! x"
  using assms(3)
proof (induction bs arbitrary: x rule: rev_induct)
  case Nil
  then show ?case using assms(2) by simp
next
  case (snoc b bs)
  have s: "unat (slot L (length bs)) \<notin> T \<union> unat ` set bs" using snoc.prems(3) [of "length bs"] by simp
  then have "install L bs d' ! unat (slot L (length bs)) = install L bs d ! unat (slot L (length bs))"
    using assms(2) by (simp add: install_other)
  moreover have "install L bs d' ! x = install L bs d ! x" if "x \<noteq> unat b"
    using snoc.prems that by (intro snoc.IH) auto
  ultimately show ?case using snoc.prems(2) assms(1)
    by (cases "x = unat b") (simp_all add: install_snoc)
qed

lemma install_again:
  assumes "length d' = length d" and "\<And>x. x \<notin> unat ` set bs \<Longrightarrow> d' ! x = d ! x"
    and "\<And>j. j < length bs \<Longrightarrow> unat (slot L j) \<notin> unat ` set bs"
  shows "install L bs d' = install L bs d"
proof (rule nth_equalityI)
  show "length (install L bs d') = length (install L bs d)" using assms(1) by simp
  fix x assume "x < length (install L bs d')"
  then show "install L bs d' ! x = install L bs d ! x"
    using install_agree [of d' d "unat ` set bs" bs L x] assms by auto
qed

section \<open>The steps of the log on the volume\<close>

lemma log_of_more: "kbio.more t = kbio.more s \<Longrightarrow> log t = log s"
  for s t :: "'z klog_scheme"
  by (cases s, cases t) simp

lemma more_of_more: "kbio.more t = kbio.more s \<Longrightarrow> klog.more t = klog.more s"
  for s t :: "'z klog_scheme"
  by (cases s, cases t) simp

lemma upd_log_simps [simp]:
  "owned c i H (upd_log f s) = owned c i H s" "volume_of (upd_log f s) = volume_of s" "log (upd_log f s) = f (log s)"
  "buf_at (upd_log f s) k = buf_at s k"
proof -
  have b: "buf_at (upd_log f s) = buf_at s" "cached (upd_log f s) = cached s" "disk (upd_log f s) = disk s"
    "dhist (upd_log f s) = dhist s" "lru (upd_log f s) = lru s" "bufs (upd_log f s) = bufs s"
    "sleeplocks (upd_log f s) = sleeplocks s" "quiet c i (upd_log f s) = quiet c i s" "proc_at (upd_log f s) = proc_at s"
    by (simp_all add: upd_log_def fun_eq_iff buf_at_def cached_def quiet_def runs_on_def nobody_waits_def proc_at_def)
  then show "owned c i H (upd_log f s) = owned c i H s" "volume_of (upd_log f s) = volume_of s"
    "buf_at (upd_log f s) k = buf_at s k"
    by (simp_all add: owned_def binv_def lists_ok_def held_ok_def unique_ok_def dirty_ok_def clean_ok_def volume_of_def
      view_def dirty_blocks_def fun_eq_iff split: option.split del: upt_rec_numeral)
  show "log (upd_log f s) = f (log s)" by (simp add: upd_log_def)
qed

definition header_of :: "logrec \<Rightarrow> block \<Rightarrow> block" where
  "header_of l d = fold (\<lambda>i d. put32 (i + 1) (lh_block l ! i) d) [0..<lh_n l] (put32 0 (of_nat (lh_n l)) d)"

lemma foreach_modk: "foreach xs (\<lambda>i. modk (g i)) = modk (fold g xs)"
  by (induction xs) (simp_all add: fun_eq_iff retk_def modk_def thenk_def bindk_def)

lemma fold_upd_buf:
  "fold (\<lambda>i. upd_buf k (\<lambda>b. b\<lparr>bdata := h i (bdata b)\<rparr>)) xs (upd_buf k (\<lambda>b. b\<lparr>bdata := g (bdata b)\<rparr>) s)
    = upd_buf k (\<lambda>b. b\<lparr>bdata := fold h xs (g (bdata b))\<rparr>) s"
  by (induction xs arbitrary: g) (simp_all add: upd_buf_upd_buf)

lemma write_head_volume:
  assumes ow: "owned c i {} s" and l: "ldev (log s) = 1" "unat (lstart (log s)) < length (disk s)"
    and room: "card (dirty_blocks s) < NBUF"
  shows "\<exists>t. write_head s = Ret () t \<and> owned c i {} t \<and> log t = log s \<and>
    volume_of t = vwrite (lstart (log s)) (vput (lstart (log s)) (header_of (log s) (view s (lstart (log s)))) (volume_of s))"
proof -
  have h: "thenk (modk (upd_buf k (\<lambda>b. b\<lparr>bdata := put32 0 (of_nat (lh_n l)) (bdata b)\<rparr>)))
      (thenk (foreach [0..<lh_n l] (\<lambda>i. modk (upd_buf k (\<lambda>b. b\<lparr>bdata := put32 (i + 1) (lh_block l ! i) (bdata b)\<rparr>)))) m)
    = thenk (modk (upd_buf k (\<lambda>x. x\<lparr>bdata := header_of l (bdata x)\<rparr>))) m" for k l and m :: "('a klog_scheme, unit) kop"
    unfolding fun_eq_iff thenk_modk foreach_modk header_of_def
    by (rule allI) (rule arg_cong [where f = m], rule fold_upd_buf)
  have "write_head s = bindk (bread 1 (lstart (log s))) (\<lambda>k.
      thenk (modk (upd_buf k (\<lambda>x. x\<lparr>bdata := header_of (log s) (bdata x)\<rparr>))) (thenk (bwrite k) (brelse k))) s"
    unfolding write_head_def bindk_getk h using l by simp
  then show ?thesis
    using bcache.update_block [OF ow, of "lstart (log s)" "header_of (log s)"] l(2) room log_of_more
    by (fastforce simp: volume_of_def)
qed

lemma copy_source_first:
  assumes ow: "owned c i {} s" and ab: "a \<noteq> b" "unat a < length (disk s)" "unat b < length (disk s)"
    and room: "card (dirty_blocks s) < NBUF" "b \<in> dirty_blocks s \<or> Suc (card (dirty_blocks s)) < NBUF"
  shows "\<exists>t. bindk (bread 1 a) (\<lambda>k. bindk (bread 1 b) (\<lambda>j.
      thenk (modk (\<lambda>s. upd_buf j (\<lambda>x. x\<lparr>bdata := bdata (buf_at s k)\<rparr>) s))
        (thenk (bwrite j) (thenk (brelse k) (brelse j))))) s = Ret () t \<and>
    owned c i {} t \<and> kbio.more t = kbio.more s \<and> volume_of t = vcopy a b (volume_of s)"
proof -
  let ?f = "\<lambda>k j. thenk (modk (\<lambda>s. upd_buf j (\<lambda>x. x\<lparr>bdata := bdata (buf_at s k)\<rparr>) s))
        (thenk (bwrite j) (thenk (brelse k) (brelse j)))"
  have v: "vdisk (volume_of s) = disk s" "vdirty (volume_of s) = dirty_blocks s" by (simp_all add: volume_of_def)
  have "\<exists>k j t. bindk (bread 1 a) (\<lambda>k. bindk (bread 1 b) (?f k)) s = ?f k j t \<and> owned c i {k, j} t \<and> k \<noteq> j \<and>
      blk t k = a \<and> blk t j = b \<and> volume_of t = volume_of s \<and> kbio.more t = kbio.more s"
    by (rule bcache.read_two [OF ow ab(1), where f = ?f]) (use ab room v in simp_all)
  then obtain k j t where r: "bindk (bread 1 a) (\<lambda>k. bindk (bread 1 b) (?f k)) s = ?f k j t"
    and t: "owned c i {k, j} t" "k \<noteq> j" "blk t k = a" "blk t j = b" "volume_of t = volume_of s" "kbio.more t = kbio.more s"
    by (elim exE conjE)
  have "a \<in> vdirty (volume_of t) \<or> vdata (volume_of t) a = vdisk (volume_of t) ! unat a"
    using bcache.synced [OF ow, of a] t(5) by simp
  then show ?thesis using r t bcache.copy_held [OF t(1,2,3,4)] ab v by simp
qed

lemma copy_target_first:
  assumes ow: "owned c i {} s" and ab: "a \<noteq> b" "unat a < length (disk s)" "unat b < length (disk s)"
    and room: "card (dirty_blocks s) < NBUF" "a \<in> dirty_blocks s \<or> Suc (card (dirty_blocks s)) < NBUF"
  shows "\<exists>t. bindk (bread 1 b) (\<lambda>j. bindk (bread 1 a) (\<lambda>k.
      thenk (modk (\<lambda>s. upd_buf j (\<lambda>x. x\<lparr>bdata := bdata (buf_at s k)\<rparr>) s))
        (thenk (bwrite j) (thenk (brelse k) (brelse j))))) s = Ret () t \<and>
    owned c i {} t \<and> kbio.more t = kbio.more s \<and> volume_of t = vcopy a b (volume_of s)"
proof -
  let ?f = "\<lambda>j k. thenk (modk (\<lambda>s. upd_buf j (\<lambda>x. x\<lparr>bdata := bdata (buf_at s k)\<rparr>) s))
        (thenk (bwrite j) (thenk (brelse k) (brelse j)))"
  have v: "vdisk (volume_of s) = disk s" "vdirty (volume_of s) = dirty_blocks s" by (simp_all add: volume_of_def)
  have "\<exists>j k t. bindk (bread 1 b) (\<lambda>j. bindk (bread 1 a) (?f j)) s = ?f j k t \<and> owned c i {j, k} t \<and> j \<noteq> k \<and>
      blk t j = b \<and> blk t k = a \<and> volume_of t = volume_of s \<and> kbio.more t = kbio.more s"
    by (rule bcache.read_two [OF ow ab(1) [symmetric], where f = ?f]) (use ab room v in simp_all)
  then obtain j k t where r: "bindk (bread 1 b) (\<lambda>j. bindk (bread 1 a) (?f j)) s = ?f j k t"
    and t': "owned c i {j, k} t" "j \<noteq> k" "blk t j = b" "blk t k = a" "volume_of t = volume_of s" "kbio.more t = kbio.more s"
    by (elim exE conjE)
  then have t: "owned c i {k, j} t" "k \<noteq> j" "blk t k = a" "blk t j = b" "volume_of t = volume_of s" "kbio.more t = kbio.more s"
    by (simp_all add: insert_commute)
  have "a \<in> vdirty (volume_of t) \<or> vdata (volume_of t) a = vdisk (volume_of t) ! unat a"
    using bcache.synced [OF ow, of a] t(5) by simp
  then show ?thesis using r t bcache.copy_held [OF t(1,2,3,4)] ab v by simp
qed

lemma install_one_volume:
  assumes ow: "owned c i {} s" and l: "ldev (log s) = 1"
    and ab: "slot (lstart (log s)) n \<noteq> lh_block (log s) ! n" "unat (slot (lstart (log s)) n) < length (disk s)"
      "unat (lh_block (log s) ! n) < length (disk s)"
    and room: "card (dirty_blocks s) < NBUF" "lh_block (log s) ! n \<in> dirty_blocks s \<or> Suc (card (dirty_blocks s)) < NBUF"
  shows "\<exists>t. install_one n s = Ret () t \<and> owned c i {} t \<and> log t = log s \<and>
    volume_of t = vcopy (slot (lstart (log s)) n) (lh_block (log s) ! n) (volume_of s)"
  using copy_source_first [OF ow ab room] l log_of_more
  by (fastforce simp: install_one_def bindk_getk slot_def)

lemma write_log_one_volume:
  assumes ow: "owned c i {} s" and l: "ldev (log s) = 1"
    and ab: "lh_block (log s) ! n \<noteq> slot (lstart (log s)) n" "unat (lh_block (log s) ! n) < length (disk s)"
      "unat (slot (lstart (log s)) n) < length (disk s)"
    and room: "card (dirty_blocks s) < NBUF" "lh_block (log s) ! n \<in> dirty_blocks s \<or> Suc (card (dirty_blocks s)) < NBUF"
  shows "\<exists>t. write_log_one n s = Ret () t \<and> owned c i {} t \<and> log t = log s \<and>
    volume_of t = vcopy (lh_block (log s) ! n) (slot (lstart (log s)) n) (volume_of s)"
  using copy_target_first [OF ow ab room] l log_of_more
  by (fastforce simp: write_log_one_def bindk_getk slot_def)

section \<open>The header\<close>

lemma sint_small: "n < 2 ^ 31 \<Longrightarrow> sint (of_nat n :: uint) = int n"
  by (simp add: signed_of_nat signed_take_bit_int_eq_self)

lemma header_prefix:
  assumes "4 * (m + 1) \<le> length d"
  shows "length (fold (\<lambda>i d. put32 (i + 1) (xs ! i) d) [0..<m] (put32 0 w d)) = length d \<and>
    (\<forall>j. 4 * j + 4 \<le> length d \<longrightarrow> get32 (fold (\<lambda>i d. put32 (i + 1) (xs ! i) d) [0..<m] (put32 0 w d)) j
      = (if j = 0 then w else if j \<le> m then xs ! (j - 1) else get32 d j))"
  using assms
proof (induction m)
  case 0
  then show ?case by (simp add: get_put32)
next
  case (Suc m)
  let ?e = "fold (\<lambda>i d. put32 (i + 1) (xs ! i) d) [0..<m] (put32 0 w d)"
  have IH: "length ?e = length d" "\<And>j. 4 * j + 4 \<le> length d \<Longrightarrow>
      get32 ?e j = (if j = 0 then w else if j \<le> m then xs ! (j - 1) else get32 d j)"
    using Suc by simp_all
  have "get32 (put32 (m + 1) (xs ! m) ?e) j = (if j = 0 then w else if j \<le> Suc m then xs ! (j - 1) else get32 d j)"
    if "4 * j + 4 \<le> length d" for j
    using that Suc.prems IH get_put32 [of "m + 1" ?e j "xs ! m"] by auto
  then show ?case using IH(1) Suc.prems by simp
qed

lemma length_header_of: "4 * (lh_n l + 1) \<le> length d \<Longrightarrow> length (header_of l d) = length d"
  using header_prefix [of "lh_n l" d "lh_block l"] by (simp add: header_of_def)

lemma header_blocks_header_of:
  assumes "lh_n l \<le> LOGSIZE" and "length (lh_block l) = LOGSIZE" and "length d = BSIZE"
  shows "header_blocks (header_of l d) = take (lh_n l) (lh_block l)"
proof -
  have g: "get32 (header_of l d) j = (if j = 0 then of_nat (lh_n l) else if j \<le> lh_n l then lh_block l ! (j - 1) else get32 d j)"
    if "j \<le> lh_n l" for j
    using header_prefix [of "lh_n l" d "lh_block l"] assms that by (simp add: header_of_def)
  have "nat (sint (get32 (header_of l d) 0)) = lh_n l" using g [of 0] sint_small [of "lh_n l"] assms(1) by simp
  then show ?thesis using assms g
    by (intro nth_equalityI) (simp_all add: header_blocks_def)
qed

lemma header_cleared:
  assumes "length d = BSIZE"
  shows "header_blocks (put32 0 0 d) = []"
  using get_put32 [of 0 d 0 0] assms by (simp add: header_blocks_def)

lemma read_head_eq:
  assumes ow: "owned c i {} s" and l: "ldev (log s) = 1" "unat (lstart (log s)) < length (disk s)"
    and room: "card (dirty_blocks s) < NBUF" and n: "length (header_blocks (view s (lstart (log s)))) \<le> LOGSIZE"
    and "length (lh_block (log s)) = LOGSIZE"
  shows "\<exists>t. read_head s = Ret () t \<and> owned c i {} t \<and> volume_of t = volume_of s \<and>
    (\<exists>xs. log t = (log s)\<lparr>lh_n := length (header_blocks (view s (lstart (log s)))), lh_block := xs\<rparr> \<and> length xs = LOGSIZE \<and>
      take (length (header_blocks (view s (lstart (log s))))) xs = header_blocks (view s (lstart (log s))))"
proof -
  let ?L = "lstart (log s)" and ?d = "view s (lstart (log s))"
  let ?n = "nat (sint (get32 ?d 0))"
  have v: "vdisk (volume_of s) = disk s" "vdirty (volume_of s) = dirty_blocks s" "vdata (volume_of s) = view s"
    by (simp_all add: volume_of_def)
  obtain k t where r: "bread 1 ?L s = Ret k t" and t: "owned c i {k} t" "volume_of t = volume_of s" "kbio.more t = kbio.more s"
      "bdata (buf_at t k) = ?d" "blk t k = ?L"
    using bcache.look_block [OF ow, of ?L] l(2) room unfolding v by blast
  let ?f = "\<lambda>j (l::logrec). l\<lparr>lh_block := (lh_block l)[j := get32 ?d (Suc j)]\<rparr>"
  have ff: "fold (\<lambda>j. upd_log (?f j)) xs u = upd_log (\<lambda>l. l\<lparr>lh_block := fold (\<lambda>j ys. ys[j := get32 ?d (Suc j)]) xs (lh_block l)\<rparr>) u"
    for xs and u :: "'a klog_scheme"
    by (induction xs arbitrary: u) (simp_all add: upd_log_def)
  define g where "g = (\<lambda>l::logrec. l\<lparr>lh_n := ?n, lh_block := fold (\<lambda>j ys. ys[j := get32 ?d (Suc j)]) [0..<?n] (lh_block l)\<rparr>)"
  have lenn: "?n \<le> LOGSIZE" "length (header_blocks ?d) = ?n" using n by (simp_all add: header_blocks_def)
  then have "sint (get32 ?d 0) \<le> int LOGSIZE" by simp
  then have e: "read_head s = brelse k (upd_log g t)"
    using r t l by (simp add: read_head_def bindk_getk bindk_Ret thenk_modk foreach_modk ff not_less Let_def)
      (simp add: upd_log_def g_def)
  obtain u where u: "brelse k (upd_log g t) = Ret () u" "owned c i {} u" "volume_of u = volume_of s" "kbio.more u = kbio.more (upd_log g t)"
    using bcache.unlook_block [OF ow, of k "upd_log g t" ?L] t by auto
  have lg: "log u = g (log s)" using log_of_more [OF u(4)] log_of_more [OF t(3)] by simp
  have fx: "length (fold (\<lambda>j ys. ys[j := get32 ?d (Suc j)]) [0..<m] ys) = length ys \<and>
     (m \<le> length ys \<longrightarrow> take m (fold (\<lambda>j ys. ys[j := get32 ?d (Suc j)]) [0..<m] ys) = map (\<lambda>j. get32 ?d (Suc j)) [0..<m])" for m ys
    by (induction m) (auto simp: take_Suc_conv_app_nth take_update_beyond)
  show ?thesis
    using e u lg fx [where m = ?n and ys = "lh_block (log s)"] lenn assms(6)
    by (intro exI [of _ u]) (auto simp: g_def header_blocks_def)
qed

section \<open>Copying between the log and the data blocks\<close>

definition in_log :: "logrec \<Rightarrow> nat \<Rightarrow> bool" where
  "in_log l x \<longleftrightarrow> unat (lstart l) \<le> x \<and> x < unat (lstart l) + unat (lsize l)"

text \<open>The log lies on the disk, the blocks it is to hold lie outside of it, and the cache can keep them all.\<close>

definition log_fits :: "logrec \<Rightarrow> nat \<Rightarrow> uint list \<Rightarrow> bool" where
  "log_fits l nd bs \<longleftrightarrow> ldev l = 1 \<and> unat (lstart l) + unat (lsize l) \<le> nd \<and> nd \<le> 2 ^ 32 \<and> length (lh_block l) = LOGSIZE \<and>
     length bs < unat (lsize l) \<and> length bs < NBUF \<and> (\<forall>b\<in>set bs. unat b < nd \<and> \<not> in_log l (unat b))"

definition data_is :: "logrec \<Rightarrow> block list \<Rightarrow> (uint \<Rightarrow> block) \<Rightarrow> bool" where
  "data_is l d w \<longleftrightarrow> (\<forall>b. unat b < length d \<longrightarrow> \<not> in_log l (unat b) \<longrightarrow> d ! unat b = w b)"

lemma data_isD: "data_is l d w \<Longrightarrow> unat b < length d \<Longrightarrow> \<not> in_log l (unat b) \<Longrightarrow> d ! unat b = w b"
  by (simp add: data_is_def)

lemma log_fitsD:
  assumes "log_fits l nd bs"
  shows "ldev l = 1" "unat (lstart l) < nd" "length (lh_block l) = LOGSIZE" "length bs < NBUF" "in_log l (unat (lstart l))"
    "i < length bs \<Longrightarrow> unat (bs ! i) < nd" "b \<in> set bs \<Longrightarrow> \<not> in_log l (unat b)"
  using assms by (auto simp: log_fits_def in_log_def)

lemma slot_facts:
  assumes "log_fits l nd bs" and "i < length bs"
  shows "unat (slot (lstart l) i) = unat (lstart l) + i + 1" "unat (slot (lstart l) i) < nd" "in_log l (unat (slot (lstart l) i))"
    "unat (slot (lstart l) i) \<noteq> unat (lstart l)"
proof -
  have "slot (lstart l) i = of_nat (unat (lstart l) + i + 1)" by (simp add: slot_def)
  moreover have "unat (lstart l) + i + 1 < 2 ^ 32" using assms by (simp add: log_fits_def)
  ultimately show *: "unat (slot (lstart l) i) = unat (lstart l) + i + 1" by (simp only: unat_of_nat) simp
  show "unat (slot (lstart l) i) < nd" "in_log l (unat (slot (lstart l) i))" "unat (slot (lstart l) i) \<noteq> unat (lstart l)"
    unfolding * using assms by (simp_all add: log_fits_def in_log_def)
qed

lemma slot_target:
  assumes "log_fits l nd bs" and "i < length bs" and "b \<in> set bs"
  shows "unat (slot (lstart l) i) \<noteq> unat b" "slot (lstart l) i \<noteq> b"
  using slot_facts(3) [OF assms(1,2)] log_fitsD(7) [OF assms(1,3)] by auto

lemma slot_not_target: "log_fits l nd bs \<Longrightarrow> i < length bs \<Longrightarrow> unat (slot (lstart l) i) \<notin> unat ` set bs"
  using slot_target(1) by blast

lemma log_fits_cong: "log_fits l nd bs \<Longrightarrow> length xs = LOGSIZE \<Longrightarrow> log_fits (l\<lparr>lh_n := n, lh_block := xs\<rparr>) nd bs"
  by (simp add: log_fits_def in_log_def)

lemma log_disk_facts:
  "vdisk (volume_of s) = disk s" "vdirty (volume_of s) = dirty_blocks s" "vdata (volume_of s) = view s" "vhist (volume_of s) = dhist s"
  by (simp_all add: volume_of_def)

lemma volume_eqD:
  assumes "volume_of t = v"
  shows "disk t = vdisk v" "dirty_blocks t = vdirty v" "view t = vdata v" "dhist t = vhist v"
  using assms by (auto simp: volume_of_def)

lemma clean_view: "owned c i {} s \<Longrightarrow> b \<notin> dirty_blocks s \<Longrightarrow> view s b = disk s ! unat b"
  using bcache.synced [of c i "{}" s b] by (simp add: volume_of_def)

text \<open>\<^verbatim>\<open>install_trans\<close> writes the disk exactly as \<open>install\<close> says, one block at a time.\<close>

lemma install_loop:
  fixes s :: "'z klog_scheme"
  assumes ow: "owned c i {} s" and fit: "log_fits (log s) (length (disk s)) bs"
    and bs: "bs = take (lh_n (log s)) (lh_block (log s))" "lh_n (log s) \<le> LOGSIZE"
    and dirt: "dirty_blocks s = {} \<or> dirty_blocks s = set bs \<and> distinct bs"
  shows "\<exists>t hs. install_trans s = Ret () t \<and> owned c i {} t \<and> log t = log s \<and> disk t = install (lstart (log s)) bs (disk s) \<and>
    dirty_blocks t = {} \<and> dhist t = hs @ dhist s \<and> (\<forall>d\<in>set hs. \<exists>m\<le>length bs. d = install (lstart (log s)) (take m bs) (disk s))"
proof -
  let ?l = "log s" and ?L = "lstart (log s)"
  define P where "P = (\<lambda>n (t :: 'z klog_scheme). owned c i {} t \<and> log t = ?l \<and> disk t = install ?L (take n bs) (disk s) \<and>
    dirty_blocks t = dirty_blocks s - set (take n bs) \<and>
    (\<exists>hs. dhist t = hs @ dhist s \<and> (\<forall>d\<in>set hs. \<exists>m\<le>length bs. d = install ?L (take m bs) (disk s))))"
  have len: "length bs = lh_n ?l" using bs log_fitsD(3) [OF fit] by simp
  have step: "\<exists>u. install_one n t = Ret () u \<and> P (Suc n) u" if n: "n < lh_n ?l" and P: "P n t" for n t
  proof -
    have nb: "n < length bs" "lh_block ?l ! n = bs ! n" using n len bs by simp_all
    have mem: "bs ! n \<in> set bs" using nb by simp
    have t: "owned c i {} t" "log t = ?l" "disk t = install ?L (take n bs) (disk s)"
      "dirty_blocks t = dirty_blocks s - set (take n bs)" using P by (simp_all add: P_def)
    have sl: "slot ?L n \<noteq> bs ! n" "unat (slot ?L n) < length (disk t)" "unat (bs ! n) < length (disk t)"
      using slot_target(2) [OF fit nb(1) mem] slot_facts(2) [OF fit nb(1)] log_fitsD(6) [OF fit nb(1)] t(3) by simp_all
    have ca: "card (set bs - set (take n bs)) < NBUF"
      using card_mono [of "set bs" "set bs - set (take n bs)"] card_length [of bs] log_fitsD(4) [OF fit] by fastforce
    have "bs ! n \<in> set bs - set (take n bs)" if "distinct bs"
      using that nb mem by (auto simp: in_set_conv_nth nth_eq_iff_index_eq)
    then have room: "card (dirty_blocks t) < NBUF" "bs ! n \<in> dirty_blocks t \<or> Suc (card (dirty_blocks t)) < NBUF"
      using dirt t(4) ca by auto
    have "slot ?L n \<notin> dirty_blocks t" using dirt t(4) slot_target(2) [OF fit nb(1)] by auto
    then have vs: "view t (slot ?L n) = disk t ! unat (slot ?L n)" by (rule clean_view [OF t(1)])
    obtain u where u: "install_one n t = Ret () u" "owned c i {} u" "log u = ?l"
        "volume_of u = vcopy (slot ?L n) (bs ! n) (volume_of t)"
      using install_one_volume [OF t(1), of n] t(2) log_fitsD(1) [OF fit] sl room nb by auto
    have tk: "take (Suc n) bs = take n bs @ [bs ! n]" using nb by (simp add: take_Suc_conv_app_nth)
    have "disk u = install ?L (take (Suc n) bs) (disk s)"
      using volume_eqD(1) [OF u(4)] vs t(3) nb by (simp add: vcopy_def vwrite_def vput_def log_disk_facts tk install_snoc)
    moreover have "dirty_blocks u = dirty_blocks s - set (take (Suc n) bs)"
      using volume_eqD(2) [OF u(4)] t(4) tk by (auto simp: vcopy_def vwrite_def vput_def log_disk_facts)
    moreover have "dhist u = disk t # dhist t"
      using volume_eqD(4) [OF u(4)] by (simp add: vcopy_def vwrite_def vput_def log_disk_facts)
    moreover obtain hs where "dhist t = hs @ dhist s" "\<forall>d\<in>set hs. \<exists>m\<le>length bs. d = install ?L (take m bs) (disk s)"
      using P by (auto simp: P_def)
    ultimately have "P (Suc n) u"
      using u t(3) nb(1) by (auto simp: P_def intro!: exI [of _ "disk t # hs"] exI [of _ n])
    then show ?thesis using u(1) by blast
  qed
  have "P 0 s" using ow by (simp add: P_def)
  with step have "\<exists>t. foreach [0..<lh_n ?l] install_one s = Ret () t \<and> P (lh_n ?l) t" by (rule foreach_steps)
  then obtain t where t: "foreach [0..<lh_n ?l] install_one s = Ret () t" "P (lh_n ?l) t" by blast
  then have "install_trans s = Ret () t" by (simp add: install_trans_def bindk_getk)
  moreover have "take (lh_n ?l) bs = bs" using len by simp
  ultimately show ?thesis using t(2) dirt by (auto simp: P_def)
qed

text \<open>Until the header is written, the disk changes in the slots of the log only.\<close>

definition slots_only :: "logrec \<Rightarrow> nat \<Rightarrow> block list \<Rightarrow> block list \<Rightarrow> bool" where
  "slots_only l n d d' \<longleftrightarrow> length d' = length d \<and> (\<forall>x. (\<forall>j<n. x \<noteq> unat (slot (lstart l) j)) \<longrightarrow> d' ! x = d ! x)"

lemma slots_only_update:
  "slots_only l n d d' \<Longrightarrow> j < n \<Longrightarrow> slots_only l n d (d'[unat (slot (lstart l) j) := b])"
  unfolding slots_only_def by (metis length_list_update nth_list_update_neq)

lemma write_log_loop:
  fixes s :: "'z klog_scheme"
  assumes ow: "owned c i {} s" and fit: "log_fits (log s) (length (disk s)) bs"
    and bs: "bs = take (lh_n (log s)) (lh_block (log s))" "lh_n (log s) \<le> LOGSIZE"
    and dirt: "dirty_blocks s = set bs"
  shows "\<exists>t hs. write_log s = Ret () t \<and> owned c i {} t \<and> log t = log s \<and> dirty_blocks t = set bs \<and>
    slots_only (log s) (length bs) (disk s) (disk t) \<and> (\<forall>j<length bs. disk t ! unat (slot (lstart (log s)) j) = view s (bs ! j)) \<and>
    dhist t = hs @ dhist s \<and> (\<forall>d\<in>set hs. slots_only (log s) (length bs) (disk s) d)"
proof -
  let ?l = "log s" and ?L = "lstart (log s)"
  define P where "P = (\<lambda>n (t :: 'z klog_scheme). owned c i {} t \<and> log t = ?l \<and> dirty_blocks t = set bs \<and>
    (\<forall>b\<in>set bs. view t b = view s b) \<and> slots_only ?l (length bs) (disk s) (disk t) \<and>
    (\<forall>j<n. disk t ! unat (slot ?L j) = view s (bs ! j)) \<and>
    (\<exists>hs. dhist t = hs @ dhist s \<and> (\<forall>d\<in>set hs. slots_only ?l (length bs) (disk s) d)))"
  have len: "length bs = lh_n ?l" using bs log_fitsD(3) [OF fit] by simp
  have step: "\<exists>u. write_log_one n t = Ret () u \<and> P (Suc n) u" if n: "n < lh_n ?l" and P: "P n t" for n t
  proof -
    have nb: "n < length bs" "lh_block ?l ! n = bs ! n" using n len bs by simp_all
    have mem: "bs ! n \<in> set bs" using nb by simp
    have t: "owned c i {} t" "log t = ?l" "dirty_blocks t = set bs" "view t (bs ! n) = view s (bs ! n)"
      "slots_only ?l (length bs) (disk s) (disk t)" "\<forall>j<n. disk t ! unat (slot ?L j) = view s (bs ! j)"
      "\<forall>b\<in>set bs. view t b = view s b" using P mem by (simp_all add: P_def)
    have lt: "length (disk t) = length (disk s)" using t(5) by (simp add: slots_only_def)
    have sl: "bs ! n \<noteq> slot ?L n" "unat (bs ! n) < length (disk t)" "unat (slot ?L n) < length (disk t)"
      using slot_target(2) [OF fit nb(1) mem] slot_facts(2) [OF fit nb(1)] log_fitsD(6) [OF fit nb(1)] lt by auto
    have room: "card (dirty_blocks t) < NBUF" using card_length [of bs] log_fitsD(4) [OF fit] t(3) by simp
    obtain u where u: "write_log_one n t = Ret () u" "owned c i {} u" "log u = ?l"
        "volume_of u = vcopy (bs ! n) (slot ?L n) (volume_of t)"
      using write_log_one_volume [OF t(1), of n] t(2,3) log_fitsD(1) [OF fit] sl room nb mem by auto
    note e = volume_eqD [OF u(4), unfolded vcopy_def vwrite_def vput_def log_disk_facts]
    have du: "disk u = (disk t)[unat (slot ?L n) := view s (bs ! n)]" using e(1) t(4) by (simp add: log_disk_facts)
    have "\<forall>b\<in>set bs. view u b = view s b"
      using e(3) t(7) slot_target(2) [OF fit nb(1)] by (auto simp: log_disk_facts)
    moreover have "dirty_blocks u = set bs" using e(2) t(3) slot_target(2) [OF fit nb(1)] by (auto simp: log_disk_facts)
    moreover have "slots_only ?l (length bs) (disk s) (disk u)" unfolding du by (rule slots_only_update [OF t(5) nb(1)])
    moreover have "\<forall>j<Suc n. disk u ! unat (slot ?L j) = view s (bs ! j)"
      using t(6) sl(3) slot_facts(1) [OF fit] nb(1) unfolding du by (auto simp: less_Suc_eq nth_list_update)
    moreover have "dhist u = disk t # dhist t" using e(4) by (simp add: log_disk_facts)
    moreover obtain hs where "dhist t = hs @ dhist s" "\<forall>d\<in>set hs. slots_only ?l (length bs) (disk s) d"
      using P by (auto simp: P_def)
    ultimately have "P (Suc n) u" using u t(5) by (auto simp: P_def intro!: exI [of _ "disk t # hs"])
    then show ?thesis using u(1) by blast
  qed
  have "P 0 s" using ow dirt by (simp add: P_def slots_only_def)
  with step have "\<exists>t. foreach [0..<lh_n ?l] write_log_one s = Ret () t \<and> P (lh_n ?l) t" by (rule foreach_steps)
  then obtain t where t: "foreach [0..<lh_n ?l] write_log_one s = Ret () t" "P (lh_n ?l) t" by blast
  then have "write_log s = Ret () t" by (simp add: write_log_def bindk_getk)
  then show ?thesis using t(2) len by (auto simp: P_def)
qed

text \<open>Writing the header, in terms of the disk.\<close>

lemma write_head_disk:
  assumes ow: "owned c i {} s" and fit: "log_fits (log s) (length (disk s)) bs"
    and dirt: "card (dirty_blocks s) < NBUF" "lstart (log s) \<notin> dirty_blocks s"
  shows "\<exists>t. write_head s = Ret () t \<and> owned c i {} t \<and> log t = log s \<and> dirty_blocks t = dirty_blocks s \<and>
    disk t = (disk s)[unat (lstart (log s)) := header_of (log s) (disk s ! unat (lstart (log s)))] \<and> dhist t = disk s # dhist s"
proof -
  let ?L = "lstart (log s)"
  obtain t where t: "write_head s = Ret () t" "owned c i {} t" "log t = log s"
    "volume_of t = vwrite ?L (vput ?L (header_of (log s) (view s ?L)) (volume_of s))"
    using write_head_volume [OF ow] log_fitsD(1,2) [OF fit] dirt by auto
  note e = volume_eqD [OF t(4), unfolded vwrite_def vput_def log_disk_facts]
  have "view s ?L = disk s ! unat ?L" by (rule clean_view [OF ow dirt(2)])
  then show ?thesis using t e dirt(2) by (intro exI [of _ t]) (simp add: log_disk_facts)
qed

section \<open>Recovery and commit\<close>

lemma recovered_installed:
  assumes fit: "log_fits l (length d) bs" and hd: "header_blocks (d ! unat (lstart l)) = bs"
  shows "recovered (lstart l) (install (lstart l) (take m bs) d) = recovered (lstart l) d"
proof -
  let ?L = "lstart l"
  have "unat ?L \<notin> unat ` set bs" using log_fitsD(5,7) [OF fit] by auto
  then have L: "install ?L (take m bs) d ! unat ?L = d ! unat ?L"
    by (intro install_other) (use set_take_subset [of m bs] in blast)
  moreover have "install ?L bs (install ?L (take m bs) d) = install ?L bs d"
  proof (rule install_again)
    show "length (install ?L (take m bs) d) = length d" by simp
    show "install ?L (take m bs) d ! x = d ! x" if "x \<notin> unat ` set bs" for x
      using that set_take_subset [of m bs] by (intro install_other) blast
    show "unat (slot ?L j) \<notin> unat ` set bs" if "j < length bs" for j by (rule slot_not_target [OF fit that])
  qed
  ultimately show ?thesis using hd by (simp add: recovered_def)
qed

lemma recovered_clean:
  assumes "header_blocks (d ! unat L) = []"
  shows "recovered L d = d[unat L := put32 0 0 (d ! unat L)]"
  using assms by (simp add: recovered_def)

lemma put32_again: "4 \<le> length d \<Longrightarrow> put32 0 w (put32 0 v d) = put32 0 w d"
  by (simp add: put32_def put_bytes_def)

lemma recovered_recovered:
  assumes "length (d ! unat L) = BSIZE" and "unat L < length d"
  shows "recovered L (recovered L d) = recovered L d" "header_blocks (recovered L d ! unat L) = []"
proof -
  have h: "recovered L d ! unat L = put32 0 0 (d ! unat L)" using assms(2) by (simp add: recovered_def)
  show "header_blocks (recovered L d ! unat L) = []" unfolding h by (rule header_cleared [OF assms(1)])
  from recovered_clean [OF this] show "recovered L (recovered L d) = recovered L d"
    using assms by (simp add: h put32_again) (simp add: recovered_def)
qed

section \<open>A state for witnesses\<close>

definition demo_log :: "block list \<Rightarrow> buf \<Rightarrow> logrec \<Rightarrow> klog" where
  "demo_log d b l = kbio.extend (demo_bio d b) \<lparr>log = l\<rparr>"

definition demo_logrec :: "uint list \<Rightarrow> int \<Rightarrow> logrec" where
  "demo_logrec bs n = \<lparr>lstart = 2, lsize = 30, outstanding = n, committing = False, ldev = 1, lh_n = length bs,
     lh_block = bs @ replicate (LOGSIZE - length bs) 0\<rparr>"

lemma demo_logrec_simps [simp]:
  "lstart (demo_logrec bs n) = 2" "lsize (demo_logrec bs n) = 30" "outstanding (demo_logrec bs n) = n"
  "\<not> committing (demo_logrec bs n)" "lh_n (demo_logrec bs n) = length bs"
  "lh_block (demo_logrec bs n) = bs @ replicate (LOGSIZE - length bs) 0"
  by (simp_all add: demo_logrec_def)

lemma truncate_owned: "owned c i H (kbio.truncate s) = owned c i H s" "volume_of (kbio.truncate s) = volume_of s"
proof -
  have b: "buf_at (kbio.truncate s) = buf_at s" "cached (kbio.truncate s) = cached s" "disk (kbio.truncate s) = disk s"
    "dhist (kbio.truncate s) = dhist s" "lru (kbio.truncate s) = lru s" "bufs (kbio.truncate s) = bufs s"
    "sleeplocks (kbio.truncate s) = sleeplocks s" "quiet c i (kbio.truncate s) = quiet c i s" "proc_at (kbio.truncate s) = proc_at s"
    by (simp_all add: kbio.defs fun_eq_iff buf_at_def cached_def quiet_def runs_on_def nobody_waits_def proc_at_def)
  then show "owned c i H (kbio.truncate s) = owned c i H s" "volume_of (kbio.truncate s) = volume_of s"
    by (simp_all add: owned_def binv_def lists_ok_def held_ok_def unique_ok_def dirty_ok_def clean_ok_def volume_of_def
      view_def dirty_blocks_def fun_eq_iff split: option.split del: upt_rec_numeral)
qed

text \<open>The cache does not look at the layers above it.\<close>

lemma owned_layer:
  assumes "kbio.truncate t = kbio.truncate s"
  shows "owned c i H t = owned c i H s" "volume_of t = volume_of s"
  using truncate_owned(1) [of c i H t] truncate_owned(1) [of c i H s] truncate_owned(2) [of t] truncate_owned(2) [of s] assms
  by simp_all

lemma demo_log_simps [simp]:
  "owned c i H (demo_log d b l) = owned c i H (demo_bio d b)" "volume_of (demo_log d b l) = volume_of (demo_bio d b)"
  "log (demo_log d b l) = l" "disk (demo_log d b l) = d" "dirty_blocks (demo_log d b l) = dirty_blocks (demo_bio d b)"
  "view (demo_log d b l) = view (demo_bio d b)"
proof -
  have "kbio.truncate (demo_log d b l) = kbio.truncate (demo_bio d b)" by (simp add: demo_log_def kbio.defs)
  note ol = owned_layer [OF this]
  show v: "volume_of (demo_log d b l) = volume_of (demo_bio d b)" by (rule ol)
  show "owned c i H (demo_log d b l) = owned c i H (demo_bio d b)" by (rule ol)
  show "log (demo_log d b l) = l" by (simp add: demo_log_def kbio.defs)
  show "disk (demo_log d b l) = d" "dirty_blocks (demo_log d b l) = dirty_blocks (demo_bio d b)"
    "view (demo_log d b l) = view (demo_bio d b)"
    using volume_eqD [OF v, unfolded log_disk_facts] by simp_all
qed

abbreviation zeros :: block where "zeros \<equiv> replicate BSIZE 0"
abbreviation sevens :: block where "sevens \<equiv> replicate BSIZE 7"

lemma zeros_header: "header_blocks zeros = []"
  by (simp add: header_blocks_def get32_def le32_def)

lemma demo_fits: "length bs < 30 \<Longrightarrow> (\<And>b. b \<in> set bs \<Longrightarrow> 32 \<le> unat b \<and> unat b < nd) \<Longrightarrow> 32 \<le> nd \<Longrightarrow> nd \<le> 2 ^ 32 \<Longrightarrow>
    length xs \<le> 30 \<Longrightarrow> log_fits (demo_logrec xs n) nd bs"
  by (fastforce simp: log_fits_def demo_logrec_def in_log_def)

section \<open>Properties of recovery and commit\<close>

text \<open>
  C2. \<^verbatim>\<open>recover_from_log\<close>, run on a disk whose log header names blocks outside the log, returns with the disk the pure
  function \<open>recovered\<close> describes and an empty log; and a crash between any two of its writes does no harm: every disk it
  passes through recovers to the same disk, as does the disk it ends with.
\<close>

theorem recover_from_log_refines:
  fixes s :: "'z klog_scheme"
  assumes ow: "owned c i {} s" and clean: "dirty_blocks s = {}"
    and fit: "log_fits (log s) (length (disk s)) (header_blocks (disk s ! unat (lstart (log s))))"
    and size: "length (disk s ! unat (lstart (log s))) = BSIZE"
  shows "\<exists>t hs. recover_from_log s = Ret () t \<and> owned c i {} t \<and> disk t = recovered (lstart (log s)) (disk s) \<and> lh_n (log t) = 0 \<and>
    dhist t = hs @ dhist s \<and> (\<forall>d\<in>set (disk t # hs). recovered (lstart (log s)) d = recovered (lstart (log s)) (disk s))"
proof -
  let ?L = "lstart (log s)"
  let ?bs = "header_blocks (disk s ! unat ?L)"
  note L = log_fitsD(2) [OF fit]
  have vL: "view s ?L = disk s ! unat ?L" by (rule clean_view [OF ow]) (simp add: clean)
  obtain t1 xs where t1: "read_head s = Ret () t1" "owned c i {} t1" "volume_of t1 = volume_of s"
      "log t1 = (log s)\<lparr>lh_n := length ?bs, lh_block := xs\<rparr>" "length xs = LOGSIZE" "take (length ?bs) xs = ?bs"
    using read_head_eq [OF ow log_fitsD(1) [OF fit] L] log_fitsD(3,4) [OF fit] clean vL by auto
  note e1 = volume_eqD [OF t1(3), unfolded log_disk_facts]
  have fit1: "log_fits (log t1) (length (disk t1)) ?bs" using log_fits_cong [OF fit t1(5)] t1(4) e1(1) by simp
  have L1: "lstart (log t1) = ?L" using t1(4) by simp
  obtain t2 hs where t2: "install_trans t1 = Ret () t2" "owned c i {} t2" "log t2 = log t1" "disk t2 = install ?L ?bs (disk s)"
      "dirty_blocks t2 = {}" "dhist t2 = hs @ dhist s" "\<forall>d\<in>set hs. \<exists>m\<le>length ?bs. d = install ?L (take m ?bs) (disk s)"
    using install_loop [OF t1(2) fit1] t1(4,6) e1 clean log_fitsD(4) [OF fit] unfolding L1 by auto
  let ?t3 = "upd_log (\<lambda>l. l\<lparr>lh_n := 0\<rparr>) t2"
  have dv: "disk ?t3 = disk t2" "dhist ?t3 = dhist t2" "dirty_blocks ?t3 = {}"
    using volume_eqD [OF upd_log_simps(2) [of "\<lambda>l. l\<lparr>lh_n := 0\<rparr>" t2], unfolded log_disk_facts] t2(5) by simp_all
  have fit3: "log_fits (log ?t3) (length (disk ?t3)) []" using fit1 t2(3,4) dv e1 by (simp add: log_fits_def)
  have L3: "lstart (log ?t3) = ?L" using t2(3) L1 by simp
  have LL: "unat ?L \<notin> unat ` set ?bs" using log_fitsD(5,7) [OF fit] by auto
  have "header_of (log ?t3) d = put32 0 0 d" for d by (simp add: header_of_def)
  then obtain t where t: "write_head ?t3 = Ret () t" "owned c i {} t" "log t = log ?t3" "dhist t = disk t2 # dhist t2"
      "disk t = (disk t2)[unat ?L := put32 0 0 (disk t2 ! unat ?L)]"
    using write_head_disk [OF _ fit3, of c i] t2(2) dv unfolding L3 by auto
  have run: "recover_from_log s = Ret () t"
    using t1(1) t2(1) t(1) by (simp add: recover_from_log_def thenk_Ret thenk_modk)
  have D: "disk t = recovered ?L (disk s)" using t(5) t2(4) LL by (simp add: recovered_def install_other)
  have "recovered ?L d = recovered ?L (disk s)" if "d \<in> set (disk t # disk t2 # hs)" for d
  proof -
    have "d = disk t \<or> (\<exists>m. d = install ?L (take m ?bs) (disk s))"
      using that t2(4,7) by (auto intro: exI [of _ "length ?bs"])
    then show ?thesis
      using recovered_installed [OF fit refl] recovered_recovered(1) [OF size L] D by auto
  qed
  moreover have "dhist t = (disk t2 # hs) @ dhist s" using t(4) t2(6) by simp
  ultimately show ?thesis using run t(2,3) D by (intro exI [of _ t] exI [of _ "disk t2 # hs"]) auto
qed

theorem recover_from_log_refines_witness:
  "\<exists>t. recover_from_log (demo_log ((replicate 64 zeros)[2 := put32 0 1 (put32 1 40 zeros), 3 := sevens])
       \<lparr>bvalid = True, bdirty = False, bdev = 1, blockno = 40, refcnt = 0, bdata = zeros\<rparr> (demo_logrec [] 0)) = Ret () t \<and>
     disk t ! 40 = sevens"
proof -
  let ?d = "(replicate 64 zeros)[2 := put32 0 1 (put32 1 40 zeros), 3 := sevens]"
  let ?s = "demo_log ?d \<lparr>bvalid = True, bdirty = False, bdev = 1, blockno = 40, refcnt = 0, bdata = zeros\<rparr> (demo_logrec [] 0)"
  have h: "?d ! 2 = put32 0 1 (put32 1 40 zeros)" "length (put32 0 1 (put32 1 40 zeros)) = BSIZE" by simp_all
  have hb: "header_blocks (put32 0 1 (put32 1 40 zeros)) = [40]"
    using get_put32 [of 0 "put32 1 40 zeros" 0 1] get_put32 [of 0 "put32 1 40 zeros" 1 1] get_put32 [of 1 zeros 1 40]
    by (simp add: header_blocks_def)
  have ow: "owned 0 0 {} ?s" by (simp add: demo_owned)
  have fit: "log_fits (log ?s) (length (disk ?s)) (header_blocks (disk ?s ! unat (lstart (log ?s))))"
    using hb h by (auto intro!: demo_fits)
  have "\<exists>t hs. recover_from_log ?s = Ret () t \<and> owned 0 0 {} t \<and> disk t = recovered 2 ?d \<and> lh_n (log t) = 0 \<and>
      dhist t = hs @ dhist ?s \<and> (\<forall>d\<in>set (disk t # hs). recovered 2 d = recovered 2 ?d)"
    using recover_from_log_refines [OF ow _ fit] h by (simp add: demo_dirty)
  moreover have "recovered 2 ?d ! 40 = sevens"
    using hb h by (simp add: recovered_def install_def slot_def)
  ultimately show ?thesis by auto
qed

text \<open>Before the header is written, recovery gives the old data; from then on, the new data.\<close>

lemma data_is_header: "log_fits l nd bs \<Longrightarrow> data_is l (d[unat (lstart l) := x]) w = data_is l d w"
  unfolding data_is_def length_list_update using log_fitsD(5) [of l nd bs] by (metis nth_list_update_neq)

lemma recovered_old:
  assumes fit: "log_fits l (length d) bs" and so: "slots_only l (length bs) d d'" and hd: "header_blocks (d ! unat (lstart l)) = []"
  shows "data_is l (recovered (lstart l) d') (\<lambda>b. d ! unat b)"
proof -
  have other: "d' ! x = d ! x" if "\<forall>j<length bs. x \<noteq> unat (slot (lstart l) j)" for x
    using so that by (simp add: slots_only_def)
  have "d' ! unat (lstart l) = d ! unat (lstart l)" by (rule other) (use slot_facts(4) [OF fit] in metis)
  then have "recovered (lstart l) d' = d'[unat (lstart l) := put32 0 0 (d' ! unat (lstart l))]"
    by (intro recovered_clean) (simp add: hd)
  moreover have "data_is l d' (\<lambda>b. d ! unat b)"
    unfolding data_is_def by (intro allI impI other) (use slot_facts(3) [OF fit] in metis)
  ultimately show ?thesis using data_is_header [OF fit] by simp
qed

lemma recovered_new:
  assumes fit: "log_fits l (length d) bs" and di: "distinct bs" and hd: "header_blocks (d ! unat (lstart l)) = bs"
    and sl: "\<forall>j<length bs. d ! unat (slot (lstart l) j) = w (bs ! j)"
    and oth: "\<And>b. unat b < length d \<Longrightarrow> \<not> in_log l (unat b) \<Longrightarrow> b \<notin> set bs \<Longrightarrow> d ! unat b = w b"
  shows "data_is l (recovered (lstart l) d) w"
proof -
  have "install (lstart l) bs d ! unat b = w b" if b: "unat b < length d" "\<not> in_log l (unat b)" for b
  proof (cases "b \<in> set bs")
    case True
    then obtain j where j: "j < length bs" "b = bs ! j" by (auto simp: in_set_conv_nth)
    then show ?thesis
      using install_distinct [OF di j(1)] slot_not_target [OF fit] b sl by simp
  next
    case False
    then have "unat b \<notin> unat ` set bs" by (metis imageE word_unat_eq_iff)
    then show ?thesis using oth [OF b False] by (simp add: install_other)
  qed
  then show ?thesis using hd data_is_header [OF fit] by (simp add: recovered_def) (simp add: data_is_def)
qed

lemma commit_steps:
  fixes s :: "'z klog_scheme"
  assumes ow: "owned c i {} s" and bs: "bs = take (lh_n (log s)) (lh_block (log s))" "lh_n (log s) \<le> LOGSIZE" "distinct bs" and n: "0 < lh_n (log s)"
    and fit: "log_fits (log s) (length (disk s)) bs" and dirt: "dirty_blocks s = set bs"
    and hd: "header_blocks (disk s ! unat (lstart (log s))) = []" "length (disk s ! unat (lstart (log s))) = BSIZE"
  shows "\<exists>t before after. commit s = Ret () t \<and> owned c i {} t \<and> dirty_blocks t = {} \<and> log t = (log s)\<lparr>lh_n := 0\<rparr> \<and> length (disk t) = length (disk s) \<and>
    length (disk t ! unat (lstart (log s))) = BSIZE \<and> header_blocks (disk t ! unat (lstart (log s))) = [] \<and> data_is (log s) (disk t) (view s) \<and> dhist t = after @ before @ dhist s \<and>
    (\<forall>d\<in>set before. data_is (log s) (recovered (lstart (log s)) d) (\<lambda>b. disk s ! unat b)) \<and>
    (\<forall>d\<in>set (disk t # after). data_is (log s) (recovered (lstart (log s)) d) (view s))"
proof -
  let ?l = "log s" and ?L = "lstart (log s)"
  have dn: "card (set bs) < NBUF" using card_length [of bs] log_fitsD(4) [OF fit] by simp
  have nL: "?L \<notin> set bs" using log_fitsD(5,7) [OF fit] by auto
  obtain t1 h1 where t1: "write_log s = Ret () t1" "owned c i {} t1" "log t1 = ?l" "dirty_blocks t1 = set bs"
      "slots_only ?l (length bs) (disk s) (disk t1)" "\<forall>j<length bs. disk t1 ! unat (slot ?L j) = view s (bs ! j)"
      "dhist t1 = h1 @ dhist s" "\<forall>d\<in>set h1. slots_only ?l (length bs) (disk s) d"
    using write_log_loop [OF ow fit bs(1,2) dirt] by auto
  have len1: "length (disk t1) = length (disk s)" and hd1: "disk t1 ! unat ?L = disk s ! unat ?L"
    using t1(5) slot_facts(4) [OF fit] unfolding slots_only_def by metis+
  obtain t2 where t2: "write_head t1 = Ret () t2" "owned c i {} t2" "log t2 = ?l" "dirty_blocks t2 = set bs"
      "disk t2 = (disk t1)[unat ?L := header_of ?l (disk s ! unat ?L)]" "dhist t2 = disk t1 # dhist t1"
    using write_head_disk [OF t1(2), of bs] fit t1(3,4) len1 hd1 dn nL by auto
  have len2: "length (disk t2) = length (disk s)" using t2(5) len1 by simp
  have hd2: "header_blocks (disk t2 ! unat ?L) = bs" "length (disk t2 ! unat ?L) = BSIZE"
    using header_blocks_header_of [OF bs(2) log_fitsD(3) [OF fit] hd(2)] length_header_of [of ?l "disk s ! unat ?L"]
      bs(1,2) hd(2) t2(5) len1 log_fitsD(2) [OF fit] by simp_all
  have fit2: "log_fits ?l (length (disk t2)) bs" using fit len2 by simp
  obtain t3 h3 where t3: "install_trans t2 = Ret () t3" "owned c i {} t3" "log t3 = ?l" "disk t3 = install ?L bs (disk t2)"
      "dirty_blocks t3 = {}" "dhist t3 = h3 @ dhist t2" "\<forall>d\<in>set h3. \<exists>m\<le>length bs. d = install ?L (take m bs) (disk t2)"
    using install_loop [OF t2(2), of bs] fit2 t2(3,4) bs by auto
  let ?t3 = "upd_log (\<lambda>l. l\<lparr>lh_n := 0\<rparr>) t3"
  have dv: "disk ?t3 = disk t3" "dhist ?t3 = dhist t3" "dirty_blocks ?t3 = {}"
    using volume_eqD [OF upd_log_simps(2) [of "\<lambda>l. l\<lparr>lh_n := 0\<rparr>" t3], unfolded log_disk_facts] t3(5) by simp_all
  have fit3: "log_fits (log ?t3) (length (disk ?t3)) []" using fit2 t3(3,4) dv by (simp add: log_fits_def)
  have "header_of (log ?t3) d = put32 0 0 d" for d by (simp add: header_of_def)
  then obtain t where t: "write_head ?t3 = Ret () t" "owned c i {} t" "log t = log ?t3" "dirty_blocks t = {}"
      "disk t = (disk t3)[unat ?L := put32 0 0 (disk t3 ! unat ?L)]" "dhist t = disk t3 # dhist t3"
    using write_head_disk [OF _ fit3, of c i] t3(2,3) dv by auto
  have run: "commit s = Ret () t"
    using n t1(1) t2(1) t3(1) t(1) by (simp add: commit_def bindk_getk whenk_def thenk_Ret thenk_modk)
  have LL: "unat ?L \<notin> unat ` set bs" using log_fitsD(5,7) [OF fit] by auto
  have D: "disk t = recovered ?L (disk t2)" using t(5) t3(4) LL hd2(1) by (simp add: recovered_def install_other)
  have new: "data_is ?l (recovered ?L (disk t2)) (view s)"
  proof (rule recovered_new [OF fit2 bs(3) hd2(1)])
    show "\<forall>j<length bs. disk t2 ! unat (slot ?L j) = view s (bs ! j)"
      using t1(6) t2(5) slot_facts(4) [OF fit] by (metis nth_list_update_neq)
    fix b assume b: "unat b < length (disk t2)" "\<not> in_log ?l (unat b)" "b \<notin> set bs"
    have "disk t2 ! unat b = disk t1 ! unat b" using t2(5) b(2) log_fitsD(5) [OF fit] by (metis nth_list_update_neq)
    also have "\<dots> = disk s ! unat b" using t1(5) b(2) slot_facts(3) [OF fit] unfolding slots_only_def by metis
    also have "\<dots> = view s b" using clean_view [OF ow] b(3) dirt by simp
    finally show "disk t2 ! unat b = view s b" .
  qed
  have "recovered ?L d = recovered ?L (disk t2)" if "d \<in> set (disk t # disk t3 # h3)" for d
  proof -
    have "d = disk t \<or> (\<exists>m. d = install ?L (take m bs) (disk t2))" using that t3(4,7) by (auto intro: exI [of _ "length bs"])
    then show ?thesis
      using recovered_installed [OF fit2 hd2(1)] recovered_recovered(1) [OF hd2(2) log_fitsD(2) [OF fit2]] D by auto
  qed
  then have "\<forall>d\<in>set (disk t # disk t3 # h3). data_is ?l (recovered ?L d) (view s)" using new by simp
  moreover have "\<forall>d\<in>set (disk t1 # h1). data_is ?l (recovered ?L d) (\<lambda>b. disk s ! unat b)"
    using recovered_old [OF fit _ hd(1)] t1(5,8) by auto
  moreover have "dhist t = (disk t3 # h3) @ (disk t1 # h1) @ dhist s" using t(6) t3(6) t2(6) t1(7) by simp
  moreover have "length (disk t) = length (disk s)" using t(5) t3(4) len2 by simp
  moreover have "header_blocks (disk t ! unat ?L) = []" "data_is ?l (disk t) (view s)"
    using recovered_recovered(2) [OF hd2(2) log_fitsD(2) [OF fit2]] new D by simp_all
  moreover have "length (disk t ! unat ?L) = BSIZE"
    using t(5) t3(4) LL hd2(2) log_fitsD(2) [OF fit2] by (simp add: install_other length_put32)
  moreover have "log t = ?l\<lparr>lh_n := 0\<rparr>" using t(3) t3(3) by simp
  ultimately show ?thesis using run t(2,4)
    by (intro exI [of _ t] exI [of _ "disk t1 # h1"] exI [of _ "disk t3 # h3"]) simp
qed

text \<open>
  C1. \<^verbatim>\<open>commit\<close> is atomic. It returns, and it passes through two groups of disks: after a crash on a disk of the first
  group recovery gives the data blocks as they were on the disk before, after a crash on one of the second (or later)
  the data blocks as the transaction left them in the cache. Nothing in between can be recovered, the cache has no
  dirty block any more and the log is empty again.
\<close>

theorem commit_atomic:
  fixes s :: "'z klog_scheme"
  assumes ow: "owned c i {} s" and bs: "bs = take (lh_n (log s)) (lh_block (log s))" "lh_n (log s) \<le> LOGSIZE" "distinct bs"
    and fit: "log_fits (log s) (length (disk s)) bs" and dirt: "dirty_blocks s = set bs"
    and hd: "header_blocks (disk s ! unat (lstart (log s))) = []" "length (disk s ! unat (lstart (log s))) = BSIZE"
  shows "\<exists>t before after. commit s = Ret () t \<and> owned c i {} t \<and> dirty_blocks t = {} \<and> lh_n (log t) = 0 \<and> length (disk t) = length (disk s) \<and>
    header_blocks (disk t ! unat (lstart (log s))) = [] \<and> data_is (log s) (disk t) (view s) \<and> dhist t = after @ before @ dhist s \<and>
    (\<forall>d\<in>set before. data_is (log s) (recovered (lstart (log s)) d) (\<lambda>b. disk s ! unat b)) \<and>
    (\<forall>d\<in>set (disk t # after). data_is (log s) (recovered (lstart (log s)) d) (view s))"
proof (cases "lh_n (log s) = 0")
  case True
  then have "bs = []" using bs(1) by simp
  then have "view s = (\<lambda>b. disk s ! unat b)" using clean_view [OF ow] dirt by auto
  moreover have "slots_only (log s) (length bs) (disk s) (disk s)" by (simp add: slots_only_def)
  ultimately have "data_is (log s) (recovered (lstart (log s)) (disk s)) (view s)" "data_is (log s) (disk s) (view s)"
    using recovered_old [OF fit _ hd(1)] by (auto simp: data_is_def)
  then show ?thesis using True ow dirt hd(1) \<open>bs = []\<close>
    by (intro exI [of _ s] exI [of _ "[]"]) (simp add: commit_def bindk_getk whenk_def retk_def)
next
  case False
  then obtain t before after where "commit s = Ret () t" "owned c i {} t" "dirty_blocks t = {}" "log t = (log s)\<lparr>lh_n := 0\<rparr>"
      "length (disk t) = length (disk s)" "header_blocks (disk t ! unat (lstart (log s))) = []" "data_is (log s) (disk t) (view s)"
      "dhist t = after @ before @ dhist s" "\<forall>d\<in>set before. data_is (log s) (recovered (lstart (log s)) d) (\<lambda>b. disk s ! unat b)"
      "\<forall>d\<in>set (disk t # after). data_is (log s) (recovered (lstart (log s)) d) (view s)"
    using commit_steps [OF ow bs _ fit dirt hd] by blast
  then show ?thesis by (intro exI [of _ t] exI [of _ before] exI [of _ after]) simp
qed

theorem commit_atomic_witness:
  "\<exists>t. commit (demo_log (replicate 64 zeros)
       \<lparr>bvalid = True, bdirty = True, bdev = 1, blockno = 40, refcnt = 0, bdata = sevens\<rparr> (demo_logrec [40] 0)) = Ret () t \<and>
     disk t ! 40 = sevens \<and> dirty_blocks t = {}"
proof -
  let ?b = "\<lparr>bvalid = True, bdirty = True, bdev = 1, blockno = 40, refcnt = 0, bdata = sevens\<rparr>"
  let ?s = "demo_log (replicate 64 zeros) ?b (demo_logrec [40] 0)"
  have ob: "owned 0 0 {} (demo_bio (replicate 64 zeros) ?b)" by (rule demo_owned) simp_all
  have v: "view ?s 40 = sevens" using demo_view [OF ob] by simp
  have fit: "log_fits (log ?s) (length (disk ?s)) [40]" by (auto intro!: demo_fits)
  obtain t where t: "commit ?s = Ret () t" "dirty_blocks t = {}" "data_is (log ?s) (disk t) (view ?s)" "length (disk t) = 64"
    using commit_atomic [of 0 0 ?s "[40]"] ob fit zeros_header by (auto simp: demo_dirty demo_logrec_def)
  have "disk t ! 40 = sevens" using data_isD [OF t(3), of 40] t(4) v by (simp add: in_log_def)
  then show ?thesis using t by blast
qed

section \<open>Transactions\<close>

text \<open>The blocks named in the log in memory are the dirty blocks of the cache, each named once.\<close>

definition logged :: "'z klog_scheme \<Rightarrow> uint list" where
  "logged s = take (lh_n (log s)) (lh_block (log s))"

definition txn_ok :: "'z klog_scheme \<Rightarrow> bool" where
  "txn_ok s \<longleftrightarrow> dirty_blocks s = set (logged s) \<and> distinct (logged s) \<and> lh_n (log s) \<le> LOGSIZE \<and> length (lh_block (log s)) = LOGSIZE"

lemma lockless_upd_log: "lockless (upd_log f)"
  by (simp add: lockless_def upd_log_def)

lemma quiet_upd_log [simp]: "quiet c i (upd_log f s) = quiet c i s"
  by (simp add: upd_log_def quiet_def runs_on_def nobody_waits_def)

lemma log_acquired [simp]: "log (acquired l c s) = log s"
  by (simp add: acquired_def upd_lock_def pushed_def)

lemma log_upd_buf [simp]: "log (upd_buf k f s) = log s"
  by (simp add: upd_buf_def)

text \<open>A critical section of the log that is not contended.\<close>

lemma log_section:
  assumes q: "quiet c i s" and f: "lockless f"
  shows "acquire LogLock s = Ret () (acquired LogLock c s)" "f (acquired LogLock c s) = acquired LogLock c (f s)"
    "quiet c i t \<Longrightarrow> release LogLock (acquired LogLock c t) = Ret () t"
  using quiet_locks [OF q] lockless_acquired [OF f] quiet_locks [of c i t] by (auto intro: release_acquired simp: acquire_free)

definition log_enter :: "uint \<Rightarrow> logrec \<Rightarrow> logrec" where
  "log_enter b l = (let k = (case find_index (\<lambda>x. x = b) (take (lh_n l) (lh_block l)) of Some k \<Rightarrow> k | None \<Rightarrow> lh_n l) in
     l\<lparr>lh_block := (lh_block l)[k := b], lh_n := (if k = lh_n l then lh_n l + 1 else lh_n l)\<rparr>)"

lemma log_write_eq:
  assumes ow: "owned c i H s" and k: "k \<in> H"
    and g: "lh_n (log s) < LOGSIZE" "int (lh_n (log s)) < sint (lsize (log s)) - 1" "1 \<le> outstanding (log s)"
  shows "log_write k s = Ret () (upd_buf k (\<lambda>b. b\<lparr>bdirty := True\<rparr>) (upd_log (log_enter (blk s k)) s))"
proof -
  note q = binvD(1) [OF ownedD(1) [OF ow]]
  let ?f = "\<lambda>s. upd_buf k (\<lambda>b. b\<lparr>bdirty := True\<rparr>) (upd_log (log_enter (blk s k)) s)"
  have "lockless (\<lambda>t. upd_buf k (\<lambda>b. b\<lparr>bdirty := True\<rparr>) (upd_log (log_enter (blk s k)) t))"
    by (rule lockless_comp [OF lockless_upd_log lockless_upd_buf])
  note sec = log_section [OF q this]
  have "quiet c i (?f s)" using q by simp
  then have rel: "release LogLock (acquired LogLock c (?f s)) = Ret () (?f s)" by (rule sec(3))
  let ?k = "case find_index (\<lambda>x. x = blk s k) (take (lh_n (log s)) (lh_block (log s))) of Some k \<Rightarrow> k | None \<Rightarrow> lh_n (log s)"
  have "upd_log (\<lambda>l. l\<lparr>lh_block := (lh_block l)[?k := blk s k], lh_n := (if ?k = lh_n l then lh_n l + 1 else lh_n l)\<rparr>)
      (acquired LogLock c s) = upd_log (log_enter (blk s k)) (acquired LogLock c s)"
    by (simp add: upd_log_def log_enter_def Let_def)
  then show ?thesis using sec(1,2) rel g
    by (simp add: log_write_def bindk_getk thenk_Ret thenk_modk not_le not_less cong: option.case_cong)
qed

lemma logged_log_enter:
  assumes "lh_n l < LOGSIZE" and "length (lh_block l) = LOGSIZE"
  shows "take (lh_n (log_enter b l)) (lh_block (log_enter b l))
      = (if b \<in> set (take (lh_n l) (lh_block l)) then take (lh_n l) (lh_block l) else take (lh_n l) (lh_block l) @ [b])"
    and "lh_n (log_enter b l) \<le> LOGSIZE" and "length (lh_block (log_enter b l)) = LOGSIZE"
proof -
  let ?xs = "take (lh_n l) (lh_block l)"
  show "lh_n (log_enter b l) \<le> LOGSIZE" "length (lh_block (log_enter b l)) = LOGSIZE"
    using assms by (simp_all add: log_enter_def Let_def)
  show "take (lh_n (log_enter b l)) (lh_block (log_enter b l)) = (if b \<in> set ?xs then ?xs else ?xs @ [b])"
  proof (cases "find_index (\<lambda>x. x = b) ?xs")
    case None
    then have "b \<notin> set ?xs" by (auto simp: find_index_None)
    then show ?thesis using None assms
      by (simp add: log_enter_def Let_def take_Suc_conv_app_nth take_update_beyond)
  next
    case (Some k)
    then have k: "k < length ?xs" "?xs ! k = b" using find_index_less find_index_Some by blast+
    then have "b \<in> set ?xs" using nth_mem by metis
    moreover have "k \<noteq> lh_n l" using k(1) by simp
    moreover have "take (lh_n l) ((lh_block l)[k := b]) = ?xs" using k by (simp add: take_update_same list_update_same_conv)
    ultimately show ?thesis using Some by (simp add: log_enter_def Let_def)
  qed
qed

lemma log_write_volume:
  assumes ow: "owned c i H s" and k: "k \<in> H" and tx: "txn_ok s"
    and g: "lh_n (log s) < LOGSIZE" "int (lh_n (log s)) < sint (lsize (log s)) - 1" "1 \<le> outstanding (log s)"
  shows "\<exists>t. log_write k s = Ret () t \<and> owned c i H t \<and> txn_ok t \<and> volume_of t = vmark (blk s k) (volume_of s) \<and>
    logged t = (if blk s k \<in> set (logged s) then logged s else logged s @ [blk s k]) \<and> log t = log_enter (blk s k) (log s) \<and>
    (\<forall>j. blk t j = blk s j) \<and> klog.more t = klog.more s"
proof -
  let ?u = "upd_log (log_enter (blk s k)) s"
  let ?t = "upd_buf k (\<lambda>b. b\<lparr>bdirty := True\<rparr>) ?u"
  have ou: "owned c i H ?u" using ow by simp
  have ot: "owned c i H ?t" by (rule owned_upd_buf [OF ou k]) simp
  have e: "dirty_blocks ?u = dirty_blocks s" "view ?u = view s" "disk ?u = disk s" "dhist ?u = dhist s"
    using volume_eqD [OF upd_log_simps(2) [of "log_enter (blk s k)" s], unfolded log_disk_facts] by simp_all
  have dt: "dirty_blocks ?t = insert (blk s k) (dirty_blocks s)"
    using dirty_upd_buf [OF ou k, of "\<lambda>b. b\<lparr>bdirty := True\<rparr>"] e by simp
  have "view s (blk s k) = bdata (buf_at s k)" using bcache.data_vol [OF ow k] by (simp add: volume_of_def)
  then have "view ?t = view s"
    using view_upd_buf [OF ou k, of "\<lambda>b. b\<lparr>bdirty := True\<rparr>"] e by (simp add: fun_upd_idem)
  then have "volume_of ?t = vmark (blk s k) (volume_of s)" using dt e by (simp add: volume_of_def vmark_def)
  moreover have lt: "logged ?t = (if blk s k \<in> set (logged s) then logged s else logged s @ [blk s k])"
    using logged_log_enter(1) [of "log s" "blk s k"] g(1) tx by (simp add: logged_def txn_ok_def)
  moreover have "txn_ok ?t"
    using lt dt tx g(1) logged_log_enter(2,3) [of "log s" "blk s k"] by (auto simp: txn_ok_def)
  moreover have "\<forall>j. blk ?t j = blk s j" "klog.more ?t = klog.more s"
    by (simp_all add: buf_at_upd_buf) (simp add: upd_log_def upd_buf_def)
  ultimately show ?thesis using log_write_eq [OF ow k g] ot by (intro exI [of _ ?t]) simp
qed

text \<open>
  C19. \<^verbatim>\<open>log_write\<close> on a held buffer of a running transaction with room in the log returns; the block is named in the log
  once, however often it is written, it becomes dirty and so cannot leave the cache, and nothing else changes. Without
  a transaction, or with a full log, it panics.
\<close>

theorem log_write_absorbs:
  assumes "owned c i H s" and "k \<in> H" and "txn_ok s"
  shows "(lh_n (log s) < LOGSIZE \<and> int (lh_n (log s)) < sint (lsize (log s)) - 1 \<and> 1 \<le> outstanding (log s) \<longrightarrow>
      (\<exists>t. log_write k s = Ret () t \<and> owned c i H t \<and> txn_ok t \<and> volume_of t = vmark (blk s k) (volume_of s) \<and>
         logged t = (if blk s k \<in> set (logged s) then logged s else logged s @ [blk s k]))) \<and>
    (outstanding (log s) < 1 \<or> int (lh_n (log s)) \<ge> sint (lsize (log s)) - 1 \<or> LOGSIZE \<le> lh_n (log s) \<longrightarrow>
      (\<exists>msg. log_write k s = Stop (Panic msg)))"
  using log_write_volume [OF assms] by (auto simp: log_write_def bindk_getk panic_def stopk_def)

theorem log_write_absorbs_witness:
  "\<exists>k t u v. bread 1 40 (demo_log (replicate 64 zeros)
       \<lparr>bvalid = True, bdirty = False, bdev = 1, blockno = 40, refcnt = 0, bdata = zeros\<rparr> (demo_logrec [] 1)) = Ret k t \<and>
     log_write k t = Ret () u \<and> logged u = [40] \<and> log_write k u = Ret () v \<and> logged v = [40]"
proof -
  let ?s = "demo_log (replicate 64 zeros)
       \<lparr>bvalid = True, bdirty = False, bdev = 1, blockno = 40, refcnt = 0, bdata = zeros\<rparr> (demo_logrec [] 1)"
  have ow: "owned 0 0 {} ?s" by (simp add: demo_owned)
  obtain k t where t: "bread 1 40 ?s = Ret k t" "owned 0 0 {k} t" "volume_of t = volume_of ?s" "kbio.more t = kbio.more ?s" "blk t k = 40"
    using bcache.look_block [OF ow, of 40] by (auto simp: log_disk_facts demo_dirty)
  have lt: "log t = demo_logrec [] 1" using log_of_more [OF t(4)] by simp
  have "txn_ok t" using volume_eqD(2) [OF t(3)] lt by (simp add: txn_ok_def logged_def log_disk_facts demo_dirty)
  from log_write_absorbs [OF t(2) _ this, of k] obtain u where u: "log_write k t = Ret () u" "owned 0 0 {k} u" "txn_ok u" "logged u = [40]"
    "volume_of u = vmark 40 (volume_of t)"
    using lt t(5) by (auto simp: logged_def)
  have "blk u k = 40 \<and> log u = log_enter 40 (log t)"
    using log_write_eq [OF t(2), of k] u(1) lt t(5) by (auto simp: buf_at_upd_buf)
  with log_write_absorbs [OF u(2) _ u(3), of k] obtain v where "log_write k u = Ret () v" "logged v = [40]"
    using lt u(4) by (auto simp: log_enter_def logged_def)
  then show ?thesis using t(1) u(1,4) by blast
qed

section \<open>A transaction of one block\<close>

lemma begin_op_eq:
  assumes ow: "owned c i H s" and "\<not> committing (log s)"
    and "int (lh_n (log s)) + (outstanding (log s) + 1) * int MAXOPBLOCKS \<le> int LOGSIZE"
  shows "begin_op s = Ret () (upd_log (\<lambda>l. l\<lparr>outstanding := outstanding l + 1\<rparr>) s)"
proof -
  note q = binvD(1) [OF ownedD(1) [OF ow]]
  let ?f = "upd_log (\<lambda>l. l\<lparr>outstanding := outstanding l + 1\<rparr>)"
  note sec = log_section [OF q lockless_upd_log [of "\<lambda>l. l\<lparr>outstanding := outstanding l + 1\<rparr>"]]
  have "quiet c i (?f s)" using q by simp
  then have "release LogLock (acquired LogLock c (?f s)) = Ret () (?f s)" by (rule sec(3))
  then show ?thesis using sec(1,2) assms(2,3)
    by (simp add: begin_op_def begin_op_loop_def thenk_Ret bindk_getk thenk_modk)
qed

lemma end_op_eq:
  assumes ow: "owned c i {} s" and l: "\<not> committing (log s)" "outstanding (log s) = 1"
    and com: "commit (upd_log (\<lambda>l. l\<lparr>outstanding := 0, committing := True\<rparr>) s) = Ret () t" and ot: "owned c i {} t"
  shows "end_op s = Ret () (upd_log (\<lambda>l. l\<lparr>committing := False\<rparr>) t)"
proof -
  note q = binvD(1) [OF ownedD(1) [OF ow]] and qt = binvD(1) [OF ownedD(1) [OF ot]]
  let ?f = "upd_log (\<lambda>l. l\<lparr>outstanding := outstanding l - 1\<rparr>)" and ?g = "upd_log (\<lambda>l. l\<lparr>committing := True\<rparr>)"
    and ?h = "upd_log (\<lambda>l. l\<lparr>committing := False\<rparr>)"
  have qg: "quiet c i (upd_log (\<lambda>l. l\<lparr>outstanding := 0, committing := True\<rparr>) s)" and qh: "quiet c i (?h t)" using q qt by simp_all
  note sec = log_section(1) [OF q lockless_upd_log] log_section(2) [OF q lockless_comp [OF lockless_upd_log lockless_upd_log]]
    log_section(3) [OF q lockless_upd_log qg]
  note sec' = log_section(1) [OF qt lockless_upd_log] log_section(2) [OF qt lockless_upd_log] log_section(3) [OF qt lockless_upd_log qh]
  have w: "wakeup ChLog (acquired LogLock c (?h t)) = Ret () (acquired LogLock c (?h t))"
    using qt by (intro wakeup_inside) (simp_all add: fs_chan_def)
  have fg: "?g (?f s) = upd_log (\<lambda>l. l\<lparr>outstanding := 0, committing := True\<rparr>) s" using l(2) by (simp add: upd_log_def)
  show ?thesis using w l com fg
    by (simp add: end_op_def sec sec' thenk_Ret thenk_modk bindk_getk whenk_def Let_def)
qed

text \<open>The way \<^verbatim>\<open>fs.c\<close> changes a block inside a transaction.\<close>

definition change_block :: "uint \<Rightarrow> (block \<Rightarrow> block) \<Rightarrow> ('z klog_scheme, unit) kop" where
  "change_block b g = bindk (bread 1 b) (\<lambda>k.
     thenk (modk (upd_buf k (\<lambda>x. x\<lparr>bdata := g (bdata x)\<rparr>))) (thenk (log_write k) (brelse k)))"

lemma change_block_volume:
  fixes s :: "'z klog_scheme"
  assumes ow: "owned c i {} s" and tx: "txn_ok s" and b: "unat b < length (disk s)" and room: "card (dirty_blocks s) < NBUF"
    and g: "lh_n (log s) < LOGSIZE" "int (lh_n (log s)) < sint (lsize (log s)) - 1" "1 \<le> outstanding (log s)"
  shows "\<exists>t. change_block b f s = Ret () t \<and> owned c i {} t \<and> txn_ok t \<and> log t = log_enter b (log s) \<and>
    volume_of t = vmark b (vput b (f (view s b)) (volume_of s)) \<and>
    logged t = (if b \<in> set (logged s) then logged s else logged s @ [b]) \<and> klog.more t = klog.more s"
proof -
  obtain k t1 where t1: "bread 1 b s = Ret k t1" "owned c i {k} t1" "volume_of t1 = volume_of s" "kbio.more t1 = kbio.more s"
      "bdata (buf_at t1 k) = view s b" "blk t1 k = b"
    using bcache.look_block [OF ow, of b] b room by (auto simp: log_disk_facts)
  let ?t2 = "upd_buf k (\<lambda>x. x\<lparr>bdata := f (bdata x)\<rparr>) t1"
  have t2: "owned c i {k} ?t2" "volume_of ?t2 = vput b (f (view s b)) (volume_of s)"
    using put_volume [OF t1(2), of k f] t1(3,5,6) by simp_all
  have b2: "blk ?t2 k = b" using t1(6) by (simp add: buf_at_upd_buf)
  have l2: "log ?t2 = log s" using log_of_more [OF t1(4)] by simp
  have d2: "dirty_blocks ?t2 = dirty_blocks s" using volume_eqD(2) [OF t2(2)] by (simp add: vput_def log_disk_facts)
  have "txn_ok ?t2" using tx l2 d2 by (simp add: txn_ok_def logged_def)
  then obtain t3 where t3: "log_write k ?t2 = Ret () t3" "owned c i {k} t3" "txn_ok t3" "volume_of t3 = vmark b (volume_of ?t2)"
      "logged t3 = (if b \<in> set (logged s) then logged s else logged s @ [b])" "log t3 = log_enter b (log s)" "blk t3 k = b" "klog.more t3 = klog.more ?t2"
    using log_write_volume [OF t2(1), of k] g l2 b2 by (auto simp: logged_def)
  have "klog.more ?t2 = klog.more s" using more_of_more [OF t1(4)] by (simp add: upd_buf_def)
  then have m3: "klog.more t3 = klog.more s" using t3(8) by simp
  have "b \<in> vdirty (volume_of t3)" using t3(4) by (simp add: vmark_def)
  then obtain t where t: "brelse k t3 = Ret () t" "owned c i {} t" "volume_of t = volume_of t3" "kbio.more t = kbio.more t3"
    using bcache.rel_law [OF t3(2), of k] t3(7) by auto
  have lt: "log t = log t3" by (rule log_of_more [OF t(4)])
  have "change_block b f s = Ret () t"
    using t1(1) t3(1) t(1) by (simp add: change_block_def bindk_Ret thenk_modk thenk_Ret)
  moreover have "txn_ok t" "logged t = logged t3"
    using t3(3) lt volume_eqD(2) [OF t(3)] by (simp_all add: txn_ok_def logged_def log_disk_facts)
  ultimately show ?thesis using t(2,3) t3 lt t2(2) m3 more_of_more [OF t(4)] by auto
qed

lemma log_fits_fields: "log_fits (l\<lparr>outstanding := n, committing := b\<rparr>) = log_fits l" "log_fits (l\<lparr>outstanding := n\<rparr>) = log_fits l"
  "log_fits (log_enter x l) = log_fits l" "data_is (l\<lparr>outstanding := n, committing := b\<rparr>) = data_is l" "data_is (log_enter x l) = data_is l"
  "lstart (log_enter x l) = lstart l" "lsize (log_enter x l) = lsize l" "outstanding (log_enter x l) = outstanding l"
  "committing (log_enter x l) = committing l" "data_is (l\<lparr>outstanding := n\<rparr>) = data_is l"
  by (simp_all add: fun_eq_iff log_fits_def in_log_def log_enter_def Let_def data_is_def)

lemma upd_log_views [simp]:
  "disk (upd_log f s) = disk s" "dhist (upd_log f s) = dhist s" "dirty_blocks (upd_log f s) = dirty_blocks s" "view (upd_log f s) = view s"
  using volume_eqD [OF upd_log_simps(2) [of f s], unfolded log_disk_facts] by simp_all

lemma one_block_transaction:
  fixes s :: "'z klog_scheme"
  assumes ow: "owned c i {} s" and l: "lh_n (log s) = 0" "outstanding (log s) = 0" "\<not> committing (log s)" "1 < sint (lsize (log s))"
    and clean: "dirty_blocks s = {}" and fit: "log_fits (log s) (length (disk s)) [b]"
    and hd: "header_blocks (disk s ! unat (lstart (log s))) = []" "length (disk s ! unat (lstart (log s))) = BSIZE"
  defines "old \<equiv> (\<lambda>x. disk s ! unat x)"
  shows "\<exists>t before after. thenk begin_op (thenk (change_block b f) end_op) s = Ret () t \<and> owned c i {} t \<and> dirty_blocks t = {} \<and>
    lh_n (log t) = 0 \<and> outstanding (log t) = 0 \<and> \<not> committing (log t) \<and> lsize (log t) = lsize (log s) \<and> lstart (log t) = lstart (log s) \<and>
    header_blocks (disk t ! unat (lstart (log s))) = [] \<and> length (disk t ! unat (lstart (log s))) = BSIZE \<and>
    length (disk t) = length (disk s) \<and> data_is (log s) (disk t) (old(b := f (old b))) \<and> dhist t = after @ before @ dhist s \<and>
    (\<forall>d\<in>set before. data_is (log s) (recovered (lstart (log s)) d) old) \<and>
    (\<forall>d\<in>set (disk t # after). data_is (log s) (recovered (lstart (log s)) d) (old(b := f (old b))))"
proof -
  let ?s1 = "upd_log (\<lambda>l. l\<lparr>outstanding := outstanding l + 1\<rparr>) s"
  have o1: "owned c i {} ?s1" using ow by simp
  have vs: "view s = old" using clean_view [OF ow] clean by (auto simp: old_def)
  have tx: "txn_ok ?s1" using l(1) clean log_fitsD(3) [OF fit] by (simp add: txn_ok_def logged_def)
  obtain t1 where t1: "change_block b f ?s1 = Ret () t1" "owned c i {} t1" "txn_ok t1" "log t1 = log_enter b (log ?s1)"
      "volume_of t1 = vmark b (vput b (f (view s b)) (volume_of s))" "logged t1 = [b]"
    using change_block_volume [OF o1 tx, of b f] l clean log_fitsD(6) [OF fit, of 0] by (auto simp: logged_def)
  have e1: "disk t1 = disk s" "dirty_blocks t1 = {b}" "view t1 = old(b := f (old b))" "dhist t1 = dhist s"
    using volume_eqD [OF t1(5)] clean vs by (simp_all add: vmark_def vput_def log_disk_facts)
  let ?s2 = "upd_log (\<lambda>l. l\<lparr>outstanding := 0, committing := True\<rparr>) t1"
  have fit2: "log_fits (log ?s2) (length (disk ?s2)) [b]" using fit t1(4) e1(1) by (simp add: log_fits_fields)
  have L2: "lstart (log ?s2) = lstart (log s)" using t1(4) by (simp add: log_fits_fields)
  have lg: "[b] = take (lh_n (log ?s2)) (lh_block (log ?s2))" using t1(6) by (simp add: logged_def)
  have n: "0 < lh_n (log ?s2)" "lh_n (log ?s2) \<le> LOGSIZE" using t1(3) lg by (auto simp: txn_ok_def intro: ccontr)
  have dd: "data_is (log ?s2) = data_is (log s)" using t1(4) by (simp add: log_fits_fields)
  obtain t before after where t: "commit ?s2 = Ret () t" "owned c i {} t" "dirty_blocks t = {}" "log t = (log ?s2)\<lparr>lh_n := 0\<rparr>" "length (disk t) = length (disk s)"
      "length (disk t ! unat (lstart (log s))) = BSIZE" "header_blocks (disk t ! unat (lstart (log s))) = []"
      "data_is (log s) (disk t) (old(b := f (old b)))" "dhist t = after @ before @ dhist s"
      "\<forall>d\<in>set before. data_is (log s) (recovered (lstart (log s)) d) old"
      "\<forall>d\<in>set (disk t # after). data_is (log s) (recovered (lstart (log s)) d) (old(b := f (old b)))"
    using commit_steps [OF _ lg n(2) _ n(1) fit2, of c i] t1(2) e1 hd unfolding L2 dd by (auto simp: old_def)
  have "begin_op s = Ret () ?s1" using l by (intro begin_op_eq [OF ow]) simp_all
  moreover have "end_op t1 = Ret () (upd_log (\<lambda>l. l\<lparr>committing := False\<rparr>) t)"
    using l t1(4) by (intro end_op_eq [OF t1(2) _ _ t(1,2)]) (simp_all add: log_fits_fields)
  ultimately have "thenk begin_op (thenk (change_block b f) end_op) s = Ret () (upd_log (\<lambda>l. l\<lparr>committing := False\<rparr>) t)"
    using t1(1) by (simp add: thenk_Ret)
  then show ?thesis using t(2-11) t1(4)
    by (intro exI [of _ "upd_log (\<lambda>l. l\<lparr>committing := False\<rparr>) t"] exI [of _ before] exI [of _ after]) (simp add: log_fits_fields)
qed

end
