(* ===== verification/Inodes.thy ===== *)
theory Inodes
  imports Recovery
begin

text \<open>
  Block allocation and inodes: the first half of \<^verbatim>\<open>fs.c\<close>, up to \<^verbatim>\<open>stati\<close>.

  An inode of the cache is an index into \<open>icache\<close>; a null pointer is \<open>None\<close>. A block number is a word. \<^verbatim>\<open>short\<close>
  fields are words of 16 bits. The message of \<^verbatim>\<open>iinit\<close> is not part of the state.

  Shown: an inode survives encoding; \<^verbatim>\<open>iupdate\<close> in a transaction of its own writes the inode whole or not at all; \<^verbatim>\<open>balloc\<close>
  takes the first free block and \<^verbatim>\<open>bfree\<close> gives a block back, both changing one bit of the bitmap.
\<close>

abbreviation NDIRECT :: nat where "NDIRECT \<equiv> 12"
abbreviation NINDIRECT :: nat where "NINDIRECT \<equiv> 128"
abbreviation NINODE :: nat where "NINODE \<equiv> 50"
abbreviation BPB :: nat where "BPB \<equiv> 4096"
abbreviation IPB :: nat where "IPB \<equiv> 8"
abbreviation T_DIR :: "16 word" where "T_DIR \<equiv> 1"
abbreviation T_FILE :: "16 word" where "T_FILE \<equiv> 2"
abbreviation T_DEV :: "16 word" where "T_DEV \<equiv> 3"

section \<open>Inodes on disk and in memory\<close>

record dinode =
  d_type :: "16 word"
  d_major :: "16 word"
  d_minor :: "16 word"
  d_nlink :: "16 word"
  d_size :: uint
  d_addrs :: "uint list"

record inode =
  idev :: uint
  inum :: uint
  iref :: int
  ivalid :: bool
  itype :: "16 word"
  imajor :: "16 word"
  iminor :: "16 word"
  inlink :: "16 word"
  isize :: uint
  addrs :: "uint list"

definition le16 :: "uchar list \<Rightarrow> 16 word" where
  "le16 bs = ucast (bs ! 0) OR push_bit 8 (ucast (bs ! 1))"

definition bytes16 :: "16 word \<Rightarrow> uchar list" where
  "bytes16 w = [ucast w, ucast (drop_bit 8 w)]"

definition decode_dinode :: "uchar list \<Rightarrow> dinode" where
  "decode_dinode bs = \<lparr>d_type = le16 bs, d_major = le16 (drop 2 bs), d_minor = le16 (drop 4 bs),
     d_nlink = le16 (drop 6 bs), d_size = le32 (drop 8 bs), d_addrs = map (\<lambda>k. le32 (drop (12 + 4 * k) bs)) [0..<13]\<rparr>"

definition encode_dinode :: "dinode \<Rightarrow> uchar list" where
  "encode_dinode d = bytes16 (d_type d) @ bytes16 (d_major d) @ bytes16 (d_minor d) @ bytes16 (d_nlink d) @
     bytes32 (d_size d) @ concat (map bytes32 (d_addrs d))"

definition dinode_ofs :: "uint \<Rightarrow> nat" where
  "dinode_ofs n = 64 * (unat n mod IPB)"

record kfs = klog +
  sb :: superblock
  icache :: "inode list"

definition inode_at :: "'z kfs_scheme \<Rightarrow> nat \<Rightarrow> inode" where
  "inode_at s i = icache s ! i"

definition upd_inode :: "nat \<Rightarrow> (inode \<Rightarrow> inode) \<Rightarrow> 'z kfs_scheme \<Rightarrow> 'z kfs_scheme" where
  "upd_inode i f s = s\<lparr>icache := (icache s)[i := f (icache s ! i)]\<rparr>"

definition IBLOCK :: "uint \<Rightarrow> superblock \<Rightarrow> uint" where
  "IBLOCK i b = i div 8 + sb_inodestart b"

definition BBLOCK :: "uint \<Rightarrow> superblock \<Rightarrow> uint" where
  "BBLOCK n b = n div 4096 + sb_bmapstart b"

section \<open>Blocks\<close>

definition bzero :: "uint \<Rightarrow> uint \<Rightarrow> ('z kfs_scheme, unit) kop" where
  "bzero dev bno =
     bindk (bread dev bno) (\<lambda>bp.
     thenk (modk (upd_buf bp (\<lambda>b. b\<lparr>bdata := replicate BSIZE 0\<rparr>)))
    (thenk (log_write bp)
     (brelse bp)))"

definition bit_mask :: "nat \<Rightarrow> uchar" where
  "bit_mask bi = push_bit (bi mod 8) 1"

definition bit_free :: "block \<Rightarrow> nat \<Rightarrow> bool" where
  "bit_free d bi \<longleftrightarrow> d ! (bi div 8) AND bit_mask bi = 0"

fun balloc_loop :: "uint \<Rightarrow> nat list \<Rightarrow> ('z kfs_scheme, uint) kop" where
  "balloc_loop dev [] = panic ''balloc: out of blocks''"
| "balloc_loop dev (b # bs) =
     bindk (getk sb) (\<lambda>sb.
     bindk (bread dev (BBLOCK (of_nat b) sb)) (\<lambda>bp.
     bindk (getk (\<lambda>s. bdata (buf_at s bp))) (\<lambda>d.
     case find_index (bit_free d) [0..<min BPB (unat (sb_size sb) - b)] of
       Some bi \<Rightarrow>
         thenk (modk (upd_buf bp (\<lambda>k. k\<lparr>bdata := (bdata k)[bi div 8 := bdata k ! (bi div 8) OR bit_mask bi]\<rparr>)))
        (thenk (log_write bp)
        (thenk (brelse bp)
        (thenk (bzero dev (of_nat (b + bi)))
         (retk (of_nat (b + bi))))))
     | None \<Rightarrow> thenk (brelse bp) (balloc_loop dev bs))))"

definition balloc :: "uint \<Rightarrow> ('z kfs_scheme, uint) kop" where
  "balloc dev =
     bindk (getk sb) (\<lambda>sb.
     balloc_loop dev (map (\<lambda>k. k * BPB) [0..<(unat (sb_size sb) + BPB - 1) div BPB]))"

definition bfree :: "uint \<Rightarrow> uint \<Rightarrow> ('z kfs_scheme, unit) kop" where
  "bfree dev b =
     bindk (getk sb) (\<lambda>sb.
     bindk (bread dev (BBLOCK b sb)) (\<lambda>bp.
     let bi = unat b mod BPB in
     bindk (getk (\<lambda>s. bdata (buf_at s bp))) (\<lambda>d.
     if bit_free d bi then panic ''freeing free block''
     else
      thenk (modk (upd_buf bp (\<lambda>k. k\<lparr>bdata := (bdata k)[bi div 8 := bdata k ! (bi div 8) AND NOT (bit_mask bi)]\<rparr>)))
     (thenk (log_write bp)
      (brelse bp)))))"

section \<open>Inodes\<close>

definition iinit :: "uint \<Rightarrow> ('z kfs_scheme, unit) kop" where
  "iinit dev =
     thenk (initlock IcacheLock ''icache'')
    (thenk (foreach [0..<NINODE] (\<lambda>i. initsleeplock (InodeSl i) ''inode''))
     (bindk (readsb dev) (\<lambda>b. modk (\<lambda>s. s\<lparr>sb := b\<rparr>))))"

definition iget :: "uint \<Rightarrow> uint \<Rightarrow> ('z kfs_scheme, nat) kop" where
  "iget dev n =
     thenk (acquire IcacheLock)
    (bindk (getk (\<lambda>s. find_index (\<lambda>ip. 0 < iref ip \<and> idev ip = dev \<and> inum ip = n) (icache s))) (\<lambda>hit.
     case hit of
       Some i \<Rightarrow>
         thenk (modk (upd_inode i (\<lambda>ip. ip\<lparr>iref := iref ip + 1\<rparr>)))
        (thenk (release IcacheLock)
         (retk i))
     | None \<Rightarrow>
         bindk (getk (\<lambda>s. find_index (\<lambda>ip. iref ip = 0) (icache s))) (\<lambda>empty.
         case empty of
           None \<Rightarrow> panic ''iget: no inodes''
         | Some i \<Rightarrow>
             thenk (modk (upd_inode i (\<lambda>ip. ip\<lparr>idev := dev, inum := n, iref := 1, ivalid := False\<rparr>)))
            (thenk (release IcacheLock)
             (retk i)))))"

fun ialloc_loop :: "uint \<Rightarrow> 16 word \<Rightarrow> nat list \<Rightarrow> ('z kfs_scheme, nat) kop" where
  "ialloc_loop dev typ [] = panic ''ialloc: no inodes''"
| "ialloc_loop dev typ (n # ns) =
     bindk (getk sb) (\<lambda>sb.
     bindk (bread dev (IBLOCK (of_nat n) sb)) (\<lambda>bp.
     bindk (getk (\<lambda>s. decode_dinode (drop (dinode_ofs (of_nat n)) (bdata (buf_at s bp))))) (\<lambda>dip.
     if d_type dip = 0 then
       thenk (modk (upd_buf bp (\<lambda>b. b\<lparr>bdata := put_bytes (dinode_ofs (of_nat n))
         (bytes16 typ @ replicate 62 0) (bdata b)\<rparr>)))
      (thenk (log_write bp)
      (thenk (brelse bp)
       (iget dev (of_nat n))))
     else thenk (brelse bp) (ialloc_loop dev typ ns))))"

definition ialloc :: "uint \<Rightarrow> 16 word \<Rightarrow> ('z kfs_scheme, nat) kop" where
  "ialloc dev typ = bindk (getk sb) (\<lambda>sb. ialloc_loop dev typ [1..<unat (sb_ninodes sb)])"

definition iupdate :: "nat \<Rightarrow> ('z kfs_scheme, unit) kop" where
  "iupdate i =
     bindk (getk (\<lambda>s. inode_at s i)) (\<lambda>ip.
     bindk (getk sb) (\<lambda>sb.
     bindk (bread (idev ip) (IBLOCK (inum ip) sb)) (\<lambda>bp.
     thenk (modk (upd_buf bp (\<lambda>b. b\<lparr>bdata := put_bytes (dinode_ofs (inum ip))
       (encode_dinode \<lparr>d_type = itype ip, d_major = imajor ip, d_minor = iminor ip, d_nlink = inlink ip,
          d_size = isize ip, d_addrs = addrs ip\<rparr>) (bdata b)\<rparr>)))
    (thenk (log_write bp)
     (brelse bp)))))"

definition idup :: "nat \<Rightarrow> ('z kfs_scheme, nat) kop" where
  "idup i =
     thenk (acquire IcacheLock)
    (thenk (modk (upd_inode i (\<lambda>ip. ip\<lparr>iref := iref ip + 1\<rparr>)))
    (thenk (release IcacheLock)
     (retk i)))"

definition ilock :: "nat option \<Rightarrow> ('z kfs_scheme, unit) kop" where
  "ilock p =
     (case p of
        None \<Rightarrow> panic ''ilock''
      | Some i \<Rightarrow>
        bindk (getk (\<lambda>s. iref (inode_at s i))) (\<lambda>r.
        if r < 1 then panic ''ilock''
        else thenk (acquiresleep (InodeSl i))
         (bindk (getk (\<lambda>s. inode_at s i)) (\<lambda>ip.
          whenk (\<not> ivalid ip)
           (bindk (getk sb) (\<lambda>sb.
            bindk (bread (idev ip) (IBLOCK (inum ip) sb)) (\<lambda>bp.
            bindk (getk (\<lambda>s. decode_dinode (drop (dinode_ofs (inum ip)) (bdata (buf_at s bp))))) (\<lambda>dip.
            thenk (modk (upd_inode i (\<lambda>ip. ip\<lparr>itype := d_type dip, imajor := d_major dip, iminor := d_minor dip,
              inlink := d_nlink dip, isize := d_size dip, addrs := d_addrs dip\<rparr>)))
           (thenk (brelse bp)
           (thenk (modk (upd_inode i (\<lambda>ip. ip\<lparr>ivalid := True\<rparr>)))
            (bindk (getk (\<lambda>s. itype (inode_at s i))) (\<lambda>t.
             if t = 0 then panic ''ilock: no type'' else retk ()))))))))))))"

definition iunlock :: "nat option \<Rightarrow> ('z kfs_scheme, unit) kop" where
  "iunlock p =
     (case p of
        None \<Rightarrow> panic ''iunlock''
      | Some i \<Rightarrow>
        bindk (holdingsleep (InodeSl i)) (\<lambda>h.
        if \<not> h then panic ''iunlock''
        else bindk (getk (\<lambda>s. iref (inode_at s i))) (\<lambda>r.
        if r < 1 then panic ''iunlock'' else releasesleep (InodeSl i))))"

text \<open>\<^verbatim>\<open>bmap\<close> gives the block of a position, and allocates it where there is none.\<close>

definition bmap :: "nat \<Rightarrow> uint \<Rightarrow> ('z kfs_scheme, uint) kop" where
  "bmap i bn =
     bindk (getk (\<lambda>s. inode_at s i)) (\<lambda>ip.
     if unat bn < NDIRECT then
       let addr = addrs ip ! unat bn in
       if addr = 0 then
         bindk (balloc (idev ip)) (\<lambda>addr.
         thenk (modk (upd_inode i (\<lambda>ip. ip\<lparr>addrs := (addrs ip)[unat bn := addr]\<rparr>))) (retk addr))
       else retk addr
     else
       let k = unat bn - NDIRECT in
       if k < NINDIRECT then
         bindk (if addrs ip ! NDIRECT = 0 then
                  bindk (balloc (idev ip)) (\<lambda>addr.
                  thenk (modk (upd_inode i (\<lambda>ip. ip\<lparr>addrs := (addrs ip)[NDIRECT := addr]\<rparr>))) (retk addr))
                else retk (addrs ip ! NDIRECT)) (\<lambda>addr.
         bindk (bread (idev ip) addr) (\<lambda>bp.
         bindk (getk (\<lambda>s. get32 (bdata (buf_at s bp)) k)) (\<lambda>addr.
         bindk (if addr = 0 then
                  bindk (balloc (idev ip)) (\<lambda>addr.
                  thenk (modk (upd_buf bp (\<lambda>b. b\<lparr>bdata := put32 k addr (bdata b)\<rparr>)))
                 (thenk (log_write bp)
                  (retk addr)))
                else retk addr) (\<lambda>addr.
         thenk (brelse bp) (retk addr)))))
       else panic ''bmap: out of range'')"

definition itrunc :: "nat \<Rightarrow> ('z kfs_scheme, unit) kop" where
  "itrunc i =
     thenk (foreach [0..<NDIRECT] (\<lambda>k.
       bindk (getk (\<lambda>s. inode_at s i)) (\<lambda>ip.
       whenk (addrs ip ! k \<noteq> 0)
        (thenk (bfree (idev ip) (addrs ip ! k))
         (modk (upd_inode i (\<lambda>ip. ip\<lparr>addrs := (addrs ip)[k := 0]\<rparr>)))))))
    (thenk (bindk (getk (\<lambda>s. inode_at s i)) (\<lambda>ip.
       whenk (addrs ip ! NDIRECT \<noteq> 0)
        (bindk (bread (idev ip) (addrs ip ! NDIRECT)) (\<lambda>bp.
         thenk (foreach [0..<NINDIRECT] (\<lambda>j.
           bindk (getk (\<lambda>s. get32 (bdata (buf_at s bp)) j)) (\<lambda>a.
           whenk (a \<noteq> 0) (bfree (idev ip) a))))
        (thenk (brelse bp)
        (thenk (bfree (idev ip) (addrs ip ! NDIRECT))
         (modk (upd_inode i (\<lambda>ip. ip\<lparr>addrs := (addrs ip)[NDIRECT := 0]\<rparr>)))))))))
    (thenk (modk (upd_inode i (\<lambda>ip. ip\<lparr>isize := 0\<rparr>)))
     (iupdate i)))"

definition iput :: "nat \<Rightarrow> ('z kfs_scheme, unit) kop" where
  "iput i =
     thenk (acquiresleep (InodeSl i))
    (thenk (bindk (getk (\<lambda>s. inode_at s i)) (\<lambda>ip.
       whenk (ivalid ip \<and> inlink ip = 0)
        (thenk (acquire IcacheLock)
        (bindk (getk (\<lambda>s. iref (inode_at s i))) (\<lambda>r.
         thenk (release IcacheLock)
         (whenk (r = 1)
          (thenk (itrunc i)
          (thenk (modk (upd_inode i (\<lambda>ip. ip\<lparr>itype := 0\<rparr>)))
          (thenk (iupdate i)
           (modk (upd_inode i (\<lambda>ip. ip\<lparr>ivalid := False\<rparr>))))))))))))
    (thenk (releasesleep (InodeSl i))
    (thenk (acquire IcacheLock)
    (thenk (modk (upd_inode i (\<lambda>ip. ip\<lparr>iref := iref ip - 1\<rparr>)))
     (release IcacheLock)))))"

definition iunlockput :: "nat \<Rightarrow> ('z kfs_scheme, unit) kop" where
  "iunlockput i = thenk (iunlock (Some i)) (iput i)"

record stat =
  st_type :: "16 word"
  st_dev :: uint
  st_ino :: uint
  st_nlink :: "16 word"
  st_size :: uint

definition stati :: "nat \<Rightarrow> ('z kfs_scheme, stat) kop" where
  "stati i = getk (\<lambda>s. let ip = inode_at s i in
     \<lparr>st_type = itype ip, st_dev = idev ip, st_ino = inum ip, st_nlink = inlink ip, st_size = isize ip\<rparr>)"


section \<open>Encoding of inodes\<close>

lemma le16_bytes16 [simp]: "le16 (bytes16 w @ r) = w"
proof -
  have "le16 (bytes16 w @ r) = ucast (ucast w :: 8 word) OR push_bit 8 (ucast (ucast (drop_bit 8 w) :: 8 word))"
    by (simp add: le16_def bytes16_def)
  also have "\<dots> = w" (is "?e = w")
  proof (rule bit_word_eqI)
    fix n assume n: "n < LENGTH(16)"
    consider "n < 8" | "8 \<le> n" "n < 16" using n by fastforce
    then show "bit ?e n = bit w n" by cases (auto simp: bit_simps)
  qed
  finally show ?thesis .
qed

lemma length_bytes16 [simp]: "length (bytes16 w) = 2"
  by (simp add: bytes16_def)

lemma concat_bytes32: "length (concat (map bytes32 ws)) = 4 * length ws"
  and nth_bytes32: "k < length ws \<Longrightarrow> le32 (drop (4 * k) (concat (map bytes32 ws) @ r)) = ws ! k"
proof (induction ws arbitrary: k)
  case (Cons w ws)
  {
    case 1
    then show ?case using Cons by simp
  next
    case 2
    then show ?case using Cons by (cases k) simp_all
  }
qed simp_all

lemma length_encode_dinode: "length (d_addrs d) = 13 \<Longrightarrow> length (encode_dinode d) = 64"
  by (simp add: encode_dinode_def concat_bytes32)

lemma decode_encode_dinode:
  assumes "length (d_addrs d) = 13"
  shows "decode_dinode (encode_dinode d @ r) = d"
proof -
  let ?c = "concat (map bytes32 (d_addrs d))"
  have e: "encode_dinode d @ r = bytes16 (d_type d) @ bytes16 (d_major d) @ bytes16 (d_minor d) @ bytes16 (d_nlink d) @
     bytes32 (d_size d) @ ?c @ r" by (simp add: encode_dinode_def)
  have "map (\<lambda>k. le32 (drop (12 + 4 * k) (encode_dinode d @ r))) [0..<13] = d_addrs d"
  proof (rule nth_equalityI)
    fix k assume "k < length (map (\<lambda>k. le32 (drop (12 + 4 * k) (encode_dinode d @ r))) [0..<13])"
    then have k: "k < 13" by (simp del: upt_rec_numeral)
    have "drop (12 + 4 * k) (encode_dinode d @ r) = drop (4 * k) (?c @ r)" by (simp add: e)
    then show "map (\<lambda>k. le32 (drop (12 + 4 * k) (encode_dinode d @ r))) [0..<13] ! k = d_addrs d ! k"
      using k nth_bytes32 [of k "d_addrs d" r] assms by (simp del: upt_rec_numeral)
  qed (simp add: assms)
  then show ?thesis
    by (simp add: decode_dinode_def e del: upt_rec_numeral)
qed

text \<open>Storing an inode in its block changes no other inode of the block.\<close>

lemma drop_put_bytes: "ofs + length bs \<le> length b \<Longrightarrow> drop ofs (put_bytes ofs bs b) = bs @ drop (ofs + length bs) b"
  by (simp add: put_bytes_def)

lemma decode_dinode_cong:
  assumes "\<And>k. k < 64 \<Longrightarrow> xs ! k = ys ! k" and "64 \<le> length xs" and "64 \<le> length ys"
  shows "decode_dinode xs = decode_dinode ys"
proof -
  have "le32 (drop j xs) = le32 (drop j ys)" if "j + 4 \<le> 64" for j
    using that assms by (simp add: le32_def)
  moreover have "le16 (drop j xs) = le16 (drop j ys)" if "j + 2 \<le> 64" for j
    using that assms by (simp add: le16_def)
  moreover have "le16 xs = le16 ys" using assms by (simp add: le16_def)
  ultimately show ?thesis by (simp add: decode_dinode_def del: upt_rec_numeral)
qed

lemma dinode_ofs_bound: "dinode_ofs n + 64 \<le> BSIZE"
proof -
  have "unat n mod IPB \<le> 7" by (simp add: le_less_Suc_eq less_Suc_eq_le [symmetric])
  then show ?thesis by (simp add: dinode_ofs_def)
qed

lemma slots_apart: "a \<noteq> b \<Longrightarrow> k < 64 \<Longrightarrow> \<not> (64 * b \<le> 64 * a + k \<and> 64 * a + k < 64 * b + 64)"
  for a b k :: nat
  by (cases a b rule: linorder_cases) simp_all

lemma decode_other_dinode:
  assumes "length b = BSIZE" and "length bs = 64" and "dinode_ofs m \<noteq> dinode_ofs n"
  shows "decode_dinode (drop (dinode_ofs m) (put_bytes (dinode_ofs n) bs b)) = decode_dinode (drop (dinode_ofs m) b)"
proof (rule decode_dinode_cong)
  have l: "length (put_bytes (dinode_ofs n) bs b) = BSIZE"
    using dinode_ofs_bound [of n] assms by (simp add: length_put_bytes)
  show "64 \<le> length (drop (dinode_ofs m) (put_bytes (dinode_ofs n) bs b))" "64 \<le> length (drop (dinode_ofs m) b)"
    using dinode_ofs_bound [of m] assms(1) l by simp_all
  fix k :: nat assume k: "k < 64"
  have "unat m mod IPB \<noteq> unat n mod IPB" using assms(3) by (auto simp: dinode_ofs_def)
  then have "\<not> (dinode_ofs n \<le> dinode_ofs m + k \<and> dinode_ofs m + k < dinode_ofs n + 64)"
    unfolding dinode_ofs_def using k by (rule slots_apart)
  then show "drop (dinode_ofs m) (put_bytes (dinode_ofs n) bs b) ! k = drop (dinode_ofs m) b ! k"
    using dinode_ofs_bound [of m] dinode_ofs_bound [of n] k assms l by (auto simp: nth_put_bytes)
qed

section \<open>Inodes reach the disk whole\<close>

definition log_idle :: "'z klog_scheme \<Rightarrow> bool" where
  "log_idle s \<longleftrightarrow> lh_n (log s) = 0 \<and> outstanding (log s) = 0 \<and> \<not> committing (log s) \<and> 1 < sint (lsize (log s)) \<and>
     dirty_blocks s = {} \<and> header_blocks (disk s ! unat (lstart (log s))) = [] \<and>
     length (disk s ! unat (lstart (log s))) = BSIZE"

definition dinode_of :: "inode \<Rightarrow> dinode" where
  "dinode_of ip = \<lparr>d_type = itype ip, d_major = imajor ip, d_minor = iminor ip, d_nlink = inlink ip,
     d_size = isize ip, d_addrs = addrs ip\<rparr>"

lemma iupdate_change:
  assumes "inode_at s i = ip" and "idev ip = 1"
  shows "iupdate i s = change_block (IBLOCK (inum ip) (sb s)) (put_bytes (dinode_ofs (inum ip)) (encode_dinode (dinode_of ip))) s"
  using assms by (simp add: iupdate_def change_block_def bindk_getk dinode_of_def)

lemma upd_log_kfs [simp]: "inode_at (upd_log f s) i = inode_at s i" "sb (upd_log f s) = sb s"
  by (simp_all add: upd_log_def inode_at_def)

text \<open>
  C10. Writing an inode in a transaction of its own: \<^verbatim>\<open>begin_op\<close>, \<^verbatim>\<open>iupdate\<close> and \<^verbatim>\<open>end_op\<close> return; the inode read back from
  the disk is the inode in memory, every other inode of the block and every other block outside the log is as before;
  the log is idle again, its header on the disk erased, so that the next transaction can start from the same conditions;
  and after a crash at any point the recovered disk has all data blocks as before or all as after.
\<close>

theorem iupdate_transaction:
  fixes s :: "'z kfs_scheme"
  assumes ow: "owned c p {} s" and idle: "log_idle s" and ip: "inode_at s i = ip" "idev ip = 1" "length (addrs ip) = 13"
    and b: "b = IBLOCK (inum ip) (sb s)" "length (disk s ! unat b) = BSIZE" and fit: "log_fits (log s) (length (disk s)) [b]"
  shows "\<exists>t hs. thenk begin_op (thenk (iupdate i) end_op) s = Ret () t \<and> owned c p {} t \<and> log_idle t \<and>
    header_blocks (disk t ! unat (lstart (log s))) = [] \<and>
    decode_dinode (drop (dinode_ofs (inum ip)) (disk t ! unat b)) = dinode_of ip \<and>
    (\<forall>n. dinode_ofs n \<noteq> dinode_ofs (inum ip) \<longrightarrow>
       decode_dinode (drop (dinode_ofs n) (disk t ! unat b)) = decode_dinode (drop (dinode_ofs n) (disk s ! unat b))) \<and>
    data_is (log s) (disk t) ((\<lambda>x. disk s ! unat x)(b := disk t ! unat b)) \<and> dhist t = hs @ dhist s \<and>
    (\<forall>d\<in>set (disk t # hs). data_is (log s) (recovered (lstart (log s)) d) (\<lambda>x. disk s ! unat x) \<or>
       data_is (log s) (recovered (lstart (log s)) d) ((\<lambda>x. disk s ! unat x)(b := disk t ! unat b)))"
proof -
  let ?old = "\<lambda>x. disk s ! unat x"
  let ?e = "encode_dinode (dinode_of ip)" and ?o = "dinode_ofs (inum ip)"
  let ?f = "put_bytes ?o ?e"
  have le: "length ?e = 64" using ip(3) by (simp add: length_encode_dinode dinode_of_def)
  have b64: "?o + length ?e \<le> length (disk s ! unat b)" using dinode_ofs_bound [of "inum ip"] le b(2) by simp
  obtain t before after where run: "thenk begin_op (thenk (change_block b ?f) end_op) s = Ret () t"
    and t: "data_is (log s) (disk t) (?old(b := ?f (?old b)))" "dhist t = after @ before @ dhist s"
      "\<forall>d\<in>set before. data_is (log s) (recovered (lstart (log s)) d) ?old"
      "\<forall>d\<in>set (disk t # after). data_is (log s) (recovered (lstart (log s)) d) (?old(b := ?f (?old b)))"
      "length (disk t) = length (disk s)" and idle': "owned c p {} t" "log_idle t" "header_blocks (disk t ! unat (lstart (log s))) = []"
    using one_block_transaction [OF ow _ _ _ _ _ fit, of ?f] idle by (auto simp: log_idle_def)
  have bin: "unat b < length (disk s)" "\<not> in_log (log s) (unat b)" using log_fitsD(6,7) [OF fit, of 0] log_fitsD(7) [OF fit, of b] by auto
  have tb: "disk t ! unat b = ?f (disk s ! unat b)" using data_isD [OF t(1)] bin t(5) by simp
  have "begin_op s = Ret () (upd_log (\<lambda>l. l\<lparr>outstanding := outstanding l + 1\<rparr>) s)"
    using idle by (intro begin_op_eq [OF ow]) (simp_all add: log_idle_def)
  then have r: "thenk begin_op (thenk (iupdate i) end_op) s = Ret () t"
    using run ip b iupdate_change [of "upd_log (\<lambda>l. l\<lparr>outstanding := outstanding l + 1\<rparr>) s" i ip]
    by (simp add: thenk_def bindk_def)
  have "decode_dinode (drop ?o (disk t ! unat b)) = dinode_of ip"
    using b64 ip(3) by (simp add: tb drop_put_bytes decode_encode_dinode dinode_of_def)
  moreover have "decode_dinode (drop (dinode_ofs n) (disk t ! unat b)) = decode_dinode (drop (dinode_ofs n) (disk s ! unat b))"
    if "dinode_ofs n \<noteq> ?o" for n using that b(2) le by (simp add: tb decode_other_dinode)
  ultimately show ?thesis using r t(1-4) tb idle' by (intro exI [of _ t] exI [of _ "after @ before"]) auto
qed

text \<open>A file system for the witnesses: one inode in memory, the block of the cache given.\<close>

definition demo_fs :: "block list \<Rightarrow> buf \<Rightarrow> int \<Rightarrow> inode \<Rightarrow> kfs" where
  "demo_fs d b n ip = klog.extend (demo_log d b (demo_logrec [] n))
     \<lparr>sb = \<lparr>sb_size = 64, sb_nblocks = 20, sb_ninodes = 8, sb_nlog = 30, sb_logstart = 2, sb_inodestart = 40, sb_bmapstart = 41\<rparr>,
      icache = [ip]\<rparr>"

lemma demo_fs_simps [simp]:
  "owned c i H (demo_fs d b n ip) = owned c i H (demo_bio d b)" "volume_of (demo_fs d b n ip) = volume_of (demo_bio d b)"
  "log (demo_fs d b n ip) = demo_logrec [] n" "inode_at (demo_fs d b n ip) 0 = ip"
  "disk (demo_fs d b n ip) = d" "dirty_blocks (demo_fs d b n ip) = dirty_blocks (demo_bio d b)"
  "sb (demo_fs d b n ip) = \<lparr>sb_size = 64, sb_nblocks = 20, sb_ninodes = 8, sb_nlog = 30, sb_logstart = 2, sb_inodestart = 40,
     sb_bmapstart = 41\<rparr>"
proof -
  have "kbio.truncate (demo_fs d b n ip) = kbio.truncate (demo_log d b (demo_logrec [] n))"
    by (simp add: demo_fs_def klog.defs kbio.defs)
  note ol = owned_layer [OF this]
  show "owned c i H (demo_fs d b n ip) = owned c i H (demo_bio d b)" by (simp add: ol)
  show v: "volume_of (demo_fs d b n ip) = volume_of (demo_bio d b)" by (simp add: ol)
  show "disk (demo_fs d b n ip) = d" "dirty_blocks (demo_fs d b n ip) = dirty_blocks (demo_bio d b)"
    using volume_eqD [OF v, unfolded log_disk_facts] by simp_all
qed (simp_all add: demo_fs_def inode_at_def klog.defs)

theorem iupdate_transaction_witness:
  "\<exists>t. thenk begin_op (thenk (iupdate 0) end_op) (demo_fs (replicate 64 zeros)
       \<lparr>bvalid = True, bdirty = False, bdev = 1, blockno = 40, refcnt = 0, bdata = zeros\<rparr> 0
       \<lparr>idev = 1, inum = 3, iref = 1, ivalid = True, itype = T_FILE, imajor = 0, iminor = 0, inlink = 1, isize = 100,
        addrs = 50 # replicate 12 0\<rparr>) = Ret () t \<and>
     d_size (decode_dinode (drop 192 (disk t ! 40))) = 100"
proof -
  let ?ip = "\<lparr>idev = 1, inum = 3, iref = 1, ivalid = True, itype = T_FILE, imajor = 0, iminor = 0, inlink = 1, isize = 100,
        addrs = 50 # replicate 12 0\<rparr>"
  let ?s = "demo_fs (replicate 64 zeros)
       \<lparr>bvalid = True, bdirty = False, bdev = 1, blockno = 40, refcnt = 0, bdata = zeros\<rparr> 0 ?ip"
  have ow: "owned 0 0 {} ?s" by (simp add: demo_owned)
  have idle: "log_idle ?s" using zeros_header by (simp add: log_idle_def demo_dirty)
  have b: "(40 :: uint) = IBLOCK (inum ?ip) (sb ?s)" "dinode_ofs (inum ?ip) = 192" by (simp_all add: IBLOCK_def dinode_ofs_def)
  have fit: "log_fits (log ?s) (length (disk ?s)) [40]" by (auto intro!: demo_fits)
  show ?thesis using iupdate_transaction [OF ow idle _ _ _ b(1) _ fit, of 0] b(2) by (auto simp: dinode_of_def)
qed

section \<open>The bitmap of free blocks\<close>

lemma bit_free_iff: "bit_free d bi \<longleftrightarrow> \<not> bit (d ! (bi div 8)) (bi mod 8)"
  by (simp add: bit_free_def bit_mask_def bit_iff_and_push_bit_not_eq_0)

lemma bit_free_set:
  assumes "bi < 8 * length d" and "j < 8 * length d"
  shows "bit_free (d[bi div 8 := d ! (bi div 8) OR bit_mask bi]) j \<longleftrightarrow> bit_free d j \<and> j \<noteq> bi"
proof -
  have l: "bi div 8 < length d" using assms(1) by (simp add: less_mult_imp_div_less mult.commute)
  have m: "bi mod 8 < 8" "j mod 8 < 8" by simp_all
  have e: "j = bi \<longleftrightarrow> j div 8 = bi div 8 \<and> j mod 8 = bi mod 8" by (metis div_mult_mod_eq)
  show ?thesis
  proof (cases "j div 8 = bi div 8")
    case True
    then show ?thesis using l m e by (auto simp: bit_free_iff bit_mask_def bit_simps)
  next
    case False
    then show ?thesis using e by (auto simp: bit_free_iff)
  qed
qed

lemma bit_free_clear:
  assumes "bi < 8 * length d" and "j < 8 * length d"
  shows "bit_free (d[bi div 8 := d ! (bi div 8) AND NOT (bit_mask bi)]) j \<longleftrightarrow> bit_free d j \<or> j = bi"
proof -
  have l: "bi div 8 < length d" using assms(1) by (simp add: less_mult_imp_div_less mult.commute)
  have m: "bi mod 8 < 8" "j mod 8 < 8" by simp_all
  have e: "j = bi \<longleftrightarrow> j div 8 = bi div 8 \<and> j mod 8 = bi mod 8" by (metis div_mult_mod_eq)
  show ?thesis
  proof (cases "j div 8 = bi div 8")
    case True
    then show ?thesis using l m e by (auto simp: bit_free_iff bit_mask_def bit_simps)
  next
    case False
    then show ?thesis using e by (auto simp: bit_free_iff)
  qed
qed

text \<open>Inside a transaction with room for \<open>n\<close> more blocks.\<close>

definition in_txn :: "nat \<Rightarrow> nat \<Rightarrow> nat \<Rightarrow> 'z kfs_scheme \<Rightarrow> bool" where
  "in_txn n c i s \<longleftrightarrow> owned c i {} s \<and> txn_ok s \<and> lh_n (log s) + n \<le> LOGSIZE - 1 \<and>
     int (lh_n (log s) + n) \<le> sint (lsize (log s)) - 1 \<and> 1 \<le> outstanding (log s)"

lemma fs_of_more: "klog.more t = klog.more s \<Longrightarrow> sb t = sb s \<and> icache t = icache s"
  for s t :: "'z kfs_scheme"
  by (cases s, cases t) simp

lemma lh_n_log_enter: "lh_n (log_enter b l) \<le> Suc (lh_n l)"
  by (simp add: log_enter_def Let_def)

lemma in_txn_change:
  fixes s :: "'z kfs_scheme"
  assumes tx: "in_txn (Suc n) c i s" and b: "unat b < length (disk s)"
  shows "\<exists>t. change_block b f s = Ret () t \<and> in_txn n c i t \<and> volume_of t = vmark b (vput b (f (view s b)) (volume_of s)) \<and>
    sb t = sb s \<and> icache t = icache s"
proof -
  have l: "length (logged s) = lh_n (log s)" using tx by (simp add: in_txn_def txn_ok_def logged_def)
  have "card (dirty_blocks s) \<le> lh_n (log s)"
    using card_length [of "logged s"] l tx by (simp add: in_txn_def txn_ok_def)
  then have "card (dirty_blocks s) < NBUF" using tx by (simp add: in_txn_def)
  then obtain t where t: "change_block b f s = Ret () t" "owned c i {} t" "txn_ok t" "log t = log_enter b (log s)"
      "volume_of t = vmark b (vput b (f (view s b)) (volume_of s))" "klog.more t = klog.more s"
    using change_block_volume [of c i s b f] tx b by (auto simp: in_txn_def)
  then show ?thesis using fs_of_more [OF t(6)] tx lh_n_log_enter [of b "log s"] by (auto simp: in_txn_def log_fits_fields)
qed

definition free_block :: "'z kfs_scheme \<Rightarrow> nat \<Rightarrow> bool" where
  "free_block s n \<longleftrightarrow> bit_free (view s (BBLOCK (of_nat n) (sb s))) (n mod BPB)"

text \<open>The bitmap is on the disk, in blocks of full size.\<close>

definition bitmap_ok :: "'z kfs_scheme \<Rightarrow> bool" where
  "bitmap_ok s \<longleftrightarrow> (\<forall>n<unat (sb_size (sb s)). unat (BBLOCK (of_nat n) (sb s)) < length (disk s) \<and>
     length (view s (BBLOCK (of_nat n) (sb s))) = BSIZE)"

lemma find_index_upt:
  assumes "j < m" and "P j" and "\<And>i. i < j \<Longrightarrow> \<not> P i"
  shows "find_index P [0..<m] = Some j"
proof -
  obtain i where i: "find_index P [0..<m] = Some i" using find_index_exists [of j "[0..<m]" P] assms(1,2) by auto
  have "i < m" "P i" "\<forall>k<i. \<not> P k" using find_index_Some [OF i] by auto
  then have "i = j" using assms by (metis linorder_neqE_nat)
  then show ?thesis using i by simp
qed

lemma BBLOCK_group:
  assumes "n < 2 ^ 32"
  shows "BBLOCK (of_nat n) b = BBLOCK (of_nat (n div BPB * BPB)) b"
proof -
  have dv: "(of_nat m :: uint) div 4096 = of_nat (m div 4096)" if "m < 2 ^ 32" for m
    using that by (simp add: word_arith_nat_div unat_of_nat)
  have "n div BPB * BPB < 2 ^ 32" using assms by (metis div_times_less_eq_dividend le_less_trans)
  then show ?thesis unfolding BBLOCK_def using dv [OF assms] dv [of "n div BPB * BPB"] by (simp only: div_mult_self_is_m)
qed

text \<open>Once a bit is found, the rest of \<^verbatim>\<open>balloc\<close> is two changes of blocks.\<close>

lemma balloc_found:
  fixes s :: "'z kfs_scheme"
  assumes ow: "owned c i {} s" and b: "unat (BBLOCK (of_nat b) (sb s)) < length (disk s)" and room: "card (dirty_blocks s) < NBUF"
    and f: "find_index (bit_free (view s (BBLOCK (of_nat b) (sb s)))) [0..<min BPB (unat (sb_size (sb s)) - b)] = Some bi"
  shows "balloc_loop 1 (b # bs) s = thenk (change_block (BBLOCK (of_nat b) (sb s)) (\<lambda>d. d[bi div 8 := d ! (bi div 8) OR bit_mask bi]))
    (thenk (change_block (of_nat (b + bi)) (\<lambda>_. replicate BSIZE 0)) (retk (of_nat (b + bi)))) s"
proof -
  obtain k t where t: "bread 1 (BBLOCK (of_nat b) (sb s)) s = Ret k t" "bdata (buf_at t k) = view s (BBLOCK (of_nat b) (sb s))"
    using bcache.look_block [OF ow] b room by (fastforce simp: log_disk_facts)
  have z: "bzero 1 x = change_block x (\<lambda>_. replicate BSIZE 0)" for x
    by (simp add: bzero_def change_block_def)
  show ?thesis using t f
    by (simp add: change_block_def [of "BBLOCK _ _"] bindk_getk bindk_Ret z thenk_assoc)
qed

lemma balloc_skip:
  fixes s :: "'z kfs_scheme"
  assumes ow: "owned c i {} s" and b: "unat (BBLOCK (of_nat b) (sb s)) < length (disk s)" and room: "card (dirty_blocks s) < NBUF"
    and f: "find_index (bit_free (view s (BBLOCK (of_nat b) (sb s)))) [0..<min BPB (unat (sb_size (sb s)) - b)] = None"
  shows "\<exists>t. balloc_loop 1 (b # bs) s = balloc_loop 1 bs t \<and> owned c i {} t \<and> volume_of t = volume_of s \<and> kbio.more t = kbio.more s"
proof -
  obtain k t where t: "bread 1 (BBLOCK (of_nat b) (sb s)) s = Ret k t" "bdata (buf_at t k) = view s (BBLOCK (of_nat b) (sb s))"
      "owned c i {k} t" "volume_of t = volume_of s" "kbio.more t = kbio.more s" "blk t k = BBLOCK (of_nat b) (sb s)"
    using bcache.look_block [OF ow] b room by (fastforce simp: log_disk_facts)
  obtain u where u: "brelse k t = Ret () u" "owned c i {} u" "volume_of u = volume_of s" "kbio.more u = kbio.more t"
    using bcache.unlook_block [OF ow t(3,4,6)] by auto
  have "balloc_loop 1 (b # bs) s = balloc_loop 1 bs u"
    using t(1,2) u(1) f by (simp add: bindk_getk bindk_Ret thenk_Ret)
  then show ?thesis using u t(5) by auto
qed

lemma of_nat_block: "n < unat (w :: uint) \<Longrightarrow> n < 2 ^ 32 \<and> unat (of_nat n :: uint) = n"
proof -
  assume "n < unat w"
  moreover have "unat w < 2 ^ 32" using unsigned_less [of w] by simp
  ultimately have "n < 2 ^ 32" by simp
  then show ?thesis by (simp add: unat_of_nat)
qed

lemma volume_fs:
  assumes "volume_of t = volume_of s" and "kbio.more t = kbio.more s"
  shows "disk t = disk s" "dirty_blocks t = dirty_blocks s" "view t = view s" "sb t = sb s" "log t = log s"
    "free_block t = free_block s" "bitmap_ok t = bitmap_ok s"
proof -
  show e: "disk t = disk s" "dirty_blocks t = dirty_blocks s" "view t = view s"
    using volume_eqD [OF assms(1), unfolded log_disk_facts] by simp_all
  show "log t = log s" by (rule log_of_more [OF assms(2)])
  show sb: "sb t = sb s" using fs_of_more [OF more_of_more [OF assms(2)]] by simp
  show "free_block t = free_block s" "bitmap_ok t = bitmap_ok s"
    using e sb by (simp_all add: free_block_def bitmap_ok_def fun_eq_iff)
qed

lemma in_txn_room: "in_txn n c i s \<Longrightarrow> card (dirty_blocks s) < NBUF"
  using card_length [of "logged s"] by (simp add: in_txn_def txn_ok_def logged_def)

text \<open>A group of blocks without a free one is passed over.\<close>

lemma balloc_group_full:
  fixes s :: "'z kfs_scheme"
  assumes ok: "bitmap_ok s" and tx: "in_txn n c i s" and k: "k * BPB < unat (sb_size (sb s))"
    and nf: "\<And>m. m < unat (sb_size (sb s)) \<Longrightarrow> m div BPB = k \<Longrightarrow> \<not> free_block s m"
  shows "\<exists>t. balloc_loop 1 (k * BPB # bs) s = balloc_loop 1 bs t \<and> in_txn n c i t \<and> volume_of t = volume_of s \<and> kbio.more t = kbio.more s"
proof -
  let ?nb = "unat (sb_size (sb s))" and ?B = "BBLOCK (of_nat (k * BPB)) (sb s)"
  have "\<not> bit_free (view s ?B) j" if j: "j < min BPB (?nb - k * BPB)" for j
  proof -
    have "j < BPB" "j < ?nb - k * BPB" using j by simp_all
    then have m: "k * BPB + j < ?nb" "(k * BPB + j) div BPB = k" "(k * BPB + j) mod BPB = j" by (linarith, simp_all)
    then show ?thesis
      using nf [OF m(1,2)] BBLOCK_group [of "k * BPB + j" "sb s"] of_nat_block [OF m(1)] by (simp add: free_block_def)
  qed
  then have f: "find_index (bit_free (view s ?B)) [0..<min BPB (?nb - k * BPB)] = None"
    by (simp add: find_index_None)
  have b: "unat ?B < length (disk s)" using ok k unfolding bitmap_ok_def by blast
  obtain u where u: "balloc_loop 1 (k * BPB # bs) s = balloc_loop 1 bs u" "owned c i {} u" "volume_of u = volume_of s"
      "kbio.more u = kbio.more s"
    using balloc_skip [OF _ b in_txn_room [OF tx] f] tx by (fastforce simp: in_txn_def)
  then have "in_txn n c i u" using tx volume_fs [OF u(3,4)] by (simp add: in_txn_def txn_ok_def logged_def)
  then show ?thesis using u by blast
qed

lemma balloc_loop_full:
  fixes s :: "'z kfs_scheme"
  assumes "bitmap_ok s" and "in_txn n c i s" and "\<And>m. m < unat (sb_size (sb s)) \<Longrightarrow> \<not> free_block s m"
    and "\<forall>k\<in>set ks. k * BPB < unat (sb_size (sb s))"
  shows "balloc_loop 1 (map (\<lambda>k. k * BPB) ks) s = Stop (Panic ''balloc: out of blocks'')"
  using assms
proof (induction ks arbitrary: s)
  case Nil
  then show ?case by (simp add: panic_def stopk_def)
next
  case (Cons k ks)
  obtain u where u: "balloc_loop 1 (k * BPB # map (\<lambda>k. k * BPB) ks) s = balloc_loop 1 (map (\<lambda>k. k * BPB) ks) u"
      "in_txn n c i u" "volume_of u = volume_of s" "kbio.more u = kbio.more s"
    using balloc_group_full [OF Cons.prems(1,2), of k] Cons.prems(3,4) by fastforce
  note e = volume_fs [OF u(3,4)]
  have "balloc_loop 1 (map (\<lambda>k. k * BPB) ks) u = Stop (Panic ''balloc: out of blocks'')"
    using Cons.prems u(2) e by (intro Cons.IH) simp_all
  then show ?case using u(1) by simp
qed

lemma balloc_loop_first:
  fixes s :: "'z kfs_scheme"
  assumes ok: "bitmap_ok s" and tx: "in_txn n c i s" and n0: "n0 < unat (sb_size (sb s))" "free_block s n0" "\<And>m. m < n0 \<Longrightarrow> \<not> free_block s m"
    and k: "k \<le> n0 div BPB" "n0 div BPB < K"
  shows "\<exists>t. volume_of t = volume_of s \<and> kbio.more t = kbio.more s \<and> in_txn n c i t \<and>
    balloc_loop 1 (map (\<lambda>k. k * BPB) [k..<K]) s = thenk (change_block (BBLOCK (of_nat n0) (sb s))
      (\<lambda>d. d[n0 mod BPB div 8 := d ! (n0 mod BPB div 8) OR bit_mask (n0 mod BPB)]))
      (thenk (change_block (of_nat n0) (\<lambda>_. replicate BSIZE 0)) (retk (of_nat n0))) t"
  using assms
proof (induction "n0 div BPB - k" arbitrary: k s)
  case 0
  let ?nb = "unat (sb_size (sb s))"
  have k: "k = n0 div BPB" using 0 by simp
  have g: "BBLOCK (of_nat (k * BPB)) (sb s) = BBLOCK (of_nat n0) (sb s)"
    using BBLOCK_group [of n0 "sb s"] of_nat_block [OF 0(4)] k by simp
  have kb: "k * BPB + n0 mod BPB = n0" using k by simp
  have "\<not> bit_free (view s (BBLOCK (of_nat n0) (sb s))) j" if j: "j < n0 mod BPB" for j
  proof -
    have "k * BPB + j < n0" using kb j by simp
    moreover have "(k * BPB + j) div BPB = k" "(k * BPB + j) mod BPB = j" using j by simp_all
    moreover have "k * BPB + j < 2 ^ 32" using calculation(1) of_nat_block [OF 0(4)] by simp
    ultimately show ?thesis
      using 0(6) [of "k * BPB + j"] BBLOCK_group [of "k * BPB + j" "sb s"] g by (simp add: free_block_def)
  qed
  then have f: "find_index (bit_free (view s (BBLOCK (of_nat (k * BPB)) (sb s)))) [0..<min BPB (?nb - k * BPB)] = Some (n0 mod BPB)"
    using 0(4,5) kb g by (intro find_index_upt) (auto simp: free_block_def)
  have up: "[k..<K] = k # [Suc k..<K]" using 0(7,8) k by (simp add: upt_conv_Cons)
  have "unat (BBLOCK (of_nat (k * BPB)) (sb s)) < length (disk s)" using 0(2,4) g by (simp add: bitmap_ok_def)
  from balloc_found [OF _ this in_txn_room [OF 0(3)] f, of c i] show ?case
    using 0(3) g kb up by (intro exI [of _ s]) (simp add: in_txn_def)
next
  case (Suc x)
  let ?nb = "unat (sb_size (sb s))"
  have k: "Suc k \<le> n0 div BPB" using Suc(2) by simp
  have kn: "k * BPB + BPB \<le> n0" using mult_le_mono1 [OF k, of BPB] div_times_less_eq_dividend [of n0 BPB] by simp
  have up: "[k..<K] = k # [Suc k..<K]" using k Suc(9) by (simp add: upt_conv_Cons)
  have "m < n0" if "m div BPB = k" for m
    using that k by (metis Suc_le_lessD div_le_mono not_le)
  then obtain u where
    u: "balloc_loop 1 (k * BPB # map (\<lambda>k. k * BPB) [Suc k..<K]) s = balloc_loop 1 (map (\<lambda>k. k * BPB) [Suc k..<K]) u"
      "in_txn n c i u" "volume_of u = volume_of s" "kbio.more u = kbio.more s"
    using balloc_group_full [OF Suc(3,4), of k] kn Suc(5,7) by fastforce
  note e = volume_fs [OF u(3,4)]
  have "\<exists>t. volume_of t = volume_of u \<and> kbio.more t = kbio.more u \<and> in_txn n c i t \<and>
    balloc_loop 1 (map (\<lambda>k. k * BPB) [Suc k..<K]) u = thenk (change_block (BBLOCK (of_nat n0) (sb u))
      (\<lambda>d. d[n0 mod BPB div 8 := d ! (n0 mod BPB div 8) OR bit_mask (n0 mod BPB)]))
      (thenk (change_block (of_nat n0) (\<lambda>_. replicate BSIZE 0)) (retk (of_nat n0))) t"
    using Suc k e u(2) by (intro Suc(1)) simp_all
  then show ?case using u up e by simp
qed

lemma bitmap_change:
  fixes s :: "'z kfs_scheme"
  assumes v: "view t = (view s)(B := f (view s B))" and sb: "sb t = sb s" and B: "B = BBLOCK (of_nat n0) (sb s)"
    and n0: "n0 < unat (sb_size (sb s))" and ok: "bitmap_ok s"
    and f: "\<And>j. j < 8 * BSIZE \<Longrightarrow> bit_free (f (view s B)) j = P (bit_free (view s B) j) (j = n0 mod BPB)"
    and id: "\<And>x. P x False = x" and m: "m < unat (sb_size (sb s))"
  shows "free_block t m = P (free_block s m) (m = n0)"
proof (cases "BBLOCK (of_nat m) (sb s) = B")
  case True
  have l: "of_nat m div 4096 = (of_nat n0 div 4096 :: uint)" using True B by (simp add: BBLOCK_def)
  have "unat (of_nat m div 4096 :: uint) = m div 4096" "unat (of_nat n0 div 4096 :: uint) = n0 div 4096"
    using of_nat_block [OF m] of_nat_block [OF n0] by (simp_all add: unat_div)
  then have "m div BPB = n0 div BPB" using l by simp
  then have "m = n0 \<longleftrightarrow> m mod BPB = n0 mod BPB" by (metis div_mult_mod_eq)
  then show ?thesis using True v sb f [of "m mod BPB"] by (simp add: free_block_def)
next
  case False
  then have "m \<noteq> n0" using B by auto
  then show ?thesis using False v sb id by (simp add: free_block_def)
qed

definition demo_bitmap :: block where
  "demo_bitmap = replicate 5 255 @ 3 # replicate 506 0"

definition demo_alloc :: kfs where
  "demo_alloc = demo_fs ((replicate 64 zeros)[41 := demo_bitmap])
     \<lparr>bvalid = True, bdirty = False, bdev = 1, blockno = 50, refcnt = 0, bdata = zeros\<rparr> 1
     \<lparr>idev = 1, inum = 3, iref = 1, ivalid = True, itype = T_FILE, imajor = 0, iminor = 0, inlink = 1, isize = 0,
      addrs = replicate 13 0\<rparr>"

lemma demo_alloc_facts:
  shows "in_txn 2 0 0 demo_alloc" "in_txn 1 0 0 demo_alloc" "bitmap_ok demo_alloc" "unat (sb_size (sb demo_alloc)) = 64"
    "m < 64 \<Longrightarrow> free_block demo_alloc m = (42 \<le> m)" "m < 64 \<Longrightarrow> BBLOCK (of_nat m) (sb demo_alloc) = 41"
    "length (disk demo_alloc) = 64"
proof -
  have ow: "owned 0 0 {} demo_alloc" by (simp add: demo_alloc_def demo_owned)
  have dirty: "dirty_blocks demo_alloc = {}" by (simp add: demo_alloc_def demo_dirty)
  have vw: "view demo_alloc 41 = demo_bitmap" using clean_view [OF ow, of 41] dirty by (simp add: demo_alloc_def)
  show "in_txn 2 0 0 demo_alloc" "in_txn 1 0 0 demo_alloc"
    using ow dirty by (simp_all add: in_txn_def txn_ok_def logged_def) (simp_all add: demo_alloc_def)
  show nb: "unat (sb_size (sb demo_alloc)) = 64" and ld: "length (disk demo_alloc) = 64" by (simp_all add: demo_alloc_def)
  have B: "BBLOCK (of_nat m) (sb demo_alloc) = 41" if "m < 64" for m
  proof -
    have "(of_nat m :: uint) div 4096 = of_nat (m div 4096)" using that by (simp add: word_arith_nat_div unat_of_nat)
    then show ?thesis using that by (simp add: BBLOCK_def demo_alloc_def)
  qed
  then show "m < 64 \<Longrightarrow> BBLOCK (of_nat m) (sb demo_alloc) = 41" .
  show "bitmap_ok demo_alloc" using B vw ld nb by (simp add: bitmap_ok_def demo_bitmap_def)
  show "free_block demo_alloc m = (42 \<le> m)" if m: "m < 64"
  proof -
    have f: "free_block demo_alloc m = (\<not> bit (demo_bitmap ! (m div 8)) (m mod 8))"
      using m B vw by (simp add: free_block_def bit_free_iff)
    have m1: "(255 :: uchar) = - 1" by simp
    have "m div 8 < 8" using m by simp
    consider "m < 40" | "m = 40" | "m = 41" | "42 \<le> m" "m < 48" | "48 \<le> m" by linarith
    then show ?thesis
    proof cases
      case 1
      then have "m div 8 < 5" by simp
      then have "demo_bitmap ! (m div 8) = - 1" by (simp add: demo_bitmap_def nth_append m1 [symmetric])
      then show ?thesis using f 1 by simp
    next
      case 4
      then have d: "m div 8 = 5" by simp
      moreover have "2 \<le> m mod 8" using 4 d by presburger
      moreover have "\<not> bit (3 :: uchar) k" if "2 \<le> k" for k
        using that bit_mask_iff [where 'a = "8 word", of 2 k] by (simp add: mask_eq_exp_minus_1)
      ultimately show ?thesis using f 4 by (simp add: demo_bitmap_def nth_append)
    next
      case 5
      then have "6 \<le> m div 8" by simp
      then show ?thesis using f 5 \<open>m div 8 < 8\<close> by (simp add: demo_bitmap_def nth_append nth_Cons')
    qed (use f in \<open>simp_all add: demo_bitmap_def nth_append\<close>)
  qed
qed

lemma balloc_takes:
  fixes s :: "'z kfs_scheme"
  assumes tx: "in_txn 2 c i s" and ok: "bitmap_ok s" and n0: "n0 < unat (sb_size (sb s))" "free_block s n0" "\<forall>m<n0. \<not> free_block s m"
    and d: "n0 < length (disk s)" "\<forall>m<unat (sb_size (sb s)). of_nat n0 \<noteq> BBLOCK (of_nat m) (sb s)"
  shows "\<exists>t. balloc 1 s = Ret (of_nat n0) t \<and> in_txn 0 c i t \<and>
    (\<forall>m<unat (sb_size (sb s)). free_block t m = (free_block s m \<and> m \<noteq> n0)) \<and> view t (of_nat n0) = replicate BSIZE 0 \<and>
    (\<forall>b. b \<noteq> of_nat n0 \<longrightarrow> b \<noteq> BBLOCK (of_nat n0) (sb s) \<longrightarrow> view t b = view s b)"
proof -
  let ?nb = "unat (sb_size (sb s))" and ?B = "BBLOCK (of_nat n0) (sb s)" and ?bi = "n0 mod BPB"
  let ?f = "\<lambda>d. d[?bi div 8 := d ! (?bi div 8) OR bit_mask ?bi]"
  have K: "n0 div BPB < (?nb + BPB - 1) div BPB"
    using n0(1) by (simp add: div_less_iff_less_mult [symmetric] less_Suc_eq_le)
  from balloc_loop_first [OF ok tx n0(1,2) _ _ K, of 0] n0(3) obtain u where
    u: "volume_of u = volume_of s" "kbio.more u = kbio.more s" "in_txn 2 c i u"
    "balloc 1 s = thenk (change_block ?B ?f) (thenk (change_block (of_nat n0) (\<lambda>_. replicate BSIZE 0)) (retk (of_nat n0))) u"
    by (auto simp: balloc_def bindk_getk)
  note e = volume_fs [OF u(1,2)]
  have B: "unat ?B < length (disk s)" "length (view s ?B) = BSIZE" using ok n0(1) by (simp_all add: bitmap_ok_def)
  obtain v where v: "change_block ?B ?f u = Ret () v" "in_txn 1 c i v" "volume_of v = vmark ?B (vput ?B (?f (view u ?B)) (volume_of u))" "sb v = sb u"
    using in_txn_change [of 1 c i u ?B ?f] u(3) B e by (auto simp: numeral_2_eq_2)
  note ev = volume_eqD [OF v(3), unfolded vmark_def vput_def log_disk_facts]
  have w0: "unat (of_nat n0 :: uint) = n0" using of_nat_block [OF n0(1)] by simp
  obtain t where t: "change_block (of_nat n0) (\<lambda>_. replicate BSIZE 0) v = Ret () t" "in_txn 0 c i t"
      "volume_of t = vmark (of_nat n0) (vput (of_nat n0) (replicate BSIZE 0) (volume_of v))" "sb t = sb v"
    using in_txn_change [of 0 c i v "of_nat n0" "\<lambda>_. replicate BSIZE 0"] v(2) d(1) w0 ev e by (auto simp: log_disk_facts)
  note et = volume_eqD [OF t(3), unfolded vmark_def vput_def log_disk_facts]
  have run: "balloc 1 s = Ret (of_nat n0) t" using u(4) v(1) t(1) by (simp add: thenk_Ret retk_def)
  have vv: "view v = (view s)(?B := ?f (view s ?B))" using ev(3) e by (simp add: log_disk_facts)
  have vt: "view t = (view v)(of_nat n0 := replicate BSIZE 0)" using et(3) by (simp add: log_disk_facts)
  have "free_block t m = (free_block s m \<and> m \<noteq> n0)" if m: "m < ?nb" for m
  proof -
    have "free_block t m = free_block v m" using d(2) m vt t(4) v(4) e(4) by (auto simp: free_block_def)
    also have "\<dots> = (free_block s m \<and> m \<noteq> n0)"
      using vv v(4) e(4) B(2) by (intro bitmap_change [OF _ _ refl n0(1) ok _ _ m, of v ?f "\<lambda>x y. x \<and> \<not> y"])
        (simp_all add: bit_free_set)
    finally show ?thesis .
  qed
  then show ?thesis using run t(2) vt vv by auto
qed

text \<open>
  C17. \<^verbatim>\<open>balloc\<close>, inside a transaction with room for two blocks, on a bitmap that has neither a block of the bitmap itself nor
  a block beyond the disk as free. If the bitmap has a free block, the first one is returned; its bit is set and no
  other bit changes, the block is filled with zeros, and the contents of no other block change. If it has none,
  \<^verbatim>\<open>balloc\<close> panics.
\<close>

theorem balloc_first_free:
  fixes s :: "'z kfs_scheme"
  assumes tx: "in_txn 2 c i s" and ok: "bitmap_ok s"
    and d: "\<forall>n<unat (sb_size (sb s)). free_block s n \<longrightarrow>
      n < length (disk s) \<and> (\<forall>m<unat (sb_size (sb s)). of_nat n \<noteq> BBLOCK (of_nat m) (sb s))"
  shows "case find (free_block s) [0..<unat (sb_size (sb s))] of
      Some n0 \<Rightarrow> \<exists>t. balloc 1 s = Ret (of_nat n0) t \<and> in_txn 0 c i t \<and>
        (\<forall>m<unat (sb_size (sb s)). free_block t m = (free_block s m \<and> m \<noteq> n0)) \<and> view t (of_nat n0) = replicate BSIZE 0 \<and>
        (\<forall>b. b \<noteq> of_nat n0 \<longrightarrow> b \<noteq> BBLOCK (of_nat n0) (sb s) \<longrightarrow> view t b = view s b)
    | None \<Rightarrow> balloc 1 s = Stop (Panic ''balloc: out of blocks'')"
proof (cases "find (free_block s) [0..<unat (sb_size (sb s))]")
  case None
  have "\<not> free_block s m" if "m < unat (sb_size (sb s))" for m using None that by (auto simp: find_None_iff)
  moreover have "k * BPB < n" if "k < (n + BPB - 1) div BPB" for k n :: nat
    using that by (simp add: less_eq_div_iff_mult_less_eq flip: Suc_le_eq)
  ultimately show ?thesis
    unfolding None option.case balloc_def using balloc_loop_full [OF ok tx] by (simp add: bindk_getk)
next
  case (Some n0)
  then have "n0 < unat (sb_size (sb s))" "free_block s n0" "\<forall>m<n0. \<not> free_block s m"
    by (auto simp: find_Some_iff)
  then show ?thesis unfolding Some option.case using d by (intro balloc_takes [OF tx ok]) auto
qed

theorem balloc_first_free_witness:
  "\<exists>t. balloc 1 demo_alloc = Ret 42 t \<and> \<not> free_block t 42 \<and> free_block t 43 \<and> view t 42 = replicate BSIZE 0"
proof -
  note f = demo_alloc_facts
  have "find (free_block demo_alloc) [0..<64] = Some 42"
    unfolding find_Some_iff using f(4,5) by (intro exI [of _ 42]) auto
  moreover have "(of_nat n :: uint) \<noteq> 41" if "42 \<le> n" "n < 64" for n
    using that of_nat_block [of n 64] by auto
  ultimately show ?thesis
    using balloc_first_free [OF f(1,3)] f(4-7) by auto
qed

text \<open>
  C18. \<^verbatim>\<open>bfree\<close> of an allocated block clears its bit and no other, and panics on a block that is free already.
\<close>

theorem bfree_frees:
  fixes s :: "'z kfs_scheme"
  assumes tx: "in_txn 1 c i s" and ok: "bitmap_ok s" and b: "unat b < unat (sb_size (sb s))"
  shows "(\<not> free_block s (unat b) \<longrightarrow> (\<exists>t. bfree 1 b s = Ret () t \<and> in_txn 0 c i t \<and>
      (\<forall>m<unat (sb_size (sb s)). free_block t m = (free_block s m \<or> m = unat b)) \<and>
      (\<forall>x. x \<noteq> BBLOCK b (sb s) \<longrightarrow> view t x = view s x))) \<and>
    (free_block s (unat b) \<longrightarrow> bfree 1 b s = Stop (Panic ''freeing free block''))"
proof -
  let ?B = "BBLOCK b (sb s)" and ?bi = "unat b mod BPB"
  let ?f = "\<lambda>d. d[?bi div 8 := d ! (?bi div 8) AND NOT (bit_mask ?bi)]"
  have ow: "owned c i {} s" using tx by (simp add: in_txn_def)
  have w: "BBLOCK (of_nat (unat b)) (sb s) = ?B" by simp
  have B: "unat ?B < length (disk s)" "length (view s ?B) = BSIZE"
    using ok b w unfolding bitmap_ok_def by metis+
  obtain k t1 where r: "bread 1 ?B s = Ret k t1" "bdata (buf_at t1 k) = view s ?B"
    using bcache.look_block [OF ow, of ?B] B(1) in_txn_room [OF tx] by (fastforce simp: log_disk_facts)
  have free: "bfree 1 b s = Stop (Panic ''freeing free block'')" if "free_block s (unat b)"
    using that r by (simp add: bfree_def bindk_getk bindk_Ret free_block_def Let_def panic_def stopk_def)
  have "\<exists>t. bfree 1 b s = Ret () t \<and> in_txn 0 c i t \<and>
      (\<forall>m<unat (sb_size (sb s)). free_block t m = (free_block s m \<or> m = unat b)) \<and> (\<forall>x. x \<noteq> ?B \<longrightarrow> view t x = view s x)"
    if nf: "\<not> free_block s (unat b)"
  proof -
    have e: "bfree 1 b s = change_block ?B ?f s"
      using nf r by (simp add: bfree_def change_block_def bindk_getk bindk_Ret free_block_def Let_def)
    obtain t where t: "change_block ?B ?f s = Ret () t" "in_txn 0 c i t" "volume_of t = vmark ?B (vput ?B (?f (view s ?B)) (volume_of s))" "sb t = sb s"
      using in_txn_change [of 0 c i s ?B ?f] tx B(1) by auto
    have vt: "view t = (view s)(?B := ?f (view s ?B))"
      using volume_eqD(3) [OF t(3)] by (simp add: vmark_def vput_def log_disk_facts)
    have "free_block t m = (free_block s m \<or> m = unat b)" if m: "m < unat (sb_size (sb s))" for m
      using vt t(4) B(2) by (intro bitmap_change [OF _ _ w [symmetric] b ok _ _ m, of t ?f "\<lambda>x y. x \<or> y"])
        (simp_all add: bit_free_clear)
    then show ?thesis using e t vt by auto
  qed
  then show ?thesis using free by blast
qed

theorem bfree_frees_witness:
  "(\<exists>t. bfree 1 40 demo_alloc = Ret () t \<and> free_block t 40 \<and> \<not> free_block t 41) \<and>
   bfree 1 50 demo_alloc = Stop (Panic ''freeing free block'')"
  using bfree_frees [OF demo_alloc_facts(2,3), of 40] bfree_frees [OF demo_alloc_facts(2,3), of 50] demo_alloc_facts(4,5)
  by auto

end
