(* ===== verification/Vm.thy ===== *)
theory Vm
  imports Kalloc
begin

text \<open>
  Page tables: \<^verbatim>\<open>vm.c\<close> without the segment registers and without \<^verbatim>\<open>loaduvm\<close>, which is with the file system.

  Page directories and tables live in the pages of the allocator, as words of kernel memory; a page is named by
  its kernel address. A null pointer is 0. The messages of \<^verbatim>\<open>allocuvm\<close> are not part of the state. Each loop
  over pages has one unit of fuel per page of its range.
\<close>

abbreviation EXTMEM :: uint where "EXTMEM \<equiv> 0x100000"
abbreviation DEVSPACE :: uint where "DEVSPACE \<equiv> 0xFE000000"
abbreviation KERNLINK :: uint where "KERNLINK \<equiv> 0x80100000"

abbreviation PTE_P :: uint where "PTE_P \<equiv> 1"
abbreviation PTE_W :: uint where "PTE_W \<equiv> 2"
abbreviation PTE_U :: uint where "PTE_U \<equiv> 4"

definition PDX :: "uint \<Rightarrow> uint" where
  "PDX va = drop_bit 22 va AND 0x3FF"

definition PTX :: "uint \<Rightarrow> uint" where
  "PTX va = drop_bit 12 va AND 0x3FF"

definition PGADDR :: "uint \<Rightarrow> uint \<Rightarrow> uint \<Rightarrow> uint" where
  "PGADDR d t ofs = push_bit 22 d OR push_bit 12 t OR ofs"

definition PTE_ADDR :: "uint \<Rightarrow> uint" where
  "PTE_ADDR pte = pte AND NOT 0xFFF"

definition PTE_FLAGS :: "uint \<Rightarrow> uint" where
  "PTE_FLAGS pte = pte AND 0xFFF"

definition present :: "uint \<Rightarrow> bool" where
  "present pte \<longleftrightarrow> pte AND PTE_P \<noteq> 0"

abbreviation word_at :: "uint \<Rightarrow> 'z kmem_scheme \<Rightarrow> uint" where
  "word_at a s \<equiv> load32 (kmemory s) a"

definition set_word :: "uint \<Rightarrow> uint \<Rightarrow> ('z kmem_scheme, unit) kop" where
  "set_word a w = modk (\<lambda>s. s\<lparr>kmemory := store32 (kmemory s) a w\<rparr>)"

definition zero_page :: "uint \<Rightarrow> ('z kmem_scheme, unit) kop" where
  "zero_page v = modk (\<lambda>s. s\<lparr>kmemory := memset (kmemory s) v 0 4096\<rparr>)"

section \<open>Operations\<close>

definition walkpgdir :: "uint \<Rightarrow> uint \<Rightarrow> bool \<Rightarrow> ('z kmem_scheme, uint) kop" where
  "walkpgdir pgdir va alloc =
     (let pde = pgdir + 4 * PDX va in
      bindk (getk (word_at pde)) (\<lambda>e.
      if present e then retk (P2V (PTE_ADDR e) + 4 * PTX va)
      else if \<not> alloc then retk 0
      else bindk kalloc (\<lambda>pgtab.
        if pgtab = 0 then retk 0
        else thenk (zero_page pgtab)
          (thenk (set_word pde (V2P pgtab OR PTE_P OR PTE_W OR PTE_U))
           (retk (pgtab + 4 * PTX va))))))"

fun mappages_loop :: "nat \<Rightarrow> uint \<Rightarrow> uint \<Rightarrow> uint \<Rightarrow> uint \<Rightarrow> uint \<Rightarrow> ('z kmem_scheme, int) kop" where
  "mappages_loop 0 pgdir a last' pa perm = stopk (Fault ''fuel'')"
| "mappages_loop (Suc n) pgdir a last' pa perm =
     bindk (walkpgdir pgdir a True) (\<lambda>pte.
     if pte = 0 then retk (-1)
     else bindk (getk (word_at pte)) (\<lambda>e.
       if present e then panic ''remap''
       else thenk (set_word pte (pa OR perm OR PTE_P))
         (if a = last' then retk 0
          else mappages_loop n pgdir (a + PGSIZE) last' (pa + PGSIZE) perm)))"

definition mappages :: "uint \<Rightarrow> uint \<Rightarrow> uint \<Rightarrow> uint \<Rightarrow> uint \<Rightarrow> ('z kmem_scheme, int) kop" where
  "mappages pgdir va sz pa perm =
     (let a = PGROUNDDOWN va; last' = PGROUNDDOWN (va + sz - 1) in
      mappages_loop (Suc (unat (last' - a) div 4096)) pgdir a last' pa perm)"

text \<open>The loop of \<^verbatim>\<open>deallocuvm\<close> skips a whole directory entry where there is no table.\<close>

fun dealloc_loop :: "nat \<Rightarrow> uint \<Rightarrow> uint \<Rightarrow> uint \<Rightarrow> ('z kmem_scheme, unit) kop" where
  "dealloc_loop 0 pgdir a oldsz = (if a < oldsz then stopk (Fault ''fuel'') else retk ())"
| "dealloc_loop (Suc n) pgdir a oldsz =
     (if a < oldsz then
        bindk (walkpgdir pgdir a False) (\<lambda>pte.
        if pte = 0 then dealloc_loop n pgdir (PGADDR (PDX a + 1) 0 0 - PGSIZE + PGSIZE) oldsz
        else bindk (getk (word_at pte)) (\<lambda>e.
          if present e then
            let pa = PTE_ADDR e in
            if pa = 0 then panic ''kfree''
            else thenk (kfree (P2V pa)) (thenk (set_word pte 0) (dealloc_loop n pgdir (a + PGSIZE) oldsz))
          else dealloc_loop n pgdir (a + PGSIZE) oldsz))
      else retk ())"

definition deallocuvm :: "uint \<Rightarrow> uint \<Rightarrow> uint \<Rightarrow> ('z kmem_scheme, uint) kop" where
  "deallocuvm pgdir oldsz newsz =
     (if newsz \<ge> oldsz then retk oldsz
      else let a = PGROUNDUP newsz in
        thenk (dealloc_loop (Suc (unat (oldsz - a) div 4096)) pgdir a oldsz) (retk newsz))"

fun alloc_loop :: "nat \<Rightarrow> uint \<Rightarrow> uint \<Rightarrow> uint \<Rightarrow> uint \<Rightarrow> ('z kmem_scheme, uint) kop" where
  "alloc_loop 0 pgdir a oldsz newsz = (if a < newsz then stopk (Fault ''fuel'') else retk newsz)"
| "alloc_loop (Suc n) pgdir a oldsz newsz =
     (if a < newsz then
        bindk kalloc (\<lambda>mem.
        if mem = 0 then thenk (deallocuvm pgdir newsz oldsz) (retk 0)
        else thenk (zero_page mem)
         (bindk (mappages pgdir a PGSIZE (V2P mem) (PTE_W OR PTE_U)) (\<lambda>r.
          if r < 0 then thenk (deallocuvm pgdir newsz oldsz) (thenk (kfree mem) (retk 0))
          else alloc_loop n pgdir (a + PGSIZE) oldsz newsz)))
      else retk newsz)"

definition allocuvm :: "uint \<Rightarrow> uint \<Rightarrow> uint \<Rightarrow> ('z kmem_scheme, uint) kop" where
  "allocuvm pgdir oldsz newsz =
     (if newsz \<ge> KERNBASE then retk 0
      else if newsz < oldsz then retk oldsz
      else let a = PGROUNDUP oldsz in
        alloc_loop (Suc (unat (newsz - a) div 4096)) pgdir a oldsz newsz)"

definition freevm :: "uint \<Rightarrow> ('z kmem_scheme, unit) kop" where
  "freevm pgdir =
     (if pgdir = 0 then panic ''freevm: no pgdir''
      else thenk (deallocuvm pgdir KERNBASE 0)
       (thenk (foreach [0..<1024] (\<lambda>i.
          bindk (getk (word_at (pgdir + 4 * of_nat i))) (\<lambda>e.
          whenk (present e) (kfree (P2V (PTE_ADDR e))))))
        (kfree pgdir)))"

text \<open>The rows of the table \<^verbatim>\<open>kmap\<close>: virtual address, physical start and end, permissions.\<close>

definition kmap :: "uint \<Rightarrow> (uint \<times> uint \<times> uint \<times> uint) list" where
  "kmap data = [(KERNBASE, 0, EXTMEM, PTE_W), (KERNLINK, V2P KERNLINK, V2P data, 0),
     (data, V2P data, PHYSTOP, PTE_W), (DEVSPACE, DEVSPACE, 0, PTE_W)]"

fun map_rows :: "uint \<Rightarrow> (uint \<times> uint \<times> uint \<times> uint) list \<Rightarrow> ('z kmem_scheme, uint) kop" where
  "map_rows pgdir [] = retk pgdir"
| "map_rows pgdir ((virt, phys_start, phys_end, perm) # ks) =
     bindk (mappages pgdir virt (phys_end - phys_start) phys_start perm) (\<lambda>r.
     if r < 0 then thenk (freevm pgdir) (retk 0) else map_rows pgdir ks)"

definition setupkvm :: "('z kmem_scheme, uint) kop" where
  "setupkvm =
     bindk kalloc (\<lambda>pgdir.
     if pgdir = 0 then retk 0
     else thenk (zero_page pgdir)
       (if P2V PHYSTOP > DEVSPACE then panic ''PHYSTOP too high''
        else bindk (getk kdata) (\<lambda>data. map_rows pgdir (kmap data))))"

definition inituvm :: "uint \<Rightarrow> uint \<Rightarrow> uint \<Rightarrow> ('z kmem_scheme, unit) kop" where
  "inituvm pgdir init sz =
     (if sz \<ge> PGSIZE then panic ''inituvm: more than a page''
      else bindk kalloc (\<lambda>mem.
        thenk (zero_page mem)
       (thenk (mappages pgdir 0 PGSIZE (V2P mem) (PTE_W OR PTE_U))
        (modk (\<lambda>s. s\<lparr>kmemory := memmove (kmemory s) mem init (unat sz)\<rparr>)))))"

definition clearpteu :: "uint \<Rightarrow> uint \<Rightarrow> ('z kmem_scheme, unit) kop" where
  "clearpteu pgdir uva =
     bindk (walkpgdir pgdir uva False) (\<lambda>pte.
     if pte = 0 then panic ''clearpteu''
     else bindk (getk (word_at pte)) (\<lambda>e. set_word pte (e AND NOT PTE_U)))"

fun copyuvm_loop :: "nat \<Rightarrow> uint \<Rightarrow> uint \<Rightarrow> uint \<Rightarrow> uint \<Rightarrow> ('z kmem_scheme, uint) kop" where
  "copyuvm_loop 0 pgdir d i sz = (if i < sz then stopk (Fault ''fuel'') else retk d)"
| "copyuvm_loop (Suc n) pgdir d i sz =
     (if i < sz then
        bindk (walkpgdir pgdir i False) (\<lambda>pte.
        if pte = 0 then panic ''copyuvm: pte should exist''
        else bindk (getk (word_at pte)) (\<lambda>e.
          if \<not> present e then panic ''copyuvm: page not present''
          else
            let pa = PTE_ADDR e; flags = PTE_FLAGS e in
            bindk kalloc (\<lambda>mem.
            if mem = 0 then thenk (freevm d) (retk 0)
            else thenk (modk (\<lambda>s. s\<lparr>kmemory := memmove (kmemory s) mem (P2V pa) 4096\<rparr>))
             (bindk (mappages d i PGSIZE (V2P mem) flags) (\<lambda>r.
              if r < 0 then thenk (kfree mem) (thenk (freevm d) (retk 0))
              else copyuvm_loop n pgdir d (i + PGSIZE) sz)))))
      else retk d)"

definition copyuvm :: "uint \<Rightarrow> uint \<Rightarrow> ('z kmem_scheme, uint) kop" where
  "copyuvm pgdir sz =
     bindk setupkvm (\<lambda>d.
     if d = 0 then retk 0 else copyuvm_loop (Suc (unat sz div 4096)) pgdir d 0 sz)"

text \<open>\<^verbatim>\<open>uva2ka\<close> reads the entry \<^verbatim>\<open>walkpgdir\<close> points to without a test for a null pointer.\<close>

definition uva2ka :: "uint \<Rightarrow> uint \<Rightarrow> ('z kmem_scheme, uint) kop" where
  "uva2ka pgdir uva =
     bindk (walkpgdir pgdir uva False) (\<lambda>pte.
     if pte = 0 then stopk (Fault ''null'')
     else bindk (getk (word_at pte)) (\<lambda>e.
       retk (if \<not> present e then 0 else if e AND PTE_U = 0 then 0 else P2V (PTE_ADDR e))))"

text \<open>\<^verbatim>\<open>copyout\<close>, given the bytes its pointer argument points to.\<close>

definition put_mem :: "uint \<Rightarrow> uchar list \<Rightarrow> mem \<Rightarrow> mem" where
  "put_mem a bs m = (\<lambda>x. if unat (x - a) < length bs then bs ! unat (x - a) else m x)"

function copyout :: "uint \<Rightarrow> uint \<Rightarrow> uchar list \<Rightarrow> ('z kmem_scheme, int) kop" where
  "copyout pgdir va bs =
     (if bs = [] then retk 0
      else
        let va0 = PGROUNDDOWN va in
        bindk (uva2ka pgdir va0) (\<lambda>pa0.
        if pa0 = 0 then retk (-1)
        else
          let n = min (unat (PGSIZE - (va - va0))) (length bs) in
          thenk (modk (\<lambda>s. s\<lparr>kmemory := put_mem (pa0 + (va - va0)) (take n bs) (kmemory s)\<rparr>))
           (if n = 0 then stopk (Fault ''no progress'')
            else copyout pgdir (va0 + PGSIZE) (drop n bs))))"
  by pat_completeness auto
termination
  by (relation "measure (\<lambda>(pgdir, va, bs). length bs)") auto

declare copyout.simps [simp del]

end
