(* ===== verification/Memaccess.thy ===== *)
theory Memaccess
  imports Dispatch Vm
begin

text \<open>
  How the processor reads and writes memory through a pointer while it runs kernel code: an address from
  \<^verbatim>\<open>KERNBASE\<close> on is kernel memory itself, a lower one goes through the page table in \<^verbatim>\<open>cr3\<close>. The kernel sets
  the write-protect bit of \<^verbatim>\<open>cr0\<close> (\<^verbatim>\<open>entry.S\<close>), so a write needs a writable page. An access that faults in the kernel
  ends in the panic of \<^verbatim>\<open>trap\<close>.
\<close>

definition mmu :: "bool \<Rightarrow> uint \<Rightarrow> 'z ksched_scheme \<Rightarrow> uint option" where
  "mmu write a s =
     (if a \<ge> KERNBASE then Some a
      else
        let pde = word_at (P2V (cr3 s (this s)) + 4 * PDX a) s in
        if \<not> present pde then None
        else
          let pte = word_at (P2V (PTE_ADDR pde) + 4 * PTX a) s in
          if \<not> present pte \<or> (write \<and> pte AND PTE_W = 0) then None
          else Some (P2V (PTE_ADDR pte) + (a AND 0xFFF)))"

definition load_byte :: "uint \<Rightarrow> ('z ksched_scheme, uchar) kop" where
  "load_byte a =
     bindk (getk (mmu False a)) (\<lambda>r.
     case r of None \<Rightarrow> panic ''trap'' | Some ka \<Rightarrow> getk (\<lambda>s. kmemory s ka))"

definition store_byte :: "uint \<Rightarrow> uchar \<Rightarrow> ('z ksched_scheme, unit) kop" where
  "store_byte a c =
     bindk (getk (mmu True a)) (\<lambda>r.
     case r of None \<Rightarrow> panic ''trap'' | Some ka \<Rightarrow> modk (\<lambda>s. s\<lparr>kmemory := (kmemory s)(ka := c)\<rparr>))"

fun load_bytes :: "uint \<Rightarrow> nat \<Rightarrow> ('z ksched_scheme, uchar list) kop" where
  "load_bytes a 0 = retk []"
| "load_bytes a (Suc n) = bindk (load_byte a) (\<lambda>c. bindk (load_bytes (a + 1) n) (\<lambda>cs. retk (c # cs)))"

fun store_bytes :: "uint \<Rightarrow> uchar list \<Rightarrow> ('z ksched_scheme, unit) kop" where
  "store_bytes a [] = retk ()"
| "store_bytes a (c # cs) = thenk (store_byte a c) (store_bytes (a + 1) cs)"

text \<open>Where a routine copies to or from: memory, or a variable of its caller.\<close>

datatype place = At uint | Local "uchar list"

definition copy_out :: "place \<Rightarrow> nat \<Rightarrow> uchar list \<Rightarrow> ('z ksched_scheme, unit) kop" where
  "copy_out dst k bs = (case dst of At a \<Rightarrow> store_bytes (a + of_nat k) bs | Local _ \<Rightarrow> retk ())"

definition copy_in :: "place \<Rightarrow> nat \<Rightarrow> nat \<Rightarrow> ('z ksched_scheme, uchar list) kop" where
  "copy_in src k n = (case src of At a \<Rightarrow> load_bytes (a + of_nat k) n | Local bs \<Rightarrow> retk (take n (drop k bs)))"

end
