(* ===== verification/Console.thy ===== *)
theory Console
  imports Inodes Memaccess Formatting
begin

text \<open>
  The console: \<^verbatim>\<open>console.c\<close>, the keyboard of \<^verbatim>\<open>kbd.c\<close>, and the process listings of \<^verbatim>\<open>proc.c\<close>.

  The layer adds the flags of the console, the input buffer, the screen with its cursor, the bytes sent to the
  serial port, the device table, the keyboard with its modifier state, and the codes waiting in the controllers of the
  keyboard and the serial port. \<^verbatim>\<open>uartputc\<close> waits for the transmitter, at most 128 times, before it writes: only the write is modelled. The
  format of \<^verbatim>\<open>cprintf\<close> is a string, so that there is no panic for a null format.
\<close>

section \<open>State\<close>

record input =
  ibuf :: "uchar list"
  ir :: uint
  iw :: uint
  ie :: uint

datatype devfn = DevConsole

record kcons = kfs +
  panicked :: bool
  cons_locking :: bool
  input :: input
  crt :: "ushort list"
  cursor :: int
  uart :: bool
  serial :: "uchar list"
  devsw :: "devfn option list"
  kbd_shift :: uint
  kbd_in :: "uchar list"
  uart_in :: "uchar list"

abbreviation BACKSPACE :: int where "BACKSPACE \<equiv> 0x100"
abbreviation INPUT_BUF :: nat where "INPUT_BUF \<equiv> 128"
abbreviation NDEV :: nat where "NDEV \<equiv> 10"
abbreviation CONSOLE :: nat where "CONSOLE \<equiv> 1"

section \<open>Output\<close>

definition uartputc :: "int \<Rightarrow> ('z kcons_scheme, unit) kop" where
  "uartputc c =
     bindk (getk uart) (\<lambda>u. whenk u (modk (\<lambda>s. s\<lparr>serial := serial s @ [word_of_int c]\<rparr>)))"

text \<open>The cells of the screen; a write outside the array is an access the program must not make.\<close>

definition set_crt :: "int \<Rightarrow> ushort \<Rightarrow> ('z kcons_scheme, unit) kop" where
  "set_crt k w =
     bindk (getk (\<lambda>s. length (crt s))) (\<lambda>n.
     if 0 \<le> k \<and> nat k < n then modk (\<lambda>s. s\<lparr>crt := (crt s)[nat k := w]\<rparr>) else stopk (Fault ''crt''))"

definition scroll_up :: "int \<Rightarrow> ushort list \<Rightarrow> ushort list" where
  "scroll_up pos cs =
     (let cs = take (23 * 80) (drop 80 cs) @ drop (23 * 80) cs in
      take (nat pos) cs @ replicate (24 * 80 - nat pos) 0 @ drop (24 * 80) cs)"

definition cgaputc :: "int \<Rightarrow> ('z kcons_scheme, unit) kop" where
  "cgaputc c =
     bindk (getk cursor) (\<lambda>pos.
     bindk (if c = 10 then retk (pos + (80 - pos mod 80))
            else if c = BACKSPACE then retk (if pos > 0 then pos - 1 else pos)
            else thenk (set_crt pos ((word_of_int c AND 0xff) OR 0x0700)) (retk (pos + 1))) (\<lambda>pos.
     if pos < 0 \<or> pos > 25 * 80 then panic ''pos under/overflow''
     else bindk (if pos div 80 \<ge> 24
                 then thenk (modk (\<lambda>s. s\<lparr>crt := scroll_up (pos - 80) (crt s)\<rparr>)) (retk (pos - 80))
                 else retk pos) (\<lambda>pos.
     thenk (modk (\<lambda>s. s\<lparr>cursor := pos\<rparr>))
     (set_crt pos 0x0720))))"

definition consputc :: "int \<Rightarrow> ('z kcons_scheme, unit) kop" where
  "consputc c =
     bindk (getk panicked) (\<lambda>p.
     if p then thenk cli (stopk (Spin ''panicked''))
     else
       thenk (if c = BACKSPACE then thenk (uartputc 8) (thenk (uartputc 32) (uartputc 8)) else uartputc c)
       (cgaputc c))"

definition consputs :: "string \<Rightarrow> ('z kcons_scheme, unit) kop" where
  "consputs t = foreach t (\<lambda>c. consputc (of_nat (of_char c)))"

text \<open>Arguments of \<^verbatim>\<open>cprintf\<close>: words, and pointers to strings.\<close>

datatype carg = ANum uint | AStr "string option"

definition arg_num :: "carg list \<Rightarrow> uint" where
  "arg_num as = (case as of ANum w # _ \<Rightarrow> w | _ \<Rightarrow> 0)"

definition arg_str :: "carg list \<Rightarrow> string" where
  "arg_str as = (case as of AStr (Some t) # _ \<Rightarrow> t | _ \<Rightarrow> ''(null)'')"

fun cprintf_text :: "string \<Rightarrow> carg list \<Rightarrow> string" where
  "cprintf_text [] as = []"
| "cprintf_text (c # fmt) as =
     (if c \<noteq> CHR ''%'' then c # cprintf_text fmt as
      else case fmt of
        [] \<Rightarrow> []
      | d # fmt' \<Rightarrow>
          if d = CHR ''d'' then printint lower_digits (arg_num as) Dec True @ cprintf_text fmt' (tl as)
          else if d = CHR ''x'' \<or> d = CHR ''p'' then
            printint lower_digits (arg_num as) Hex False @ cprintf_text fmt' (tl as)
          else if d = CHR ''s'' then arg_str as @ cprintf_text fmt' (tl as)
          else if d = CHR ''%'' then CHR ''%'' # cprintf_text fmt' as
          else CHR ''%'' # d # cprintf_text fmt' as)"

definition cprintf :: "string \<Rightarrow> carg list \<Rightarrow> ('z kcons_scheme, unit) kop" where
  "cprintf fmt as =
     bindk (getk cons_locking) (\<lambda>locking.
     thenk (whenk locking (acquire ConsLock))
    (thenk (consputs (cprintf_text fmt as))
     (whenk locking (release ConsLock))))"

text \<open>\<^verbatim>\<open>panic\<close> as the console shows it, up to its endless loop; \<open>pcs\<close> are the return addresses it found.\<close>

definition cons_panic :: "string \<Rightarrow> uint list \<Rightarrow> ('z kcons_scheme, 'a) kop" where
  "cons_panic msg pcs =
     thenk cli
    (thenk (modk (\<lambda>s. s\<lparr>cons_locking := False\<rparr>))
    (bindk lapicid (\<lambda>a.
     thenk (cprintf ''lapicid %d: panic: '' [ANum (ucast a)])
    (thenk (cprintf msg [])
    (thenk (cprintf [CHR 0x0A] [])
    (thenk (foreach pcs (\<lambda>pc. cprintf '' %p'' [ANum pc]))
    (thenk (modk (\<lambda>s. s\<lparr>panicked := True\<rparr>))
     (stopk (Panic msg)))))))))"

section \<open>Process listings\<close>

definition dump_state :: "procstate \<Rightarrow> string" where
  "dump_state st = (case st of UNUSED \<Rightarrow> ''unused'' | EMBRYO \<Rightarrow> ''embryo'' | SLEEPING \<Rightarrow> ''sleep ''
     | RUNNABLE \<Rightarrow> ''runble'' | RUNNING \<Rightarrow> ''run   '' | ZOMBIE \<Rightarrow> ''zombie'')"

text \<open>\<open>ebp\<close> gives the frame pointer saved in the context of a process.\<close>

definition procdump :: "(nat \<Rightarrow> uint) \<Rightarrow> ('z kcons_scheme, unit) kop" where
  "procdump ebp = foreach [0..<NPROC] (\<lambda>i.
     bindk (getk (\<lambda>s. proc_at s i)) (\<lambda>p.
     whenk (pstate p \<noteq> UNUSED)
      (thenk (cprintf ''%d %s %s'' [ANum (word_of_int (pid p)), AStr (Some (dump_state (pstate p))), AStr (Some (pname p))])
      (thenk (whenk (pstate p = SLEEPING)
         (bindk (getk (\<lambda>s. takeWhile (\<lambda>pc. pc \<noteq> 0) (getcallerpcs (\<lambda>a. word_at a s) (ebp i + 8)))) (\<lambda>pcs.
          foreach pcs (\<lambda>pc. cprintf '' %p'' [ANum pc]))))
       (cprintf [CHR 0x0A] [])))))"

definition wrap_space :: "string \<Rightarrow> nat \<Rightarrow> string" where
  "wrap_space inp len = take len inp @ replicate (len - length inp) CHR '' ''"

text \<open>
  \<^verbatim>\<open>wrap_spacei\<close> reverses the digits in an \<^verbatim>\<open>int\<close> and counts them, then writes them out. More digits than the field
  has overwrite its terminating zero and go on behind the array.
\<close>

fun rev_digits :: "nat \<Rightarrow> int \<Rightarrow> int \<Rightarrow> nat \<Rightarrow> int \<times> nat" where
  "rev_digits 0 inp r cnt = (r, cnt)"
| "rev_digits (Suc fuel) inp r cnt =
     (let r = r * 10 + inp mod 10; inp = inp div 10 in
      if inp > 0 then rev_digits fuel inp r (cnt + 1) else (r, cnt + 1))"

fun put_digits :: "nat \<Rightarrow> int \<Rightarrow> string" where
  "put_digits 0 r = []"
| "put_digits (Suc n) r = char_of (nat (r mod 10) + 48) # put_digits n (r div 10)"

definition wrap_spacei :: "int \<Rightarrow> nat \<Rightarrow> ('s, string) kop" where
  "wrap_spacei inp len =
     (if inp < 0 then panic ''negative pid or arrive time''
      else
        let (r, cnt) = rev_digits 10 inp 0 0 in
        if r \<ge> 2 ^ 31 then stopk (Fault ''signed overflow'')
        else if cnt > len then stopk (Fault ''holder'')
        else retk (put_digits cnt r @ replicate (len - cnt) CHR '' ''))"

definition list_state :: "procstate \<Rightarrow> string" where
  "list_state st = (case st of UNUSED \<Rightarrow> ''UNUSED  '' | EMBRYO \<Rightarrow> ''EMBRYO  '' | SLEEPING \<Rightarrow> ''SLEEPING''
     | RUNNABLE \<Rightarrow> ''RUNNABLE'' | RUNNING \<Rightarrow> ''RUNNING '' | ZOMBIE \<Rightarrow> ''ZOMBIE  '')"

definition q_number :: "schedQ \<Rightarrow> uint" where
  "q_number q = (case q of DEF \<Rightarrow> 0 | RR \<Rightarrow> 1 | LCFS \<Rightarrow> 2 | BJF \<Rightarrow> 3)"

fun wrap_all :: "(int \<times> nat) list \<Rightarrow> ('s, string list) kop" where
  "wrap_all [] = retk []"
| "wrap_all ((n, len) # xs) = bindk (wrap_spacei n len) (\<lambda>t. bindk (wrap_all xs) (\<lambda>ts. retk (t # ts)))"

definition print_row :: "nat \<Rightarrow> ('z kcons_scheme, unit) kop" where
  "print_row i =
     bindk (getk (\<lambda>s. proc_at s i)) (\<lambda>p.
     bindk (getk ticks) (\<lambda>tk.
     whenk (pstate p \<noteq> UNUSED)
      (bindk (wrap_spacei (pid p) 3) (\<lambda>t_pid.
       bindk (wrap_all [(sint (arrivetime p), 10), (priority p, 13), (float_to_int (priority_ratio p), 1),
         (float_to_int (arrivetime_ratio p), 1), (float_to_int (executed_cycle_ratio p), 1),
         (float_to_int (size_ratio p), 2), (sint (running_ticks p), 10), (sint (sz p), 7), (sint tk, 6)]) (\<lambda>ts.
       cprintf (''%s %s %s   %d   %s %s %s %s %s %s %s %s %s'' @ [CHR 0x0A])
         ([AStr (Some (wrap_space (pname p) 15)), AStr (Some t_pid), AStr (Some (list_state (pstate p))),
           ANum (q_number (q_type p))] @ map (\<lambda>t. AStr (Some t)) ts))))))"

definition print_proc :: "('z kcons_scheme, unit) kop" where
  "print_proc =
     thenk (cprintf (''name          pid  state    queue  arr_time  priority Ratio:p a e s  exe_cycle  p_size  ticks'' @ [CHR 0x0A]) [])
    (thenk (cprintf (replicate 78 CHR ''.'' @ [CHR 0x0A]) [])
    (thenk (acquire PtableLock)
    (thenk (foreach [0..<NPROC] print_row)
     (release PtableLock))))"


section \<open>The keyboard\<close>

definition shiftcode :: "uchar \<Rightarrow> uint" where
  "shiftcode d = (if d = 0x1D \<or> d = 0x9D then 2 else if d = 0x2A \<or> d = 0x36 then 1
     else if d = 0x38 \<or> d = 0xB8 then 4 else 0)"

definition togglecode :: "uchar \<Rightarrow> uint" where
  "togglecode d = (if d = 0x3A then 8 else if d = 0x45 then 16 else if d = 0x46 then 32 else 0)"

text \<open>The first 88 codes of the maps, as numbers of characters; 0 is \<^verbatim>\<open>NO\<close>.\<close>

definition keys_main :: "string \<Rightarrow> string \<Rightarrow> string \<Rightarrow> string \<Rightarrow> uchar list" where
  "keys_main digits q_row a_row z_row =
     map of_char ([CHR 0x00, CHR 0x1B] @ digits @ [CHR 0x08, CHR 0x09] @ q_row @ [CHR 0x0A, CHR 0x00] @ a_row @
       [CHR 0x00] @ z_row @ [CHR 0x00, CHR ''*'', CHR 0x00, CHR '' ''] @ replicate 13 CHR 0x00 @ ''789-456+1230.'' @
       replicate 4 CHR 0x00)"

definition normalmap_main :: "uchar list" where
  "normalmap_main = keys_main ''1234567890-='' ''qwertyuiop[]'' (''asdfghjkl;'' @ [CHR 0x27, CHR 0x60])
     (CHR 0x5C # ''zxcvbnm,./'')"

definition shiftmap_main :: "uchar list" where
  "shiftmap_main = keys_main ''!@#$%^&*()_+'' ''QWERTYUIOP{}'' (''ASDFGHJKL:'' @ [CHR 0x22, CHR ''~''])
     ''|ZXCVBNM<>?''"

definition control :: "char \<Rightarrow> uchar" where
  "control c = of_char c - 64"

definition ctlmap_main :: "uchar list" where
  "ctlmap_main = replicate 16 0 @ map control ''QWERTYUIOP'' @ [0, 0, 13, 0] @ map control ''ASDFGHJKL'' @
     [0, 0, 0, 0] @ map control (CHR 0x5C # ''ZXCVBNM'') @ [0, 0, control CHR ''/'', 0, 0]"

definition special_key :: "uchar \<Rightarrow> uchar option" where
  "special_key d = map_of [(0xC8, 0xE2), (0xD0, 0xE3), (0xC9, 0xE6), (0xD1, 0xE7), (0xCB, 0xE4), (0xCD, 0xE5),
     (0x97, 0xE0), (0xCF, 0xE1), (0xD2, 0xE8), (0xD3, 0xE9)] d"

definition keymap :: "uchar list \<Rightarrow> uchar \<Rightarrow> uchar \<Rightarrow> uchar \<Rightarrow> uchar" where
  "keymap main enter div' d =
     (if unat d < length main then main ! unat d else if d = 0x9C then enter else if d = 0xB5 then div'
      else case special_key d of Some k \<Rightarrow> k | None \<Rightarrow> 0)"

definition normalmap :: "uchar \<Rightarrow> uchar" where
  "normalmap = keymap normalmap_main 10 (of_char CHR ''/'')"

definition shiftmap :: "uchar \<Rightarrow> uchar" where
  "shiftmap = keymap shiftmap_main 10 (of_char CHR ''/'')"

definition ctlmap :: "uchar \<Rightarrow> uchar" where
  "ctlmap = keymap ctlmap_main 13 (control CHR ''/'')"

definition charcode :: "uint \<Rightarrow> uchar \<Rightarrow> uchar" where
  "charcode k = (if k = 0 then normalmap else if k = 1 then shiftmap else ctlmap)"

text \<open>One step of \<^verbatim>\<open>kbdgetc\<close> on a code of the controller: the new modifiers and the result.\<close>

definition kbd_step :: "uint \<Rightarrow> uchar \<Rightarrow> uint \<times> int" where
  "kbd_step shift data =
     (if data = 0xE0 then (shift OR 0x40, 0)
      else if data AND 0x80 \<noteq> 0 then
        let data = (if shift AND 0x40 \<noteq> 0 then data else data AND 0x7F) in
        (shift AND NOT (shiftcode data OR 0x40), 0)
      else
        let (data, shift) = (if shift AND 0x40 \<noteq> 0 then (data OR 0x80, shift AND NOT 0x40) else (data, shift));
            shift = shift OR shiftcode data;
            shift = shift XOR togglecode data;
            c = charcode (shift AND 3) data;
            c = (if shift AND 8 = 0 then c
                 else if of_char CHR ''a'' \<le> c \<and> c \<le> of_char CHR ''z'' then c - 32
                 else if of_char CHR ''A'' \<le> c \<and> c \<le> of_char CHR ''Z'' then c + 32
                 else c) in
        (shift, uint c))"

definition kbdgetc :: "('z kcons_scheme, int) kop" where
  "kbdgetc =
     bindk (getk kbd_in) (\<lambda>ks.
     case ks of
       [] \<Rightarrow> retk (-1)
     | data # ks' \<Rightarrow>
         bindk (getk kbd_shift) (\<lambda>shift.
         let (shift', c) = kbd_step shift data in
         thenk (modk (\<lambda>s. s\<lparr>kbd_in := ks', kbd_shift := shift'\<rparr>)) (retk c)))"

section \<open>Input\<close>

definition upd_input :: "(input \<Rightarrow> input) \<Rightarrow> 'z kcons_scheme \<Rightarrow> 'z kcons_scheme" where
  "upd_input f s = s\<lparr>input := f (input s)\<rparr>"

definition islot :: "uint \<Rightarrow> nat" where
  "islot k = unat k mod INPUT_BUF"

text \<open>The loop of Control-U, which runs at most as often as there are characters being edited.\<close>

fun kill_line :: "nat \<Rightarrow> ('z kcons_scheme, unit) kop" where
  "kill_line 0 = retk ()"
| "kill_line (Suc n) =
     bindk (getk input) (\<lambda>inp.
     if ie inp \<noteq> iw inp \<and> ibuf inp ! islot (ie inp - 1) \<noteq> 10 then
       thenk (modk (upd_input (\<lambda>i. i\<lparr>ie := ie i - 1\<rparr>))) (thenk (consputc BACKSPACE) (kill_line n))
     else retk ())"

definition console_char :: "int \<Rightarrow> ('z kcons_scheme, unit) kop" where
  "console_char c =
     (if c = 0x15 then bindk (getk input) (\<lambda>inp. kill_line (unat (ie inp - iw inp)))
      else if c = 8 \<or> c = 0x7F then
        bindk (getk input) (\<lambda>inp.
        whenk (ie inp \<noteq> iw inp)
         (thenk (modk (upd_input (\<lambda>i. i\<lparr>ie := ie i - 1\<rparr>))) (consputc BACKSPACE)))
      else
        bindk (getk input) (\<lambda>inp.
        whenk (c \<noteq> 0 \<and> ie inp - ir inp < of_nat INPUT_BUF)
         (let c = (if c = 13 then 10 else c) in
          thenk (modk (upd_input (\<lambda>i. i\<lparr>ibuf := (ibuf i)[islot (ie i) := word_of_int c], ie := ie i + 1\<rparr>)))
         (thenk (consputc c)
         (bindk (getk input) (\<lambda>inp.
          whenk (c = 10 \<or> c = 4 \<or> ie inp = ir inp + of_nat INPUT_BUF)
           (thenk (modk (upd_input (\<lambda>i. i\<lparr>iw := ie i\<rparr>))) (wakeup ChInput))))))))"

fun consoleintr_loop :: "nat \<Rightarrow> ('z kcons_scheme, int) kop \<Rightarrow> bool \<Rightarrow> ('z kcons_scheme, bool) kop" where
  "consoleintr_loop 0 getc doprocdump = stopk (Fault ''fuel'')"
| "consoleintr_loop (Suc n) getc doprocdump =
     bindk getc (\<lambda>c.
     if c < 0 then retk doprocdump
     else if c = 0x10 then consoleintr_loop n getc True
     else thenk (console_char c) (consoleintr_loop n getc doprocdump))"

definition consoleintr :: "(nat \<Rightarrow> uint) \<Rightarrow> nat \<Rightarrow> ('z kcons_scheme, int) kop \<Rightarrow> ('z kcons_scheme, unit) kop" where
  "consoleintr ebp n getc =
     thenk (acquire ConsLock)
    (bindk (consoleintr_loop n getc False) (\<lambda>doprocdump.
     thenk (release ConsLock)
     (whenk doprocdump (procdump ebp))))"

definition kbdintr :: "(nat \<Rightarrow> uint) \<Rightarrow> ('z kcons_scheme, unit) kop" where
  "kbdintr ebp = bindk (getk (\<lambda>s. Suc (length (kbd_in s)))) (\<lambda>n. consoleintr ebp n kbdgetc)"

text \<open>The serial port as a second source of characters.\<close>

definition uartgetc :: "('z kcons_scheme, int) kop" where
  "uartgetc =
     bindk (getk uart) (\<lambda>u.
     bindk (getk uart_in) (\<lambda>cs.
     if \<not> u then retk (-1)
     else case cs of
         [] \<Rightarrow> retk (-1)
       | c # cs' \<Rightarrow> thenk (modk (\<lambda>s. s\<lparr>uart_in := cs'\<rparr>)) (retk (uint c))))"

definition uartintr :: "(nat \<Rightarrow> uint) \<Rightarrow> ('z kcons_scheme, unit) kop" where
  "uartintr ebp = bindk (getk (\<lambda>s. Suc (length (uart_in s)))) (\<lambda>n. consoleintr ebp n uartgetc)"

text \<open>
  \<^verbatim>\<open>consoleread\<close>: \<open>n\<close> characters still wanted, \<open>k\<close> stored. The inner loop waits with \<^verbatim>\<open>sleep\<close>; an operation that ends
  in \<open>Block\<close> runs \<open>consoleread_loop\<close> again, with the same \<open>n\<close> and \<open>k\<close>, when it is resumed.
\<close>

fun consoleread_loop :: "nat \<Rightarrow> uint \<Rightarrow> nat \<Rightarrow> nat \<Rightarrow> ('z kcons_scheme, int) kop" where
  "consoleread_loop i dst 0 k = thenk (release ConsLock) (thenk (ilock (Some i)) (retk (int k)))"
| "consoleread_loop i dst (Suc n) k =
     bindk (getk input) (\<lambda>inp.
     if ir inp = iw inp then
       bindk (myget killed) (\<lambda>dead.
       if dead then thenk (release ConsLock) (thenk (ilock (Some i)) (retk (-1)))
       else sleep ChInput (Some ConsLock))
     else
       let c = ibuf inp ! islot (ir inp) in
       thenk (modk (upd_input (\<lambda>x. x\<lparr>ir := ir x + 1\<rparr>)))
       (if c = 4 then
          thenk (whenk (0 < k) (modk (upd_input (\<lambda>x. x\<lparr>ir := ir x - 1\<rparr>))))
         (thenk (release ConsLock) (thenk (ilock (Some i)) (retk (int k))))
        else thenk (store_byte (dst + of_nat k) c)
         (if c = 10 then thenk (release ConsLock) (thenk (ilock (Some i)) (retk (int (k + 1))))
          else consoleread_loop i dst n (k + 1))))"

definition consoleread :: "nat \<Rightarrow> uint \<Rightarrow> int \<Rightarrow> ('z kcons_scheme, int) kop" where
  "consoleread i dst n =
     thenk (iunlock (Some i))
    (thenk (acquire ConsLock)
     (if n < 0 then thenk (release ConsLock) (thenk (ilock (Some i)) (retk 0))
      else consoleread_loop i dst (nat n) 0))"

definition consolewrite :: "nat \<Rightarrow> uint \<Rightarrow> int \<Rightarrow> ('z kcons_scheme, int) kop" where
  "consolewrite i src n =
     thenk (iunlock (Some i))
    (thenk (acquire ConsLock)
    (thenk (foreach [0..<nat n] (\<lambda>k. bindk (load_byte (src + of_nat k)) (\<lambda>c. consputc (uint c))))
    (thenk (release ConsLock)
    (thenk (ilock (Some i))
     (retk n)))))"

end
