(* ===== verification/Dirs.thy ===== *)
theory Dirs
  imports Console
begin

text \<open>
  Reading and writing inodes, directories and path names: the second half of \<^verbatim>\<open>fs.c\<close>.

  A path is the string before its terminating zero. A name in a directory entry is 14 bytes, shorter names
  padded with zeros; \<^verbatim>\<open>namecmp\<close> compares up to the first zero.
\<close>

abbreviation MAXFILE :: nat where "MAXFILE \<equiv> 140"
abbreviation DIRSIZ :: nat where "DIRSIZ \<equiv> 14"
abbreviation ROOTDEV :: uint where "ROOTDEV \<equiv> 1"
abbreviation ROOTINO :: uint where "ROOTINO \<equiv> 1"

section \<open>Contents\<close>

text \<open>
  The copying loop of \<^verbatim>\<open>readi\<close>: \<open>tot\<close> bytes of \<open>n\<close> are done. The bytes read are also returned, for the callers that read
  into a variable.
\<close>

function readi_loop :: "nat \<Rightarrow> place \<Rightarrow> uint \<Rightarrow> nat \<Rightarrow> nat \<Rightarrow> ('z kcons_scheme, uchar list) kop" where
  "readi_loop i dst ofs n tot =
     (if tot < n then
        bindk (getk (\<lambda>s. idev (inode_at s i))) (\<lambda>dev.
        bindk (bmap i (ofs div 512)) (\<lambda>a.
        bindk (bread dev a) (\<lambda>bp.
        let m = min (n - tot) (BSIZE - unat (ofs mod 512)) in
        bindk (getk (\<lambda>s. take m (drop (unat (ofs mod 512)) (bdata (buf_at s bp))))) (\<lambda>bs.
        thenk (copy_out dst tot bs)
       (thenk (brelse bp)
        (if m = 0 then stopk (Fault ''no progress'')
         else bindk (readi_loop i dst (ofs + of_nat m) n (tot + m)) (\<lambda>rest. retk (bs @ rest))))))))
      else retk [])"
  by pat_completeness auto
termination
  by (relation "measure (\<lambda>(i, dst, ofs, n, tot). n - tot)") auto

declare readi_loop.simps [simp del]

definition readi :: "nat \<Rightarrow> place \<Rightarrow> uint \<Rightarrow> uint \<Rightarrow> ('z kcons_scheme, int \<times> uchar list) kop" where
  "readi i dst ofs n =
     bindk (getk (\<lambda>s. inode_at s i)) (\<lambda>ip.
     if itype ip = T_DEV then
       bindk (getk devsw) (\<lambda>dv.
       if sint (imajor ip) < 0 \<or> sint (imajor ip) \<ge> int NDEV then retk (-1, [])
       else case dv ! unat (imajor ip) of
           None \<Rightarrow> retk (-1, [])
         | Some DevConsole \<Rightarrow>
             (case dst of At a \<Rightarrow> bindk (consoleread i a (sint n)) (\<lambda>r. retk (r, []))
              | Local _ \<Rightarrow> stopk (Fault ''device read'')))
     else if ofs > isize ip \<or> ofs + n < ofs then retk (-1, [])
     else
       let n = (if ofs + n > isize ip then isize ip - ofs else n) in
       bindk (readi_loop i dst ofs (unat n) 0) (\<lambda>bs. retk (sint n, bs)))"

function writei_loop :: "nat \<Rightarrow> place \<Rightarrow> uint \<Rightarrow> nat \<Rightarrow> nat \<Rightarrow> ('z kcons_scheme, uint) kop" where
  "writei_loop i src ofs n tot =
     (if tot < n then
        bindk (getk (\<lambda>s. idev (inode_at s i))) (\<lambda>dev.
        bindk (bmap i (ofs div 512)) (\<lambda>a.
        bindk (bread dev a) (\<lambda>bp.
        let m = min (n - tot) (BSIZE - unat (ofs mod 512)) in
        bindk (copy_in src tot m) (\<lambda>bs.
        thenk (modk (upd_buf bp (\<lambda>b. b\<lparr>bdata := put_bytes (unat (ofs mod 512)) bs (bdata b)\<rparr>)))
       (thenk (log_write bp)
       (thenk (brelse bp)
        (if m = 0 then stopk (Fault ''no progress'')
         else writei_loop i src (ofs + of_nat m) n (tot + m))))))))
      else retk ofs)"
  by pat_completeness auto
termination
  by (relation "measure (\<lambda>(i, src, ofs, n, tot). n - tot)") auto

declare writei_loop.simps [simp del]

definition writei :: "nat \<Rightarrow> place \<Rightarrow> uint \<Rightarrow> uint \<Rightarrow> ('z kcons_scheme, int) kop" where
  "writei i src ofs n =
     bindk (getk (\<lambda>s. inode_at s i)) (\<lambda>ip.
     if itype ip = T_DEV then
       bindk (getk devsw) (\<lambda>dv.
       if sint (imajor ip) < 0 \<or> sint (imajor ip) \<ge> int NDEV then retk (-1)
       else case dv ! unat (imajor ip) of
           None \<Rightarrow> retk (-1)
         | Some DevConsole \<Rightarrow>
             (case src of At a \<Rightarrow> consolewrite i a (sint n) | Local _ \<Rightarrow> stopk (Fault ''device write'')))
     else if ofs > isize ip \<or> ofs + n < ofs then retk (-1)
     else if unat (ofs + n) > MAXFILE * BSIZE then retk (-1)
     else
       bindk (writei_loop i src ofs (unat n) 0) (\<lambda>ofs'.
       bindk (getk (\<lambda>s. isize (inode_at s i))) (\<lambda>sz.
       thenk (whenk (n > 0 \<and> ofs' > sz)
         (thenk (modk (upd_inode i (\<lambda>ip. ip\<lparr>isize := ofs'\<rparr>))) (iupdate i)))
       (retk (sint n)))))"

section \<open>Directories\<close>

text \<open>\<^verbatim>\<open>namecmp\<close> on a string and the name field of an entry: \<^verbatim>\<open>strncmp\<close> of 14 bytes.\<close>

definition field_name :: "uchar list \<Rightarrow> uchar list" where
  "field_name bs = takeWhile (\<lambda>c. c \<noteq> 0) (take DIRSIZ bs)"

definition namecmp_eq :: "uchar list \<Rightarrow> uchar list \<Rightarrow> bool" where
  "namecmp_eq nm fld = (take DIRSIZ nm = field_name fld)"

definition de_inum :: "uchar list \<Rightarrow> ushort" where
  "de_inum de = le16 de"

definition de_name :: "uchar list \<Rightarrow> uchar list" where
  "de_name de = drop 2 de"

definition make_dirent :: "ushort \<Rightarrow> uchar list \<Rightarrow> uchar list" where
  "make_dirent n nm = bytes16 n @ take DIRSIZ nm @ replicate (DIRSIZ - length nm) 0"

text \<open>The loop of \<^verbatim>\<open>dirlookup\<close> over the offsets of the entries.\<close>

fun dirlookup_loop :: "nat \<Rightarrow> uchar list \<Rightarrow> nat list \<Rightarrow> ('z kcons_scheme, (nat \<times> nat) option) kop" where
  "dirlookup_loop i nm [] = retk None"
| "dirlookup_loop i nm (ofs # os) =
     bindk (readi i (Local []) (of_nat ofs) 16) (\<lambda>(r, de).
     if r \<noteq> 16 then panic ''dirlookup read''
     else if de_inum de = 0 then dirlookup_loop i nm os
     else if namecmp_eq nm (de_name de) then
       bindk (getk (\<lambda>s. idev (inode_at s i))) (\<lambda>dev.
       bindk (iget dev (ucast (de_inum de))) (\<lambda>ip. retk (Some (ip, ofs))))
     else dirlookup_loop i nm os)"

definition entry_offsets :: "uint \<Rightarrow> nat list" where
  "entry_offsets n = map (\<lambda>k. 16 * k) [0..<(unat n + 15) div 16]"

definition dirlookup :: "nat \<Rightarrow> uchar list \<Rightarrow> ('z kcons_scheme, (nat \<times> nat) option) kop" where
  "dirlookup i nm =
     bindk (getk (\<lambda>s. inode_at s i)) (\<lambda>dp.
     if itype dp \<noteq> T_DIR then panic ''dirlookup not DIR''
     else dirlookup_loop i nm (entry_offsets (isize dp)))"

fun dirslot_loop :: "nat \<Rightarrow> nat \<Rightarrow> nat list \<Rightarrow> ('z kcons_scheme, nat) kop" where
  "dirslot_loop i last' [] = retk last'"
| "dirslot_loop i last' (ofs # os) =
     bindk (readi i (Local []) (of_nat ofs) 16) (\<lambda>(r, de).
     if r \<noteq> 16 then panic ''dirlink read''
     else if de_inum de = 0 then retk ofs
     else dirslot_loop i last' os)"

definition dirlink :: "nat \<Rightarrow> uchar list \<Rightarrow> uint \<Rightarrow> ('z kcons_scheme, int) kop" where
  "dirlink i nm n =
     bindk (dirlookup i nm) (\<lambda>f.
     case f of
       Some (ip, _) \<Rightarrow> thenk (iput ip) (retk (-1))
     | None \<Rightarrow>
         bindk (getk (\<lambda>s. isize (inode_at s i))) (\<lambda>sz.
         bindk (dirslot_loop i (16 * ((unat sz + 15) div 16)) (entry_offsets sz)) (\<lambda>ofs.
         bindk (writei i (Local (make_dirent (ucast n) nm)) (of_nat ofs) 16) (\<lambda>r.
         if r \<noteq> 16 then panic ''dirlink'' else retk 0))))"

section \<open>Paths\<close>

abbreviation slash :: uchar where "slash \<equiv> 47"

definition skipelem :: "uchar list \<Rightarrow> (uchar list \<times> uchar list) option" where
  "skipelem path =
     (let p = dropWhile (\<lambda>c. c = slash) path in
      if p = [] then None
      else Some (take DIRSIZ (takeWhile (\<lambda>c. c \<noteq> slash) p),
                 dropWhile (\<lambda>c. c = slash) (dropWhile (\<lambda>c. c \<noteq> slash) p)))"

lemma skipelem_shrinks: "skipelem path = Some (nm, rest) \<Longrightarrow> length rest < length path"
proof -
  let ?p = "dropWhile (\<lambda>c. c = slash) path"
  assume "skipelem path = Some (nm, rest)"
  then have p: "?p \<noteq> []" and rest: "rest = dropWhile (\<lambda>c. c = slash) (dropWhile (\<lambda>c. c \<noteq> slash) ?p)"
    by (auto simp: skipelem_def Let_def split: if_splits)
  have "hd ?p \<noteq> slash" using hd_dropWhile [OF p] by simp
  with p have "length (dropWhile (\<lambda>c. c \<noteq> slash) ?p) < length ?p"
    by (cases ?p) (auto intro: le_less_trans [OF length_dropWhile_le])
  with rest show ?thesis
    by (meson le_less_trans length_dropWhile_le less_le_trans)
qed

function namex_loop :: "nat \<Rightarrow> uchar list \<Rightarrow> uchar list \<Rightarrow> bool \<Rightarrow>
    ('z kcons_scheme, (nat \<times> uchar list) option) kop" where
  "namex_loop ip nm path stop_early =
     (case skipelem path of
        None \<Rightarrow> if stop_early then thenk (iput ip) (retk None) else retk (Some (ip, nm))
      | Some (nm, rest) \<Rightarrow>
          thenk (ilock (Some ip))
         (bindk (getk (\<lambda>s. itype (inode_at s ip))) (\<lambda>t.
          if t \<noteq> T_DIR then thenk (iunlockput ip) (retk None)
          else if stop_early \<and> rest = [] then thenk (iunlock (Some ip)) (retk (Some (ip, nm)))
          else
            bindk (dirlookup ip nm) (\<lambda>f.
            case f of
              None \<Rightarrow> thenk (iunlockput ip) (retk None)
            | Some (nxt, _) \<Rightarrow> thenk (iunlockput ip) (namex_loop nxt nm rest stop_early)))))"
  by pat_completeness auto
termination
  by (relation "measure (\<lambda>(ip, nm, path, stop_early). length path)") (auto dest: skipelem_shrinks)

declare namex_loop.simps [simp del]

definition namex :: "uchar list \<Rightarrow> bool \<Rightarrow> ('z kcons_scheme, (nat \<times> uchar list) option) kop" where
  "namex path stop_early =
     bindk (if path \<noteq> [] \<and> hd path = slash then iget ROOTDEV ROOTINO
            else bindk (myget cwd) (\<lambda>d. bindk (nonnull d) idup)) (\<lambda>ip.
     namex_loop ip [] path stop_early)"

definition namei :: "uchar list \<Rightarrow> ('z kcons_scheme, nat option) kop" where
  "namei path = bindk (namex path False) (\<lambda>r. retk (map_option fst r))"

definition nameiparent :: "uchar list \<Rightarrow> ('z kcons_scheme, (nat \<times> uchar list) option) kop" where
  "nameiparent path = namex path True"

end
