(* ===== verification/Frames.thy ===== *)
theory Frames
  imports Sleeplocks Memaccess
begin

text \<open>
  What operations leave alone. \<open>keeps b g m\<close>: when \<open>m\<close> returns, the part \<open>g\<close> of the state is what it was before; \<open>m\<close> is
  suspended only if \<open>b\<close>, and then the same holds. The rules are collected in \<open>keeps_rules\<close>; they follow the structure of the code, so that the proof for an
  operation is to unfold it and apply them.

  Shown: locks, scheduling, sleeping and waking up, and reading memory change nothing of the layers above the
  scheduler and none of the memory.
\<close>

named_theorems keeps_rules \<open>operations and what they keep\<close>

definition keeps :: "bool \<Rightarrow> ('s \<Rightarrow> 'b) \<Rightarrow> ('s, 'a) kop \<Rightarrow> bool" where
  "keeps b g m \<longleftrightarrow> (\<forall>s v. g s = v \<longrightarrow> wpk m (\<lambda>_ t. g t = v) (\<lambda>t. b \<and> g t = v) anyway s)"

lemma keepsI: "(\<And>s. wpk m (\<lambda>_ t. g t = g s) (\<lambda>t. b \<and> g t = g s) anyway s) \<Longrightarrow> keeps b g m"
  by (simp add: keeps_def)

lemma keeps_wp: "keeps b g m \<Longrightarrow> wpk m (\<lambda>_ t. g t = g s) (\<lambda>t. b \<and> g t = g s) anyway s"
  by (simp add: keeps_def)

lemma keepsD:
  "keeps b g m \<Longrightarrow> m s = Ret a t \<Longrightarrow> g t = g s" "keeps b g m \<Longrightarrow> m s = Block t \<Longrightarrow> b \<and> g t = g s"
  using wpD_Ret [OF keeps_wp] wpD_Block [OF keeps_wp] by metis+

text \<open>The rule for using what an operation keeps.\<close>

lemma wp_keeps:
  assumes "keeps b g m" and "\<And>a t. g t = g s \<Longrightarrow> Q a t" and "\<And>t. b \<Longrightarrow> g t = g s \<Longrightarrow> B t"
  shows "wpk m Q B anyway s"
  using keeps_wp [OF assms(1)] by (rule wp_mono) (auto intro: assms(2,3))

lemma keeps_bindk [keeps_rules]: "keeps b g m \<Longrightarrow> (\<And>a. keeps b g (f a)) \<Longrightarrow> keeps b g (bindk m f)"
  unfolding keeps_def wp_bindk by (blast intro: wp_mono)

lemma keeps_thenk [keeps_rules]: "keeps b g m \<Longrightarrow> keeps b g n \<Longrightarrow> keeps b g (thenk m n)"
  unfolding thenk_def by (rule keeps_bindk)

lemma keeps_basic [keeps_rules]:
  "keeps b g (retk a)" "keeps b g (getk h)" "keeps b g (stopk e)" "keeps b g (panic msg)"
  by (simp_all add: keeps_def wp)

lemma keeps_modk [keeps_rules]: "(\<And>s. g (h s) = g s) \<Longrightarrow> keeps b g (modk h)"
  by (simp add: keeps_def wp)

lemma keeps_whenk [keeps_rules]: "(c \<Longrightarrow> keeps b g m) \<Longrightarrow> keeps b g (whenk c m)"
  by (auto simp: whenk_def keeps_basic)

lemma keeps_if [keeps_rules]: "(c \<Longrightarrow> keeps b g m) \<Longrightarrow> (\<not> c \<Longrightarrow> keeps b g n) \<Longrightarrow> keeps b g (if c then m else n)"
  by simp

lemma keeps_option [keeps_rules]: "keeps b g m \<Longrightarrow> (\<And>a. keeps b g (n a)) \<Longrightarrow> keeps b g (case x of None \<Rightarrow> m | Some a \<Rightarrow> n a)"
  by (cases x) simp_all

lemma keeps_prod [keeps_rules]: "(\<And>x y. keeps b g (n x y)) \<Longrightarrow> keeps b g (case p of (x, y) \<Rightarrow> n x y)"
  by (cases p) simp

lemma keeps_sum [keeps_rules]: "(\<And>x. keeps b g (m x)) \<Longrightarrow> (\<And>y. keeps b g (n y)) \<Longrightarrow> keeps b g (case q of Inl x \<Rightarrow> m x | Inr y \<Rightarrow> n y)"
  by (cases q) simp_all

lemma keeps_foreach [keeps_rules]: "(\<And>x. keeps b g (f x)) \<Longrightarrow> keeps b g (foreach xs f)"
  by (induction xs) (auto intro: keeps_rules)

lemma keeps_mono:
  assumes "keeps b g m" and h: "\<And>s t. g t = g s \<Longrightarrow> h t = h s"
  shows "keeps b h m"
proof (rule keepsI)
  show "wpk m (\<lambda>_ t. h t = h s) (\<lambda>t. b \<and> h t = h s) anyway s" for s
    using assms(1) by (rule wp_keeps) (erule h, intro conjI, assumption, erule h)
qed

section \<open>Locks\<close>

lemma keeps_locks:
  "keeps b machine.more (acquire l)" "keeps b machine.more (release l)" "keeps b machine.more (holding l)" "keeps b machine.more mycpu"
  "keeps b machine.more pushcli" "keeps b machine.more popcli" "keeps b machine.more (initlock l nm)" "keeps b machine.more readeflags_IF"
proof -
  have base: "keeps b machine.more readeflags_IF" "keeps b machine.more lapicid" "keeps b machine.more cli" "keeps b machine.more sti"
    by (simp_all add: readeflags_IF_def lapicid_def cli_def sti_def keeps_rules)
  have my: "keeps b machine.more mycpu" unfolding mycpu_def by (intro keeps_rules base)
  have push: "keeps b machine.more pushcli"
    unfolding pushcli_def by (intro keeps_rules base my) (simp_all add: upd_cpu_def)
  have pop: "keeps b machine.more popcli"
    unfolding popcli_def by (intro keeps_rules base my) (simp_all add: upd_cpu_def)
  have hold: "keeps b machine.more (holding l)" unfolding holding_def by (intro keeps_rules push my pop)
  show "keeps b machine.more (acquire l)" unfolding acquire_def by (intro keeps_rules push hold my) (simp_all add: upd_lock_def)
  show "keeps b machine.more (release l)" unfolding release_def by (intro keeps_rules hold pop) (simp_all add: upd_lock_def)
  show "keeps b machine.more (initlock l nm)" unfolding initlock_def by (intro keeps_rules) (simp add: upd_lock_def)
  show "keeps b machine.more (holding l)" "keeps b machine.more mycpu" "keeps b machine.more pushcli" "keeps b machine.more popcli"
    "keeps b machine.more readeflags_IF" by (fact hold my push pop base(1))+
qed

section \<open>Scheduling\<close>

text \<open>Memory, and the layers above the scheduler.\<close>

definition beyond :: "'z ksched_scheme \<Rightarrow> mem \<times> uint \<times> 'z" where
  "beyond s = (kmemory s, freelist s, ksched.more s)"

lemma beyond_simps [simp]:
  "beyond (upd_proc i f s) = beyond s" "beyond (s\<lparr>rr_q := q\<rparr>) = beyond s" "beyond (s\<lparr>lcfs_q := q\<rparr>) = beyond s"
  "beyond (s\<lparr>bjf_q := q\<rparr>) = beyond s" "beyond (s\<lparr>rr_counter := n\<rparr>) = beyond s"
  by (simp_all add: beyond_def upd_proc_def)

lemma beyond_machine: "machine.more t = machine.more s \<Longrightarrow> beyond t = beyond s"
  for s t :: "'z ksched_scheme"
  by (cases s, cases t) (simp add: beyond_def)

lemma keeps_locks_beyond [keeps_rules]:
  "keeps b beyond (acquire l)" "keeps b beyond (release l)" "keeps b beyond (holding l)" "keeps b beyond mycpu" "keeps b beyond pushcli"
  "keeps b beyond popcli" "keeps b beyond (initlock l nm)" "keeps b beyond readeflags_IF"
  by (rule keeps_mono [OF keeps_locks(1)] keeps_mono [OF keeps_locks(2)] keeps_mono [OF keeps_locks(3)]
      keeps_mono [OF keeps_locks(4)] keeps_mono [OF keeps_locks(5)] keeps_mono [OF keeps_locks(6)]
      keeps_mono [OF keeps_locks(7)] keeps_mono [OF keeps_locks(8)], erule beyond_machine)+

lemma keeps_my [keeps_rules]: "keeps b beyond myproc" "keeps b g (nonnull x)" "keeps b beyond myid" "keeps b beyond (myget f)" "keeps b beyond (myset h)"
proof -
  show p: "keeps b beyond myproc" unfolding myproc_def by (intro keeps_rules)
  show n: "keeps b g (nonnull x)" for g :: "'y \<Rightarrow> 'w" and x :: "'v option" unfolding nonnull_def by (intro keeps_rules)
  show i: "keeps b beyond myid" unfolding myid_def by (intro keeps_rules p n)
  show "keeps b beyond (myget f)" unfolding myget_def by (intro keeps_rules i)
  show "keeps b beyond (myset h)" unfolding myset_def by (intro keeps_rules i) simp
qed

lemma keeps_queues [keeps_rules]: "keeps b beyond (enqueue qt p)" "keeps b beyond (cleanupCorresQueue p)"
proof -
  have l: "keeps b beyond (liftq r put)" if "\<And>q s. beyond (put q s) = beyond s" for r put
    unfolding liftq_def by (intro keeps_rules that)
  show "keeps b beyond (enqueue qt p)"
    unfolding enqueue_def by (cases qt) (simp_all, (intro keeps_rules l; simp)+)
  have s: "keeps b beyond (shiftOutQueue get put p)" if "\<And>q s. beyond (put q s) = beyond s" for get put
    unfolding shiftOutQueue_def by (intro keeps_rules l that)
  show "keeps b beyond (cleanupCorresQueue p)"
    unfolding cleanupCorresQueue_def
  proof (intro keeps_rules)
    show "keeps b beyond (case qt of
       RR \<Rightarrow> bindk (getk (\<lambda>s. qpi (rr_q s))) (\<lambda>n.
         if n \<le> -1 then panic ''RR: nothing to clean''
         else thenk (shiftOutQueue rr_q (\<lambda>q s. s\<lparr>rr_q := q\<rparr>) p)
           (modk (\<lambda>s. s\<lparr>rr_q := (rr_q s)\<lparr>qpi := qpi (rr_q s) - 1\<rparr>\<rparr>)))
     | LCFS \<Rightarrow> bindk (getk (\<lambda>s. qpi (lcfs_q s))) (\<lambda>n.
         if n \<le> -1 then panic ''LCFS: nothing to clean''
         else thenk (shiftOutQueue lcfs_q (\<lambda>q s. s\<lparr>lcfs_q := q\<rparr>) p)
           (modk (\<lambda>s. s\<lparr>lcfs_q := (lcfs_q s)\<lparr>qpi := qpi (lcfs_q s) - 1\<rparr>\<rparr>)))
     | BJF \<Rightarrow> bindk (getk (\<lambda>s. qpi (bjf_q s))) (\<lambda>n.
         if n \<le> -1 then panic ''BJF: nothing to clean''
         else thenk (shiftOutQueue bjf_q (\<lambda>q s. s\<lparr>bjf_q := q\<rparr>) p)
           (modk (\<lambda>s. s\<lparr>bjf_q := (bjf_q s)\<lparr>qpi := qpi (bjf_q s) - 1\<rparr>\<rparr>)))
     | DEF \<Rightarrow> panic ''defaut scheduling cleanup'')" for qt
      by (cases qt) (simp_all, (intro keeps_rules s; simp)+)
  qed
qed

lemma keeps_wakeup [keeps_rules]: "keeps b beyond (wakeup1 ch)" "keeps b beyond (wakeup ch)"
proof -
  show w: "keeps b beyond (wakeup1 ch)" unfolding wakeup1_def by (intro keeps_rules) simp
  show "keeps b beyond (wakeup ch)" unfolding wakeup_def by (intro keeps_rules w)
qed

lemma keeps_sched [keeps_rules]: "keeps True beyond (sched k)"
proof -
  have b: "keeps True beyond (\<lambda>s. Block (upd_proc i f s))" for i f by (simp add: keeps_def wpk_def)
  show ?thesis unfolding sched_def by (intro keeps_rules b)
qed

lemma keeps_sleep [keeps_rules]: "keeps True beyond (sleep ch lk)"
  unfolding sleep_def by (intro keeps_rules) simp_all

lemma keeps_load [keeps_rules]: "keeps b g (load_byte a)"
  unfolding load_byte_def by (intro keeps_rules)

end
