(* ===== verification/Ringbuf.thy ===== *)
theory Ringbuf
  imports Xv6_Prelude
begin

text \<open>
  Ring buffers indexed by 32-bit counters that only grow, as \<^verbatim>\<open>pipe.c\<close> and \<^verbatim>\<open>console.c\<close> use them: the counters are free to
  wrap around, the slot of a counter is its remainder, and the buffer holds the bytes between the two counters.

  \<open>ring_list\<close> is that list of bytes; it is shown that storing appends, advancing the read counter drops the first byte,
  and taking back the write counter drops the last one, also where a counter wraps around. The locale \<open>byte_queue\<close> is the
  contract of a bounded queue of bytes, with what any sequence of operations on it delivers.
\<close>

section \<open>Counters\<close>

definition ring_slot :: "nat \<Rightarrow> uint \<Rightarrow> nat" where
  "ring_slot N k = unat k mod N"

definition ring_list :: "nat \<Rightarrow> 'a list \<Rightarrow> uint \<Rightarrow> uint \<Rightarrow> 'a list" where
  "ring_list N d r w = map (\<lambda>k. d ! ring_slot N (r + of_nat k)) [0..<unat (w - r)]"

lemma length_ring_list [simp]: "length (ring_list N d r w) = unat (w - r)"
  by (simp add: ring_list_def)

lemma ring_list_empty: "ring_list N d r w = [] \<longleftrightarrow> r = w"
  using length_ring_list [of N d r w] by (auto simp: unat_eq_zero simp flip: length_0_conv)

lemma unat_plus_mod: "N dvd 2 ^ 32 \<Longrightarrow> unat (r + of_nat k :: uint) mod N = (unat r + k) mod N"
proof -
  assume N: "N dvd 2 ^ 32"
  have "unat (r + of_nat k :: uint) = (unat r + k) mod 2 ^ 32"
    by (simp add: unat_word_ariths unat_of_nat mod_add_right_eq)
  then show ?thesis using N by (simp add: mod_mod_cancel)
qed

lemma unat_succ_diff:
  assumes "unat (w - r) < 2 ^ 32 - 1"
  shows "unat (w + 1 - r :: uint) = Suc (unat (w - r))"
proof -
  have e: "w + 1 - r = (w - r) + 1" by simp
  have "unat ((w - r) + 1) = (unat (w - r) + 1) mod 2 ^ 32" by (simp add: unat_word_ariths)
  then show ?thesis unfolding e using assms by simp
qed

lemma ring_slot_differs:
  assumes N: "N dvd 2 ^ 32" and n: "unat (w - r) < N" and k: "k < unat (w - r)"
  shows "ring_slot N (r + of_nat k) \<noteq> ring_slot N w"
proof
  assume "ring_slot N (r + of_nat k) = ring_slot N w"
  moreover have "w = r + of_nat (unat (w - r))" by simp
  ultimately have "(unat r + k) mod N = (unat r + unat (w - r)) mod N"
    using unat_plus_mod [OF N, of r k] unat_plus_mod [OF N, of r "unat (w - r)"] by (simp add: ring_slot_def)
  then have "N dvd (unat r + unat (w - r)) - (unat r + k)" using k mod_eq_dvd_iff_nat [of "unat r + k" "unat r + unat (w - r)" N] by simp
  then have "N dvd unat (w - r) - k" by simp
  moreover have "0 < unat (w - r) - k" using k by simp
  ultimately have "N \<le> unat (w - r) - k" by (rule dvd_imp_le)
  then show False using n by simp
qed

section \<open>The operations\<close>

lemma ring_put:
  assumes N: "N dvd 2 ^ 32" "N < 2 ^ 32" and "length d = N" and n: "unat (w - r) < N"
  shows "ring_list N (d[ring_slot N w := c]) r (w + 1) = ring_list N d r w @ [c]"
proof -
  have s: "unat (w + 1 - r) = Suc (unat (w - r))" using n N(2) by (intro unat_succ_diff) simp
  have w: "r + of_nat (unat (w - r)) = w" by simp
  have l: "ring_slot N w < length d" using assms by (simp add: ring_slot_def)
  have "map (\<lambda>k. d[ring_slot N w := c] ! ring_slot N (r + of_nat k)) [0..<unat (w - r)]
      = map (\<lambda>k. d ! ring_slot N (r + of_nat k)) [0..<unat (w - r)]"
    using ring_slot_differs [OF N(1) n] by (intro map_cong refl) (metis atLeastLessThan_iff nth_list_update_neq set_upt)
  then show ?thesis using l w by (simp add: ring_list_def s)
qed

lemma ring_next:
  assumes "r \<noteq> w"
  shows "ring_list N d r w = d ! ring_slot N r # ring_list N d (r + 1) w"
proof -
  have "unat (w - r) \<noteq> 0" using assms by (simp add: unat_eq_zero)
  then obtain n where n: "unat (w - r) = Suc n" by (cases "unat (w - r)") auto
  have e: "w - (r + 1) = w - r - 1" by simp
  have m: "unat (w - (r + 1)) = n" unfolding e using n by (metis Suc_neq_Zero diff_Suc_1 unat_0 unat_minus_one)
  have "r + (1 + of_nat k) = r + 1 + of_nat k" for k :: nat by simp
  then show ?thesis
    unfolding ring_list_def n m by (simp add: upt_conv_Cons map_Suc_upt [symmetric] add.assoc del: upt_Suc)
qed

lemma ring_back:
  assumes "r \<noteq> w"
  shows "ring_list N d r (w - 1) = butlast (ring_list N d r w)"
proof -
  have "unat (w - r) \<noteq> 0" using assms by (simp add: unat_eq_zero)
  then obtain n where n: "unat (w - r) = Suc n" by (cases "unat (w - r)") auto
  have e: "w - 1 - r = w - r - 1" by simp
  have m: "unat (w - 1 - r) = n" unfolding e using n by (metis Suc_neq_Zero diff_Suc_1 unat_0 unat_minus_one)
  show ?thesis unfolding ring_list_def n m by simp
qed

section \<open>A bounded queue\<close>

locale byte_queue =
  fixes ok :: "'q \<Rightarrow> bool" and bytes :: "'q \<Rightarrow> 'a list" and put :: "'a \<Rightarrow> 'q \<Rightarrow> 'q" and get :: "'q \<Rightarrow> 'a"
    and drop1 :: "'q \<Rightarrow> 'q" and cap :: nat
  assumes put_law: "ok q \<Longrightarrow> length (bytes q) < cap \<Longrightarrow> ok (put c q) \<and> bytes (put c q) = bytes q @ [c]"
    and get_law: "ok q \<Longrightarrow> bytes q \<noteq> [] \<Longrightarrow> ok (drop1 q) \<and> bytes q = get q # bytes (drop1 q)"
begin

lemma puts: "ok q \<Longrightarrow> length (bytes q) + length cs \<le> cap \<Longrightarrow> ok (fold put cs q) \<and> bytes (fold put cs q) = bytes q @ cs"
proof (induction cs arbitrary: q)
  case (Cons c cs)
  then have "ok (put c q)" "bytes (put c q) = bytes q @ [c]" using put_law [of q c] by simp_all
  then show ?case using Cons.IH [of "put c q"] Cons.prems by simp
qed simp

lemma drops: "ok q \<Longrightarrow> n \<le> length (bytes q) \<Longrightarrow> ok ((drop1 ^^ n) q) \<and> bytes ((drop1 ^^ n) q) = drop n (bytes q)"
proof (induction n)
  case (Suc n)
  let ?q = "(drop1 ^^ n) q"
  have q: "ok ?q" "bytes ?q = drop n (bytes q)" "bytes ?q \<noteq> []" using Suc by simp_all
  have "bytes (drop1 ?q) = tl (bytes ?q)" "ok (drop1 ?q)" using get_law [OF q(1,3)] by (metis list.sel(3))+
  then show ?case using q(2) by (simp add: drop_Suc tl_drop)
qed simp

end

end
