(* ===== verification/Pipes.thy ===== *)
theory Pipes
  imports Dirs Frames Ringbuf
begin

text \<open>
  The file table \<^verbatim>\<open>file.c\<close> and pipes \<^verbatim>\<open>pipe.c\<close>.

  A file is an index into \<open>ftable\<close>; a pipe is named by the page it lives in. The loops of \<^verbatim>\<open>pipewrite\<close> and \<^verbatim>\<open>piperead\<close>
  wait with \<^verbatim>\<open>sleep\<close>; an operation that ends in \<open>Block\<close> goes on, when it is resumed, with \<open>pipewrite_loop\<close> at the same
  position, or with \<open>piperead_loop\<close>.

  Shown: the counters and the data array of a pipe are a bounded queue of bytes (an interpretation of \<open>byte_queue\<close>);
  \<^verbatim>\<open>pipewrite\<close> appends what it gets to and waits only on a full pipe, \<^verbatim>\<open>piperead\<close> takes from the front and waits only on an
  empty one; every history of a pipe is first-in first-out; and a write followed by a read delivers.
\<close>

abbreviation NFILE :: nat where "NFILE \<equiv> 100"
abbreviation PIPESIZE :: nat where "PIPESIZE \<equiv> 512"

datatype ftype = FD_NONE | FD_PIPE | FD_INODE

record file_struct =
  ftype :: ftype
  fref :: int
  readable :: bool
  writable :: bool
  fpipe :: uint
  fip :: "nat option"
  foff :: uint

record pipe =
  pdata :: "uchar list"
  nread :: uint
  nwrite :: uint
  readopen :: bool
  writeopen :: bool

record kfile = kcons +
  ftable :: "file_struct list"
  pipes :: "uint \<Rightarrow> pipe"

definition file_at :: "'z kfile_scheme \<Rightarrow> nat \<Rightarrow> file_struct" where
  "file_at s i = ftable s ! i"

definition upd_file :: "nat \<Rightarrow> (file_struct \<Rightarrow> file_struct) \<Rightarrow> 'z kfile_scheme \<Rightarrow> 'z kfile_scheme" where
  "upd_file i f s = s\<lparr>ftable := (ftable s)[i := f (ftable s ! i)]\<rparr>"

definition upd_pipe :: "uint \<Rightarrow> (pipe \<Rightarrow> pipe) \<Rightarrow> 'z kfile_scheme \<Rightarrow> 'z kfile_scheme" where
  "upd_pipe p f s = s\<lparr>pipes := (pipes s)(p := f (pipes s p))\<rparr>"

section \<open>Pipes\<close>

definition pslot :: "uint \<Rightarrow> nat" where
  "pslot k = unat k mod PIPESIZE"

definition pipe_full :: "pipe \<Rightarrow> bool" where
  "pipe_full p \<longleftrightarrow> nwrite p = nread p + of_nat PIPESIZE"

definition pipe_put :: "uchar \<Rightarrow> pipe \<Rightarrow> pipe" where
  "pipe_put c p = p\<lparr>pdata := (pdata p)[pslot (nwrite p) := c], nwrite := nwrite p + 1\<rparr>"

definition pipe_get :: "pipe \<Rightarrow> uchar" where
  "pipe_get p = pdata p ! pslot (nread p)"

definition pipe_next :: "pipe \<Rightarrow> pipe" where
  "pipe_next p = p\<lparr>nread := nread p + 1\<rparr>"

definition pipeclose :: "uint \<Rightarrow> bool \<Rightarrow> ('z kfile_scheme, unit) kop" where
  "pipeclose p w =
     thenk (acquire (PipeLk p))
    (thenk (if w then thenk (modk (upd_pipe p (\<lambda>x. x\<lparr>writeopen := False\<rparr>))) (wakeup (ChNread p))
            else thenk (modk (upd_pipe p (\<lambda>x. x\<lparr>readopen := False\<rparr>))) (wakeup (ChNwrite p)))
     (bindk (getk (\<lambda>s. pipes s p)) (\<lambda>x.
      if \<not> readopen x \<and> \<not> writeopen x then thenk (release (PipeLk p)) (kfree p)
      else release (PipeLk p))))"

fun pipewrite_loop :: "uint \<Rightarrow> uint \<Rightarrow> nat \<Rightarrow> nat \<Rightarrow> ('z kfile_scheme, int) kop" where
  "pipewrite_loop p addr i 0 = thenk (wakeup (ChNread p)) (thenk (release (PipeLk p)) (retk (int i)))"
| "pipewrite_loop p addr i (Suc left) =
     bindk (getk (\<lambda>s. pipes s p)) (\<lambda>x.
     if pipe_full x then
       bindk (if \<not> readopen x then retk True else myget killed) (\<lambda>give_up.
       if give_up then thenk (release (PipeLk p)) (retk (-1))
       else thenk (wakeup (ChNread p)) (sleep (ChNwrite p) (Some (PipeLk p))))
     else
       bindk (load_byte (addr + of_nat i)) (\<lambda>c.
       thenk (modk (upd_pipe p (pipe_put c))) (pipewrite_loop p addr (i + 1) left)))"

definition pipewrite :: "uint \<Rightarrow> uint \<Rightarrow> int \<Rightarrow> ('z kfile_scheme, int) kop" where
  "pipewrite p addr n =
     thenk (acquire (PipeLk p)) (bindk (pipewrite_loop p addr 0 (nat n)) (\<lambda>r. retk (if r = int (nat n) then n else r)))"

fun piperead_copy :: "uint \<Rightarrow> uint \<Rightarrow> nat \<Rightarrow> nat \<Rightarrow> ('z kfile_scheme, int) kop" where
  "piperead_copy p addr i 0 = retk (int i)"
| "piperead_copy p addr i (Suc left) =
     bindk (getk (\<lambda>s. pipes s p)) (\<lambda>x.
     if nread x = nwrite x then retk (int i)
     else
       thenk (modk (upd_pipe p pipe_next))
      (thenk (store_byte (addr + of_nat i) (pipe_get x))
       (piperead_copy p addr (i + 1) left)))"

definition piperead_loop :: "uint \<Rightarrow> uint \<Rightarrow> int \<Rightarrow> ('z kfile_scheme, int) kop" where
  "piperead_loop p addr n =
     bindk (getk (\<lambda>s. pipes s p)) (\<lambda>x.
     if nread x = nwrite x \<and> writeopen x then
       bindk (myget killed) (\<lambda>dead.
       if dead then thenk (release (PipeLk p)) (retk (-1))
       else sleep (ChNread p) (Some (PipeLk p)))
     else
       bindk (piperead_copy p addr 0 (nat n)) (\<lambda>r.
       thenk (wakeup (ChNwrite p)) (thenk (release (PipeLk p)) (retk r))))"

definition piperead :: "uint \<Rightarrow> uint \<Rightarrow> int \<Rightarrow> ('z kfile_scheme, int) kop" where
  "piperead p addr n = thenk (acquire (PipeLk p)) (piperead_loop p addr n)"

section \<open>Files\<close>

definition fileinit :: "('z kfile_scheme, unit) kop" where
  "fileinit = initlock FtableLock ''ftable''"

definition filealloc :: "('z kfile_scheme, nat option) kop" where
  "filealloc =
     thenk (acquire FtableLock)
    (bindk (getk (\<lambda>s. find_index (\<lambda>f. fref f = 0) (ftable s))) (\<lambda>r.
     case r of
       Some i \<Rightarrow> thenk (modk (upd_file i (\<lambda>f. f\<lparr>fref := 1\<rparr>))) (thenk (release FtableLock) (retk (Some i)))
     | None \<Rightarrow> thenk (release FtableLock) (retk None)))"

definition filedup :: "nat \<Rightarrow> ('z kfile_scheme, nat) kop" where
  "filedup i =
     thenk (acquire FtableLock)
    (bindk (getk (\<lambda>s. fref (file_at s i))) (\<lambda>r.
     if r < 1 then panic ''filedup''
     else thenk (modk (upd_file i (\<lambda>f. f\<lparr>fref := fref f + 1\<rparr>))) (thenk (release FtableLock) (retk i))))"

definition fileclose :: "nat \<Rightarrow> ('z kfile_scheme, unit) kop" where
  "fileclose i =
     thenk (acquire FtableLock)
    (bindk (getk (\<lambda>s. fref (file_at s i))) (\<lambda>r.
     if r < 1 then panic ''fileclose''
     else
       thenk (modk (upd_file i (\<lambda>f. f\<lparr>fref := fref f - 1\<rparr>)))
      (bindk (getk (\<lambda>s. file_at s i)) (\<lambda>ff.
       if fref ff > 0 then release FtableLock
       else
         thenk (modk (upd_file i (\<lambda>f. f\<lparr>fref := 0, ftype := FD_NONE\<rparr>)))
        (thenk (release FtableLock)
         (case ftype ff of
            FD_PIPE \<Rightarrow> pipeclose (fpipe ff) (writable ff)
          | FD_INODE \<Rightarrow> thenk begin_op (thenk (bindk (nonnull (fip ff)) iput) end_op)
          | FD_NONE \<Rightarrow> retk ()))))))"

definition filestat :: "nat \<Rightarrow> ('z kfile_scheme, stat option) kop" where
  "filestat i =
     bindk (getk (\<lambda>s. file_at s i)) (\<lambda>f.
     if ftype f = FD_INODE then
       thenk (ilock (fip f))
      (bindk (nonnull (fip f)) (\<lambda>ip.
       bindk (stati ip) (\<lambda>st.
       thenk (iunlock (fip f)) (retk (Some st)))))
     else retk None)"

definition fileread :: "nat \<Rightarrow> uint \<Rightarrow> int \<Rightarrow> ('z kfile_scheme, int) kop" where
  "fileread i addr n =
     bindk (getk (\<lambda>s. file_at s i)) (\<lambda>f.
     if \<not> readable f then retk (-1)
     else case ftype f of
         FD_PIPE \<Rightarrow> piperead (fpipe f) addr n
       | FD_INODE \<Rightarrow>
           thenk (ilock (fip f))
          (bindk (nonnull (fip f)) (\<lambda>ip.
           bindk (readi ip (At addr) (foff f) (word_of_int n)) (\<lambda>(r, _).
           thenk (whenk (r > 0) (modk (upd_file i (\<lambda>f. f\<lparr>foff := foff f + word_of_int r\<rparr>))))
          (thenk (iunlock (fip f))
           (retk r)))))
       | FD_NONE \<Rightarrow> panic ''fileread'')"

text \<open>The loop of \<^verbatim>\<open>filewrite\<close>: at most three blocks in a transaction.\<close>

abbreviation max_write :: int where "max_write \<equiv> 1536"

function filewrite_loop :: "nat \<Rightarrow> uint \<Rightarrow> int \<Rightarrow> int \<Rightarrow> ('z kfile_scheme, int) kop" where
  "filewrite_loop i addr n k =
     (if k < n then
        let n1 = min (n - k) max_write in
        thenk begin_op
       (bindk (getk (\<lambda>s. file_at s i)) (\<lambda>f.
        thenk (ilock (fip f))
       (bindk (nonnull (fip f)) (\<lambda>ip.
        bindk (writei ip (At (addr + word_of_int k)) (foff f) (word_of_int n1)) (\<lambda>r.
        thenk (whenk (r > 0) (modk (upd_file i (\<lambda>f. f\<lparr>foff := foff f + word_of_int r\<rparr>))))
       (thenk (iunlock (fip f))
       (thenk end_op
        (if r < 0 then retk (if k = n then n else -1)
         else if r \<noteq> n1 then panic ''short filewrite''
         else filewrite_loop i addr n (k + n1)))))))))
      else retk (if k = n then n else -1))"
  by pat_completeness auto
termination
  by (relation "measure (\<lambda>(i, addr, n, k). nat (n - k))") auto

declare filewrite_loop.simps [simp del]

definition filewrite :: "nat \<Rightarrow> uint \<Rightarrow> int \<Rightarrow> ('z kfile_scheme, int) kop" where
  "filewrite i addr n =
     bindk (getk (\<lambda>s. file_at s i)) (\<lambda>f.
     if \<not> writable f then retk (-1)
     else case ftype f of
         FD_PIPE \<Rightarrow> pipewrite (fpipe f) addr n
       | FD_INODE \<Rightarrow> filewrite_loop i addr n 0
       | FD_NONE \<Rightarrow> panic ''filewrite'')"

definition pipealloc_bad :: "uint \<Rightarrow> nat option \<Rightarrow> nat option \<Rightarrow> ('z kfile_scheme, (nat \<times> nat) option) kop" where
  "pipealloc_bad p f0 f1 =
     thenk (whenk (p \<noteq> 0) (kfree p))
    (thenk (case f0 of Some f \<Rightarrow> fileclose f | None \<Rightarrow> retk ())
    (thenk (case f1 of Some f \<Rightarrow> fileclose f | None \<Rightarrow> retk ())
     (retk None)))"

definition pipealloc :: "('z kfile_scheme, (nat \<times> nat) option) kop" where
  "pipealloc =
     bindk filealloc (\<lambda>f0.
     case f0 of
       None \<Rightarrow> pipealloc_bad 0 None None
     | Some a \<Rightarrow>
         bindk filealloc (\<lambda>f1.
         case f1 of
           None \<Rightarrow> pipealloc_bad 0 f0 None
         | Some b \<Rightarrow>
             bindk kalloc (\<lambda>p.
             if p = 0 then pipealloc_bad 0 f0 f1
             else
               thenk (modk (upd_pipe p (\<lambda>x. x\<lparr>readopen := True, writeopen := True, nwrite := 0, nread := 0\<rparr>)))
              (thenk (initlock (PipeLk p) ''pipe'')
              (thenk (modk (upd_file a (\<lambda>f. f\<lparr>ftype := FD_PIPE, readable := True, writable := False, fpipe := p\<rparr>)))
              (thenk (modk (upd_file b (\<lambda>f. f\<lparr>ftype := FD_PIPE, readable := False, writable := True, fpipe := p\<rparr>)))
               (retk (Some (a, b)))))))))"


section \<open>A pipe is a bounded queue of bytes\<close>

definition pipe_ok :: "pipe \<Rightarrow> bool" where
  "pipe_ok x \<longleftrightarrow> length (pdata x) = PIPESIZE \<and> unat (nwrite x - nread x) \<le> PIPESIZE"

definition pipe_bytes :: "pipe \<Rightarrow> uchar list" where
  "pipe_bytes x = ring_list PIPESIZE (pdata x) (nread x) (nwrite x)"

lemma pipe_full_iff: "pipe_full x \<longleftrightarrow> length (pipe_bytes x) = PIPESIZE"
proof -
  have "pipe_full x \<longleftrightarrow> nwrite x - nread x = of_nat PIPESIZE" by (simp add: pipe_full_def algebra_simps)
  also have "\<dots> \<longleftrightarrow> unat (nwrite x - nread x) = PIPESIZE" by (simp add: word_unat_eq_iff)
  finally show ?thesis by (simp add: pipe_bytes_def)
qed

lemma pipe_empty_iff: "nread x = nwrite x \<longleftrightarrow> pipe_bytes x = []"
  by (simp add: pipe_bytes_def ring_list_empty)

lemma pslot_ring: "pslot k = ring_slot PIPESIZE k"
  by (simp add: pslot_def ring_slot_def)

interpretation pq: byte_queue pipe_ok pipe_bytes pipe_put pipe_get pipe_next PIPESIZE
proof
  fix x c assume x: "pipe_ok x" "length (pipe_bytes x) < PIPESIZE"
  have n: "unat (nwrite x - nread x) < PIPESIZE" using x by (simp add: pipe_bytes_def)
  have "unat (nwrite x + 1 - nread x) = Suc (unat (nwrite x - nread x))" using n by (intro unat_succ_diff) simp
  moreover have "pipe_bytes (pipe_put c x) = pipe_bytes x @ [c]"
    using ring_put [of PIPESIZE "pdata x" "nwrite x" "nread x" c] n x(1)
    by (simp add: pipe_bytes_def pipe_put_def pslot_ring pipe_ok_def)
  ultimately show "pipe_ok (pipe_put c x) \<and> pipe_bytes (pipe_put c x) = pipe_bytes x @ [c]"
    using x(1) n by (simp add: pipe_ok_def pipe_put_def)
next
  fix x assume x: "pipe_ok x" "pipe_bytes x \<noteq> []"
  have e: "pipe_bytes x = pipe_get x # pipe_bytes (pipe_next x)"
    using x(2) ring_next [of "nread x" "nwrite x" PIPESIZE "pdata x"]
    by (simp add: pipe_bytes_def pipe_get_def pipe_next_def pslot_ring ring_list_empty)
  then have "length (pipe_bytes x) = Suc (length (pipe_bytes (pipe_next x)))" by simp
  then have "unat (nwrite x - nread x) = Suc (unat (nwrite x - (nread x + 1)))" by (simp add: pipe_bytes_def pipe_next_def)
  then show "pipe_ok (pipe_next x) \<and> pipe_bytes x = pipe_get x # pipe_bytes (pipe_next x)"
    using x(1) e by (simp add: pipe_ok_def pipe_next_def)
qed

section \<open>What the calls move\<close>

definition user_byte :: "'z ksched_scheme \<Rightarrow> uint \<Rightarrow> uchar" where
  "user_byte s a = (case mmu False a s of Some ka \<Rightarrow> kmemory s ka | None \<Rightarrow> 0)"

definition user_bytes :: "'z ksched_scheme \<Rightarrow> uint \<Rightarrow> nat \<Rightarrow> uchar list" where
  "user_bytes s a n = map (\<lambda>j. user_byte s (a + of_nat j)) [0..<n]"

lemma upd_pipe_simps [simp]:
  "pipes (upd_pipe p f s) q = (if q = p then f (pipes s p) else pipes s q)" "mmu w a (upd_pipe p f s) = mmu w a s"
  "kmemory (upd_pipe p f s) = kmemory s" "user_byte (upd_pipe p f s) a = user_byte s a"
  by (simp_all add: upd_pipe_def mmu_def user_byte_def Let_def)

lemma user_bytes_upd_pipe [simp]: "user_bytes (upd_pipe p f s) a n = user_bytes s a n"
  by (simp add: user_bytes_def)

lemma user_bytes_Suc: "user_bytes s a (Suc n) = user_byte s a # user_bytes s (a + 1) n"
  by (simp add: user_bytes_def upt_conv_Cons map_Suc_upt [symmetric] add.assoc del: upt_Suc)

lemma load_byte_wp: "wpk (load_byte a) (\<lambda>c t. c = user_byte s a \<and> t = s) never anyway s"
  by (simp add: load_byte_def user_byte_def wp split: option.split)

lemma pipes_beyond: "beyond t = beyond s \<Longrightarrow> pipes t = pipes s \<and> kmemory t = kmemory s"
  for s t :: "'z kfile_scheme"
  by (cases s, cases t) (simp add: beyond_def)

lemma keeps_pipes: "keeps b beyond m \<Longrightarrow> keeps b (\<lambda>s :: 'z kfile_scheme. pipes s) m"
  by (erule keeps_mono) (drule pipes_beyond, erule conjunct1)

lemma wp_pipes:
  fixes s :: "'z kfile_scheme"
  assumes "keeps b beyond m" and "\<And>a t. pipes t = pipes s \<Longrightarrow> Q a t" and "\<And>t. b \<Longrightarrow> pipes t = pipes s \<Longrightarrow> B t"
  shows "wpk m Q B anyway s"
  using keeps_pipes [OF assms(1)] assms(2,3) by (rule wp_keeps)

lemma wp_sleep_pipes:
  fixes s :: "'z kfile_scheme"
  assumes "\<And>t. pipes t = pipes s \<Longrightarrow> B t"
  shows "wpk (sleep ch lk) Q B anyway s"
proof (cases "sleep ch lk s :: ('a, 'z kfile_scheme) res")
  case (Block t)
  then show ?thesis using keepsD(2) [OF keeps_pipes [OF keeps_sleep] Block] assms by (simp add: wpk_def)
qed (simp_all add: wpk_def sleep_no_return)

definition appended :: "uint \<Rightarrow> uint \<Rightarrow> nat \<Rightarrow> 'z kfile_scheme \<Rightarrow> 'z kfile_scheme \<Rightarrow> bool" where
  "appended p a m s t \<longleftrightarrow> pipe_ok (pipes t p) \<and> pipe_bytes (pipes t p) = pipe_bytes (pipes s p) @ user_bytes s a m \<and>
     nwrite (pipes t p) = nwrite (pipes s p) + of_nat m"

text \<open>
  \<^verbatim>\<open>pipewrite\<close> appends the bytes it has got to; if it returns the length asked for, all of them; if it has to wait, the
  pipe is full.
\<close>

lemma pipewrite_loop_appends:
  fixes s :: "'z kfile_scheme"
  assumes "pipe_ok (pipes s p)"
  shows "wpk (pipewrite_loop p addr i left)
    (\<lambda>r t. \<exists>m\<le>left. appended p (addr + of_nat i) m s t \<and>
      (r = int (i + left) \<and> m = left \<or> r = -1))
    (\<lambda>t. \<exists>m\<le>left. appended p (addr + of_nat i) m s t \<and>
      length (pipe_bytes (pipes t p)) = PIPESIZE)
    anyway s"
  using assms
proof (induction left arbitrary: i s)
  case 0
  show ?case
    unfolding pipewrite_loop.simps wp
    by (rule wp_pipes [where b = False, OF keeps_wakeup(2)], rule wp_pipes [where b = False, OF keeps_locks_beyond(2)])
      (use 0 in \<open>auto simp: appended_def user_bytes_def wp\<close>)
next
  case (Suc left)
  let ?x = "pipes s p"
  define Q where "Q = (\<lambda>(r :: int) (t :: 'z kfile_scheme). \<exists>m\<le>Suc left. appended p (addr + of_nat i) m s t \<and> (r = int (i + Suc left) \<and> m = Suc left \<or> r = -1))"
  define B where "B = (\<lambda>t :: 'z kfile_scheme. \<exists>m\<le>Suc left. appended p (addr + of_nat i) m s t \<and> length (pipe_bytes (pipes t p)) = PIPESIZE)"
  have "wpk (pipewrite_loop p addr i (Suc left)) Q B anyway s"
  proof (cases "pipe_full ?x")
    case True
    have q: "Q (-1) t" "B t" if "pipes t = pipes s" for t
      using that Suc.prems True by (auto simp: Q_def B_def appended_def pipe_full_iff user_bytes_def intro!: exI [of _ 0])
    have gu: "keeps False beyond (if \<not> readopen ?x then retk True else myget killed :: ('z kfile_scheme, bool) kop)"
      by (intro keeps_rules)
    have "wpk (if \<not> readopen ?x then retk True else myget killed) (\<lambda>give_up. wpk
        (if give_up then thenk (release (PipeLk p)) (retk (-1)) else thenk (wakeup (ChNread p)) (sleep (ChNwrite p) (Some (PipeLk p)))) Q B anyway)
        B anyway s"
    proof (rule wp_pipes [OF gu])
      fix give_up and t :: "'z kfile_scheme" assume t: "pipes t = pipes s"
      show "wpk (if give_up then thenk (release (PipeLk p)) (retk (-1)) else thenk (wakeup (ChNread p)) (sleep (ChNwrite p) (Some (PipeLk p))))
          Q B anyway t"
      proof (cases give_up)
        case True
        have "wpk (release (PipeLk p)) (\<lambda>_. Q (-1)) B anyway t"
          by (rule wp_pipes [where b = False, OF keeps_locks_beyond(2)], rule q(1), erule trans [OF _ t], erule FalseE)
        then show ?thesis using True by (simp add: wp wpf)
      next
        case False
        have "wpk (wakeup (ChNread p)) (\<lambda>_. wpk (sleep (ChNwrite p) (Some (PipeLk p))) Q B anyway) B anyway t"
        proof (rule wp_pipes [where b = False, OF keeps_wakeup(2)], rule wp_sleep_pipes, rule q(2))
          show "pipes v = pipes s" if "pipes u = pipes t" "pipes v = pipes u" for u v :: "'z kfile_scheme"
            by (simp only: that t)
        qed simp
        then show ?thesis using False by (simp add: wp wpf)
      qed
    qed simp
    then show ?thesis using True by (simp add: wp wpf)
  next
    case False
    have lt: "length (pipe_bytes ?x) < PIPESIZE"
      using False Suc.prems by (simp add: pipe_full_iff) (simp add: pipe_ok_def pipe_bytes_def)
    let ?c = "user_byte s (addr + of_nat i)"
    let ?s = "upd_pipe p (pipe_put ?c) s"
    note put = pq.put_law [OF Suc.prems lt, of ?c]
    then have ok: "pipe_ok (pipes ?s p)" by simp
    have ub: "user_bytes s (addr + of_nat i) (Suc m) = ?c # user_bytes s (addr + of_nat (i + 1)) m" for m
      by (simp add: user_bytes_Suc ac_simps)
    have app: "appended p (addr + of_nat i) (Suc m) s t" if "appended p (addr + of_nat (i + 1)) m ?s t" for m t
      using that put unfolding appended_def ub by (simp add: pipe_put_def)
    have "wpk (pipewrite_loop p addr (i + 1) left) Q B anyway ?s"
    proof (rule wp_mono [OF Suc.IH [OF ok]])
      show "Q r t" if "\<exists>m\<le>left. appended p (addr + of_nat (i + 1)) m ?s t \<and> (r = int (i + 1 + left) \<and> m = left \<or> r = -1)" for r t
        using that app unfolding Q_def by fastforce
      show "B t" if "\<exists>m\<le>left. appended p (addr + of_nat (i + 1)) m ?s t \<and> length (pipe_bytes (pipes t p)) = PIPESIZE" for t
        using that app unfolding B_def by fastforce
    qed simp
    then have "wpk (load_byte (addr + of_nat i)) (\<lambda>c. wpk (thenk (modk (upd_pipe p (pipe_put c))) (pipewrite_loop p addr (i + 1) left)) Q B anyway)
        B anyway s"
      by (intro wp_mono [OF load_byte_wp]) (auto simp: wp)
    then show ?thesis using False by (simp add: wp wpf)
  qed
  then show ?case by (simp add: Q_def B_def)
qed

text \<open>
  A buffer of the user: its addresses are mapped for writing to different places, none of which the page table itself
  depends on.
\<close>

definition user_buffer :: "uint \<Rightarrow> nat \<Rightarrow> (nat \<Rightarrow> uint) \<Rightarrow> 'z ksched_scheme \<Rightarrow> bool" where
  "user_buffer a n ka s \<longleftrightarrow> inj_on ka {..<n} \<and>
     (\<forall>f. (\<forall>x. x \<notin> ka ` {..<n} \<longrightarrow> f x = kmemory s x) \<longrightarrow> (\<forall>j<n. mmu True (a + of_nat j) (s\<lparr>kmemory := f\<rparr>) = Some (ka j)))"

lemma user_buffer_mmu: "user_buffer a n ka s \<Longrightarrow> j < n \<Longrightarrow> mmu True (a + of_nat j) s = Some (ka j)"
  unfolding user_buffer_def by (drule conjunct2, drule spec [of _ "kmemory s"]) simp

lemma user_buffer_store:
  assumes "user_buffer a n ka s" and "j < n"
  shows "user_buffer a n ka (s\<lparr>kmemory := (kmemory s)(ka j := c)\<rparr>)"
proof -
  have "mmu True (a + of_nat k) (s\<lparr>kmemory := f\<rparr>) = Some (ka k)"
    if f: "\<forall>x. x \<notin> ka ` {..<n} \<longrightarrow> f x = ((kmemory s)(ka j := c)) x" and "k < n" for f k
  proof -
    have "\<forall>x. x \<notin> ka ` {..<n} \<longrightarrow> f x = kmemory s x" using f assms(2) by auto
    then show ?thesis using assms(1) that(2) unfolding user_buffer_def by blast
  qed
  then show ?thesis using assms(1) unfolding user_buffer_def by simp
qed

lemma user_buffer_pipe: "user_buffer a n ka (upd_pipe p f s) = user_buffer a n ka s"
proof -
  have "(upd_pipe p f s)\<lparr>kmemory := g\<rparr> = upd_pipe p f (s\<lparr>kmemory := g\<rparr>)" for g by (simp add: upd_pipe_def)
  then show ?thesis by (simp add: user_buffer_def)
qed

lemma piperead_copy_takes:
  fixes s :: "'z kfile_scheme"
  assumes "pipe_ok (pipes s p)" and "user_buffer addr n ka s" and "i + left \<le> n"
  shows "\<exists>t. piperead_copy p addr i left s = Ret (int (i + min left (length (pipe_bytes (pipes s p))))) t \<and> pipe_ok (pipes t p) \<and>
    pipe_bytes (pipes t p) = drop left (pipe_bytes (pipes s p)) \<and>
    (\<forall>j < min left (length (pipe_bytes (pipes s p))). kmemory t (ka (i + j)) = pipe_bytes (pipes s p) ! j) \<and>
    (\<forall>x. x \<notin> ka ` {i..<n} \<longrightarrow> kmemory t x = kmemory s x) \<and> t = s\<lparr>kmemory := kmemory t, pipes := pipes t\<rparr>"
  using assms
proof (induction left arbitrary: i s)
  case 0
  then show ?case by (simp add: retk_def)
next
  case (Suc left)
  let ?x = "pipes s p"
  show ?case
  proof (cases "nread ?x = nwrite ?x")
    case True
    then show ?thesis using Suc.prems by (simp add: bindk_getk retk_def pipe_empty_iff)
  next
    case False
    then have ne: "pipe_bytes ?x \<noteq> []" by (simp add: pipe_empty_iff)
    note g = pq.get_law [OF Suc.prems(1) ne]
    let ?u = "upd_pipe p pipe_next s"
    let ?v = "?u\<lparr>kmemory := (kmemory s)(ka i := pipe_get ?x)\<rparr>"
    have i: "i < n" using Suc.prems(3) by simp
    have bu: "user_buffer addr n ka ?u" using Suc.prems(2) by (simp add: user_buffer_pipe)
    have st: "store_byte (addr + of_nat i) (pipe_get ?x) ?u = Ret () ?v"
      using user_buffer_mmu [OF bu i] by (simp add: store_byte_def bindk_getk modk_def)
    have bv: "user_buffer addr n ka ?v" using user_buffer_store [OF bu i, of "pipe_get ?x"] by simp
    have pv: "pipes ?v p = pipe_next ?x" by (simp add: upd_pipe_def)
    obtain t where t: "piperead_copy p addr (i + 1) left ?v = Ret (int (i + 1 + min left (length (pipe_bytes (pipe_next ?x))))) t"
        "pipe_ok (pipes t p)" "pipe_bytes (pipes t p) = drop left (pipe_bytes (pipe_next ?x))"
        "\<forall>j < min left (length (pipe_bytes (pipe_next ?x))). kmemory t (ka (i + 1 + j)) = pipe_bytes (pipe_next ?x) ! j"
        "\<forall>x. x \<notin> ka ` {i + 1..<n} \<longrightarrow> kmemory t x = kmemory ?v x" "t = ?v\<lparr>kmemory := kmemory t, pipes := pipes t\<rparr>"
      using Suc.IH [of ?v "i + 1"] g bv Suc.prems(3) unfolding pv by auto
    have inj: "inj_on ka {..<n}" using Suc.prems(2) by (simp add: user_buffer_def)
    have "ka i \<noteq> ka k" if "k \<in> {i + 1..<n}" for k using inj_onD [OF inj, of i k] that i by auto
    then have "ka i \<notin> ka ` {i + 1..<n}" by blast
    then have ki: "kmemory t (ka i) = pipe_get ?x" using t(5) by simp
    have "kmemory t (ka (i + j)) = pipe_bytes ?x ! j" if "j < min (Suc left) (length (pipe_bytes ?x))" for j
    proof (cases j)
      case 0
      then show ?thesis using ki g by (metis add.right_neutral nth_Cons_0)
    next
      case (Suc k)
      then have "k < min left (length (pipe_bytes (pipe_next ?x)))" using that g by (metis Suc_less_eq length_Cons min_Suc_Suc)
      then show ?thesis using t(4) Suc g by (metis add.assoc nth_Cons_Suc plus_1_eq_Suc)
    qed
    moreover have "kmemory t x = kmemory s x" if "x \<notin> ka ` {i..<n}" for x
    proof -
      have "x \<notin> ka ` {i + 1..<n}" "x \<noteq> ka i" using that i by auto
      then show ?thesis using t(5) by simp
    qed
    moreover have "piperead_copy p addr i (Suc left) s = Ret (int (i + min (Suc left) (length (pipe_bytes ?x)))) t"
    proof -
      have "min (Suc left) (length (pipe_bytes ?x)) = Suc (min left (length (pipe_bytes (pipe_next ?x))))"
        using g by (metis length_Cons min_Suc_Suc)
      then show ?thesis using False st t(1) by (simp add: bindk_getk thenk_modk thenk_Ret)
    qed
    moreover have "pipe_bytes (pipes t p) = drop (Suc left) (pipe_bytes ?x)" using t(3) g by (metis drop_Suc_Cons)
    moreover have "t = s\<lparr>kmemory := kmemory t, pipes := pipes t\<rparr>" by (rule trans [OF t(6)]) (simp add: upd_pipe_def)
    ultimately show ?thesis using t(2) by blast
  qed
qed

lemma wp_beyond:
  fixes s :: "'z kfile_scheme"
  assumes "keeps False beyond m" and "\<And>a t. pipes t = pipes s \<Longrightarrow> kmemory t = kmemory s \<Longrightarrow> Q a t"
  shows "wpk m Q B anyway s"
  using assms(1) by (rule wp_keeps) (drule pipes_beyond, erule conjE, erule (1) assms(2), erule FalseE)

text \<open>
  \<^verbatim>\<open>piperead\<close> moves bytes from the front of the pipe into the buffer in order, as many as were asked for or as there are;
  it waits only on an empty pipe.
\<close>

lemma piperead_loop_takes:
  fixes s :: "'z kfile_scheme"
  assumes ok: "pipe_ok (pipes s p)" and buf: "user_buffer addr (nat n) ka s"
  shows "wpk (piperead_loop p addr n)
    (\<lambda>r t. pipe_ok (pipes t p) \<and> pipe_bytes (pipes s p) = map (\<lambda>j. kmemory t (ka j)) [0..<nat r] @ pipe_bytes (pipes t p) \<and>
      (r = -1 \<or> r = int (min (nat n) (length (pipe_bytes (pipes s p))))))
    (\<lambda>t. pipes t p = pipes s p \<and> pipe_bytes (pipes s p) = []) anyway s"
proof -
  let ?x = "pipes s p"
  define Q where "Q = (\<lambda>r (t :: 'z kfile_scheme). pipe_ok (pipes t p) \<and>
      pipe_bytes (pipes s p) = map (\<lambda>j. kmemory t (ka j)) [0..<nat r] @ pipe_bytes (pipes t p) \<and>
      (r = -1 \<or> r = int (min (nat n) (length (pipe_bytes (pipes s p))))))"
  define B where "B = (\<lambda>t :: 'z kfile_scheme. pipes t p = pipes s p \<and> pipe_bytes (pipes s p) = [])"
  have "wpk (piperead_loop p addr n) Q B anyway s"
  proof (cases "nread ?x = nwrite ?x \<and> writeopen ?x")
    case True
    have q: "Q (-1) t" "B t" if "pipes t = pipes s" for t
      using that ok True by (simp_all add: Q_def B_def pipe_empty_iff)
    have "wpk (myget killed) (\<lambda>dead. wpk (if dead then thenk (release (PipeLk p)) (retk (-1)) else sleep (ChNread p) (Some (PipeLk p))) Q B anyway)
        B anyway s"
    proof (rule wp_beyond)
      show "keeps False beyond (myget killed :: ('z kfile_scheme, bool) kop)" by (intro keeps_rules)
    next
      fix dead and t :: "'z kfile_scheme" assume t: "pipes t = pipes s"
      have "wpk (release (PipeLk p)) (\<lambda>_. Q (-1)) B anyway t"
        by (rule wp_pipes [where b = False, OF keeps_locks_beyond(2)], rule q(1), erule trans [OF _ t], erule FalseE)
      moreover have "wpk (sleep (ChNread p) (Some (PipeLk p))) Q B anyway t"
        by (rule wp_sleep_pipes, rule q(2), erule trans [OF _ t])
      ultimately show "wpk (if dead then thenk (release (PipeLk p)) (retk (-1)) else sleep (ChNread p) (Some (PipeLk p))) Q B anyway t"
        by (simp add: wp wpf)
    qed
    then show ?thesis using True by (simp add: piperead_loop_def wp wpf)
  next
    case False
    obtain t where t: "piperead_copy p addr 0 (nat n) s = Ret (int (min (nat n) (length (pipe_bytes ?x)))) t" "pipe_ok (pipes t p)"
        "pipe_bytes (pipes t p) = drop (nat n) (pipe_bytes ?x)"
        "\<forall>j < min (nat n) (length (pipe_bytes ?x)). kmemory t (ka j) = pipe_bytes ?x ! j"
      using piperead_copy_takes [OF ok buf, of 0 "nat n"] by auto
    let ?m = "min (nat n) (length (pipe_bytes ?x))"
    have l: "map (\<lambda>j. kmemory t (ka j)) [0..<?m] = take (nat n) (pipe_bytes ?x)"
      using t(4) by (intro nth_equalityI) auto
    have q: "Q (int ?m) v" if "pipes v = pipes t" "kmemory v = kmemory t" for v
      unfolding Q_def that nat_int l t(3) using t(2,3) by simp
    have "wpk (wakeup (ChNwrite p)) (\<lambda>_. wpk (release (PipeLk p)) (\<lambda>_. Q (int ?m)) B anyway) B anyway t"
    proof (rule wp_beyond [OF keeps_wakeup(2)], rule wp_beyond [OF keeps_locks_beyond(2)], rule q)
      fix u v :: "'z kfile_scheme"
      assume "pipes u = pipes t" "kmemory u = kmemory t" "pipes v = pipes u" "kmemory v = kmemory u"
      then show "pipes v = pipes t" "kmemory v = kmemory t" by (simp_all only:)
    qed
    then have "wpk (bindk (piperead_copy p addr 0 (nat n)) (\<lambda>r. thenk (wakeup (ChNwrite p)) (thenk (release (PipeLk p)) (retk r)))) Q B anyway s"
      by (simp add: wpk_def bindk_Ret t(1)) (simp add: wp wpf wpk_def [symmetric])
    then show ?thesis using False by (auto simp: piperead_loop_def wp wpf)
  qed
  then show ?thesis by (simp add: Q_def B_def)
qed

section \<open>Every history of a pipe\<close>

text \<open>
  The histories of the pipe \<open>p\<close>: \<open>ws\<close> are the bytes the writers have handed over, \<open>rs\<close> the bytes the readers have been given, in
  order. A call that waits has ended in \<open>Block\<close> and is resumed as a further step; steps of the rest of the kernel leave the pipe
  alone. The counters tell how far a writer came.
\<close>

abbreviation written :: "uint \<Rightarrow> 'z kfile_scheme \<Rightarrow> 'z kfile_scheme \<Rightarrow> nat" where
  "written p s t \<equiv> unat (nwrite (pipes t p) - nwrite (pipes s p))"

inductive pipe_run :: "uint \<Rightarrow> uchar list \<Rightarrow> uchar list \<Rightarrow> 'z kfile_scheme \<Rightarrow> bool" for p :: uint where
  fresh: "length (pdata (pipes s p)) = PIPESIZE \<Longrightarrow> nread (pipes s p) = nwrite (pipes s p) \<Longrightarrow> pipe_run p [] [] s"
| writes: "pipe_run p ws rs s \<Longrightarrow> pipewrite_loop p addr i left s = Ret r t \<Longrightarrow>
    pipe_run p (ws @ user_bytes s (addr + of_nat i) (written p s t)) rs t"
| write_waits: "pipe_run p ws rs s \<Longrightarrow> pipewrite_loop p addr i left s = Block t \<Longrightarrow>
    pipe_run p (ws @ user_bytes s (addr + of_nat i) (written p s t)) rs t"
| reads: "pipe_run p ws rs s \<Longrightarrow> user_buffer addr (nat n) ka s \<Longrightarrow> piperead_loop p addr n s = Ret r t \<Longrightarrow>
    pipe_run p ws (rs @ map (\<lambda>j. kmemory t (ka j)) [0..<nat r]) t"
| read_waits: "pipe_run p ws rs s \<Longrightarrow> user_buffer addr (nat n) ka s \<Longrightarrow> piperead_loop p addr n s = Block t \<Longrightarrow> pipe_run p ws rs t"
| other: "pipe_run p ws rs s \<Longrightarrow> pipes t p = pipes s p \<Longrightarrow> pipe_run p ws rs t"

lemma appended_written:
  assumes "pipe_ok (pipes s p)" and "appended p a m s t"
  shows "written p s t = m"
proof -
  have "pipe_ok (pipes t p)" using assms(2) by (simp add: appended_def)
  then have "length (pipe_bytes (pipes t p)) \<le> PIPESIZE" by (simp add: pipe_ok_def pipe_bytes_def)
  then have "m \<le> PIPESIZE" using assms(2) by (simp add: appended_def user_bytes_def)
  then show ?thesis using assms(2) by (simp add: appended_def unat_of_nat)
qed

lemma pipe_run_inv: "pipe_run p ws rs s \<Longrightarrow> pipe_ok (pipes s p) \<and> ws = rs @ pipe_bytes (pipes s p)"
proof (induction rule: pipe_run.induct)
  case (fresh s)
  then show ?case using pipe_empty_iff [of "pipes s p"] by (simp add: pipe_ok_def)
next
  case (writes ws rs s addr i left r t)
  note ok = conjunct1 [OF writes.IH]
  obtain m where "appended p (addr + of_nat i) m s t"
    using wpD_Ret [OF pipewrite_loop_appends [OF ok] writes.hyps(2)] by blast
  then show ?case using appended_written [OF ok] writes.IH by (auto simp: appended_def)
next
  case (write_waits ws rs s addr i left t)
  note ok = conjunct1 [OF write_waits.IH]
  obtain m where "appended p (addr + of_nat i) m s t"
    using wpD_Block [OF pipewrite_loop_appends [OF ok] write_waits.hyps(2)] by blast
  then show ?case using appended_written [OF ok] write_waits.IH by (auto simp: appended_def)
next
  case (reads ws rs s addr n ka r t)
  then show ?case using wpD_Ret [OF piperead_loop_takes reads.hyps(3)] by simp
next
  case (read_waits ws rs s addr n ka t)
  then show ?case using wpD_Block [OF piperead_loop_takes read_waits.hyps(3)] by simp
qed simp

section \<open>A pipe with nobody waiting\<close>

definition idle_pipe :: "nat \<Rightarrow> uint \<Rightarrow> 'z kfile_scheme \<Rightarrow> bool" where
  "idle_pipe c p s \<longleftrightarrow> settled c s \<and> length (ptable s) = NPROC \<and> nobody_waits (ChNread p) s \<and> nobody_waits (ChNwrite p) s \<and>
     (\<forall>l\<in>{PipeLk p, PtableLock}. \<not> locked (locks s l) \<and> lcpu (locks s l) = None)"

lemma lockless_upd_pipe: "lockless (upd_pipe p f)"
  by (simp add: lockless_def upd_pipe_def)

lemma lockless_moved: "lockless (\<lambda>s :: 'z kfile_scheme. s\<lparr>kmemory := k, pipes := q\<rparr>)"
  by (simp add: lockless_def)

lemma idle_pipe_lockless:
  assumes "lockless f" and "ptable (f s) = ptable s"
  shows "idle_pipe c p (f s) = idle_pipe c p s"
  using assms settled_lockless [OF assms(1)] by (simp add: idle_pipe_def nobody_waits_def lockless_def)

lemma idle_pipe_upd [simp]: "idle_pipe c p (upd_pipe q f s) = idle_pipe c p s"
  by (rule idle_pipe_lockless [OF lockless_upd_pipe]) (simp add: upd_pipe_def)

lemma pipes_acquired [simp]: "pipes (acquired l c s) = pipes s"
  by (simp add: acquired_def upd_lock_def pushed_def)

lemma acquired_user [simp]:
  "kmemory (acquired l c s) = kmemory s" "mmu w a (acquired l c s) = mmu w a s"
  "user_byte (acquired l c s) a = user_byte s a"
  by (simp_all add: acquired_def upd_lock_def pushed_def mmu_def user_byte_def Let_def)

lemma user_buffer_acquired [simp]: "user_buffer a n ka (acquired l c s) = user_buffer a n ka s"
proof -
  have "(acquired l c s)\<lparr>kmemory := g\<rparr> = acquired l c (s\<lparr>kmemory := g\<rparr>)" for g
    by (rule lockless_acquired) (simp add: lockless_def)
  then show ?thesis by (simp add: user_buffer_def)
qed

lemma idle_pipe_locks:
  assumes "idle_pipe c p s"
  shows "acquire (PipeLk p) s = Ret () (acquired (PipeLk p) c s)" "release (PipeLk p) (acquired (PipeLk p) c s) = Ret () s"
    "ch \<in> {ChNread p, ChNwrite p} \<Longrightarrow> wakeup ch (acquired (PipeLk p) c s) = Ret () (acquired (PipeLk p) c s)"
proof -
  have s: "settled c s" "\<not> locked (locks s (PipeLk p))" "lcpu (locks s (PipeLk p)) = None" using assms by (simp_all add: idle_pipe_def)
  show "acquire (PipeLk p) s = Ret () (acquired (PipeLk p) c s)" by (rule acquire_free [OF s(1,2)])
  show "release (PipeLk p) (acquired (PipeLk p) c s) = Ret () s" by (rule release_acquired [OF s])
  show "wakeup ch (acquired (PipeLk p) c s) = Ret () (acquired (PipeLk p) c s)" if "ch \<in> {ChNread p, ChNwrite p}"
    using assms that acquired_props(1,6,7) [OF s(1), of "PipeLk p"]
    by (intro wakeup_nobody) (auto simp: idle_pipe_def nobody_waits_def)
qed

lemma pipewrite_loop_room:
  assumes "idle_pipe c p s" and "pipe_ok (pipes s p)" and "length (pipe_bytes (pipes s p)) + left \<le> PIPESIZE"
    and "\<And>j. j < left \<Longrightarrow> mmu False (addr + of_nat (i + j)) s \<noteq> None"
  shows "pipewrite_loop p addr i left (acquired (PipeLk p) c s)
    = Ret (int (i + left)) (upd_pipe p (fold pipe_put (user_bytes s (addr + of_nat i) left)) s)"
  using assms
proof (induction left arbitrary: i s)
  case 0
  then show ?case using idle_pipe_locks [of c p s] by (simp add: thenk_Ret retk_def user_bytes_def upd_pipe_def)
next
  case (Suc left)
  let ?x = "pipes s p" and ?c = "user_byte s (addr + of_nat i)"
  let ?s = "upd_pipe p (pipe_put ?c) s"
  have room: "length (pipe_bytes ?x) < PIPESIZE" using Suc.prems(3) by simp
  note put = pq.put_law [OF Suc.prems(2) room, of ?c]
  have "mmu False (addr + of_nat (i + 0)) s \<noteq> None" using Suc.prems(4) [of 0] by simp
  then have ld: "load_byte (addr + of_nat i) (acquired (PipeLk p) c s) = Ret ?c (acquired (PipeLk p) c s)"
    by (auto simp: load_byte_def bindk_getk user_byte_def getk_def)
  have "idle_pipe c p ?s" using Suc.prems(1) by simp
  moreover have "mmu False (addr + of_nat (i + 1 + j)) ?s \<noteq> None" if "j < left" for j using Suc.prems(4) [of "Suc j"] that by simp
  ultimately have "pipewrite_loop p addr (i + 1) left (acquired (PipeLk p) c ?s)
      = Ret (int (i + 1 + left)) (upd_pipe p (fold pipe_put (user_bytes ?s (addr + of_nat (i + 1)) left)) ?s)"
    using put Suc.prems(3) by (intro Suc.IH) simp_all
  moreover have "upd_pipe p f (upd_pipe p g s) = upd_pipe p (f \<circ> g) s" for f g by (simp add: upd_pipe_def)
  moreover have "user_bytes s (addr + of_nat i) (Suc left) = ?c # user_bytes s (addr + of_nat (i + 1)) left"
    by (simp add: user_bytes_Suc ac_simps)
  ultimately show ?case
    using room ld by (simp add: bindk_getk pipe_full_iff bindk_Ret thenk_modk lockless_acquired [OF lockless_upd_pipe] comp_def)
qed

lemma piperead_some:
  assumes "idle_pipe c p s" and "pipe_ok (pipes s p)" and "user_buffer addr (nat n) ka s" and "pipe_bytes (pipes s p) \<noteq> []"
  shows "\<exists>t. piperead_loop p addr n (acquired (PipeLk p) c s) = Ret (int (min (nat n) (length (pipe_bytes (pipes s p))))) t \<and> idle_pipe c p t \<and> pipe_ok (pipes t p) \<and>
    pipe_bytes (pipes t p) = drop (nat n) (pipe_bytes (pipes s p)) \<and>
    (\<forall>j < min (nat n) (length (pipe_bytes (pipes s p))). kmemory t (ka j) = pipe_bytes (pipes s p) ! j)"
proof -
  let ?a = "acquired (PipeLk p) c" and ?m = "min (nat n) (length (pipe_bytes (pipes s p)))"
  obtain u where u: "piperead_copy p addr 0 (nat n) (?a s) = Ret (int ?m) u" "pipe_ok (pipes u p)"
      "pipe_bytes (pipes u p) = drop (nat n) (pipe_bytes (pipes s p))" "\<forall>j < ?m. kmemory u (ka j) = pipe_bytes (pipes s p) ! j"
      "u = (?a s)\<lparr>kmemory := kmemory u, pipes := pipes u\<rparr>"
    using piperead_copy_takes [of "?a s" p addr "nat n" ka 0 "nat n"] assms(2,3) by auto
  define t where "t = s\<lparr>kmemory := kmemory u, pipes := pipes u\<rparr>"
  have ut: "u = ?a t" by (rule trans [OF u(5)]) (simp only: t_def lockless_acquired [OF lockless_moved])
  have it: "idle_pipe c p t"
    using assms(1) idle_pipe_lockless [OF lockless_moved, where s = s] unfolding t_def by simp
  have "nread (pipes s p) \<noteq> nwrite (pipes s p)" using assms(4) by (simp add: pipe_empty_iff)
  then have "piperead_loop p addr n (?a s) = Ret (int ?m) t"
    using idle_pipe_locks [OF it] u(1) ut by (simp add: piperead_loop_def thenk_Ret bindk_getk bindk_Ret retk_def)
  moreover have "pipes t = pipes u" "kmemory t = kmemory u" by (simp_all add: t_def)
  ultimately show ?thesis using it u(2,3,4) by auto
qed

text \<open>
  C4. A pipe is a bounded first-in first-out queue, for every interleaving of its readers and writers, partial writes and
  reads and waits included, and also where the 32-bit counters wrap around: at any point of any history the bytes the
  writers have handed over are the bytes the readers have been given, in the same order, followed by those in the pipe, of
  which there are at most \<^verbatim>\<open>PIPESIZE\<close>.
\<close>

theorem pipe_fifo:
  assumes "pipe_run p ws rs s"
  shows "ws = rs @ pipe_bytes (pipes s p) \<and> length (pipe_bytes (pipes s p)) \<le> PIPESIZE"
  using pipe_run_inv [OF assms] by (simp add: pipe_ok_def pipe_bytes_def)

text \<open>
  C20. With nobody waiting on the pipe and room for \<open>n\<close> bytes beside the older ones it may hold, \<^verbatim>\<open>pipewrite\<close> of \<open>n\<close> bytes
  returns \<open>n\<close>. A \<^verbatim>\<open>piperead\<close> of \<open>k\<close> bytes that follows returns as many of them as there are, fills the reader's buffer with the
  older bytes followed by the writer's, in order and whether or not the two buffers overlap, and leaves the rest in
  the pipe; the lock is free.
\<close>

theorem pipe_write_read:
  assumes "idle_pipe c p s" and "pipe_ok (pipes s p)" and "length (pipe_bytes (pipes s p)) + n \<le> PIPESIZE"
    and "\<forall>j<n. mmu False (src + of_nat j) s \<noteq> None" and "user_buffer dst k ka s"
    and "bs = pipe_bytes (pipes s p) @ map (\<lambda>j. user_byte s (src + of_nat j)) [0..<n]" and "bs \<noteq> []"
  shows "\<exists>t. bindk (pipewrite p src (int n)) (\<lambda>w. bindk (piperead p dst (int k)) (\<lambda>r. retk (w, r))) s =
      Ret (int n, int (min k (length bs))) t \<and>
    (\<forall>j < min k (length bs). kmemory t (ka j) = bs ! j) \<and> pipe_bytes (pipes t p) = drop k bs \<and>
    pipe_ok (pipes t p) \<and> idle_pipe c p t"
proof -
  let ?ws = "user_bytes s src n"
  let ?u = "upd_pipe p (fold pipe_put ?ws) s"
  have ws: "bs = pipe_bytes (pipes s p) @ ?ws" "length ?ws = n" using assms(6) by (simp_all add: user_bytes_def)
  have w: "pipewrite p src (int n) s = Ret (int n) ?u"
    using pipewrite_loop_room [OF assms(1-3), of src 0] assms(4) idle_pipe_locks [OF assms(1)]
    by (simp add: pipewrite_def thenk_Ret bindk_Ret retk_def)
  have u: "pipe_ok (pipes ?u p)" "pipe_bytes (pipes ?u p) = bs"
    using pq.puts [OF assms(2), of ?ws] assms(3) ws by simp_all
  have i: "idle_pipe c p ?u" using assms(1) by simp
  have "user_buffer dst (nat (int k)) ka ?u" using assms(5) by (simp add: user_buffer_pipe)
  then obtain t where "piperead_loop p dst (int k) (acquired (PipeLk p) c ?u) = Ret (int (min k (length bs))) t" "idle_pipe c p t"
      "pipe_ok (pipes t p)" "pipe_bytes (pipes t p) = drop k bs" "\<forall>j < min k (length bs). kmemory t (ka j) = bs ! j"
    using piperead_some [of c p ?u dst "int k" ka] i u(1) assms(7) unfolding u(2) nat_int by auto
  then show ?thesis using w idle_pipe_locks(1) [OF i] by (auto simp: piperead_def thenk_Ret bindk_Ret retk_def)
qed

text \<open>A pipe whose counters are about to wrap around, for the witnesses; the buffers are in kernel memory.\<close>

definition demo_pipe :: kfile where
  "demo_pipe = (kcons.extend (kfs.extend
     (demo_fs [] \<lparr>bvalid = False, bdirty = False, bdev = 0, blockno = 0, refcnt = 0, bdata = []\<rparr> 0
       \<lparr>idev = 0, inum = 0, iref = 0, ivalid = False, itype = 0, imajor = 0, iminor = 0, inlink = 0, isize = 0, addrs = []\<rparr>)
     \<lparr>panicked = False, cons_locking = False, input = \<lparr>ibuf = [], ir = 0, iw = 0, ie = 0\<rparr>, crt = [], cursor = 0, uart = False,
      serial = [], devsw = [], kbd_shift = 0, kbd_in = [], uart_in = []\<rparr>)
     \<lparr>ftable = [], pipes = (\<lambda>_. \<lparr>pdata = replicate PIPESIZE 0, nread = -1, nwrite = -1, readopen = True, writeopen = True\<rparr>)\<rparr>)
     \<lparr>kmemory := (\<lambda>_. 0)(0x80200000 := 7, 0x80200001 := 8, 0x80200002 := 9)\<rparr>"

lemma demo_pipe_idle: "idle_pipe 0 p demo_pipe"
  by (simp add: idle_pipe_def settled_def cli_ok_def demo_pipe_def demo_fs_def demo_log_def demo_bio_def ksleep.defs ksched.defs
    kbio.defs klog.defs kfs.defs kcons.defs mkfree_def mksched_def runs_on_def find_cpu_def cpu0_def free_lock_def nobody_waits_def)
    (auto simp: set_zip mkproc_def nth_Cons')

lemma demo_pipe_facts:
  shows "pipes demo_pipe p = \<lparr>pdata = replicate PIPESIZE 0, nread = -1, nwrite = -1, readopen = True, writeopen = True\<rparr>"
    "pipe_ok (pipes demo_pipe p)" "pipe_bytes (pipes demo_pipe p) = []"
    "kmemory demo_pipe = (\<lambda>_. 0)(0x80200000 := 7, 0x80200001 := 8, 0x80200002 := 9)"
proof -
  show p: "pipes demo_pipe p = \<lparr>pdata = replicate PIPESIZE 0, nread = -1, nwrite = -1, readopen = True, writeopen = True\<rparr>"
    by (simp add: demo_pipe_def kcons.defs)
  show "pipe_ok (pipes demo_pipe p)" "pipe_bytes (pipes demo_pipe p) = []" by (simp_all add: p pipe_ok_def pipe_empty_iff [symmetric])
  show "kmemory demo_pipe = (\<lambda>_. 0)(0x80200000 := 7, 0x80200001 := 8, 0x80200002 := 9)" by (simp add: demo_pipe_def)
qed

lemma less_3: "(j :: nat) < 3 \<longleftrightarrow> j = 0 \<or> j = 1 \<or> j = 2"
  by auto

lemma user_buffer_less:
  assumes "user_buffer a n ka s" and "m \<le> n"
  shows "user_buffer a m ka s"
proof -
  have "{..<m} \<subseteq> {..<n}" using assms(2) by auto
  then have "inj_on ka {..<m}" "ka ` {..<m} \<subseteq> ka ` {..<n}" using assms(1) by (auto simp: user_buffer_def intro: inj_on_subset)
  then show ?thesis using assms unfolding user_buffer_def by (meson less_le_trans subset_iff)
qed

lemma demo_pipe_buffers:
  shows "j < 3 \<Longrightarrow> mmu False (0x80200000 + of_nat j) s = Some (0x80200000 + of_nat j)"
    "user_buffer 0x80200001 3 (\<lambda>j. 0x80200001 + of_nat j) s" "user_bytes demo_pipe 0x80200000 3 = [7, 8, 9]"
proof -
  show m: "j < 3 \<Longrightarrow> mmu False (0x80200000 + of_nat j) s = Some (0x80200000 + of_nat j)" for j s
    by (auto simp: less_3 mmu_def)
  have "mmu True (0x80200001 + of_nat j) (s\<lparr>kmemory := f\<rparr>) = Some (0x80200001 + of_nat j)" if "j < 3" for j f
    using that by (auto simp: less_3 mmu_def)
  then show "user_buffer 0x80200001 3 (\<lambda>j. 0x80200001 + of_nat j) s" by (auto simp: user_buffer_def inj_on_def less_3)
  show "user_bytes demo_pipe 0x80200000 3 = [7, 8, 9]"
    by (simp add: user_bytes_def user_byte_def mmu_def demo_pipe_facts(4) upt_rec)
qed

lemma pipe_write_read_witness:
  "\<exists>t. bindk (pipewrite 0x80300000 0x80200000 3) (\<lambda>w. bindk (piperead 0x80300000 0x80200001 3) (\<lambda>r. retk (w, r)))
      (upd_pipe 0x80300000 (pipe_put 5) demo_pipe) = Ret (3, 3) t \<and>
    kmemory t 0x80200001 = 5 \<and> kmemory t 0x80200002 = 7 \<and> kmemory t 0x80200003 = 8 \<and> pipe_bytes (pipes t 0x80300000) = [9]"
proof -
  let ?s = "upd_pipe 0x80300000 (pipe_put 5) demo_pipe"
  have ok: "pipe_ok (pipes ?s 0x80300000)" "pipe_bytes (pipes ?s 0x80300000) = [5]"
    using pq.puts [OF demo_pipe_facts(2) [of "0x80300000"], of "[5]"] demo_pipe_facts(3) [of "0x80300000"] by simp_all
  have i: "idle_pipe 0 0x80300000 ?s" by (simp add: demo_pipe_idle)
  have m: "\<forall>j<3. mmu False (0x80200000 + of_nat j) ?s \<noteq> None" by (simp add: demo_pipe_buffers(1))
  have "user_byte ?s a = user_byte demo_pipe a" for a by simp
  then have b: "map (\<lambda>j. user_byte ?s (0x80200000 + of_nat j)) [0..<3] = [7, 8, 9]"
    using demo_pipe_buffers(3) by (simp add: user_bytes_def)
  obtain t where t: "bindk (pipewrite 0x80300000 0x80200000 (int 3)) (\<lambda>w. bindk (piperead 0x80300000 0x80200001 (int 3)) (\<lambda>r. retk (w, r))) ?s
        = Ret (int 3, int (min 3 (length [5, 7, 8, 9 :: uchar]))) t"
      "\<forall>j < min 3 (length [5, 7, 8, 9 :: uchar]). kmemory t (0x80200001 + of_nat j) = [5, 7, 8, 9] ! j"
      "pipe_bytes (pipes t 0x80300000) = drop 3 [5, 7, 8, 9]"
    using pipe_write_read [OF i ok(1) _ m demo_pipe_buffers(2), of "[5, 7, 8, 9]"] unfolding ok(2) b by auto
  then show ?thesis using t(2) [rule_format, of 0] t(2) [rule_format, of 1] t(2) [rule_format, of 2] by auto
qed

lemma demo_pipe_run: "\<exists>s :: kfile. pipe_run 0x80300000 [7, 8, 9] [7, 8] s"
proof -
  let ?p = "0x80300000 :: uint" and ?a = "acquired (PipeLk 0x80300000) 0"
  let ?u = "upd_pipe ?p (fold pipe_put [7, 8, 9]) demo_pipe"
  have "pipe_run ?p [] [] (?a demo_pipe)" by (rule pipe_run.fresh) (simp_all add: demo_pipe_facts(1))
  moreover have "pipewrite_loop ?p 0x80200000 0 3 (?a demo_pipe) = Ret 3 ?u"
    using pipewrite_loop_room [OF demo_pipe_idle [of ?p] demo_pipe_facts(2), of 3 "0x80200000" 0]
    by (simp add: demo_pipe_facts(3) demo_pipe_buffers(1,3))
  ultimately have "pipe_run ?p ([] @ user_bytes (?a demo_pipe) (0x80200000 + of_nat 0) (written ?p (?a demo_pipe) ?u)) [] ?u"
    by (rule pipe_run.writes)
  moreover have "written ?p (?a demo_pipe) ?u = 3" by (simp add: demo_pipe_facts(1) pipe_put_def)
  moreover have "user_bytes (?a demo_pipe) a n = user_bytes demo_pipe a n" for a n by (simp add: user_bytes_def)
  ultimately have "pipe_run ?p [7, 8, 9] [] ?u" using demo_pipe_buffers(3) by simp
  then have r: "pipe_run ?p [7, 8, 9] [] (?a ?u)" by (rule pipe_run.other) simp
  note inv = pipe_run_inv [OF \<open>pipe_run ?p [7, 8, 9] [] ?u\<close>]
  then have bytes: "pipe_bytes (pipes ?u ?p) = [7, 8, 9]" by (metis append_Nil)
  have i: "idle_pipe 0 ?p ?u"
    by (simp add: demo_pipe_idle)
  have b: "user_buffer 0x80200001 (nat 2) (\<lambda>j. 0x80200001 + of_nat j) ?u"
    by (rule user_buffer_less [OF demo_pipe_buffers(2)]) simp
  obtain t where t: "piperead_loop ?p 0x80200001 2 (?a ?u) = Ret 2 t" "\<forall>j<2. kmemory t (0x80200001 + of_nat j) = [7, 8, 9] ! j"
    using piperead_some [OF i _ b] conjunct1 [OF inv] unfolding bytes by auto
  have "pipe_run ?p [7, 8, 9] ([] @ map (\<lambda>j. kmemory t (0x80200001 + of_nat j)) [0..<nat 2]) t"
    by (rule pipe_run.reads [OF r _ t(1)]) (use b in simp)
  then show ?thesis using t(2) [rule_format, of 0] t(2) [rule_format, of 1] by (auto simp: upt_rec)
qed

lemma pipe_fifo_witness: "\<exists>s :: kfile. pipe_run 0x80300000 [7, 8, 9] [7, 8] s \<and> pipe_bytes (pipes s 0x80300000) = [9]"
proof -
  obtain s :: kfile where s: "pipe_run 0x80300000 [7, 8, 9] [7, 8] s" using demo_pipe_run by blast
  then show ?thesis using pipe_fifo [OF s] by auto
qed

end
