(* ===== verification/Process.thy ===== *)
theory Process
  imports Pipes
begin

text \<open>
  The life of a process: \<^verbatim>\<open>allocproc\<close>, \<^verbatim>\<open>userinit\<close>, \<^verbatim>\<open>growproc\<close>, \<^verbatim>\<open>fork\<close>, \<^verbatim>\<open>exit\<close>, \<^verbatim>\<open>wait\<close> and \<^verbatim>\<open>forkret\<close> of \<^verbatim>\<open>proc.c\<close>,
  and \<^verbatim>\<open>kvmalloc\<close> of \<^verbatim>\<open>vm.c\<close>.

  The trap frame and the context at the top of the kernel stack are the fields \<open>tf\<close> and \<open>ctx\<close>; a new context is \<open>AtForkret\<close>.
  \<^verbatim>\<open>wait\<close> waits in a loop: when it ends in \<open>Block\<close> it runs \<open>wait_loop\<close> again after it is resumed.
\<close>

abbreviation KSTACKSIZE :: uint where "KSTACKSIZE \<equiv> 4096"
abbreviation FL_IF :: uint where "FL_IF \<equiv> 0x200"

definition kvmalloc :: "('z kfile_scheme, unit) kop" where
  "kvmalloc = bindk setupkvm (\<lambda>d. thenk (modk (\<lambda>s. s\<lparr>kpgdir := d\<rparr>)) switchkvm)"

definition allocproc :: "('z kfile_scheme, nat option) kop" where
  "allocproc =
     thenk (acquire PtableLock)
    (bindk (getk (\<lambda>s. find_index (\<lambda>p. pstate p = UNUSED) (ptable s))) (\<lambda>f.
     case f of
       None \<Rightarrow> thenk (release PtableLock) (retk None)
     | Some i \<Rightarrow>
         thenk (modk (upd_proc i (\<lambda>p. p\<lparr>pstate := EMBRYO\<rparr>)))
        (thenk (modk (\<lambda>s. (upd_proc i (\<lambda>p. p\<lparr>pid := nextpid s\<rparr>) s)\<lparr>nextpid := nextpid s + 1\<rparr>))
        (thenk (release PtableLock)
        (bindk kalloc (\<lambda>ks.
         thenk (modk (upd_proc i (\<lambda>p. p\<lparr>kstack := ks\<rparr>)))
         (if ks = 0 then thenk (modk (upd_proc i (\<lambda>p. p\<lparr>pstate := UNUSED\<rparr>))) (retk None)
          else
            thenk (modk (upd_proc i (\<lambda>p. p\<lparr>ctx := AtForkret\<rparr>)))
           (thenk (modk (\<lambda>s. upd_proc i (\<lambda>p. p\<lparr>arrivetime := ticks s\<rparr>) s))
            (retk (Some i))))))))))"

text \<open>\<open>init\<close> and \<open>init_sz\<close> are the address and the size of the first program in the kernel image.\<close>

definition userinit :: "uint \<Rightarrow> uint \<Rightarrow> ('z kfile_scheme, unit) kop" where
  "userinit init init_sz =
     bindk allocproc (\<lambda>f.
     case f of
       None \<Rightarrow> panic ''userinit allocproc failed\<newline>''
     | Some i \<Rightarrow>
         thenk (modk (\<lambda>s. s\<lparr>initproc := Some i\<rparr>))
        (bindk setupkvm (\<lambda>d.
         thenk (modk (upd_proc i (\<lambda>p. p\<lparr>pgdir := d\<rparr>)))
         (if d = 0 then panic ''userinit: out of memory?''
          else
            thenk (inituvm d init init_sz)
           (thenk (modk (upd_proc i (\<lambda>p. p\<lparr>sz := PGSIZE, tf := zero_tf\<lparr>tf_cs := 0x1B, tf_ds := 0x23, tf_es := 0x23,
              tf_ss := 0x23, tf_eflags := FL_IF, tf_esp := PGSIZE, tf_eip := 0\<rparr>, pname := ''initcode''\<rparr>)))
           (bindk (namei [slash]) (\<lambda>d.
            thenk (modk (upd_proc i (\<lambda>p. p\<lparr>cwd := d\<rparr>)))
           (thenk (acquire PtableLock)
           (thenk (modk (upd_proc i (\<lambda>p. p\<lparr>q_type := LCFS\<rparr>)))
           (thenk (enqueue LCFS i)
           (thenk (modk (upd_proc i (\<lambda>p. p\<lparr>pstate := RUNNABLE\<rparr>)))
            (release PtableLock))))))))))))"

definition growproc :: "int \<Rightarrow> ('z kfile_scheme, int) kop" where
  "growproc n =
     bindk myid (\<lambda>me.
     bindk (getk (\<lambda>s. proc_at s me)) (\<lambda>p.
     bindk (if n > 0 then bindk (allocuvm (pgdir p) (sz p) (sz p + word_of_int n)) (\<lambda>r. retk (r, r = 0))
            else if n < 0 then bindk (deallocuvm (pgdir p) (sz p) (sz p + word_of_int n)) (\<lambda>r. retk (r, r = 0))
            else retk (sz p, False)) (\<lambda>(new_sz, failed).
     if failed then retk (-1)
     else
       thenk (modk (upd_proc me (\<lambda>p. p\<lparr>sz := new_sz\<rparr>)))
      (thenk (switchuvm (Some me))
       (retk 0)))))"

section \<open>fork\<close>

definition fork_files :: "nat \<Rightarrow> nat \<Rightarrow> ('z kfile_scheme, unit) kop" where
  "fork_files me i = foreach [0..<NOFILE] (\<lambda>fd.
     bindk (getk (\<lambda>s. ofile (proc_at s me) ! fd)) (\<lambda>f.
     case f of
       None \<Rightarrow> retk ()
     | Some x \<Rightarrow> bindk (filedup x) (\<lambda>x. modk (upd_proc i (\<lambda>p. p\<lparr>ofile := (ofile p)[fd := Some x]\<rparr>)))))"

text \<open>
  The part of \<^verbatim>\<open>fork\<close> under \<^verbatim>\<open>ptable.lock\<close>, in two pieces: \<open>fork_enter\<close> up to the point where it takes \<^verbatim>\<open>tickslock\<close> as well,
  and \<open>fork_leave\<close> from there on.
\<close>

definition fork_enter :: "nat \<Rightarrow> ('z kfile_scheme, unit) kop" where
  "fork_enter i =
     thenk (acquire PtableLock)
    (thenk (modk (upd_proc i (\<lambda>p. p\<lparr>q_type := LCFS\<rparr>)))
    (thenk (enqueue LCFS i)
     (modk (\<lambda>s. upd_proc i (\<lambda>p. p\<lparr>arrivetime := ticks s, waiting_time := 0, executed_cycle := 0\<rparr>) s))))"

definition fork_leave :: "nat \<Rightarrow> ('z kfile_scheme, unit) kop" where
  "fork_leave i =
     thenk (acquire TicksLock)
    (thenk (modk (\<lambda>s. upd_proc i (\<lambda>p. p\<lparr>priority := int (unat (ticks s * ticks s * 1021 mod 100))\<rparr>) s))
    (thenk (release TicksLock)
    (thenk (modk (upd_proc i (\<lambda>p. p\<lparr>priority_ratio := 1 / 4, executed_cycle_ratio := 1 / 4,
       arrivetime_ratio := 1 / 4, size_ratio := 1 / 4\<rparr>)))
    (thenk (modk (upd_proc i (\<lambda>p. p\<lparr>pstate := RUNNABLE\<rparr>)))
     (release PtableLock)))))"

definition fork_start :: "nat \<Rightarrow> ('z kfile_scheme, unit) kop" where
  "fork_start i = thenk (fork_enter i) (fork_leave i)"

definition fork :: "('z kfile_scheme, int) kop" where
  "fork =
     bindk myid (\<lambda>me.
     bindk allocproc (\<lambda>f.
     case f of
       None \<Rightarrow> retk (-1)
     | Some i \<Rightarrow>
         bindk (getk (\<lambda>s. proc_at s me)) (\<lambda>cur.
         bindk (copyuvm (pgdir cur) (sz cur)) (\<lambda>d.
         thenk (modk (upd_proc i (\<lambda>p. p\<lparr>pgdir := d\<rparr>)))
         (if d = 0 then
            bindk (getk (\<lambda>s. kstack (proc_at s i))) (\<lambda>ks.
            thenk (kfree ks)
           (thenk (modk (upd_proc i (\<lambda>p. p\<lparr>kstack := 0, pstate := UNUSED\<rparr>)))
            (retk (-1))))
          else
            thenk (modk (upd_proc i (\<lambda>p. p\<lparr>sz := sz cur, parent := Some me, tf := (tf cur)\<lparr>tf_eax := 0\<rparr>\<rparr>)))
           (thenk (fork_files me i)
           (bindk (nonnull (cwd cur)) (\<lambda>c.
            bindk (idup c) (\<lambda>c.
            thenk (modk (upd_proc i (\<lambda>p. p\<lparr>cwd := Some c, pname := take 15 (pname cur)\<rparr>)))
           (bindk (getk (\<lambda>s. pid (proc_at s i))) (\<lambda>new_pid.
            thenk (fork_start i)
            (retk new_pid))))))))))))"

section \<open>exit and wait\<close>

definition close_files :: "nat \<Rightarrow> ('z kfile_scheme, unit) kop" where
  "close_files me = foreach [0..<NOFILE] (\<lambda>fd.
     bindk (getk (\<lambda>s. ofile (proc_at s me) ! fd)) (\<lambda>f.
     case f of
       None \<Rightarrow> retk ()
     | Some x \<Rightarrow> thenk (fileclose x) (modk (upd_proc me (\<lambda>p. p\<lparr>ofile := (ofile p)[fd := None]\<rparr>)))))"

definition wakeup_proc :: "nat option \<Rightarrow> ('z kfile_scheme, unit) kop" where
  "wakeup_proc p = (case p of None \<Rightarrow> retk () | Some i \<Rightarrow> wakeup1 (ChProc i))"

definition reparent :: "nat \<Rightarrow> ('z kfile_scheme, unit) kop" where
  "reparent me = foreach [0..<NPROC] (\<lambda>i.
     bindk (getk (\<lambda>s. proc_at s i)) (\<lambda>p.
     whenk (parent p = Some me)
      (thenk (modk (\<lambda>s. upd_proc i (\<lambda>p. p\<lparr>parent := initproc s\<rparr>) s))
       (whenk (pstate p = ZOMBIE) (bindk (getk initproc) wakeup_proc)))))"

definition exit_proc :: "('z kfile_scheme, 'a) kop" where
  "exit_proc =
     bindk myid (\<lambda>me.
     bindk (getk initproc) (\<lambda>init.
     if init = Some me then panic ''init exiting''
     else
       thenk (close_files me)
      (thenk begin_op
      (bindk (getk (\<lambda>s. cwd (proc_at s me))) (\<lambda>c.
       thenk (bindk (nonnull c) iput)
      (thenk end_op
      (thenk (modk (upd_proc me (\<lambda>p. p\<lparr>cwd := None\<rparr>)))
      (thenk (acquire PtableLock)
      (thenk (cleanupCorresQueue me)
      (bindk (getk (\<lambda>s. parent (proc_at s me))) (\<lambda>par.
       thenk (wakeup_proc par)
      (thenk (reparent me)
      (thenk (modk (upd_proc me (\<lambda>p. p\<lparr>pstate := ZOMBIE\<rparr>)))
       (sched InExit))))))))))))))"

definition reap :: "nat \<Rightarrow> ('z kfile_scheme, int) kop" where
  "reap i =
     bindk (getk (\<lambda>s. proc_at s i)) (\<lambda>p.
     thenk (kfree (kstack p))
    (thenk (modk (upd_proc i (\<lambda>p. p\<lparr>kstack := 0\<rparr>)))
    (thenk (freevm (pgdir p))
    (thenk (modk (upd_proc i (\<lambda>p. p\<lparr>pid := 0, parent := None, pname := [], killed := False, pstate := UNUSED\<rparr>)))
    (thenk (release PtableLock)
     (retk (pid p)))))))"

definition wait_loop :: "('z kfile_scheme, int) kop" where
  "wait_loop =
     bindk myid (\<lambda>me.
     bindk (getk (\<lambda>s. find_index (\<lambda>p. parent p = Some me \<and> pstate p = ZOMBIE) (ptable s))) (\<lambda>f.
     case f of
       Some i \<Rightarrow> reap i
     | None \<Rightarrow>
         bindk (getk (\<lambda>s. \<exists>p\<in>set (ptable s). parent p = Some me)) (\<lambda>havekids.
         bindk (getk (\<lambda>s. killed (proc_at s me))) (\<lambda>dead.
         if \<not> havekids \<or> dead then thenk (release PtableLock) (retk (-1))
         else sleep (ChProc me) (Some PtableLock)))))"

definition wait_child :: "('z kfile_scheme, int) kop" where
  "wait_child = thenk (acquire PtableLock) wait_loop"

definition forkret :: "('z kfile_scheme, unit) kop" where
  "forkret =
     thenk (release PtableLock)
    (bindk (getk first) (\<lambda>fst_time.
     whenk fst_time
      (thenk (modk (\<lambda>s. s\<lparr>first := False\<rparr>))
      (thenk (iinit ROOTDEV)
       (initlog ROOTDEV)))))"

end
