(* ===== verification/Syscalls.thy ===== *)
theory Syscalls
  imports Process
begin

text \<open>
  System calls: argument fetching of \<^verbatim>\<open>syscall.c\<close>, the calls of \<^verbatim>\<open>sysproc.c\<close> and \<^verbatim>\<open>sysfile.c\<close>, and \<^verbatim>\<open>exec.c\<close> with
  \<^verbatim>\<open>loaduvm\<close> of \<^verbatim>\<open>vm.c\<close>.

  A routine that returns -1 through its result and a value through a pointer returns an option. A string argument is
  the bytes before its zero. Messages to the console of failing calls are not part of the model.
\<close>

section \<open>Arguments\<close>

definition fetchint :: "uint \<Rightarrow> ('z kfile_scheme, uint option) kop" where
  "fetchint addr =
     bindk (myget sz) (\<lambda>n.
     if addr \<ge> n \<or> addr + 4 > n then retk None
     else bindk (load_bytes addr 4) (\<lambda>bs. retk (Some (le32 bs))))"

fun fetchstr_loop :: "uint \<Rightarrow> nat \<Rightarrow> ('z kfile_scheme, uchar list option) kop" where
  "fetchstr_loop a 0 = retk None"
| "fetchstr_loop a (Suc n) =
     bindk (load_byte a) (\<lambda>c.
     if c = 0 then retk (Some [])
     else bindk (fetchstr_loop (a + 1) n) (\<lambda>r. retk (map_option (\<lambda>cs. c # cs) r)))"

definition fetchstr :: "uint \<Rightarrow> ('z kfile_scheme, uchar list option) kop" where
  "fetchstr addr =
     bindk (myget sz) (\<lambda>n. if addr \<ge> n then retk None else fetchstr_loop addr (unat (n - addr)))"

definition argint :: "nat \<Rightarrow> ('z kfile_scheme, uint option) kop" where
  "argint k = bindk (myget tf) (\<lambda>f. fetchint (tf_esp f + 4 + 4 * of_nat k))"

definition argptr :: "nat \<Rightarrow> int \<Rightarrow> ('z kfile_scheme, uint option) kop" where
  "argptr k size' =
     bindk (argint k) (\<lambda>r.
     case r of
       None \<Rightarrow> retk None
     | Some i \<Rightarrow>
         bindk (myget sz) (\<lambda>n.
         if size' < 0 \<or> i \<ge> n \<or> i + word_of_int size' > n then retk None else retk (Some i)))"

definition argstr :: "nat \<Rightarrow> ('z kfile_scheme, uchar list option) kop" where
  "argstr k = bindk (argint k) (\<lambda>r. case r of None \<Rightarrow> retk None | Some a \<Rightarrow> fetchstr a)"

text \<open>Sequencing of fetches: -1 as soon as one fails.\<close>

definition witharg :: "('z kfile_scheme, 'a option) kop \<Rightarrow> ('a \<Rightarrow> ('z kfile_scheme, int) kop) \<Rightarrow> ('z kfile_scheme, int) kop" where
  "witharg m f = bindk m (\<lambda>r. case r of None \<Rightarrow> retk (-1) | Some a \<Rightarrow> f a)"

section \<open>Processes\<close>

definition sys_fork :: "('z kfile_scheme, int) kop" where
  "sys_fork = fork"

definition sys_exit :: "('z kfile_scheme, int) kop" where
  "sys_exit = exit_proc"

definition sys_wait :: "('z kfile_scheme, int) kop" where
  "sys_wait = wait_child"

definition sys_kill :: "('z kfile_scheme, int) kop" where
  "sys_kill = witharg (argint 0) (\<lambda>p. kill (sint p))"

definition sys_getpid :: "('z kfile_scheme, int) kop" where
  "sys_getpid = myget pid"

definition sys_sbrk :: "('z kfile_scheme, int) kop" where
  "sys_sbrk =
     witharg (argint 0) (\<lambda>n.
     bindk (myget sz) (\<lambda>addr.
     bindk (growproc (sint n)) (\<lambda>r. retk (if r < 0 then -1 else sint addr))))"

text \<open>The loop of \<^verbatim>\<open>sys_sleep\<close>, run again after each \<^verbatim>\<open>sleep\<close>; the comparison of the ticks is unsigned.\<close>

definition sys_sleep_loop :: "uint \<Rightarrow> uint \<Rightarrow> ('z kfile_scheme, int) kop" where
  "sys_sleep_loop n ticks0 =
     bindk (getk ticks) (\<lambda>t.
     if t - ticks0 < n then
       bindk (myget killed) (\<lambda>dead.
       if dead then thenk (release TicksLock) (retk (-1)) else sleep ChTicks (Some TicksLock))
     else thenk (release TicksLock) (retk 0))"

definition sys_sleep :: "('z kfile_scheme, int) kop" where
  "sys_sleep =
     witharg (argint 0) (\<lambda>n.
     thenk (acquire TicksLock) (bindk (getk ticks) (\<lambda>ticks0. sys_sleep_loop n ticks0)))"

definition sys_uptime :: "('z kfile_scheme, int) kop" where
  "sys_uptime = thenk (acquire TicksLock) (bindk (getk ticks) (\<lambda>x. thenk (release TicksLock) (retk (sint x))))"

definition sys_change_queue :: "('z kfile_scheme, int) kop" where
  "sys_change_queue =
     witharg (argint 0) (\<lambda>p.
     witharg (argint 1) (\<lambda>q.
     if queue_id (sint q) = None then retk (-1)
     else thenk (change_queue (sint p) (sint q)) (retk 0)))"

definition sys_change_local_bjf :: "('z kfile_scheme, int) kop" where
  "sys_change_local_bjf =
     witharg (argint 0) (\<lambda>p. witharg (argint 1) (\<lambda>pr. witharg (argint 2) (\<lambda>ar. witharg (argint 3) (\<lambda>er.
     witharg (argint 4) (\<lambda>sr. change_local_bjf (sint p) (sint pr) (sint ar) (sint er) (sint sr))))))"

definition sys_change_global_bjf :: "('z kfile_scheme, int) kop" where
  "sys_change_global_bjf =
     witharg (argint 0) (\<lambda>pr. witharg (argint 1) (\<lambda>ar. witharg (argint 2) (\<lambda>er. witharg (argint 3) (\<lambda>sr.
     change_global_bjf (sint pr) (sint ar) (sint er) (sint sr)))))"

text \<open>\<^verbatim>\<open>sys_print_proc\<close> is declared to return nothing; what is left in the result register is not determined by the code.\<close>

definition sys_print_proc :: "('z kfile_scheme, int) kop" where
  "sys_print_proc = thenk print_proc (retk 0)"

section \<open>Files\<close>

definition argfd :: "nat \<Rightarrow> ('z kfile_scheme, (nat \<times> nat) option) kop" where
  "argfd k =
     bindk (argint k) (\<lambda>r.
     case r of
       None \<Rightarrow> retk None
     | Some w \<Rightarrow>
         let fd = sint w in
         if fd < 0 \<or> fd \<ge> int NOFILE then retk None
         else bindk (myget ofile) (\<lambda>fs. retk (map_option (\<lambda>f. (nat fd, f)) (fs ! nat fd))))"

definition fdalloc :: "nat \<Rightarrow> ('z kfile_scheme, nat option) kop" where
  "fdalloc f =
     bindk (myget ofile) (\<lambda>fs.
     case find_index (\<lambda>x. x = None) (take NOFILE fs) of
       None \<Rightarrow> retk None
     | Some fd \<Rightarrow> thenk (myset (\<lambda>p. p\<lparr>ofile := (ofile p)[fd := Some f]\<rparr>)) (retk (Some fd)))"

definition sys_dup :: "('z kfile_scheme, int) kop" where
  "sys_dup =
     witharg (argfd 0) (\<lambda>(_, f).
     witharg (fdalloc f) (\<lambda>fd.
     thenk (filedup f) (retk (int fd))))"

definition sys_read :: "('z kfile_scheme, int) kop" where
  "sys_read =
     witharg (argfd 0) (\<lambda>(_, f). witharg (argint 2) (\<lambda>n. witharg (argptr 1 (sint n)) (\<lambda>p.
     fileread f p (sint n))))"

definition sys_write :: "('z kfile_scheme, int) kop" where
  "sys_write =
     witharg (argfd 0) (\<lambda>(_, f). witharg (argint 2) (\<lambda>n. witharg (argptr 1 (sint n)) (\<lambda>p.
     filewrite f p (sint n))))"

definition sys_close :: "('z kfile_scheme, int) kop" where
  "sys_close =
     witharg (argfd 0) (\<lambda>(fd, f).
     thenk (myset (\<lambda>p. p\<lparr>ofile := (ofile p)[fd := None]\<rparr>))
    (thenk (fileclose f)
     (retk 0)))"

text \<open>\<^verbatim>\<open>struct stat\<close> as it lies in memory, with the padding behind the first field.\<close>

definition encode_stat :: "stat \<Rightarrow> uchar list" where
  "encode_stat st = bytes16 (st_type st) @ [0, 0] @ bytes32 (st_dev st) @ bytes32 (st_ino st) @
     bytes16 (st_nlink st) @ [0, 0] @ bytes32 (st_size st)"

definition sys_fstat :: "('z kfile_scheme, int) kop" where
  "sys_fstat =
     witharg (argfd 0) (\<lambda>(_, f). witharg (argptr 1 20) (\<lambda>p.
     bindk (filestat f) (\<lambda>r.
     case r of None \<Rightarrow> retk (-1) | Some st \<Rightarrow> thenk (store_bytes p (encode_stat st)) (retk 0))))"

definition link_bad :: "nat \<Rightarrow> ('z kfile_scheme, int) kop" where
  "link_bad ip =
     thenk (ilock (Some ip))
    (thenk (modk (upd_inode ip (\<lambda>i. i\<lparr>inlink := inlink i - 1\<rparr>)))
    (thenk (iupdate ip)
    (thenk (iunlockput ip)
    (thenk end_op
     (retk (-1))))))"

definition sys_link :: "('z kfile_scheme, int) kop" where
  "sys_link =
     witharg (argstr 0) (\<lambda>old. witharg (argstr 1) (\<lambda>new.
     thenk begin_op
    (bindk (namei old) (\<lambda>r.
     case r of
       None \<Rightarrow> thenk end_op (retk (-1))
     | Some ip \<Rightarrow>
         thenk (ilock (Some ip))
        (bindk (getk (\<lambda>s. itype (inode_at s ip))) (\<lambda>t.
         if t = T_DIR then thenk (iunlockput ip) (thenk end_op (retk (-1)))
         else
           thenk (modk (upd_inode ip (\<lambda>i. i\<lparr>inlink := inlink i + 1\<rparr>)))
          (thenk (iupdate ip)
          (thenk (iunlock (Some ip))
          (bindk (nameiparent new) (\<lambda>r.
           case r of
             None \<Rightarrow> link_bad ip
           | Some (dp, nm) \<Rightarrow>
               thenk (ilock (Some dp))
              (bindk (getk (\<lambda>s. (idev (inode_at s dp), inode_at s ip))) (\<lambda>(dev, i).
               bindk (if dev \<noteq> idev i then retk (-1) else dirlink dp nm (inum i)) (\<lambda>r.
               if r < 0 then thenk (iunlockput dp) (link_bad ip)
               else
                 thenk (iunlockput dp)
                (thenk (iput ip)
                (thenk end_op
                 (retk 0))))))))))))))))"

fun isdirempty_loop :: "nat \<Rightarrow> nat list \<Rightarrow> ('z kfile_scheme, bool) kop" where
  "isdirempty_loop dp [] = retk True"
| "isdirempty_loop dp (ofs # os) =
     bindk (readi dp (Local []) (of_nat ofs) 16) (\<lambda>(r, de).
     if r \<noteq> 16 then panic ''isdirempty: readi''
     else if de_inum de \<noteq> 0 then retk False
     else isdirempty_loop dp os)"

definition isdirempty :: "nat \<Rightarrow> ('z kfile_scheme, bool) kop" where
  "isdirempty dp = bindk (getk (\<lambda>s. isize (inode_at s dp))) (\<lambda>n. isdirempty_loop dp (drop 2 (entry_offsets n)))"

definition dot :: "uchar list" where
  "dot = [46]"

definition dotdot :: "uchar list" where
  "dotdot = [46, 46]"

definition unlink_bad :: "nat \<Rightarrow> ('z kfile_scheme, int) kop" where
  "unlink_bad dp = thenk (iunlockput dp) (thenk end_op (retk (-1)))"

definition unlink_found :: "nat \<Rightarrow> nat \<Rightarrow> nat \<Rightarrow> ('z kfile_scheme, int) kop" where
  "unlink_found dp ip ofs =
     bindk (writei dp (Local (replicate 16 0)) (of_nat ofs) 16) (\<lambda>r.
     if r \<noteq> 16 then panic ''unlink: writei''
     else
       bindk (getk (\<lambda>s. itype (inode_at s ip))) (\<lambda>t.
       thenk (whenk (t = T_DIR)
         (thenk (modk (upd_inode dp (\<lambda>d. d\<lparr>inlink := inlink d - 1\<rparr>))) (iupdate dp)))
      (thenk (iunlockput dp)
      (thenk (modk (upd_inode ip (\<lambda>i. i\<lparr>inlink := inlink i - 1\<rparr>)))
      (thenk (iupdate ip)
      (thenk (iunlockput ip)
      (thenk end_op
       (retk 0))))))))"

definition sys_unlink :: "('z kfile_scheme, int) kop" where
  "sys_unlink =
     witharg (argstr 0) (\<lambda>path.
     thenk begin_op
    (bindk (nameiparent path) (\<lambda>r.
     case r of
       None \<Rightarrow> thenk end_op (retk (-1))
     | Some (dp, nm) \<Rightarrow>
         thenk (ilock (Some dp))
         (if namecmp_eq nm dot \<or> namecmp_eq nm dotdot then unlink_bad dp
          else
            bindk (dirlookup dp nm) (\<lambda>r.
            case r of
              None \<Rightarrow> unlink_bad dp
            | Some (ip, ofs) \<Rightarrow>
                thenk (ilock (Some ip))
               (bindk (getk (\<lambda>s. inode_at s ip)) (\<lambda>i.
                if sint (inlink i) < 1 then panic ''unlink: nlink < 1''
                else
                  bindk (if itype i = T_DIR then bindk (isdirempty ip) (\<lambda>e. retk (\<not> e)) else retk False) (\<lambda>full.
                  if full then thenk (iunlockput ip) (unlink_bad dp)
                  else unlink_found dp ip ofs))))))))"

definition create :: "uchar list \<Rightarrow> 16 word \<Rightarrow> 16 word \<Rightarrow> 16 word \<Rightarrow> ('z kfile_scheme, nat option) kop" where
  "create path typ major minor =
     bindk (nameiparent path) (\<lambda>r.
     case r of
       None \<Rightarrow> retk None
     | Some (dp, nm) \<Rightarrow>
         thenk (ilock (Some dp))
        (bindk (dirlookup dp nm) (\<lambda>r.
         case r of
           Some (ip, _) \<Rightarrow>
             thenk (iunlockput dp)
            (thenk (ilock (Some ip))
            (bindk (getk (\<lambda>s. itype (inode_at s ip))) (\<lambda>t.
             if typ = T_FILE \<and> t = T_FILE then retk (Some ip)
             else thenk (iunlockput ip) (retk None))))
         | None \<Rightarrow>
             bindk (getk (\<lambda>s. idev (inode_at s dp))) (\<lambda>dev.
             bindk (ialloc dev typ) (\<lambda>ip.
             thenk (ilock (Some ip))
            (thenk (modk (upd_inode ip (\<lambda>i. i\<lparr>imajor := major, iminor := minor, inlink := 1\<rparr>)))
            (thenk (iupdate ip)
            (bindk (getk (\<lambda>s. (inum (inode_at s ip), inum (inode_at s dp)))) (\<lambda>(n, pn).
             thenk (whenk (typ = T_DIR)
               (thenk (modk (upd_inode dp (\<lambda>d. d\<lparr>inlink := inlink d + 1\<rparr>)))
               (thenk (iupdate dp)
               (bindk (dirlink ip dot n) (\<lambda>r.
                bindk (if r < 0 then retk r else dirlink ip dotdot pn) (\<lambda>r.
                if r < 0 then panic ''create dots'' else retk ()))))))
            (bindk (dirlink dp nm n) (\<lambda>r.
             if r < 0 then panic ''create: dirlink''
             else thenk (iunlockput dp) (retk (Some ip)))))))))))))"

abbreviation O_CREATE :: uint where "O_CREATE \<equiv> 0x200"

definition open_inode :: "uchar list \<Rightarrow> uint \<Rightarrow> ('z kfile_scheme, nat option) kop" where
  "open_inode path omode =
     (if omode AND O_CREATE \<noteq> 0 then create path T_FILE 0 0
      else
        bindk (namei path) (\<lambda>r.
        case r of
          None \<Rightarrow> retk None
        | Some ip \<Rightarrow>
            thenk (ilock (Some ip))
           (bindk (getk (\<lambda>s. itype (inode_at s ip))) (\<lambda>t.
            if t = T_DIR \<and> omode \<noteq> 0 then thenk (iunlockput ip) (retk None) else retk (Some ip)))))"

definition sys_open :: "('z kfile_scheme, int) kop" where
  "sys_open =
     witharg (argstr 0) (\<lambda>path. witharg (argint 1) (\<lambda>omode.
     thenk begin_op
    (bindk (open_inode path omode) (\<lambda>r.
     case r of
       None \<Rightarrow> thenk end_op (retk (-1))
     | Some ip \<Rightarrow>
         bindk filealloc (\<lambda>f.
         bindk (case f of None \<Rightarrow> retk None | Some x \<Rightarrow> fdalloc x) (\<lambda>fd.
         case (f, fd) of
           (Some x, Some d) \<Rightarrow>
             thenk (iunlock (Some ip))
            (thenk end_op
            (thenk (modk (upd_file x (\<lambda>y. y\<lparr>ftype := FD_INODE, fip := Some ip, foff := 0,
               readable := (omode AND 1 = 0), writable := (omode AND 1 \<noteq> 0 \<or> omode AND 2 \<noteq> 0)\<rparr>)))
             (retk (int d))))
         | _ \<Rightarrow>
             thenk (case f of None \<Rightarrow> retk () | Some x \<Rightarrow> fileclose x)
            (thenk (iunlockput ip)
            (thenk end_op
             (retk (-1))))))))))"

definition sys_mkdir :: "('z kfile_scheme, int) kop" where
  "sys_mkdir =
     thenk begin_op
    (bindk (argstr 0) (\<lambda>p.
     bindk (case p of None \<Rightarrow> retk None | Some path \<Rightarrow> create path T_DIR 0 0) (\<lambda>r.
     case r of
       None \<Rightarrow> thenk end_op (retk (-1))
     | Some ip \<Rightarrow> thenk (iunlockput ip) (thenk end_op (retk 0)))))"

definition sys_mknod :: "('z kfile_scheme, int) kop" where
  "sys_mknod =
     thenk begin_op
    (bindk (argstr 0) (\<lambda>p. bindk (argint 1) (\<lambda>ma. bindk (argint 2) (\<lambda>mi.
     bindk (case (p, ma, mi) of
         (Some path, Some major, Some minor) \<Rightarrow> create path T_DEV (ucast major) (ucast minor)
       | _ \<Rightarrow> retk None) (\<lambda>r.
     case r of
       None \<Rightarrow> thenk end_op (retk (-1))
     | Some ip \<Rightarrow> thenk (iunlockput ip) (thenk end_op (retk 0)))))))"

definition sys_chdir :: "('z kfile_scheme, int) kop" where
  "sys_chdir =
     bindk myid (\<lambda>me.
     thenk begin_op
    (bindk (argstr 0) (\<lambda>p.
     bindk (case p of None \<Rightarrow> retk None | Some path \<Rightarrow> namei path) (\<lambda>r.
     case r of
       None \<Rightarrow> thenk end_op (retk (-1))
     | Some ip \<Rightarrow>
         thenk (ilock (Some ip))
        (bindk (getk (\<lambda>s. itype (inode_at s ip))) (\<lambda>t.
         if t \<noteq> T_DIR then thenk (iunlockput ip) (thenk end_op (retk (-1)))
         else
           thenk (iunlock (Some ip))
          (bindk (getk (\<lambda>s. cwd (proc_at s me))) (\<lambda>old.
           thenk (bindk (nonnull old) iput)
          (thenk end_op
          (thenk (modk (upd_proc me (\<lambda>p. p\<lparr>cwd := Some ip\<rparr>)))
           (retk 0)))))))))))"

definition sys_pipe :: "('z kfile_scheme, int) kop" where
  "sys_pipe =
     witharg (argptr 0 8) (\<lambda>p.
     witharg pipealloc (\<lambda>(rf, wf).
     bindk (fdalloc rf) (\<lambda>fd0.
     bindk (case fd0 of None \<Rightarrow> retk None | Some _ \<Rightarrow> fdalloc wf) (\<lambda>fd1.
     case (fd0, fd1) of
       (Some a, Some b) \<Rightarrow>
         thenk (store_bytes p (bytes32 (of_nat a)))
        (thenk (store_bytes (p + 4) (bytes32 (of_nat b)))
         (retk 0))
     | _ \<Rightarrow>
         thenk (case fd0 of None \<Rightarrow> retk () | Some a \<Rightarrow> myset (\<lambda>p. p\<lparr>ofile := (ofile p)[a := None]\<rparr>))
        (thenk (fileclose rf)
        (thenk (fileclose wf)
         (retk (-1))))))))"

end
