(* ===== verification/Exec.thy ===== *)
theory Exec
  imports Syscalls
begin

text \<open>
  \<^verbatim>\<open>exec.c\<close>, \<^verbatim>\<open>loaduvm\<close> of \<^verbatim>\<open>vm.c\<close>, and the system call table of \<^verbatim>\<open>syscall.c\<close>. The message of \<^verbatim>\<open>exec\<close> for a path
  that does not exist is left out.
\<close>

section \<open>Programs\<close>

record elfhdr =
  e_magic :: uint
  e_entry :: uint
  e_phoff :: uint
  e_phnum :: ushort

definition decode_elf :: "uchar list \<Rightarrow> elfhdr" where
  "decode_elf bs = \<lparr>e_magic = le32 bs, e_entry = le32 (drop 24 bs), e_phoff = le32 (drop 28 bs),
     e_phnum = le16 (drop 44 bs)\<rparr>"

record proghdr =
  ph_type :: uint
  ph_off :: uint
  ph_vaddr :: uint
  ph_filesz :: uint
  ph_memsz :: uint

definition decode_ph :: "uchar list \<Rightarrow> proghdr" where
  "decode_ph bs = \<lparr>ph_type = le32 bs, ph_off = le32 (drop 4 bs), ph_vaddr = le32 (drop 8 bs),
     ph_filesz = le32 (drop 16 bs), ph_memsz = le32 (drop 20 bs)\<rparr>"

abbreviation ELF_MAGIC :: uint where "ELF_MAGIC \<equiv> 0x464C457F"
abbreviation MAXARG :: nat where "MAXARG \<equiv> 32"

fun loaduvm_loop :: "uint \<Rightarrow> uint \<Rightarrow> nat \<Rightarrow> uint \<Rightarrow> uint \<Rightarrow> nat list \<Rightarrow> ('z kfile_scheme, int) kop" where
  "loaduvm_loop d addr ip ofs n [] = retk 0"
| "loaduvm_loop d addr ip ofs n (i # is) =
     bindk (walkpgdir d (addr + of_nat i) False) (\<lambda>pte.
     if pte = 0 then panic ''loaduvm: address should exist''
     else
       bindk (getk (word_at pte)) (\<lambda>e.
       let m = (if n - of_nat i < PGSIZE then n - of_nat i else PGSIZE) in
       bindk (readi ip (At (P2V (PTE_ADDR e))) (ofs + of_nat i) m) (\<lambda>(r, _).
       if r \<noteq> sint m then retk (-1) else loaduvm_loop d addr ip ofs n is)))"

definition loaduvm :: "uint \<Rightarrow> uint \<Rightarrow> nat \<Rightarrow> uint \<Rightarrow> uint \<Rightarrow> ('z kfile_scheme, int) kop" where
  "loaduvm d addr ip ofs n =
     (if addr mod PGSIZE \<noteq> 0 then panic ''loaduvm: addr must be page aligned''
      else loaduvm_loop d addr ip ofs n (map (\<lambda>k. 4096 * k) [0..<(unat n + 4095) div 4096]))"

text \<open>The loop over the program headers; \<open>None\<close> is the jump to \<^verbatim>\<open>bad\<close>.\<close>

fun load_segments :: "uint \<Rightarrow> nat \<Rightarrow> uint \<Rightarrow> nat \<Rightarrow> uint \<Rightarrow> ('z kfile_scheme, uint option) kop" where
  "load_segments d ip ofs 0 n = retk (Some n)"
| "load_segments d ip ofs (Suc k) n =
     bindk (readi ip (Local []) ofs 32) (\<lambda>(r, bs).
     if r \<noteq> 32 then retk None
     else
       let ph = decode_ph bs in
       if ph_type ph \<noteq> 1 then load_segments d ip (ofs + 32) k n
       else if ph_memsz ph < ph_filesz ph then retk None
       else if ph_vaddr ph + ph_memsz ph < ph_vaddr ph then retk None
       else
         bindk (allocuvm d n (ph_vaddr ph + ph_memsz ph)) (\<lambda>n.
         if n = 0 then retk None
         else if ph_vaddr ph mod PGSIZE \<noteq> 0 then retk None
         else
           bindk (loaduvm d (ph_vaddr ph) ip (ph_off ph) (ph_filesz ph)) (\<lambda>r.
           if r < 0 then retk None else load_segments d ip (ofs + 32) k n)))"

fun push_args :: "uint \<Rightarrow> uchar list list \<Rightarrow> nat \<Rightarrow> uint \<Rightarrow> uint list \<Rightarrow> ('z kfile_scheme, (uint \<times> uint list) option) kop" where
  "push_args d [] argc sp us = retk (Some (sp, us))"
| "push_args d (a # as) argc sp us =
     (if argc \<ge> MAXARG then retk None
      else
        let sp = (sp - (of_nat (length a) + 1)) AND NOT 3 in
        bindk (copyout d sp (a @ [0])) (\<lambda>r.
        if r < 0 then retk None else push_args d as (argc + 1) sp (us @ [sp])))"

definition last_elem :: "uchar list \<Rightarrow> uchar list" where
  "last_elem path = rev (takeWhile (\<lambda>c. c \<noteq> slash) (rev path))"

definition exec_bad :: "uint \<Rightarrow> nat option \<Rightarrow> ('z kfile_scheme, int) kop" where
  "exec_bad d ip =
     thenk (whenk (d \<noteq> 0) (freevm d))
    (thenk (case ip of None \<Rightarrow> retk () | Some i \<Rightarrow> thenk (iunlockput i) end_op)
     (retk (-1)))"

text \<open>From the allocation of the stack on.\<close>

definition exec_stack :: "nat \<Rightarrow> uchar list \<Rightarrow> uchar list list \<Rightarrow> elfhdr \<Rightarrow> uint \<Rightarrow> uint \<Rightarrow> ('z kfile_scheme, int) kop" where
  "exec_stack me path argv elf d n =
     (let n = PGROUNDUP n in
      bindk (allocuvm d n (n + 2 * PGSIZE)) (\<lambda>n.
      if n = 0 then exec_bad d None
      else
        thenk (clearpteu d (n - 2 * PGSIZE))
       (bindk (push_args d argv 0 n []) (\<lambda>r.
        case r of
          None \<Rightarrow> exec_bad d None
        | Some (sp, us) \<Rightarrow>
            let argc = of_nat (length us);
                ustack = [0xffffffff, argc, sp - (argc + 1) * 4] @ us @ [0];
                sp = sp - (3 + argc + 1) * 4 in
            bindk (copyout d sp (concat (map bytes32 ustack))) (\<lambda>r.
            if r < 0 then exec_bad d None
            else
              bindk (getk (\<lambda>s. pgdir (proc_at s me))) (\<lambda>oldpgdir.
              thenk (modk (upd_proc me (\<lambda>p. p\<lparr>pname := map (\<lambda>c. char_of (unat c)) (take 15 (last_elem path)),
                pgdir := d, sz := n, tf := (tf p)\<lparr>tf_eip := e_entry elf, tf_esp := sp\<rparr>\<rparr>)))
             (thenk (switchuvm (Some me))
             (thenk (freevm oldpgdir)
              (retk 0)))))))))"

definition exec :: "uchar list \<Rightarrow> uchar list list \<Rightarrow> ('z kfile_scheme, int) kop" where
  "exec path argv =
     bindk myid (\<lambda>me.
     thenk begin_op
    (bindk (namei path) (\<lambda>r.
     case r of
       None \<Rightarrow> thenk end_op (retk (-1))
     | Some ip \<Rightarrow>
         thenk (ilock (Some ip))
        (bindk (readi ip (Local []) 0 52) (\<lambda>(r, bs).
         if r \<noteq> 52 then exec_bad 0 (Some ip)
         else
           let elf = decode_elf bs in
           if e_magic elf \<noteq> ELF_MAGIC then exec_bad 0 (Some ip)
           else
             bindk setupkvm (\<lambda>d.
             if d = 0 then exec_bad 0 (Some ip)
             else
               bindk (load_segments d ip (e_phoff elf) (unat (e_phnum elf)) 0) (\<lambda>r.
               case r of
                 None \<Rightarrow> exec_bad d (Some ip)
               | Some n \<Rightarrow>
                   thenk (iunlockput ip)
                  (thenk end_op
                   (exec_stack me path argv elf d n)))))))))"

fun fetch_argv :: "uint \<Rightarrow> nat \<Rightarrow> nat \<Rightarrow> ('z kfile_scheme, uchar list list option) kop" where
  "fetch_argv uargv i 0 = retk None"
| "fetch_argv uargv i (Suc left) =
     bindk (fetchint (uargv + 4 * of_nat i)) (\<lambda>r.
     case r of
       None \<Rightarrow> retk None
     | Some uarg \<Rightarrow>
         if uarg = 0 then retk (Some [])
         else
           bindk (fetchstr uarg) (\<lambda>a.
           case a of
             None \<Rightarrow> retk None
           | Some t \<Rightarrow> bindk (fetch_argv uargv (i + 1) left) (\<lambda>as. retk (map_option (\<lambda>ts. t # ts) as))))"

definition sys_exec :: "('z kfile_scheme, int) kop" where
  "sys_exec =
     witharg (argstr 0) (\<lambda>path. witharg (argint 1) (\<lambda>uargv.
     witharg (fetch_argv uargv 0 MAXARG) (\<lambda>argv. exec path argv)))"

section \<open>System calls and traps\<close>

definition syscalls :: "('z kfile_scheme, int) kop option list" where
  "syscalls = [None, Some sys_fork, Some sys_exit, Some sys_wait, Some sys_pipe, Some sys_read, Some sys_kill,
     Some sys_exec, Some sys_fstat, Some sys_chdir, Some sys_dup, Some sys_getpid, Some sys_sbrk, Some sys_sleep,
     Some sys_uptime, Some sys_open, Some sys_write, Some sys_mknod, Some sys_unlink, Some sys_link, Some sys_mkdir,
     Some sys_close, Some sys_print_proc, Some sys_change_queue, Some sys_change_local_bjf,
     Some sys_change_global_bjf]"

definition syscall :: "('z kfile_scheme, unit) kop" where
  "syscall =
     bindk myid (\<lambda>me.
     bindk (getk (\<lambda>s. proc_at s me)) (\<lambda>cur.
     let num = sint (tf_eax (tf cur));
         entry = (if 0 < num \<and> num < int (length (syscalls :: ('z kfile_scheme, int) kop option list))
           then syscalls ! nat num else None) in
     case entry of
       Some f \<Rightarrow> bindk f (\<lambda>r. modk (upd_proc me (\<lambda>p. p\<lparr>tf := (tf p)\<lparr>tf_eax := word_of_int r\<rparr>\<rparr>)))
     | None \<Rightarrow>
         thenk (cprintf (''%d %s: unknown sys call %d'' @ [CHR 0x0A])
           [ANum (word_of_int (pid cur)), AStr (Some (pname cur)), ANum (word_of_int num)])
         (modk (upd_proc me (\<lambda>p. p\<lparr>tf := (tf p)\<lparr>tf_eax := -1\<rparr>\<rparr>)))))"

end
