(* ===== verification/Devices.thy ===== *)
theory Devices
  imports Exec
begin

text \<open>
  The devices of the machine and the code that sets them up: the local interrupt controllers and the clock
  (\<^verbatim>\<open>lapic.c\<close>), the I/O interrupt controller (\<^verbatim>\<open>ioapic.c\<close>, \<^verbatim>\<open>picirq.c\<close>), the console and the serial port (\<^verbatim>\<open>console.c\<close>, \<^verbatim>\<open>uart.c\<close>), segments and
  gates (\<^verbatim>\<open>mmu.h\<close>, \<^verbatim>\<open>vm.c\<close>), and the tables in which the firmware describes the processors (\<^verbatim>\<open>mp.c\<close>).

  The layer adds what the kernel has written to registers of devices, in order, and for each register the values that
  the next reads of it deliver. A read with no value left is a device that does not answer any more: the processor
  waits for ever.

  Shown: \<^verbatim>\<open>mpinit\<close> reads a table of known entries completely and records the first \<^verbatim>\<open>NCPU\<close> processors in order; at
  an entry of another kind it never ends, since the \<^verbatim>\<open>break\<close> of its \<^verbatim>\<open>switch\<close> does not leave the loop.
\<close>

section \<open>Registers\<close>

datatype devreg = Port nat | Lapic nat | Ioapic nat | Started nat

record segdesc =
  lim_15_0 :: uint
  base_15_0 :: uint
  base_23_16 :: uint
  seg_type :: uint
  seg_s :: uint
  seg_dpl :: uint
  seg_p :: uint
  lim_19_16 :: uint
  seg_avl :: uint
  seg_rsv1 :: uint
  seg_db :: uint
  seg_g :: uint
  base_31_24 :: uint

record gatedesc =
  off_15_0 :: uint
  gate_cs :: uint
  gate_args :: uint
  gate_rsv1 :: uint
  gate_type :: uint
  gate_s :: uint
  gate_dpl :: uint
  gate_p :: uint
  off_31_16 :: uint

record kdev = kfile +
  io :: "(devreg \<times> uint) list"
  replies :: "devreg \<Rightarrow> uint list"
  lapic :: uint
  ioapicid :: uchar
  gdt :: "nat \<Rightarrow> nat \<Rightarrow> segdesc option"
  idt :: "nat \<Rightarrow> gatedesc option"
  havedisk1 :: bool
  idequeue :: "nat option"
  qnext :: "nat \<Rightarrow> nat option"

definition dev_out :: "devreg \<Rightarrow> uint \<Rightarrow> ('z kdev_scheme, unit) kop" where
  "dev_out r v = modk (\<lambda>s. s\<lparr>io := io s @ [(r, v)]\<rparr>)"

fun first_such :: "(uint \<Rightarrow> bool) \<Rightarrow> uint list \<Rightarrow> (uint \<times> uint list) option" where
  "first_such p [] = None"
| "first_such p (v # vs) = (if p v then Some (v, vs) else first_such p vs)"

text \<open>Reading a register until the value is as wanted.\<close>

definition dev_wait :: "devreg \<Rightarrow> (uint \<Rightarrow> bool) \<Rightarrow> ('z kdev_scheme, uint) kop" where
  "dev_wait r p =
     bindk (getk (\<lambda>s. first_such p (replies s r))) (\<lambda>x.
     case x of
       None \<Rightarrow> stopk (Spin ''device'')
     | Some (v, vs) \<Rightarrow> thenk (modk (\<lambda>s. s\<lparr>replies := (replies s)(r := vs)\<rparr>)) (retk v))"

definition dev_in :: "devreg \<Rightarrow> ('z kdev_scheme, uint) kop" where
  "dev_in r = dev_wait r (\<lambda>_. True)"

definition outb :: "nat \<Rightarrow> uint \<Rightarrow> ('z kdev_scheme, unit) kop" where
  "outb port data = dev_out (Port port) (data AND 0xFF)"

definition inb :: "nat \<Rightarrow> ('z kdev_scheme, uint) kop" where
  "inb port = bindk (dev_in (Port port)) (\<lambda>v. retk (v AND 0xFF))"

section \<open>Interrupt controllers\<close>

abbreviation T_IRQ0w :: uint where "T_IRQ0w \<equiv> 32"

definition ioapicread :: "nat \<Rightarrow> ('z kdev_scheme, uint) kop" where
  "ioapicread reg = dev_in (Ioapic reg)"

definition ioapicwrite :: "nat \<Rightarrow> uint \<Rightarrow> ('z kdev_scheme, unit) kop" where
  "ioapicwrite reg data = dev_out (Ioapic reg) data"

definition ioapicinit :: "('z kdev_scheme, unit) kop" where
  "ioapicinit =
     bindk (ioapicread 1) (\<lambda>ver.
     bindk (ioapicread 0) (\<lambda>idr.
     bindk (getk ioapicid) (\<lambda>me.
     thenk (whenk (drop_bit 24 idr \<noteq> ucast me)
       (cprintf (''ioapicinit: id isn'' @ [CHR 0x27] @ ''t equal to ioapicid; not a MP'' @ [CHR 0x0A]) []))
     (foreach [0..<Suc (unat (drop_bit 16 ver AND 0xFF))] (\<lambda>i.
        thenk (ioapicwrite (0x10 + 2 * i) (0x00010000 OR (T_IRQ0w + of_nat i)))
        (ioapicwrite (0x10 + 2 * i + 1) 0))))))"

definition ioapicenable :: "nat \<Rightarrow> uint \<Rightarrow> ('z kdev_scheme, unit) kop" where
  "ioapicenable irq cpunum =
     thenk (ioapicwrite (0x10 + 2 * irq) (T_IRQ0w + of_nat irq))
     (ioapicwrite (0x10 + 2 * irq + 1) (push_bit 24 cpunum))"

definition picinit :: "('z kdev_scheme, unit) kop" where
  "picinit = thenk (outb 0x21 0xFF) (outb 0xA1 0xFF)"

abbreviation TPR :: nat where "TPR \<equiv> 0x20"
abbreviation EOI :: nat where "EOI \<equiv> 0x2C"
abbreviation SVR :: nat where "SVR \<equiv> 0x3C"
abbreviation ESR :: nat where "ESR \<equiv> 0xA0"
abbreviation ICRLO :: nat where "ICRLO \<equiv> 0xC0"
abbreviation ICRHI :: nat where "ICRHI \<equiv> 0xC4"

text \<open>The read of the register \<^verbatim>\<open>ID\<close> after every write only waits for the write; its value is not used.\<close>

definition lapicw :: "nat \<Rightarrow> uint \<Rightarrow> ('z kdev_scheme, unit) kop" where
  "lapicw index value = dev_out (Lapic index) value"

definition lapicinit :: "('z kdev_scheme, unit) kop" where
  "lapicinit =
     bindk (getk lapic) (\<lambda>l.
     whenk (l \<noteq> 0)
      (thenk (lapicw SVR (0x00000100 OR (T_IRQ0w + 31)))
      (thenk (lapicw 0xF8 0x0000000B)
      (thenk (lapicw 0xC8 (0x00020000 OR (T_IRQ0w + 0)))
      (thenk (lapicw 0xE0 10000000)
      (thenk (lapicw 0xD4 0x00010000)
      (thenk (lapicw 0xD8 0x00010000)
      (bindk (dev_in (Lapic 0x0C)) (\<lambda>ver.
       thenk (whenk (drop_bit 16 ver AND 0xFF \<ge> 4) (lapicw 0xD0 0x00010000))
      (thenk (lapicw 0xDC (T_IRQ0w + 19))
      (thenk (lapicw ESR 0)
      (thenk (lapicw ESR 0)
      (thenk (lapicw EOI 0)
      (thenk (lapicw ICRHI 0)
      (thenk (lapicw ICRLO (0x00080000 OR 0x00000500 OR 0x00008000))
      (bindk (dev_wait (Lapic ICRLO) (\<lambda>v. v AND 0x00001000 = 0)) (\<lambda>_.
       lapicw TPR 0)))))))))))))))))"

definition lapiceoi :: "('z kdev_scheme, unit) kop" where
  "lapiceoi = bindk (getk lapic) (\<lambda>l. whenk (l \<noteq> 0) (lapicw EOI 0))"

text \<open>\<^verbatim>\<open>microdelay\<close> does nothing.\<close>

definition store16 :: "mem \<Rightarrow> uint \<Rightarrow> ushort \<Rightarrow> mem" where
  "store16 m a w = m(a := ucast w, a + 1 := ucast (drop_bit 8 w))"

definition lapicstartap :: "uchar \<Rightarrow> uint \<Rightarrow> ('z kdev_scheme, unit) kop" where
  "lapicstartap apic addr =
     (let wrv = P2V (0x400 OR 0x67) in
      thenk (outb 0x70 0xF)
     (thenk (outb 0x71 0x0A)
     (thenk (modk (\<lambda>s. s\<lparr>kmemory := store16 (store16 (kmemory s) wrv 0) (wrv + 2) (ucast (drop_bit 4 addr))\<rparr>))
     (thenk (lapicw ICRHI (push_bit 24 (ucast apic)))
     (thenk (lapicw ICRLO (0x00000500 OR 0x00008000 OR 0x00004000))
     (thenk (lapicw ICRLO (0x00000500 OR 0x00008000))
      (foreach [0..<2 :: nat] (\<lambda>i.
        thenk (lapicw ICRHI (push_bit 24 (ucast apic)))
        (lapicw ICRLO (0x00000600 OR drop_bit 12 addr))))))))))"

section \<open>The clock\<close>

record rtcdate =
  second :: uint
  minute :: uint
  hour :: uint
  day :: uint
  month :: uint
  year :: uint

definition cmos_read :: "uint \<Rightarrow> ('z kdev_scheme, uint) kop" where
  "cmos_read reg = thenk (outb 0x70 reg) (inb 0x71)"

definition fill_rtcdate :: "('z kdev_scheme, rtcdate) kop" where
  "fill_rtcdate =
     bindk (cmos_read 0x00) (\<lambda>se.
     bindk (cmos_read 0x02) (\<lambda>mi.
     bindk (cmos_read 0x04) (\<lambda>ho.
     bindk (cmos_read 0x07) (\<lambda>da.
     bindk (cmos_read 0x08) (\<lambda>mo.
     bindk (cmos_read 0x09) (\<lambda>ye.
     retk \<lparr>second = se, minute = mi, hour = ho, day = da, month = mo, year = ye\<rparr>))))))"

text \<open>Every turn of the loop reads the clock, so the values it will deliver bound the turns.\<close>

fun cmos_loop :: "nat \<Rightarrow> ('z kdev_scheme, rtcdate) kop" where
  "cmos_loop 0 = stopk (Spin ''device'')"
| "cmos_loop (Suc n) =
     bindk fill_rtcdate (\<lambda>t1.
     bindk (cmos_read 0x0A) (\<lambda>a.
     if a AND 0x80 \<noteq> 0 then cmos_loop n
     else bindk fill_rtcdate (\<lambda>t2. if t1 = t2 then retk t1 else cmos_loop n)))"

definition conv :: "uint \<Rightarrow> uint" where
  "conv x = drop_bit 4 x * 10 + (x AND 0xF)"

definition cmostime :: "('z kdev_scheme, rtcdate) kop" where
  "cmostime =
     bindk (cmos_read 0x0B) (\<lambda>sb.
     bindk (getk (\<lambda>s. length (replies s (Port 0x71)))) (\<lambda>n.
     bindk (cmos_loop (Suc n)) (\<lambda>t.
     let t = (if sb AND 4 = 0 then \<lparr>second = conv (second t), minute = conv (minute t), hour = conv (hour t), day = conv (day t),
                month = conv (month t), year = conv (year t)\<rparr> else t) in
     retk (t\<lparr>year := year t + 2000\<rparr>))))"

section \<open>Console and serial port\<close>

definition consoleinit :: "('z kdev_scheme, unit) kop" where
  "consoleinit =
     thenk (initlock ConsLock ''console'')
    (thenk (modk (\<lambda>s. s\<lparr>devsw := (devsw s)[CONSOLE := Some DevConsole], cons_locking := True\<rparr>))
     (ioapicenable 1 0))"

definition uartinit :: "('z kdev_scheme, unit) kop" where
  "uartinit =
     thenk (outb 0x3FA 0)
    (thenk (outb 0x3FB 0x80)
    (thenk (outb 0x3F8 12)
    (thenk (outb 0x3F9 0)
    (thenk (outb 0x3FB 0x03)
    (thenk (outb 0x3FC 0)
    (thenk (outb 0x3F9 0x01)
    (bindk (inb 0x3FD) (\<lambda>st.
     whenk (st \<noteq> 0xFF)
      (thenk (modk (\<lambda>s. s\<lparr>uart := True\<rparr>))
      (bindk (inb 0x3FA) (\<lambda>_.
       bindk (inb 0x3F8) (\<lambda>_.
       thenk (ioapicenable 4 0)
       (foreach (''xv6...'' @ [CHR 0x0A]) (\<lambda>c. uartputc (of_char c)))))))))))))))"

section \<open>Segments and gates\<close>

definition SEG :: "uint \<Rightarrow> uint \<Rightarrow> uint \<Rightarrow> uint \<Rightarrow> segdesc" where
  "SEG type bas limit dpl = \<lparr>lim_15_0 = drop_bit 12 limit AND 0xFFFF, base_15_0 = bas AND 0xFFFF, base_23_16 = drop_bit 16 bas AND 0xFF,
     seg_type = type, seg_s = 1, seg_dpl = dpl, seg_p = 1, lim_19_16 = drop_bit 28 limit, seg_avl = 0, seg_rsv1 = 0, seg_db = 1, seg_g = 1, base_31_24 = drop_bit 24 bas\<rparr>"

definition SEG16 :: "uint \<Rightarrow> uint \<Rightarrow> uint \<Rightarrow> uint \<Rightarrow> segdesc" where
  "SEG16 type bas limit dpl = \<lparr>lim_15_0 = limit AND 0xFFFF, base_15_0 = bas AND 0xFFFF, base_23_16 = drop_bit 16 bas AND 0xFF,
     seg_type = type, seg_s = 1, seg_dpl = dpl, seg_p = 1, lim_19_16 = drop_bit 16 limit, seg_avl = 0, seg_rsv1 = 0, seg_db = 1, seg_g = 0, base_31_24 = drop_bit 24 bas\<rparr>"

definition SETGATE :: "bool \<Rightarrow> uint \<Rightarrow> uint \<Rightarrow> uint \<Rightarrow> gatedesc" where
  "SETGATE istrap sel off d = \<lparr>off_15_0 = off AND 0xFFFF, gate_cs = sel, gate_args = 0, gate_rsv1 = 0, gate_type = (if istrap then 0xF else 0xE),
     gate_s = 0, gate_dpl = d, gate_p = 1, off_31_16 = drop_bit 16 off\<rparr>"

definition seginit :: "('z kdev_scheme, unit) kop" where
  "seginit =
     bindk cpuid (\<lambda>c.
     modk (\<lambda>s. s\<lparr>gdt := (gdt s)(c := (gdt s c)(1 := Some (SEG (8 OR 2) 0 0xFFFFFFFF 0), 2 := Some (SEG 2 0 0xFFFFFFFF 0),
       3 := Some (SEG (8 OR 2) 0 0xFFFFFFFF 3), 4 := Some (SEG 2 0 0xFFFFFFFF 3)))\<rparr>))"

section \<open>The tables of the firmware\<close>

definition load16 :: "mem \<Rightarrow> uint \<Rightarrow> ushort" where
  "load16 m a = ucast (m a) OR push_bit 8 (ucast (m (a + 1)))"

text \<open>
  The fields of \<^verbatim>\<open>struct mp\<close>, \<^verbatim>\<open>struct mpconf\<close>, \<^verbatim>\<open>struct mpproc\<close> and \<^verbatim>\<open>struct mpioapic\<close> that are read, at their offsets.
\<close>

definition mp_physaddr :: "mem \<Rightarrow> uint \<Rightarrow> uint" where
  "mp_physaddr m a = load32 m (a + 4)"

definition mp_imcrp :: "mem \<Rightarrow> uint \<Rightarrow> uchar" where
  "mp_imcrp m a = m (a + 12)"

definition conf_length :: "mem \<Rightarrow> uint \<Rightarrow> ushort" where
  "conf_length m a = load16 m (a + 4)"

definition conf_version :: "mem \<Rightarrow> uint \<Rightarrow> uchar" where
  "conf_version m a = m (a + 6)"

definition conf_lapicaddr :: "mem \<Rightarrow> uint \<Rightarrow> uint" where
  "conf_lapicaddr m a = load32 m (a + 36)"

definition entry_id :: "mem \<Rightarrow> uint \<Rightarrow> uchar" where
  "entry_id m a = m (a + 1)"

fun mp_sum :: "mem \<Rightarrow> uint \<Rightarrow> nat \<Rightarrow> uchar" where
  "mp_sum m addr 0 = 0"
| "mp_sum m addr (Suc n) = mp_sum m addr n + m (addr + of_nat n)"

definition signed_by :: "mem \<Rightarrow> uint \<Rightarrow> string \<Rightarrow> bool" where
  "signed_by m a sig \<longleftrightarrow> map (\<lambda>i. m (a + of_nat i)) [0..<4] = map of_char sig"

text \<open>The lengths searched are multiples of the size of \<^verbatim>\<open>struct mp\<close>, 16 bytes.\<close>

definition mpsearch1 :: "mem \<Rightarrow> uint \<Rightarrow> nat \<Rightarrow> uint option" where
  "mpsearch1 m a len = find (\<lambda>p. signed_by m p ''_MP_'' \<and> mp_sum m p 16 = 0) (map (\<lambda>i. P2V a + 16 * of_nat i) [0..<len div 16])"

definition mpsearch :: "mem \<Rightarrow> uint option" where
  "mpsearch m =
     (let bda = P2V 0x400;
          p = push_bit 4 (push_bit 8 (ucast (m (bda + 0x0F))) OR ucast (m (bda + 0x0E))) in
      let r = (if p \<noteq> 0 then mpsearch1 m p 1024
               else let p = (push_bit 8 (ucast (m (bda + 0x14))) OR ucast (m (bda + 0x13))) * 1024 in mpsearch1 m (p - 1024) 1024) in
      case r of Some mp \<Rightarrow> Some mp | None \<Rightarrow> mpsearch1 m 0xF0000 0x10000)"

definition mpconfig :: "mem \<Rightarrow> (uint \<times> uint) option" where
  "mpconfig m =
     (case mpsearch m of
        None \<Rightarrow> None
      | Some mp \<Rightarrow>
          if mp_physaddr m mp = 0 then None
          else
            let conf = P2V (mp_physaddr m mp) in
            if \<not> signed_by m conf ''PCMP'' then None
            else if conf_version m conf \<noteq> 1 \<and> conf_version m conf \<noteq> 4 then None
            else if mp_sum m conf (unat (conf_length m conf)) \<noteq> 0 then None
            else Some (mp, conf))"

abbreviation NCPU :: nat where "NCPU \<equiv> 8"

text \<open>What the loop over the entries changes: the table of processors, their number, \<^verbatim>\<open>ioapicid\<close>, and the local \<^verbatim>\<open>ismp\<close>.\<close>

record mpstate =
  mcpus :: "cpu list"
  mncpu :: nat
  mioapicid :: uchar
  ismp :: bool

definition add_cpu :: "uchar \<Rightarrow> mpstate \<Rightarrow> mpstate" where
  "add_cpu a v = (if mncpu v < NCPU then v\<lparr>mcpus := (mcpus v)[mncpu v := (mcpus v ! mncpu v)\<lparr>apicid := a\<rparr>], mncpu := mncpu v + 1\<rparr> else v)"

text \<open>
  The \<^verbatim>\<open>break\<close> of the last case leaves the \<^verbatim>\<open>switch\<close>, and the loop goes on with the same entry.
\<close>

partial_function (option) mp_entries :: "mem \<Rightarrow> uint \<Rightarrow> uint \<Rightarrow> mpstate \<Rightarrow> mpstate option" where
  "mp_entries m p e v =
     (if p < e then
        if m p = 0 then mp_entries m (p + 20) e (add_cpu (entry_id m p) v)
        else if m p = 2 then mp_entries m (p + 8) e (v\<lparr>mioapicid := entry_id m p\<rparr>)
        else if m p = 1 \<or> m p = 3 \<or> m p = 4 then mp_entries m (p + 8) e v
        else mp_entries m p e (v\<lparr>ismp := False\<rparr>)
      else Some v)"

definition mpinit :: "('z kdev_scheme, unit) kop" where
  "mpinit =
     bindk (getk kmemory) (\<lambda>m.
     case mpconfig m of
       None \<Rightarrow> panic ''Expect to run on an SMP''
     | Some (mp, conf) \<Rightarrow>
         thenk (modk (\<lambda>s. s\<lparr>lapic := conf_lapicaddr m conf\<rparr>))
        (bindk (getk (\<lambda>s. mp_entries m (conf + 44) (conf + ucast (conf_length m conf))
            \<lparr>mcpus = cpus s, mncpu = ncpu s, mioapicid = ioapicid s, ismp = True\<rparr>)) (\<lambda>r.
         case r of
           None \<Rightarrow> stopk (Spin ''mpinit'')
         | Some v \<Rightarrow>
             thenk (modk (\<lambda>s. s\<lparr>cpus := mcpus v, ncpu := mncpu v, ioapicid := mioapicid v\<rparr>))
            (if \<not> ismp v then panic (''Didn'' @ [CHR 0x27] @ ''t find a suitable machine'')
             else whenk (mp_imcrp m mp \<noteq> 0)
              (thenk (outb 0x22 0x70)
              (bindk (inb 0x23) (\<lambda>x. outb 0x23 (x OR 1))))))))"

section \<open>Waiting for the clock\<close>

lemma bindk_cong_wp:
  assumes "wpk m (\<lambda>a t. f a t = g a t) (\<lambda>_. True) anyway s"
  shows "bindk m f s = bindk m g s"
  using assms by (auto simp: wpk_def bindk_def split: res.splits)

abbreviation clock_left :: "'z kdev_scheme \<Rightarrow> nat" where
  "clock_left s \<equiv> length (replies s (Port 0x71))"

lemma cmos_read_consumes: "wpk (cmos_read r) (\<lambda>_ t. clock_left t < clock_left s) B anyway s"
  by (cases "replies s (Port 0x71)") (simp_all add: cmos_read_def outb_def inb_def dev_out_def dev_in_def dev_wait_def wp wpf)

lemma wp_cmos_read:
  assumes "\<And>a t. clock_left t < clock_left s \<Longrightarrow> Q a t"
  shows "wpk (cmos_read r) Q B anyway s"
  by (rule wp_mono [OF cmos_read_consumes [where B = B]]) (use assms in auto)

lemma fill_rtcdate_consumes: "wpk fill_rtcdate (\<lambda>_ t. clock_left t < clock_left s) B anyway s"
  unfolding fill_rtcdate_def wp by (intro wp_cmos_read) simp

lemma wp_fill_rtcdate:
  assumes "\<And>a t. clock_left t < clock_left s \<Longrightarrow> Q a t"
  shows "wpk fill_rtcdate Q B anyway s"
  by (rule wp_mono [OF fill_rtcdate_consumes [where B = B]]) (use assms in auto)

text \<open>More turns than values of the clock make no difference: every turn consumes some of them.\<close>

lemma cmos_loop_fuel: "clock_left s < n \<Longrightarrow> n \<le> k \<Longrightarrow> cmos_loop k s = cmos_loop n s" for s :: "'z kdev_scheme"
proof (induction n arbitrary: k s)
  case (Suc n)
  then obtain j where k: "k = Suc j" "n \<le> j" by (cases k) auto
  have go: "cmos_loop j t = cmos_loop n t" if "clock_left t < clock_left s" for t :: "'z kdev_scheme" using Suc.IH [of t j] Suc.prems(1) k(2) that by simp
  show ?case unfolding k(1) cmos_loop.simps
  proof (rule bindk_cong_wp, rule wp_fill_rtcdate, rule bindk_cong_wp, rule wp_cmos_read)
    fix t1 :: rtcdate and a and t u :: "'z kdev_scheme"
    assume t: "clock_left t < clock_left s" "clock_left u < clock_left t"
    have "bindk fill_rtcdate (\<lambda>t2. if t1 = t2 then retk t1 else cmos_loop j) u = bindk fill_rtcdate (\<lambda>t2. if t1 = t2 then retk t1 else cmos_loop n) u"
      by (rule bindk_cong_wp, rule wp_fill_rtcdate) (use t go in auto)
    then show "(if a AND 0x80 \<noteq> 0 then cmos_loop j else bindk fill_rtcdate (\<lambda>t2. if t1 = t2 then retk t1 else cmos_loop j)) u =
        (if a AND 0x80 \<noteq> 0 then cmos_loop n else bindk fill_rtcdate (\<lambda>t2. if t1 = t2 then retk t1 else cmos_loop n)) u"
      using go [of u] t by simp
  qed
qed simp

section \<open>Reading the tables\<close>

text \<open>A table as the list of its entries: a processor, an I/O controller, or one of the three kinds that are skipped.\<close>

datatype mpentry = MPproc uchar | MPioapic uchar | MPother uchar

fun entry_size :: "mpentry \<Rightarrow> uint" where
  "entry_size (MPproc a) = 20"
| "entry_size (MPioapic a) = 8"
| "entry_size (MPother k) = 8"

fun entry_at :: "mem \<Rightarrow> uint \<Rightarrow> mpentry \<Rightarrow> bool" where
  "entry_at m p (MPproc a) \<longleftrightarrow> m p = 0 \<and> m (p + 1) = a"
| "entry_at m p (MPioapic a) \<longleftrightarrow> m p = 2 \<and> m (p + 1) = a"
| "entry_at m p (MPother k) \<longleftrightarrow> m p = k \<and> k \<in> {1, 3, 4}"

text \<open>The entries \<open>es\<close> lie one behind the other from \<open>p\<close> on, each beginning before \<open>e\<close>, and end at \<open>q\<close>.\<close>

fun laid_out :: "mem \<Rightarrow> uint \<Rightarrow> uint \<Rightarrow> mpentry list \<Rightarrow> uint \<Rightarrow> bool" where
  "laid_out m e p [] q \<longleftrightarrow> p = q"
| "laid_out m e p (x # xs) q \<longleftrightarrow> p < e \<and> entry_at m p x \<and> laid_out m e (p + entry_size x) xs q"

fun record_entry :: "mpentry \<Rightarrow> mpstate \<Rightarrow> mpstate" where
  "record_entry (MPproc a) v = add_cpu a v"
| "record_entry (MPioapic a) v = v\<lparr>mioapicid := a\<rparr>"
| "record_entry (MPother k) v = v"

lemma mp_entries_known:
  assumes "laid_out m e p es q"
  shows "mp_entries m p e v = mp_entries m q e (fold record_entry es v)"
  using assms
proof (induction es arbitrary: p v)
  case (Cons x xs)
  then have p: "p < e" "entry_at m p x" "laid_out m e (p + entry_size x) xs q" by simp_all
  have "mp_entries m p e v = mp_entries m (p + entry_size x) e (record_entry x v)"
    using p(1,2) by (cases x; subst mp_entries.simps) (auto simp: entry_id_def)
  with Cons.IH [OF p(3)] show ?case by simp
qed simp

text \<open>At an entry of any other kind the loop makes no progress.\<close>

lemma mp_entries_unknown:
  assumes "p < e" and "4 < m p"
  shows "mp_entries m p e v = None"
proof -
  have no: "m p \<noteq> 0" "m p \<noteq> 1" "m p \<noteq> 2" "m p \<noteq> 3" "m p \<noteq> 4" using assms(2) by auto
  have "a = m \<and> b = p \<and> c = e \<longrightarrow> False" if "mp_entries a b c v = Some y" for a b c v y
    using that
  proof (rule mp_entries.raw_induct [rotated])
    fix f a b c v y
    assume "\<And>a b c v y. f a b c v = Some y \<Longrightarrow> a = m \<and> b = p \<and> c = e \<longrightarrow> False"
      and "(if b < c then if a b = 0 then f a (b + 20) c (add_cpu (entry_id a b) v)
        else if a b = 2 then f a (b + 8) c (v\<lparr>mioapicid := entry_id a b\<rparr>) else if a b = 1 \<or> a b = 3 \<or> a b = 4 then f a (b + 8) c v
        else f a b c (v\<lparr>ismp := False\<rparr>) else Some v) = Some y"
    then show "a = m \<and> b = p \<and> c = e \<longrightarrow> False" using assms(1) no by (auto; blast)
  qed
  then show ?thesis by (cases "mp_entries m p e v") blast+
qed

fun proc_ids :: "mpentry list \<Rightarrow> uchar list" where
  "proc_ids [] = []"
| "proc_ids (MPproc a # es) = a # proc_ids es"
| "proc_ids (_ # es) = proc_ids es"

fun ioapic_ids :: "mpentry list \<Rightarrow> uchar list" where
  "ioapic_ids [] = []"
| "ioapic_ids (MPioapic a # es) = a # ioapic_ids es"
| "ioapic_ids (_ # es) = ioapic_ids es"

lemma record_entries_other:
  "ismp (fold record_entry es v) = ismp v" "mioapicid (fold record_entry es v) = last (mioapicid v # ioapic_ids es)"
proof -
  have "ismp (fold record_entry es v) = ismp v \<and> mioapicid (fold record_entry es v) = last (mioapicid v # ioapic_ids es)"
  proof (induction es arbitrary: v)
    case (Cons x xs)
    then show ?case by (cases x) (auto simp: add_cpu_def)
  qed simp
  then show "ismp (fold record_entry es v) = ismp v" "mioapicid (fold record_entry es v) = last (mioapicid v # ioapic_ids es)" by simp_all
qed

lemma record_entries_cpus:
  assumes "length (mcpus v) = NCPU" and "mncpu v \<le> NCPU"
  shows "mncpu (fold record_entry es v) = min NCPU (mncpu v + length (proc_ids es)) \<and> length (mcpus (fold record_entry es v)) = NCPU \<and>
    map apicid (take (mncpu (fold record_entry es v)) (mcpus (fold record_entry es v))) =
      take NCPU (map apicid (take (mncpu v) (mcpus v)) @ proc_ids es)"
  using assms
proof (induction es arbitrary: v)
  case Nil
  then show ?case by simp
next
  case (Cons x xs)
  show ?case
  proof (cases x)
    case (MPproc a)
    let ?v = "add_cpu a v"
    show ?thesis
    proof (cases "mncpu v < NCPU")
      case True
      then have v: "length (mcpus ?v) = NCPU" "mncpu ?v = Suc (mncpu v)" "mncpu ?v \<le> NCPU"
        using Cons.prems by (simp_all add: add_cpu_def)
      have "map apicid (take (mncpu ?v) (mcpus ?v)) @ proc_ids xs = map apicid (take (mncpu v) (mcpus v)) @ proc_ids (x # xs)"
        using True Cons.prems by (simp add: add_cpu_def take_Suc_conv_app_nth MPproc)
      moreover have "fold record_entry (x # xs) v = fold record_entry xs ?v" "mncpu ?v + length (proc_ids xs) = mncpu v + length (proc_ids (x # xs))"
        by (simp_all add: MPproc v(2))
      ultimately show ?thesis using Cons.IH [OF v(1,3)] by metis
    next
      case False
      then have "mncpu v = NCPU" "?v = v" using Cons.prems by (simp_all add: add_cpu_def)
      with Cons.IH [OF Cons.prems] show ?thesis using Cons.prems(1) by (auto simp: MPproc)
    qed
  next
    case (MPioapic a)
    then show ?thesis using Cons.IH [of "v\<lparr>mioapicid := a\<rparr>"] Cons.prems by auto
  next
    case (MPother k)
    then show ?thesis using Cons.IH [OF Cons.prems] by auto
  qed
qed

text \<open>The identifiers in the table are found again by \<^verbatim>\<open>mycpu\<close>.\<close>

lemma find_index_map:
  assumes "distinct (map f xs)" and "i < length xs"
  shows "find_index (\<lambda>x. f x = f (xs ! i)) xs = Some i"
  using assms
proof (induction xs arbitrary: i)
  case (Cons x xs)
  show ?case
  proof (cases i)
    case (Suc j)
    then have "f x \<noteq> f (xs ! j)" using Cons.prems by (auto simp: image_iff)
    then show ?thesis using Suc Cons.IH [of j] Cons.prems by simp
  qed simp
qed simp

lemma find_cpu_ids:
  assumes "map apicid (take n cs) = ids" and "distinct ids" and "i < length ids"
  shows "find_cpu (ids ! i) n cs = Some i"
proof -
  have "i < length (take n cs)" using assms(1,3) by (metis length_map)
  moreover from this have "apicid (take n cs ! i) = ids ! i" by (metis assms(1) nth_map)
  moreover have "distinct (map apicid (take n cs))" using assms(1,2) by simp
  ultimately show ?thesis using find_index_map [of apicid "take n cs" i] by (simp add: find_cpu_def)
qed

text \<open>
  C13. When the firmware provides a configuration table of known entries on a machine without the \<^verbatim>\<open>IMCR\<close> register, \<^verbatim>\<open>mpinit\<close> reads it to its end and returns: it
  takes over the address of the local controllers and the identifier of the last I/O controller, and enters the
  first \<^verbatim>\<open>NCPU\<close> processors of the table, in its order, into \<^verbatim>\<open>cpus\<close>. When their identifiers differ, \<^verbatim>\<open>mycpu\<close> then finds
  each of them at its position.
\<close>

theorem mpinit_reads_table:
  assumes "mpconfig (kmemory s) = Some (mp, conf)" and "mp_imcrp (kmemory s) mp = 0"
    and "laid_out (kmemory s) (conf + ucast (conf_length (kmemory s) conf)) (conf + 44) es (conf + ucast (conf_length (kmemory s) conf))"
    and "length (cpus s) = NCPU" and "ncpu s = 0"
  shows "\<exists>t. mpinit s = Ret () t \<and> lapic t = conf_lapicaddr (kmemory s) conf \<and> ioapicid t = last (ioapicid s # ioapic_ids es) \<and>
    length (cpus t) = NCPU \<and> map apicid (take (ncpu t) (cpus t)) = take NCPU (proc_ids es) \<and>
    (distinct (take NCPU (proc_ids es)) \<longrightarrow>
      (\<forall>i < min NCPU (length (proc_ids es)). find_cpu (proc_ids es ! i) (ncpu t) (cpus t) = Some i))"
proof -
  let ?m = "kmemory s" and ?e = "conf + ucast (conf_length (kmemory s) conf)"
  define v where "v = \<lparr>mcpus = cpus s, mncpu = ncpu s, mioapicid = ioapicid s, ismp = True\<rparr>"
  define w where "w = fold record_entry es v"
  have "mp_entries ?m ?e ?e w = Some w" by (subst mp_entries.simps) simp
  then have run: "mp_entries ?m (conf + 44) ?e v = Some w" using mp_entries_known [OF assms(3)] by (simp add: w_def)
  have w: "ismp w" "mioapicid w = last (ioapicid s # ioapic_ids es)" by (simp_all add: w_def record_entries_other v_def)
  have "length (mcpus v) = NCPU" "mncpu v \<le> NCPU" using assms(4,5) by (simp_all add: v_def)
  from record_entries_cpus [OF this, of es]
  have c: "length (mcpus w) = NCPU" "map apicid (take (mncpu w) (mcpus w)) = take NCPU (proc_ids es)"
    using assms(5) by (auto simp: w_def v_def)
  let ?t = "s\<lparr>lapic := conf_lapicaddr ?m conf, cpus := mcpus w, ncpu := mncpu w, ioapicid := mioapicid w\<rparr>"
  have "mpinit s = Ret () ?t"
    using assms(1,2) run w(1) by (simp add: mpinit_def bindk_getk thenk_modk v_def whenk_def retk_def)
  moreover have "find_cpu (proc_ids es ! i) (mncpu w) (mcpus w) = Some i"
    if "distinct (take NCPU (proc_ids es))" "i < min NCPU (length (proc_ids es))" for i
    using find_cpu_ids [OF c(2) that(1), of i] that(2) by simp
  ultimately show ?thesis using w(2) c by simp
qed

text \<open>
  C36. An entry of an unknown kind in the table is not the end of the kernel with the message \<^verbatim>\<open>Didn't find a suitable machine\<close>,
  as the code intends: \<^verbatim>\<open>mpinit\<close> looks at that entry for ever.
\<close>

theorem mpinit_unknown_entry:
  assumes "mpconfig (kmemory s) = Some (mp, conf)"
    and "laid_out (kmemory s) (conf + ucast (conf_length (kmemory s) conf)) (conf + 44) es q"
    and "q < conf + ucast (conf_length (kmemory s) conf)" and "4 < kmemory s q"
  shows "mpinit s = Stop (Spin ''mpinit'')"
proof -
  have "mp_entries (kmemory s) (conf + 44) (conf + ucast (conf_length (kmemory s) conf)) v = None" for v
    using mp_entries_known [OF assms(2), of v] mp_entries_unknown [of q _ "kmemory s", OF assms(3,4)] by simp
  then show ?thesis using assms(1) by (simp add: mpinit_def bindk_getk thenk_modk stopk_def)
qed

text \<open>
  A machine for the witnesses: the floating structure at the start of the extended data area of the firmware, and a table with
  two processors, a bus and an I/O controller, or with an entry of kind 7 in its place.
\<close>

definition mp_bytes :: "uchar list" where
  "mp_bytes = map of_char ''_MP_'' @ [0, 0, 0xF, 0, 1, 4, 0x91, 0, 0, 0, 0, 0]"

definition conf_bytes :: "uchar \<Rightarrow> uchar \<Rightarrow> uchar list" where
  "conf_bytes ck k = map of_char ''PCMP'' @ [100, 0, 4, ck] @ replicate 28 0 @ [0, 0, 0xE0, 0xFE] @ replicate 4 0 @
     (0 # 5 # replicate 18 0) @ (0 # 9 # replicate 18 0) @ (1 # replicate 7 0) @ (k # 3 # replicate 6 0)"

definition demo_mem :: "uchar \<Rightarrow> uchar \<Rightarrow> mem" where
  "demo_mem ck k a =
     (if unat (a - 0x8009FC00) < 16 then mp_bytes ! unat (a - 0x8009FC00)
      else if unat (a - 0x800F0000) < 100 then conf_bytes ck k ! unat (a - 0x800F0000)
      else if a = 0x8000040F then 0x9F else if a = 0x8000040E then 0xC0 else 0)"

definition demo_dev :: "uchar \<Rightarrow> uchar \<Rightarrow> kdev" where
  "demo_dev ck k = (kfile.extend demo_pipe
     \<lparr>io = [], replies = (\<lambda>_. []), lapic = 0, ioapicid = 0, gdt = (\<lambda>_ _. None), idt = (\<lambda>_. None), havedisk1 = False, idequeue = None,
      qnext = (\<lambda>_. None)\<rparr>)\<lparr>kmemory := demo_mem ck k, cpus := replicate NCPU cpu0, ncpu := 0\<rparr>"

lemma mp_sum_bytes:
  assumes "\<And>i. i < length bs \<Longrightarrow> m (a + of_nat i) = bs ! i"
  shows "mp_sum m a (length bs) = sum_list bs"
proof -
  have "mp_sum m a n = sum_list (take n bs)" if "n \<le> length bs" for n
    using that assms by (induction n) (simp_all add: take_Suc_conv_app_nth)
  then show ?thesis by simp
qed

lemma mpsearch1_first:
  assumes "signed_by m (P2V a) ''_MP_''" and "mp_sum m (P2V a) 16 = 0" and "16 \<le> len"
  shows "mpsearch1 m a len = Some (P2V a)"
proof -
  have "0 < len div 16" using assms(3) by (simp add: div_greater_zero_iff)
  then have "[0..<len div 16] = 0 # [1..<len div 16]" by (simp add: upt_conv_Cons)
  then show ?thesis using assms(1,2) by (simp add: mpsearch1_def)
qed

lemma demo_mem_bytes:
  "i < 16 \<Longrightarrow> demo_mem ck k (0x8009FC00 + of_nat i) = mp_bytes ! i"
  "i < 100 \<Longrightarrow> demo_mem ck k (0x800F0000 + of_nat i) = conf_bytes ck k ! i"
proof -
  have "unat (of_nat i :: uint) = i" if "i < 100" for i using that by (simp add: unat_of_nat del: of_nat_add)
  moreover have "\<not> unat ((0x800F0000 :: uint) + of_nat i - 0x8009FC00) < 16" if "i < 100" for i
  proof -
    have "(0x800F0000 :: uint) + of_nat i - 0x8009FC00 = of_nat (0x50400 + i)" by simp
    moreover have "unat (of_nat (0x50400 + i) :: uint) = 0x50400 + i" using that by (simp add: unat_of_nat del: of_nat_add)
    ultimately show ?thesis by simp
  qed
  ultimately show "i < 16 \<Longrightarrow> demo_mem ck k (0x8009FC00 + of_nat i) = mp_bytes ! i"
    "i < 100 \<Longrightarrow> demo_mem ck k (0x800F0000 + of_nat i) = conf_bytes ck k ! i"
    by (simp_all add: demo_mem_def)
qed

lemma demo_mpconfig:
  assumes "sum_list (conf_bytes ck k) = 0"
  shows "mpconfig (demo_mem ck k) = Some (0x8009FC00, 0x800F0000)"
proof -
  note b = demo_mem_bytes(1) [of _ ck k] and c = demo_mem_bytes(2) [of _ ck k]
  let ?m = "demo_mem ck k"
  have "length mp_bytes = 16" "length (conf_bytes ck k) = 100" by (simp_all add: mp_bytes_def conf_bytes_def)
  then have "mp_sum ?m 0x8009FC00 16 = sum_list mp_bytes" "mp_sum ?m 0x800F0000 100 = sum_list (conf_bytes ck k)"
    using mp_sum_bytes [of mp_bytes ?m "0x8009FC00"] mp_sum_bytes [of "conf_bytes ck k" ?m "0x800F0000"] b c by simp_all
  then have "mp_sum ?m 0x8009FC00 16 = 0" "mp_sum ?m 0x800F0000 100 = 0" using assms by (simp_all add: mp_bytes_def)
  moreover have "signed_by ?m 0x8009FC00 ''_MP_''" "signed_by ?m 0x800F0000 ''PCMP''"
    by (simp_all add: signed_by_def demo_mem_def mp_bytes_def conf_bytes_def upt_rec)
  moreover have "mp_physaddr ?m 0x8009FC00 = 0xF0000" "conf_length ?m 0x800F0000 = 100" "conf_version ?m 0x800F0000 = 4"
    by (simp_all add: mp_physaddr_def conf_length_def conf_version_def load32_def load16_def demo_mem_def mp_bytes_def conf_bytes_def)
  moreover from calculation have "mpsearch ?m = Some 0x8009FC00"
    using mpsearch1_first [of ?m "0x9FC00" 1024] by (simp add: mpsearch_def Let_def P2V_def demo_mem_def)
  ultimately show ?thesis by (simp add: mpconfig_def P2V_def)
qed

lemma demo_checksums: "sum_list (conf_bytes 118 2) = 0" "sum_list (conf_bytes 113 7) = 0"
  by (simp_all add: conf_bytes_def sum_list_replicate)

lemma demo_table:
  "conf_length (demo_mem ck k) 0x800F0000 = 100" "mp_imcrp (demo_mem ck k) 0x8009FC00 = 0" "conf_lapicaddr (demo_mem ck k) 0x800F0000 = 0xFEE00000"
  "laid_out (demo_mem ck k) 0x800F0064 0x800F002C [MPproc 5, MPproc 9, MPother 1] 0x800F005C" "demo_mem ck k 0x800F005C = k" "demo_mem ck k 0x800F005D = 3"
  by (simp_all add: conf_length_def mp_imcrp_def conf_lapicaddr_def load16_def load32_def demo_mem_def mp_bytes_def conf_bytes_def nth_append)

lemma mpinit_reads_table_witness:
  "\<exists>t. mpinit (demo_dev 118 2) = Ret () t \<and> lapic t = 0xFEE00000 \<and> ioapicid t = 3 \<and> map apicid (take (ncpu t) (cpus t)) = [5, 9] \<and>
    find_cpu 9 (ncpu t) (cpus t) = Some 1"
proof -
  let ?s = "demo_dev 118 2" and ?es = "[MPproc 5, MPproc 9, MPother 1, MPioapic 3]"
  have m: "kmemory ?s = demo_mem 118 2" "length (cpus ?s) = NCPU" "ncpu ?s = 0" by (simp_all add: demo_dev_def)
  have "laid_out (kmemory ?s) 0x800F0064 0x800F002C ?es 0x800F0064" using demo_table(4-6) [of 118 2] by (simp add: m(1))
  then show ?thesis
    using mpinit_reads_table [of ?s "0x8009FC00" "0x800F0000" ?es] demo_mpconfig [OF demo_checksums(1)] demo_table(1-3) [of 118 2] m by fastforce
qed

lemma mpinit_unknown_entry_witness: "mpinit (demo_dev 113 7) = Stop (Spin ''mpinit'')"
proof -
  let ?s = "demo_dev 113 7" and ?es = "[MPproc 5, MPproc 9, MPother 1]"
  have m: "kmemory ?s = demo_mem 113 7" by (simp add: demo_dev_def)
  show ?thesis
    by (rule mpinit_unknown_entry [of ?s "0x8009FC00" "0x800F0000" ?es "0x800F005C"])
      (use demo_mpconfig [OF demo_checksums(2)] demo_table(1,4,5) [of 113 7] in \<open>simp_all add: m\<close>)
qed
end
