(* ===== verification/Terminal.thy ===== *)
theory Terminal
  imports Console Ringbuf Frames
begin

text \<open>
  The console as a terminal: what is printed, and the editing of input lines.

  Shown: with the cursor on the screen, output never reaches the panic of \<^verbatim>\<open>cgaputc\<close> nor a cell outside the screen and
  \<^verbatim>\<open>cprintf\<close> returns and sends its text to the serial port; the interrupt handlers implement a line editor on two lists of
  bytes, the input that may be read and the line being typed; \<^verbatim>\<open>consoleread\<close> takes from the first.
\<close>


section \<open>Output\<close>

definition cons_ok :: "'z kcons_scheme \<Rightarrow> bool" where
  "cons_ok s \<longleftrightarrow> \<not> panicked s \<and> 25 * 80 \<le> length (crt s) \<and> 0 \<le> cursor s \<and> cursor s < 24 * 80"

text \<open>Printing changes what was sent to the serial port and what is on the screen, nothing else.\<close>

definition shown :: "uchar list \<Rightarrow> 'z kcons_scheme \<Rightarrow> 'z kcons_scheme \<Rightarrow> bool" where
  "shown bs s t \<longleftrightarrow> cons_ok t \<and> serial t = serial s @ (if uart s then bs else []) \<and>
     t = s\<lparr>serial := serial t, crt := crt t, cursor := cursor t\<rparr>"

lemma shown_frame:
  assumes "shown bs s t"
  shows "input t = input s" "kbd_in t = kbd_in s" "uart_in t = uart_in s" "uart t = uart s" "cons_locking t = cons_locking s"
    "cons_ok t" "ksched.truncate t = ksched.truncate s" "kfs.truncate t = kfs.truncate s"
proof -
  have t: "t = s\<lparr>serial := serial t, crt := crt t, cursor := cursor t\<rparr>" using assms unfolding shown_def by blast
  show "input t = input s" by (subst t) simp
  show "kbd_in t = kbd_in s" by (subst t) simp
  show "uart_in t = uart_in s" by (subst t) simp
  show "uart t = uart s" by (subst t) simp
  show "cons_locking t = cons_locking s" by (subst t) simp
  show "ksched.truncate t = ksched.truncate s" by (subst t) (simp add: ksched.defs)
  show "kfs.truncate t = kfs.truncate s" by (subst t) (simp add: kfs.defs)
  show "cons_ok t" using assms by (simp add: shown_def)
qed

lemma shown_refl: "cons_ok s \<Longrightarrow> shown [] s s"
  by (simp add: shown_def)

lemma shown_trans:
  assumes "shown as s t" and "shown bs t u"
  shows "shown (as @ bs) s u"
proof -
  have t: "t = s\<lparr>serial := serial t, crt := crt t, cursor := cursor t\<rparr>" and u: "u = t\<lparr>serial := serial u, crt := crt u, cursor := cursor u\<rparr>"
    using assms unfolding shown_def by blast+
  have "u = s\<lparr>serial := serial u, crt := crt u, cursor := cursor u\<rparr>" by (rule trans [OF u]) (subst t, simp)
  moreover have "uart t = uart s" by (rule shown_frame(4) [OF assms(1)])
  moreover have "serial u = serial s @ (if uart s then as @ bs else [])" "cons_ok u" using assms calculation(2) by (simp_all add: shown_def)
  ultimately show ?thesis unfolding shown_def by blast
qed

lemma length_scroll_up: "24 * 80 \<le> length cs \<Longrightarrow> pos \<le> 24 * 80 \<Longrightarrow> length (scroll_up pos cs) = length cs"
proof -
  assume n: "24 * 80 \<le> length cs" and p: "pos \<le> 24 * 80"
  let ?d = "take (23 * 80) (drop 80 cs) @ drop (23 * 80) cs"
  have d: "length ?d = length cs" using n by simp
  have "length (take (nat pos) ?d) = nat pos" unfolding length_take d using n p by simp
  then show ?thesis using n p d unfolding scroll_up_def Let_def by (simp only: length_append length_replicate length_drop d)
qed

lemma cgaputc_ok:
  assumes "cons_ok s"
  shows "\<exists>cs p. cgaputc c s = Ret () (s\<lparr>crt := cs, cursor := p\<rparr>) \<and> length cs = length (crt s) \<and> 0 \<le> p \<and> p < 24 * 80"
proof -
  let ?p = "cursor s"
  have s: "25 * 80 \<le> length (crt s)" "0 \<le> ?p" "?p < 24 * 80" using assms by (simp_all add: cons_ok_def)
  define cs p where "cs = (if c = 10 \<or> c = BACKSPACE then crt s else (crt s)[nat ?p := (word_of_int c AND 0xff) OR 0x0700])"
    and "p = (if c = 10 then ?p + (80 - ?p mod 80) else if c = BACKSPACE then (if ?p > 0 then ?p - 1 else ?p) else ?p + 1)"
  have "?p mod 80 < 80" "0 \<le> ?p mod 80" by simp_all
  moreover have "?p + (80 - ?p mod 80) \<le> 24 * 80"
  proof -
    have "?p div 80 < 24" using s(3) by simp
    moreover have "80 * (?p div 80) + ?p mod 80 = ?p" by simp
    ultimately show ?thesis by linarith
  qed
  ultimately have p: "0 \<le> p" "p \<le> 24 * 80" using s(2,3) by (auto simp: p_def)
  have l: "length cs = length (crt s)" by (simp add: cs_def)
  define d q where "d = (if p div 80 \<ge> 24 then scroll_up (p - 80) cs else cs)" and "q = (if p div 80 \<ge> 24 then p - 80 else p)"
  have q: "0 \<le> q" "q < 24 * 80" using p by (auto simp: q_def)
  have ld: "length d = length (crt s)" using p s(1) l by (simp add: d_def length_scroll_up)
  have "cgaputc c s = Ret () (s\<lparr>crt := d[nat q := 0x0720], cursor := q\<rparr>)"
  proof -
    have "(if c = 10 then retk (?p + (80 - ?p mod 80)) else if c = BACKSPACE then retk (if ?p > 0 then ?p - 1 else ?p)
        else thenk (set_crt ?p ((word_of_int c AND 0xff) OR 0x0700)) (retk (?p + 1))) s = Ret p (s\<lparr>crt := cs\<rparr>)"
      using s by (auto simp: p_def cs_def retk_def set_crt_def bindk_getk thenk_def modk_def bindk_def getk_def)
    moreover have "(if p div 80 \<ge> 24 then thenk (modk (\<lambda>s. s\<lparr>crt := scroll_up (p - 80) (crt s)\<rparr>)) (retk (p - 80)) else retk p) (s\<lparr>crt := cs\<rparr>)
        = Ret q (s\<lparr>crt := d\<rparr>)"
      by (simp add: q_def d_def thenk_modk retk_def)
    moreover have "nat q < length (crt s)" using q s(1) by linarith
    moreover have "set_crt q 0x0720 (s\<lparr>crt := d, cursor := q\<rparr>) = Ret () (s\<lparr>crt := d[nat q := 0x0720], cursor := q\<rparr>)"
      using q ld calculation(3) by (simp add: set_crt_def bindk_getk modk_def)
    ultimately show ?thesis using p unfolding cgaputc_def by (simp add: bindk_getk bindk_Ret thenk_modk)
  qed
  then show ?thesis using q ld by (intro exI [of _ "d[nat q := 0x0720]"] exI [of _ q]) simp
qed

definition sent :: "int \<Rightarrow> uchar list" where
  "sent c = (if c = BACKSPACE then [8, 32, 8] else [word_of_int c])"

lemma uartputc_eq: "uartputc c s = Ret () (s\<lparr>serial := serial s @ (if uart s then [word_of_int c] else [])\<rparr>)"
  by (simp add: uartputc_def bindk_getk whenk_def modk_def retk_def)

lemma consputc_ok:
  assumes "cons_ok s"
  shows "\<exists>t. consputc c s = Ret () t \<and> shown (sent c) s t"
proof -
  let ?u = "s\<lparr>serial := serial s @ (if uart s then sent c else [])\<rparr>"
  have "cons_ok ?u" using assms by (simp add: cons_ok_def)
  then obtain cs p where t: "cgaputc c ?u = Ret () (?u\<lparr>crt := cs, cursor := p\<rparr>)" "length cs = length (crt s)" "0 \<le> p" "p < 24 * 80"
    using cgaputc_ok [of ?u c] by auto
  have "(if c = BACKSPACE then thenk (uartputc 8) (thenk (uartputc 32) (uartputc 8)) else uartputc c) s = Ret () ?u"
    by (simp add: thenk_Ret [OF uartputc_eq] uartputc_eq sent_def)
  then have "consputc c s = Ret () (?u\<lparr>crt := cs, cursor := p\<rparr>)"
    using assms t(1) unfolding consputc_def cons_ok_def by (simp add: bindk_getk thenk_Ret)
  moreover have "shown (sent c) s (?u\<lparr>crt := cs, cursor := p\<rparr>)" using assms t(2-) by (simp add: shown_def cons_ok_def)
  ultimately show ?thesis by blast
qed

lemma of_char_not_backspace: "int (of_char c) \<noteq> BACKSPACE"
  using nat_of_char_less_256 [of c] by (metis less_irrefl of_nat_eq_iff of_nat_numeral)

lemma consputs_ok:
  assumes "cons_ok s"
  shows "\<exists>t. consputs cs s = Ret () t \<and> shown (map of_char cs) s t"
  using assms unfolding consputs_def
proof (induction cs arbitrary: s)
  case Nil
  then show ?case by (auto simp: retk_def shown_refl)
next
  case (Cons c cs)
  obtain t where t: "consputc (of_nat (of_char c)) s = Ret () t" "shown (sent (of_nat (of_char c))) s t"
    using consputc_ok [OF Cons.prems] by blast
  obtain u where u: "foreach cs (\<lambda>c. consputc (of_nat (of_char c))) t = Ret () u" "shown (map of_char cs) t u"
    using Cons.IH [OF shown_frame(6) [OF t(2)]] by blast
  have "word_of_int (of_nat (of_char c)) = (of_char c :: uchar)" by (rule trans [OF of_int_of_nat_eq of_nat_of_char])
  then have "sent (of_nat (of_char c)) = [of_char c]" using of_char_not_backspace [of c] unfolding sent_def by simp
  then show ?case using t u shown_trans [OF t(2) u(2)] by (auto simp: thenk_Ret)
qed

text \<open>A console whose lock is free, on a processor that may take it.\<close>

definition cons_idle :: "nat \<Rightarrow> 'z kcons_scheme \<Rightarrow> bool" where
  "cons_idle c s \<longleftrightarrow> settled c s \<and> \<not> locked (locks s ConsLock) \<and> lcpu (locks s ConsLock) = None \<and> cons_locking s \<and> cons_ok s"

lemma lockless_shown: "lockless (\<lambda>s :: 'z kcons_scheme. s\<lparr>serial := x, crt := y, cursor := z\<rparr>)"
  by (simp add: lockless_def)

lemma cons_acquired [simp]:
  "cons_ok (acquired l c s) = cons_ok s" "serial (acquired l c s) = serial s" "uart (acquired l c s) = uart s"
  by (simp_all add: acquired_def upd_lock_def pushed_def cons_ok_def)

lemma shown_acquired:
  assumes "shown bs (acquired l c s) u"
  shows "\<exists>t. u = acquired l c t \<and> shown bs s t"
proof -
  define t where "t = s\<lparr>serial := serial u, crt := crt u, cursor := cursor u\<rparr>"
  have "u = (acquired l c s)\<lparr>serial := serial u, crt := crt u, cursor := cursor u\<rparr>" using assms unfolding shown_def by blast
  also have "\<dots> = acquired l c t" unfolding t_def by (rule lockless_acquired [OF lockless_shown])
  finally have u: "u = acquired l c t" .
  have "cons_ok u" "serial u = serial s @ (if uart s then bs else [])" using assms by (simp_all add: shown_def)
  moreover have "cons_ok t = cons_ok u" unfolding u by simp
  ultimately have "shown bs s t" by (simp add: shown_def) (simp add: t_def)
  then show ?thesis using u by blast
qed

lemma cons_idle_shown: "cons_idle c s \<Longrightarrow> shown bs s t \<Longrightarrow> cons_idle c t"
proof -
  assume s: "cons_idle c s" and t: "shown bs s t"
  have e: "t = s\<lparr>serial := serial t, crt := crt t, cursor := cursor t\<rparr>" using t unfolding shown_def by blast
  have "settled c t" by (subst e) (use s in \<open>simp add: cons_idle_def settled_lockless [OF lockless_shown]\<close>)
  moreover have "locks t = locks s" by (subst e) simp
  ultimately show ?thesis using s shown_frame [OF t] by (simp add: cons_idle_def)
qed

lemma cprintf_shows:
  assumes "cons_idle c s"
  shows "\<exists>t. cprintf fmt as s = Ret () t \<and> shown (map of_char (cprintf_text fmt as)) s t"
proof -
  let ?a = "acquired ConsLock c s"
  have s: "settled c s" "\<not> locked (locks s ConsLock)" "lcpu (locks s ConsLock) = None" "cons_locking s" "cons_ok s"
    using assms by (simp_all add: cons_idle_def)
  obtain u where u: "consputs (cprintf_text fmt as) ?a = Ret () u" "shown (map of_char (cprintf_text fmt as)) ?a u"
    using consputs_ok [of ?a] s(5) by auto
  obtain t where t: "u = acquired ConsLock c t" "shown (map of_char (cprintf_text fmt as)) s t"
    using shown_acquired [OF u(2)] by blast
  have "cons_idle c t" using cons_idle_shown [OF assms t(2)] .
  then have "release ConsLock u = Ret () t" unfolding t(1) by (intro release_acquired) (simp_all add: cons_idle_def)
  then have "cprintf fmt as s = Ret () t"
    using u(1) acquire_free [OF s(1,2)] s(4) by (simp add: cprintf_def bindk_getk whenk_def thenk_Ret)
  then show ?thesis using t(2) by blast
qed

section \<open>The input buffer as two lists\<close>

definition abs_input :: "input \<Rightarrow> uchar list \<times> uchar list" where
  "abs_input i = (ring_list INPUT_BUF (ibuf i) (ir i) (iw i), ring_list INPUT_BUF (ibuf i) (iw i) (ie i))"

definition input_ok :: "input \<Rightarrow> bool" where
  "input_ok i \<longleftrightarrow> length (ibuf i) = INPUT_BUF \<and> unat (iw i - ir i) + unat (ie i - iw i) \<le> INPUT_BUF \<and> 10 \<notin> set (snd (abs_input i))"

text \<open>
  The editor: input that may be read, and the line being typed, with what each character does to them. Control-U (0x15)
  erases the line, backspace and delete its last character; a newline, Control-D (4) and the last free place complete the line.
\<close>

definition edit_char :: "int \<Rightarrow> uchar list \<times> uchar list \<Rightarrow> uchar list \<times> uchar list" where
  "edit_char c = (\<lambda>(av, ln).
     if c = 0x15 then (av, [])
     else if c = 8 \<or> c = 0x7F then (av, butlast ln)
     else if c = 0 \<or> INPUT_BUF \<le> length av + length ln then (av, ln)
     else
       let c = (if c = 13 then 10 else c); ln = ln @ [word_of_int c] in
       if c = 10 \<or> c = 4 \<or> length av + length ln = INPUT_BUF then (av @ ln, []) else (av, ln))"

lemma islot_ring: "islot k = ring_slot INPUT_BUF k"
  by (simp add: islot_def ring_slot_def)

lemma ring_list_split:
  assumes "unat (w - r) + unat (e - w) < 2 ^ 32"
  shows "ring_list N d r e = ring_list N d r w @ ring_list N d w e" and "unat (e - r :: uint) = unat (w - r) + unat (e - w)"
proof -
  have add: "unat (a + b) = unat a + unat b" if "unat a + unat b < 2 ^ 32" for a b :: uint
    using that by (simp add: unat_word_ariths)
  have e: "e - r = (w - r) + (e - w)" by simp
  show u: "unat (e - r) = unat (w - r) + unat (e - w)" unfolding e using add [OF assms] .
  have "r + of_nat (unat (w - r) + k) = w + of_nat k" for k by simp
  then show "ring_list N d r e = ring_list N d r w @ ring_list N d w e"
    unfolding ring_list_def u by (intro nth_equalityI) (auto simp: nth_append add.commute simp flip: of_nat_add)
qed

lemma input_lists:
  assumes "input_ok i"
  shows "unat (ie i - ir i) = length (fst (abs_input i)) + length (snd (abs_input i))"
    "ring_list INPUT_BUF (ibuf i) (ir i) (ie i) = fst (abs_input i) @ snd (abs_input i)"
    "length (fst (abs_input i)) + length (snd (abs_input i)) \<le> INPUT_BUF"
  using assms ring_list_split [of "iw i" "ir i" "ie i"] by (simp_all add: input_ok_def abs_input_def)

lemma input_back:
  assumes "input_ok i" and "ie i \<noteq> iw i"
  shows "input_ok (i\<lparr>ie := ie i - 1\<rparr>) \<and> abs_input (i\<lparr>ie := ie i - 1\<rparr>) = (fst (abs_input i), butlast (snd (abs_input i)))"
proof -
  have b: "ring_list INPUT_BUF (ibuf i) (iw i) (ie i - 1) = butlast (ring_list INPUT_BUF (ibuf i) (iw i) (ie i))"
    using assms(2) by (intro ring_back) simp
  then have "unat (ie i - 1 - iw i) = unat (ie i - iw i) - 1" by (metis length_butlast length_ring_list)
  then show ?thesis using assms(1) b by (auto simp: input_ok_def abs_input_def dest: in_set_butlastD)
qed

lemma input_put:
  fixes c :: uchar
  assumes "input_ok i" and "unat (ie i - ir i) < INPUT_BUF"
  defines "j \<equiv> i\<lparr>ibuf := (ibuf i)[islot (ie i) := c], ie := ie i + 1\<rparr>"
  shows "abs_input j = (fst (abs_input i), snd (abs_input i) @ [c])" "length (ibuf j) = INPUT_BUF"
    "unat (iw j - ir j) + unat (ie j - iw j) \<le> INPUT_BUF" "unat (ie j - ir j) = Suc (unat (ie i - ir i))"
proof -
  note l = input_lists [OF assms(1)]
  have n: "unat (ie i - iw i) < INPUT_BUF" using assms(2) l(1) by (simp add: abs_input_def)
  have s: "unat (ie i + 1 - iw i) = Suc (unat (ie i - iw i))" using n by (intro unat_succ_diff) simp
  show s2: "unat (ie j - ir j) = Suc (unat (ie i - ir i))" unfolding j_def using assms(2) by (simp add: unat_succ_diff)
  show len: "length (ibuf j) = INPUT_BUF" using assms(1) by (simp add: j_def input_ok_def)
  show "unat (iw j - ir j) + unat (ie j - iw j) \<le> INPUT_BUF" using s assms(2) l(1) by (simp add: j_def abs_input_def)
  then have "ring_list INPUT_BUF (ibuf j) (ir j) (ie j) = fst (abs_input j) @ snd (abs_input j)"
    using ring_list_split(1) [of "iw j" "ir j" "ie j"] by (simp add: abs_input_def)
  moreover have "ring_list INPUT_BUF (ibuf j) (ir j) (ie j) = fst (abs_input i) @ snd (abs_input i) @ [c]"
    using ring_put [of INPUT_BUF "ibuf i" "ie i" "ir i" c] assms(1,2) l(2) by (simp add: j_def islot_ring input_ok_def)
  moreover have "length (fst (abs_input j)) = length (fst (abs_input i))" by (simp add: j_def abs_input_def)
  ultimately show "abs_input j = (fst (abs_input i), snd (abs_input i) @ [c])" by (simp add: prod_eq_iff)
qed

lemma input_commit:
  assumes "length (ibuf i) = INPUT_BUF" and "unat (iw i - ir i) + unat (ie i - iw i) \<le> INPUT_BUF"
  shows "input_ok (i\<lparr>iw := ie i\<rparr>) \<and> abs_input (i\<lparr>iw := ie i\<rparr>) = (fst (abs_input i) @ snd (abs_input i), [])"
proof -
  have "ring_list INPUT_BUF (ibuf i) (ie i) (ie i) = []" by (simp add: ring_list_empty)
  then show ?thesis
    using assms ring_list_split(1) [of "iw i" "ir i" "ie i" INPUT_BUF "ibuf i"] ring_list_split(2) [of "iw i" "ir i" "ie i"] by (simp add: input_ok_def abs_input_def)
qed

section \<open>Inside the lock of the console\<close>

definition cons_in :: "nat \<Rightarrow> 'z kcons_scheme \<Rightarrow> bool" where
  "cons_in c s \<longleftrightarrow> lock_held ConsLock c s \<and> lock_free PtableLock c s \<and> rq_inv {} s \<and> cons_ok s \<and> input_ok (input s)"

lemma truncate_sched:
  assumes "ksched.truncate t = ksched.truncate s"
  shows "rq_inv X t = rq_inv X s" "lock_held l c t = lock_held l c s" "lock_free l c t = lock_free l c s"
proof -
  have "rq_inv X (ksched.truncate u) = rq_inv X u" for u :: "'z ksched_scheme"
    by (simp add: ksched.defs rq_inv_def queued_def live_def proc_at_def queue_of_def cong: schedQ.case_cong)
  then show "rq_inv X t = rq_inv X s" using assms by metis
  have "lock_held l c (ksched.truncate u) = lock_held l c u" "lock_free l c (ksched.truncate u) = lock_free l c u" for u :: "'z ksched_scheme"
    by (simp_all add: ksched.defs lock_held_def lock_free_def cli_ok_def runs_on_def)
  then show "lock_held l c t = lock_held l c s" "lock_free l c t = lock_free l c s" using assms by metis+
qed

lemma section_of_held:
  assumes "section_of c s t" and "lock_held l c s" and "lock_free PtableLock c s" and "l \<noteq> PtableLock"
  shows "lock_held l c t"
proof -
  obtain u where u: "rq_frame (acquired PtableLock c s) u" "t = released PtableLock c u"
    using assms(1) by (auto simp: section_of_def)
  have s: "runs_on s c" "0 < ncli (cpus s ! c)" "locked (locks s l)" "lcpu (locks s l) = Some c" using assms(2) by (simp_all add: lock_held_def)
  have c: "c < length (cpus s)" using s(1) by (rule runs_on_length)
  let ?a = "acquired PtableLock c s"
  have a: "runs_on ?a c" "ncli (cpus ?a ! c) = ncli (cpus s ! c) + 1" "locked (locks ?a l)" "lcpu (locks ?a l) = Some c"
    using s c assms(4) by (simp_all add: acquired_def upd_lock_def pushed_def runs_on_def)
  note f = rq_frameD [OF u(1)]
  have r: "runs_on u c" using a(1) by (simp add: runs_on_def f)
  show ?thesis unfolding u(2) lock_held_def released_props [OF r] using a s(2) assms(4) released_props(1) [OF r] by (simp add: f)
qed

lemma wakeup_in:
  assumes "cons_in c s"
  shows "\<exists>t. wakeup ch s = Ret () t \<and> cons_in c t \<and> ksched.more t = ksched.more s"
proof -
  have s: "lock_held ConsLock c s" "lock_free PtableLock c s" "rq_inv {} s" using assms by (simp_all add: cons_in_def)
  obtain t where t: "wakeup ch s = Ret () t" "rq_inv {} t" "section_of c s t"
    using wp_total [OF wakeup_section [OF s(3,2), of ch]] by (auto simp del: upt_rec_numeral)
  have b: "beyond t = beyond s" using keepsD(1) [OF keeps_wakeup(2) t(1)] .
  then have m: "ksched.more t = ksched.more s" by (simp add: beyond_def)
  then have "cons_ok t = cons_ok s" "input t = input s" by (cases s, cases t, simp add: cons_ok_def)+
  then show ?thesis using t m assms section_of_held [OF t(3) s(1,2)] section_of_props(1) [OF t(3) s(2)] by (simp add: cons_in_def)
qed

lemma cons_in_shown:
  assumes "cons_in c s" and "shown bs s t"
  shows "cons_in c t"
  using assms truncate_sched [OF shown_frame(7) [OF assms(2)]] shown_frame [OF assms(2)] by (simp add: cons_in_def)

lemma cons_in_input: "cons_in c (upd_input f s) = (cons_in c s \<and> input_ok (f (input s)))" if "input_ok (input s)"
proof -
  have "ksched.truncate (upd_input f s) = ksched.truncate s" by (simp add: upd_input_def ksched.defs)
  then show ?thesis using that truncate_sched [of "upd_input f s" s] by (auto simp: cons_in_def cons_ok_def upd_input_def)
qed

lemma last_typed:
  assumes "input_ok i" and "ie i \<noteq> iw i"
  shows "ibuf i ! islot (ie i - 1) \<noteq> 10" "length (snd (abs_input i)) = Suc (length (butlast (snd (abs_input i))))"
proof -
  let ?n = "unat (ie i - iw i)"
  have n: "0 < ?n" using assms(2) by (simp add: unat_gt_0)
  have "iw i + of_nat (?n - 1) = ie i - 1" using n by (simp add: of_nat_diff)
  then have "ibuf i ! islot (ie i - 1) = snd (abs_input i) ! (?n - 1)" using n by (simp add: abs_input_def ring_list_def islot_ring)
  then have "ibuf i ! islot (ie i - 1) \<in> set (snd (abs_input i))" using n by (simp add: abs_input_def)
  then show "ibuf i ! islot (ie i - 1) \<noteq> 10" using assms(1) by (auto simp: input_ok_def)
  show "length (snd (abs_input i)) = Suc (length (butlast (snd (abs_input i))))" using n by (simp add: abs_input_def)
qed

lemma typed_iff: "ie i = iw i \<longleftrightarrow> snd (abs_input i) = []"
  using ring_list_empty [of INPUT_BUF "ibuf i" "iw i" "ie i"] by (auto simp: abs_input_def)

text \<open>What a character leaves alone.\<close>

definition sources :: "'z kcons_scheme \<Rightarrow> uchar list \<times> uchar list \<times> uint \<times> bool \<times> bool" where
  "sources s = (kbd_in s, uart_in s, kbd_shift s, uart s, cons_locking s)"

lemma sources_simps [simp]: "sources (upd_input f s) = sources s" "input (upd_input f s) = f (input s)"
  by (simp_all add: sources_def upd_input_def)

lemma sources_shown: "shown bs s t \<Longrightarrow> sources t = sources s"
  unfolding shown_def by (elim conjE) (erule ssubst, simp add: sources_def)

lemma sources_more: "ksched.more t = ksched.more s \<Longrightarrow> sources t = sources s \<and> input t = input s"
  for s t :: "'z kcons_scheme"
  by (cases s, cases t) (simp add: sources_def)

lemma erase_one:
  assumes "cons_in c s" and "ie (input s) \<noteq> iw (input s)"
  shows "\<exists>t. thenk (modk (upd_input (\<lambda>i. i\<lparr>ie := ie i - 1\<rparr>))) (consputc BACKSPACE) s = Ret () t \<and> cons_in c t \<and>
    abs_input (input t) = (fst (abs_input (input s)), butlast (snd (abs_input (input s)))) \<and> sources t = sources s"
proof -
  let ?u = "upd_input (\<lambda>i. i\<lparr>ie := ie i - 1\<rparr>) s"
  have ok: "input_ok (input s)" using assms(1) by (simp add: cons_in_def)
  note b = input_back [OF ok assms(2)]
  have u: "cons_in c ?u" using assms(1) b ok by (simp add: cons_in_input)
  then obtain t where t: "consputc BACKSPACE ?u = Ret () t" "shown (sent BACKSPACE) ?u t" using consputc_ok by (auto simp: cons_in_def)
  then show ?thesis
    using b cons_in_shown [OF u t(2)] sources_shown [OF t(2)] shown_frame(1) [OF t(2)] by (auto simp: thenk_modk)
qed

lemma kill_line_erases:
  assumes "cons_in c s" and "length (snd (abs_input (input s))) = n"
  shows "\<exists>t. kill_line n s = Ret () t \<and> cons_in c t \<and> abs_input (input t) = (fst (abs_input (input s)), []) \<and> sources t = sources s"
  using assms
proof (induction n arbitrary: s)
  case 0
  then show ?case by (auto simp: retk_def prod_eq_iff)
next
  case (Suc n)
  have ok: "input_ok (input s)" using Suc.prems(1) by (simp add: cons_in_def)
  have ne: "ie (input s) \<noteq> iw (input s)" using Suc.prems(2) by (auto simp: typed_iff)
  obtain u where u: "thenk (modk (upd_input (\<lambda>i. i\<lparr>ie := ie i - 1\<rparr>))) (consputc BACKSPACE) s = Ret () u" "cons_in c u"
      "abs_input (input u) = (fst (abs_input (input s)), butlast (snd (abs_input (input s))))" "sources u = sources s"
    using erase_one [OF Suc.prems(1) ne] by blast
  obtain t where "kill_line n u = Ret () t" "cons_in c t" "abs_input (input t) = (fst (abs_input (input u)), [])" "sources t = sources u"
    using Suc.IH [OF u(2)] u(3) Suc.prems(2) by auto
  then show ?case
    using u ne last_typed [OF ok ne] by (auto simp: bindk_getk thenk_Ret simp flip: thenk_assoc)
qed

lemma room_iff:
  assumes "input_ok i"
  shows "ie i - ir i < of_nat INPUT_BUF \<longleftrightarrow> length (fst (abs_input i)) + length (snd (abs_input i)) < INPUT_BUF"
  using input_lists(1) [OF assms] by (simp add: word_less_nat_alt)

lemma full_iff:
  fixes i :: input
  shows "ie i = ir i + of_nat INPUT_BUF \<longleftrightarrow> unat (ie i - ir i) = INPUT_BUF"
proof -
  have "ie i = ir i + of_nat INPUT_BUF \<longleftrightarrow> ie i - ir i = of_nat INPUT_BUF" by (auto simp: algebra_simps)
  then show ?thesis by (simp add: word_unat_eq_iff)
qed

lemma store_char:
  assumes "cons_in c s" and "unat (ie (input s) - ir (input s)) < INPUT_BUF" and "0 \<le> ch" and "ch < 256"
  defines "f \<equiv> \<lambda>i. i\<lparr>ibuf := (ibuf i)[islot (ie i) := word_of_int ch], ie := ie i + 1\<rparr>"
    and "commits \<equiv> ch = 10 \<or> ch = 4 \<or> Suc (unat (ie (input s) - ir (input s))) = INPUT_BUF"
  shows "\<exists>t. thenk (modk (upd_input f)) (thenk (consputc ch) (bindk (getk input) (\<lambda>inp.
      whenk (ch = 10 \<or> ch = 4 \<or> ie inp = ir inp + of_nat INPUT_BUF)
       (thenk (modk (upd_input (\<lambda>i. i\<lparr>iw := ie i\<rparr>))) (wakeup ChInput))))) s = Ret () t \<and> cons_in c t \<and> sources t = sources s \<and>
    abs_input (input t) = (let ln = snd (abs_input (input s)) @ [word_of_int ch] in
      if commits then (fst (abs_input (input s)) @ ln, []) else (fst (abs_input (input s)), ln))"
proof -
  let ?u = "upd_input f s"
  have s: "lock_held ConsLock c s" "lock_free PtableLock c s" "rq_inv {} s" "cons_ok s" "input_ok (input s)"
    using assms(1) by (simp_all add: cons_in_def)
  note p = input_put [OF s(5) assms(2), of "word_of_int ch", folded f_def [THEN meta_eq_to_obj_eq, THEN fun_cong]]
  have "cons_ok ?u" using s(4) by (simp add: cons_ok_def upd_input_def)
  then obtain v where v: "consputc ch ?u = Ret () v" "shown (sent ch) ?u v" using consputc_ok by blast
  note fv = shown_frame [OF v(2)] and tv = truncate_sched [OF shown_frame(7) [OF v(2)]]
  have tu: "ksched.truncate ?u = ksched.truncate s" by (simp add: upd_input_def ksched.defs)
  have iv: "input v = f (input s)" using fv(1) by simp
  have full: "ch = 10 \<or> ch = 4 \<or> ie (input v) = ir (input v) + of_nat INPUT_BUF \<longleftrightarrow> commits"
    unfolding iv full_iff p(4) commits_def ..
  have sv: "sources v = sources s" using sources_shown [OF v(2)] by simp
  show ?thesis
  proof (cases commits)
    case True
    let ?w = "upd_input (\<lambda>i. i\<lparr>iw := ie i\<rparr>) v"
    note co = input_commit [of "input v", unfolded iv, OF p(2,3)]
    have "ksched.truncate ?w = ksched.truncate v" by (simp add: upd_input_def ksched.defs)
    then have w: "cons_in c ?w"
      using s co fv(6) iv truncate_sched [of ?w v] truncate_sched [OF tu] tv by (simp add: cons_in_def) (simp add: cons_ok_def upd_input_def)
    obtain t where t: "wakeup ChInput ?w = Ret () t" "cons_in c t" "ksched.more t = ksched.more ?w" using wakeup_in [OF w] by blast
    have "abs_input (input t) = (fst (abs_input (input s)) @ snd (abs_input (input s)) @ [word_of_int ch], [])" "sources t = sources s"
      using sources_more [OF t(3)] co iv p(1) sv by simp_all
    then show ?thesis using True t(1,2) v(1) full by (auto simp: thenk_modk thenk_Ret bindk_getk whenk_def Let_def)
  next
    case False
    then have "ch \<noteq> 10" by (simp add: commits_def)
    moreover have "uint (word_of_int ch :: uchar) = ch" using assms(3,4) by (simp add: unsigned_of_int take_bit_int_eq_self)
    ultimately have "word_of_int ch \<noteq> (10 :: uchar)" by auto
    then have "input_ok (input v)" using p s(5) unfolding iv by (auto simp: input_ok_def)
    then have "cons_in c v" using s fv(6) tv truncate_sched [OF tu] by (simp add: cons_in_def)
    then show ?thesis using False v(1) full sv p(1) iv by (auto simp: thenk_modk thenk_Ret bindk_getk whenk_def retk_def Let_def)
  qed
qed

lemma console_char_edits:
  assumes "cons_in c s" and "0 \<le> ch" and "ch < 256"
  shows "\<exists>t. console_char ch s = Ret () t \<and> cons_in c t \<and> abs_input (input t) = edit_char ch (abs_input (input s)) \<and> sources t = sources s"
proof -
  let ?i = "input s"
  have ok: "input_ok ?i" using assms(1) by (simp add: cons_in_def)
  obtain av ln where a: "abs_input ?i = (av, ln)" by fastforce
  consider "ch = 0x15" | "ch = 8 \<or> ch = 0x7F" | "ch \<notin> {0x15, 8, 0x7F}" by blast
  then show ?thesis
  proof cases
    case 1
    have "unat (ie ?i - iw ?i) = length (snd (abs_input ?i))" by (simp add: abs_input_def)
    then show ?thesis using kill_line_erases [OF assms(1)] 1 by (auto simp: console_char_def bindk_getk edit_char_def a)
  next
    case 2
    show ?thesis
    proof (cases "ie ?i = iw ?i")
      case True
      then have "ln = []" using typed_iff [of ?i] a by simp
      then show ?thesis using 2 True a assms(1) by (auto simp: console_char_def bindk_getk edit_char_def whenk_def retk_def)
    next
      case False
      then show ?thesis using erase_one [OF assms(1) False] 2 a by (auto simp: console_char_def bindk_getk edit_char_def whenk_def)
    qed
  next
    case 3
    show ?thesis
    proof (cases "ch \<noteq> 0 \<and> ie ?i - ir ?i < of_nat INPUT_BUF")
      case True
      let ?c = "if ch = 13 then 10 else ch :: int"
      have r: "length av + length ln < INPUT_BUF" "unat (ie ?i - ir ?i) = length av + length ln"
        using True room_iff [OF ok] input_lists(1) [OF ok] a by simp_all
      have c: "0 \<le> ?c" "?c < 256" using assms(2,3) by auto
      have "console_char ch s = thenk (modk (upd_input (\<lambda>i. i\<lparr>ibuf := (ibuf i)[islot (ie i) := word_of_int ?c], ie := ie i + 1\<rparr>)))
          (thenk (consputc ?c) (bindk (getk input) (\<lambda>inp. whenk (?c = 10 \<or> ?c = 4 \<or> ie inp = ir inp + of_nat INPUT_BUF)
            (thenk (modk (upd_input (\<lambda>i. i\<lparr>iw := ie i\<rparr>))) (wakeup ChInput))))) s"
        using 3 True by (simp add: console_char_def bindk_getk whenk_def Let_def)
      moreover have "edit_char ch (av, ln) = (let ln = ln @ [word_of_int ?c] in
          if ?c = 10 \<or> ?c = 4 \<or> Suc (length av + length ln) = Suc INPUT_BUF then (av @ ln, []) else (av, ln))"
        using 3 True r(1) by (auto simp: edit_char_def Let_def)
      ultimately show ?thesis using store_char [OF assms(1) _ c] r a by (auto simp: Let_def)
    next
      case False
      then have "ch = 0 \<or> INPUT_BUF \<le> length av + length ln" using room_iff [OF ok] a by auto
      then show ?thesis using 3 False assms(1) a by (auto simp: console_char_def bindk_getk edit_char_def whenk_def retk_def)
    qed
  qed
qed

section \<open>Printing while the lock is free\<close>

definition prints :: "nat \<Rightarrow> ('z kcons_scheme, unit) kop \<Rightarrow> bool" where
  "prints c m \<longleftrightarrow> (\<forall>s. cons_idle c s \<longrightarrow> (\<exists>t bs. m s = Ret () t \<and> shown bs s t))"

lemma prints_cprintf: "prints c (cprintf fmt as)"
  using cprintf_shows unfolding prints_def by blast

lemma prints_thenk: "prints c m \<Longrightarrow> prints c n \<Longrightarrow> prints c (thenk m n)"
  unfolding prints_def by (metis cons_idle_shown shown_trans thenk_Ret)

lemma prints_ret: "prints c (retk ())"
  unfolding prints_def by (auto simp: retk_def cons_idle_def intro: shown_refl)

lemma prints_whenk: "prints c m \<Longrightarrow> prints c (whenk b m)"
  by (simp add: whenk_def prints_ret)

lemma prints_getk: "(\<And>x. prints c (f x)) \<Longrightarrow> prints c (bindk (getk g) f)"
  by (simp add: prints_def bindk_getk)

lemma prints_foreach: "(\<And>x. prints c (f x)) \<Longrightarrow> prints c (foreach xs f)"
  by (induction xs) (simp_all add: prints_ret prints_thenk)

lemma prints_procdump: "prints c (procdump ebp)"
  unfolding procdump_def by (intro prints_foreach prints_getk prints_whenk prints_thenk prints_cprintf)

section \<open>Interrupts of the console\<close>

text \<open>
  Between two uses of the console: its lock and that of the process table are free, the run queues and the input buffer
  are in order, the cursor is on the screen.
\<close>

definition cons_rest :: "nat \<Rightarrow> 'z kcons_scheme \<Rightarrow> bool" where
  "cons_rest c s \<longleftrightarrow> settled c s \<and> \<not> locked (locks s ConsLock) \<and> lcpu (locks s ConsLock) = None \<and> lock_free PtableLock c s \<and>
     rq_inv {} s \<and> cons_locking s \<and> cons_ok s \<and> input_ok (input s)"

lemma cons_rest_idle: "cons_rest c s \<Longrightarrow> cons_idle c s"
  by (simp add: cons_rest_def cons_idle_def)

lemma cons_rest_shown:
  assumes "cons_rest c s" and "shown bs s t"
  shows "cons_rest c t"
  using assms cons_idle_shown [OF cons_rest_idle [OF assms(1)] assms(2)] truncate_sched [OF shown_frame(7) [OF assms(2)]]
    shown_frame [OF assms(2)] by (simp add: cons_rest_def cons_idle_def)

lemma cons_rest_acquire:
  assumes "cons_rest c s"
  shows "acquire ConsLock s = Ret () (acquired ConsLock c s)" "cons_in c (acquired ConsLock c s)"
    "sources (acquired ConsLock c s) = sources s" "input (acquired ConsLock c s) = input s"
proof -
  have s: "settled c s" "\<not> locked (locks s ConsLock)" "lcpu (locks s ConsLock) = None" "lock_free PtableLock c s"
    using assms by (simp_all add: cons_rest_def)
  show "acquire ConsLock s = Ret () (acquired ConsLock c s)" by (rule acquire_free [OF s(1,2)])
  note p = acquired_props [OF s(1), of ConsLock]
  show "sources (acquired ConsLock c s) = sources s" and i: "input (acquired ConsLock c s) = input s"
    by (simp_all add: sources_def acquired_def upd_lock_def pushed_def)
  have "lock_held ConsLock c (acquired ConsLock c s)" using p by (simp add: lock_held_def)
  moreover have "lock_free PtableLock c (acquired ConsLock c s)" using p s(4) by (simp add: lock_free_def settled_def)
  ultimately show "cons_in c (acquired ConsLock c s)" using assms i by (simp add: cons_in_def cons_rest_def)
qed

lemma cons_in_release:
  assumes "cons_in c s" and "cons_locking s"
  shows "release ConsLock s = Ret () (released ConsLock c s)" "cons_rest c (released ConsLock c s)"
    "sources (released ConsLock c s) = sources s" "input (released ConsLock c s) = input s"
proof -
  have s: "lock_held ConsLock c s" "lock_free PtableLock c s" "rq_inv {} s" "cons_ok s" "input_ok (input s)"
    using assms(1) by (simp_all add: cons_in_def)
  show "release ConsLock s = Ret () (released ConsLock c s)" using s(1) release_eq [of s c ConsLock] by (simp add: lock_held_def)
  show so: "sources (released ConsLock c s) = sources s" and i: "input (released ConsLock c s) = input s"
    by (simp_all add: sources_def released_def upd_lock_def popped_def)
  have r: "runs_on s c" using s(1) by (simp add: lock_held_def)
  note rp = released_props [OF r, of ConsLock]
  have "intena (cpus (released ConsLock c s) ! c) = intena (cpus s ! c)"
    using runs_on_length [OF r] by (simp add: released_def upd_lock_def popped_def)
  then have "settled c (released ConsLock c s)"
    using s(1) rp by (simp add: settled_def cli_ok_def lock_held_def)
  moreover have "cons_ok (released ConsLock c s)" using s(4) by (simp add: cons_ok_def released_def upd_lock_def popped_def)
  moreover have "lock_free PtableLock c (released ConsLock c s)" using calculation(1) s(2) rp(2) by (simp add: lock_free_def settled_def)
  ultimately show "cons_rest c (released ConsLock c s)" using assms(2) so s i rp(2) by (simp add: cons_rest_def sources_def)
qed

text \<open>A device that delivers characters: what the interrupt handler needs of \<^verbatim>\<open>kbdgetc\<close> and \<^verbatim>\<open>uartgetc\<close>.\<close>

locale char_source =
  fixes getc :: "('z kcons_scheme, int) kop" and pending :: "'z kcons_scheme \<Rightarrow> int list"
  assumes none: "pending s = [] \<Longrightarrow> getc s = Ret (-1) s"
    and some: "pending s = x # xs \<Longrightarrow> \<exists>k h u. getc s = Ret x (s\<lparr>kbd_in := k, kbd_shift := h, uart_in := u\<rparr>) \<and>
      pending (s\<lparr>kbd_in := k, kbd_shift := h, uart_in := u\<rparr>) = xs"
    and range: "x \<in> set (pending s) \<Longrightarrow> 0 \<le> x \<and> x < 256"
    and from_sources: "sources t = sources s \<Longrightarrow> pending t = pending s"
begin

lemma loop_edits:
  assumes "cons_in c s" and "length (pending s) < n"
  shows "\<exists>t. consoleintr_loop n getc d s = Ret (d \<or> 0x10 \<in> set (pending s)) t \<and> cons_in c t \<and> pending t = [] \<and>
    abs_input (input t) = fold edit_char (filter (\<lambda>x. x \<noteq> 0x10) (pending s)) (abs_input (input s)) \<and> cons_locking t = cons_locking s"
  using assms
proof (induction n arbitrary: s d)
  case (Suc n)
  show ?case
  proof (cases "pending s")
    case Nil
    then show ?thesis using Suc.prems(1) none [OF Nil] by (auto simp: bindk_Ret retk_def)
  next
    case (Cons x xs)
    obtain k h v where g: "getc s = Ret x (s\<lparr>kbd_in := k, kbd_shift := h, uart_in := v\<rparr>)" "pending (s\<lparr>kbd_in := k, kbd_shift := h, uart_in := v\<rparr>) = xs"
      using some [OF Cons] by blast
    define u where "u = s\<lparr>kbd_in := k, kbd_shift := h, uart_in := v\<rparr>"
    have "ksched.truncate u = ksched.truncate s" "cons_ok u = cons_ok s" and iu: "input u = input s" "cons_locking u = cons_locking s"
      by (simp_all add: u_def ksched.defs cons_ok_def)
    then have u: "cons_in c u" using Suc.prems(1) truncate_sched [of u s] by (simp add: cons_in_def)
    have x: "0 \<le> x" "x < 256" using range [of x s] Cons by simp_all
    have gu: "getc s = Ret x u" using g(1) by (simp add: u_def)
    have pu: "pending u = xs" using g(2) by (simp add: u_def)
    have n: "length xs < n" using Suc.prems(2) Cons by simp
    show ?thesis
    proof (cases "x = 0x10")
      case True
      have "consoleintr_loop (Suc n) getc d s = consoleintr_loop n getc True u" using gu True by (simp add: bindk_Ret)
      then show ?thesis using Suc.IH [OF u, unfolded pu, OF n, of True] iu True unfolding Cons by simp
    next
      case False
      obtain w where w: "console_char x u = Ret () w" "cons_in c w" "abs_input (input w) = edit_char x (abs_input (input u))" "sources w = sources u"
        using console_char_edits [OF u x] by blast
      have "pending w = xs" using from_sources [OF w(4)] pu by simp
      moreover have "cons_locking w = cons_locking u" using w(4) by (simp add: sources_def)
      moreover have "consoleintr_loop (Suc n) getc d s = consoleintr_loop n getc d w" using gu w(1) x False by (simp add: bindk_Ret thenk_Ret)
      ultimately show ?thesis using Suc.IH [OF w(2), of d] n iu False w(3) unfolding Cons by simp
    qed
  qed
qed simp

lemma intr_edits:
  assumes "cons_rest c s" and "length (pending s) < n"
  shows "\<exists>t. consoleintr ebp n getc s = Ret () t \<and> cons_rest c t \<and>
    abs_input (input t) = fold edit_char (filter (\<lambda>x. x \<noteq> 0x10) (pending s)) (abs_input (input s)) \<and> pending t = []"
proof -
  let ?a = "acquired ConsLock c s"
  have a: "cons_in c ?a" "sources ?a = sources s" "input ?a = input s" "acquire ConsLock s = Ret () ?a"
    using cons_rest_acquire [OF assms(1)] by simp_all
  have pa: "pending ?a = pending s" by (rule from_sources [OF a(2)])
  obtain u where u: "consoleintr_loop n getc False ?a = Ret (0x10 \<in> set (pending s)) u" "cons_in c u" "pending u = []"
      "abs_input (input u) = fold edit_char (filter (\<lambda>x. x \<noteq> 0x10) (pending s)) (abs_input (input s))" "cons_locking u = cons_locking ?a"
    using loop_edits [OF a(1), unfolded pa a(3), OF assms(2), of False] by auto
  define w where "w = released ConsLock c u"
  have w: "release ConsLock u = Ret () w" "cons_rest c w" "sources w = sources u" "input w = input u"
    using cons_in_release [OF u(2)] u(5) a(2) assms(1) by (simp_all add: w_def sources_def cons_rest_def)
  have pw: "pending w = []" using from_sources [OF w(3)] u(3) by simp
  have ci: "consoleintr ebp n getc s = whenk (0x10 \<in> set (pending s)) (procdump ebp) w"
    using a(4) u(1) w(1) by (simp add: consoleintr_def thenk_Ret bindk_Ret)
  obtain t bs where t: "whenk (0x10 \<in> set (pending s)) (procdump ebp) w = Ret () t" "shown bs w t"
    using prints_whenk [OF prints_procdump, of c] cons_rest_idle [OF w(2)] unfolding prints_def by blast
  have "cons_rest c t" by (rule cons_rest_shown [OF w(2) t(2)])
  moreover have "pending t = []" using from_sources [OF sources_shown [OF t(2)]] pw by simp
  moreover have "input t = input u" using shown_frame(1) [OF t(2)] w(4) by simp
  ultimately show ?thesis using ci t(1) u(4) by auto
qed

end

text \<open>The characters the keyboard delivers for a sequence of codes, and those of the serial port.\<close>

fun typed :: "uint \<Rightarrow> uchar list \<Rightarrow> int list" where
  "typed shift [] = []"
| "typed shift (d # ds) = snd (kbd_step shift d) # typed (fst (kbd_step shift d)) ds"

definition kbd_pending :: "'z kcons_scheme \<Rightarrow> int list" where
  "kbd_pending s = typed (kbd_shift s) (kbd_in s)"

definition uart_pending :: "'z kcons_scheme \<Rightarrow> int list" where
  "uart_pending s = (if uart s then map uint (uart_in s) else [])"

lemma kbd_step_range: "0 \<le> snd (kbd_step shift d) \<and> snd (kbd_step shift d) < 256"
proof -
  have "0 \<le> uint (x :: uchar)" "uint x < 256" for x using unsigned_less [of x, where 'a = int] by simp_all
  then show ?thesis by (simp add: kbd_step_def Let_def split: prod.split)
qed

lemma typed_range: "x \<in> set (typed shift ds) \<Longrightarrow> 0 \<le> x \<and> x < 256"
  by (induction ds arbitrary: shift) (auto simp: kbd_step_range)

lemma length_typed [simp]: "length (typed shift ds) = length ds"
  by (induction ds arbitrary: shift) simp_all

interpretation keyboard: char_source kbdgetc kbd_pending
proof
  fix s t :: "'z kcons_scheme" and x xs
  show "kbd_pending s = [] \<Longrightarrow> kbdgetc s = Ret (-1) s"
    by (cases "kbd_in s") (simp_all add: kbd_pending_def kbdgetc_def bindk_getk retk_def)
  show "x \<in> set (kbd_pending s) \<Longrightarrow> 0 \<le> x \<and> x < 256" by (auto simp: kbd_pending_def typed_range)
  show "sources t = sources s \<Longrightarrow> kbd_pending t = kbd_pending s" by (simp add: sources_def kbd_pending_def)
  assume p: "kbd_pending s = x # xs"
  then obtain d ds where k: "kbd_in s = d # ds" by (cases "kbd_in s") (auto simp: kbd_pending_def)
  let ?t = "s\<lparr>kbd_in := ds, kbd_shift := fst (kbd_step (kbd_shift s) d), uart_in := uart_in s\<rparr>"
  have "kbdgetc s = Ret x ?t" using p k
    by (auto simp: kbd_pending_def kbdgetc_def bindk_getk thenk_modk retk_def split: prod.split)
  moreover have "kbd_pending ?t = xs" using p k by (simp add: kbd_pending_def)
  ultimately show "\<exists>k h u. kbdgetc s = Ret x (s\<lparr>kbd_in := k, kbd_shift := h, uart_in := u\<rparr>) \<and>
      kbd_pending (s\<lparr>kbd_in := k, kbd_shift := h, uart_in := u\<rparr>) = xs" by blast
qed

interpretation serial_port: char_source uartgetc uart_pending
proof
  fix s t :: "'z kcons_scheme" and x xs
  show "uart_pending s = [] \<Longrightarrow> uartgetc s = Ret (-1) s"
    by (auto simp: uart_pending_def uartgetc_def bindk_getk retk_def split: if_splits)
  show "x \<in> set (uart_pending s) \<Longrightarrow> 0 \<le> x \<and> x < 256"
    using unsigned_less [where 'a = int and 'b = 8] by (auto simp: uart_pending_def split: if_splits)
  show "sources t = sources s \<Longrightarrow> uart_pending t = uart_pending s" by (simp add: sources_def uart_pending_def)
  assume p: "uart_pending s = x # xs"
  then obtain d ds where k: "uart s" "uart_in s = d # ds" "x = uint d" "xs = map uint ds" by (auto simp: uart_pending_def split: if_splits)
  let ?t = "s\<lparr>kbd_in := kbd_in s, kbd_shift := kbd_shift s, uart_in := ds\<rparr>"
  have "uartgetc s = Ret x ?t" using k by (simp add: uartgetc_def bindk_getk thenk_modk retk_def)
  moreover have "uart_pending ?t = xs" using k by (simp add: uart_pending_def)
  ultimately show "\<exists>k h u. uartgetc s = Ret x (s\<lparr>kbd_in := k, kbd_shift := h, uart_in := u\<rparr>) \<and>
      uart_pending (s\<lparr>kbd_in := k, kbd_shift := h, uart_in := u\<rparr>) = xs" by blast
qed

section \<open>Properties\<close>

text \<open>
  C26. \<^verbatim>\<open>cprintf\<close> never panics: from any state with the console's lock free and the cursor on the screen it returns, whatever
  the format and its arguments (a string argument is a null pointer or a terminated string); the cursor is on the screen again, the formatted text went to the serial port, the
  lock is free and nothing else has changed.
\<close>

theorem cprintf_prints:
  assumes "cons_idle c s"
  shows "\<exists>t. cprintf fmt as s = Ret () t \<and> cons_idle c t \<and>
    serial t = serial s @ (if uart s then map of_char (cprintf_text fmt as) else []) \<and>
    t = s\<lparr>serial := serial t, crt := crt t, cursor := cursor t\<rparr>"
proof -
  obtain t where t: "cprintf fmt as s = Ret () t" "shown (map of_char (cprintf_text fmt as)) s t" using cprintf_shows [OF assms] by blast
  show ?thesis using t(1) cons_idle_shown [OF assms t(2)] t(2) unfolding shown_def by blast
qed

text \<open>
  C6. The interrupt handlers of the keyboard and of the serial port implement a line editor: from any state between two
  uses of the console they return to such a state, with the input buffer changed as the editor changes its two lists for
  the characters delivered, in order (Control-P prints the process list instead), and no character left behind; the
  32-bit indices of the buffer may wrap around.
\<close>

theorem console_edits:
  assumes "cons_rest c s"
  shows "(\<exists>t. kbdintr ebp s = Ret () t \<and> cons_rest c t \<and> kbd_in t = [] \<and>
      abs_input (input t) = fold edit_char (filter (\<lambda>x. x \<noteq> 0x10) (typed (kbd_shift s) (kbd_in s))) (abs_input (input s))) \<and>
    (\<exists>t. uartintr ebp s = Ret () t \<and> cons_rest c t \<and> uart_pending t = [] \<and>
      abs_input (input t) = fold edit_char (filter (\<lambda>x. x \<noteq> 0x10) (uart_pending s)) (abs_input (input s)))"
proof
  have "length (kbd_pending s) < Suc (length (kbd_in s))" by (simp add: kbd_pending_def)
  then obtain t where "consoleintr ebp (Suc (length (kbd_in s))) kbdgetc s = Ret () t" "cons_rest c t" "kbd_pending t = []"
      "abs_input (input t) = fold edit_char (filter (\<lambda>x. x \<noteq> 0x10) (kbd_pending s)) (abs_input (input s))"
    using keyboard.intr_edits [OF assms] by blast
  moreover from this(3) have "kbd_in t = []" by (cases "kbd_in t") (simp_all add: kbd_pending_def)
  ultimately show "\<exists>t. kbdintr ebp s = Ret () t \<and> cons_rest c t \<and> kbd_in t = [] \<and>
      abs_input (input t) = fold edit_char (filter (\<lambda>x. x \<noteq> 0x10) (typed (kbd_shift s) (kbd_in s))) (abs_input (input s))"
    by (auto simp: kbdintr_def bindk_getk kbd_pending_def)
  have "length (uart_pending s) < Suc (length (uart_in s))" by (simp add: uart_pending_def)
  then show "\<exists>t. uartintr ebp s = Ret () t \<and> cons_rest c t \<and> uart_pending t = [] \<and>
      abs_input (input t) = fold edit_char (filter (\<lambda>x. x \<noteq> 0x10) (uart_pending s)) (abs_input (input s))"
    using serial_port.intr_edits [OF assms] by (auto simp: uartintr_def bindk_getk)
qed

text \<open>A console for the witnesses: an input buffer whose indices are about to wrap around, with two bytes to be read.\<close>

definition demo_cons :: "uchar list \<Rightarrow> uchar list \<Rightarrow> kcons" where
  "demo_cons ks us = (kfs.extend
     (demo_fs [] \<lparr>bvalid = False, bdirty = False, bdev = 0, blockno = 0, refcnt = 0, bdata = []\<rparr> 0
       \<lparr>idev = 0, inum = 0, iref = 0, ivalid = False, itype = 0, imajor = 0, iminor = 0, inlink = 0, isize = 0, addrs = []\<rparr>)
     \<lparr>panicked = False, cons_locking = True, input = \<lparr>ibuf = (replicate INPUT_BUF 0)[126 := 97, 127 := 10], ir = -2, iw = 0, ie = 0\<rparr>,
      crt = replicate 2000 0, cursor = 1919, uart = True, serial = [], devsw = [], kbd_shift = 0, kbd_in = ks, uart_in = us\<rparr>)
     \<lparr>rr_q := mkqueue [0]\<rparr>"

lemma demo_cons_rest: "cons_rest 0 (demo_cons ks us)"
proof -
  let ?s = "demo_cons ks us" and ?m = "mkfree (Some 0) [(RUNNING, RR)] [0] [] []"
  have "rq_inv {} ?m" by (rule mkfree_inv) (simp_all add: members_def)
  then have "rq_inv {} (?m\<lparr>cpus := [cpu0\<lparr>cproc := Some 0, intena := True\<rparr>]\<rparr>)"
    by (simp add: rq_inv_def queued_def live_def proc_at_def queue_of_def cong: schedQ.case_cong)
  moreover have "ksched.truncate ?s = ksched.truncate (?m\<lparr>cpus := [cpu0\<lparr>cproc := Some 0, intena := True\<rparr>]\<rparr>)"
    by (simp add: demo_cons_def demo_fs_def demo_log_def demo_bio_def ksleep.defs ksched.defs kbio.defs klog.defs kfs.defs mkfree_def mksched_def)
  ultimately have "rq_inv {} ?s" using truncate_sched(1) by blast
  moreover have "settled 0 ?s \<and> \<not> locked (locks ?s ConsLock) \<and> lcpu (locks ?s ConsLock) = None \<and> lock_free PtableLock 0 ?s"
    by (simp add: settled_def cli_ok_def lock_free_def demo_cons_def demo_fs_def demo_log_def demo_bio_def ksleep.defs ksched.defs
      kbio.defs klog.defs kfs.defs mkfree_def mksched_def runs_on_def find_cpu_def cpu0_def free_lock_def)
  moreover have "cons_locking ?s \<and> cons_ok ?s \<and> input_ok (input ?s)"
    by (simp add: demo_cons_def kfs.defs cons_ok_def input_ok_def abs_input_def ring_list_def)
  ultimately show ?thesis by (simp add: cons_rest_def)
qed

lemma demo_cons_input: "abs_input (input (demo_cons ks us)) = ([97, 10], [])"
  by (simp add: demo_cons_def kfs.defs abs_input_def ring_list_def ring_slot_def upt_rec unsigned_minus_1_eq_mask mask_eq_exp_minus_1)

lemma cprintf_prints_witness:
  "\<exists>t. cprintf ''%s%%'' [AStr (Some ''7'')] (demo_cons [] []) = Ret () t \<and> serial t = [55, 37] \<and> cons_idle 0 t"
proof -
  have "map of_char (cprintf_text ''%s%%'' [AStr (Some ''7'')]) = ([55, 37] :: uchar list)" by (simp add: arg_str_def)
  moreover have "serial (demo_cons [] []) = []" "uart (demo_cons [] [])" by (simp_all add: demo_cons_def kfs.defs)
  ultimately show ?thesis using cprintf_prints [OF cons_rest_idle [OF demo_cons_rest], of "''%s%%''" "[AStr (Some ''7'')]" "[]" "[]"] by auto
qed

lemma console_edits_witness:
  "(\<exists>t. kbdintr (\<lambda>_. 0) (demo_cons [0x2A, 0x1E, 0xAA, 0x30, 0x0E] [98, 13]) = Ret () t \<and> kbd_in t = [] \<and> abs_input (input t) = ([97, 10], [65])) \<and>
   (\<exists>t. uartintr (\<lambda>_. 0) (demo_cons [0x2A, 0x1E, 0xAA, 0x30, 0x0E] [98, 13]) = Ret () t \<and> uart_pending t = [] \<and> abs_input (input t) = ([97, 10, 98, 10], []))"
proof -
  let ?s = "demo_cons [0x2A, 0x1E, 0xAA, 0x30, 0x0E] [98, 13]"
  have "shiftmap 0x1E = 65" "shiftmap 0x2A = 0" "normalmap 0x30 = 98" "normalmap 0x0E = 8"
    by (simp_all add: normalmap_def shiftmap_def keymap_def normalmap_main_def shiftmap_main_def keys_main_def)
  then have "typed 0 [0x2A, 0x1E, 0xAA, 0x30, 0x0E] = [0, 65, 0, 98, 8]"
    by (simp add: kbd_step_def shiftcode_def togglecode_def charcode_def)
  then have "fold edit_char (filter (\<lambda>x. x \<noteq> 0x10) (typed (kbd_shift ?s) (kbd_in ?s))) ([97, 10], []) = ([97, 10], [65])"
    by (simp add: demo_cons_def kfs.defs edit_char_def)
  moreover have "fold edit_char (filter (\<lambda>x. x \<noteq> 0x10) (uart_pending ?s)) ([97, 10], []) = ([97, 10, 98, 10], [])"
    by (simp add: uart_pending_def demo_cons_def kfs.defs edit_char_def)
  ultimately show ?thesis using console_edits [OF demo_cons_rest, of "\<lambda>_. 0" "[0x2A, 0x1E, 0xAA, 0x30, 0x0E]" "[98, 13]"]
    unfolding demo_cons_input by auto
qed

end
