(* ===== verification/Ide.thy ===== *)
theory Ide
  imports Devices Terminal
begin

text \<open>
  The driver of the IDE disk, \<^verbatim>\<open>ide.c\<close>: programmed input and output on the ports of the controller, a queue of buffers linked by
  \<^verbatim>\<open>qnext\<close>, and an interrupt at the end of every command. A kernel has either this driver or the memory disk of \<^verbatim>\<open>memide.c\<close>
  (theory \<open>Bio\<close>); both export \<^verbatim>\<open>ideinit\<close>, \<^verbatim>\<open>ideintr\<close> and \<^verbatim>\<open>iderw\<close>, so the operations here have an underscore in their names.

  A caller of \<^verbatim>\<open>iderw\<close> sleeps until its buffer is done; resumed, it goes on with \<open>ide_rw_wait\<close>. The queue is walked with one unit of
  fuel per buffer and one more; a longer walk has come back to a buffer it has seen, and never ends.

  The controller of the properties moves one sector of 512 bytes per command, which is the size of a block; it does not look at the sector count.

  Shown: against a controller that executes the commands written to its ports, any history of requests and interrupts serves
  the requests in the order in which they were made, and a served buffer is valid, clean, and equal to its block on the disk;
  after an error of the controller the buffer is marked valid although nothing was read.
\<close>

section \<open>The driver\<close>

abbreviation FSSIZE :: nat where "FSSIZE \<equiv> 1000"
abbreviation SECTOR_SIZE :: nat where "SECTOR_SIZE \<equiv> 512"
abbreviation IDE_BSY :: uint where "IDE_BSY \<equiv> 0x80"
abbreviation IDE_DRDY :: uint where "IDE_DRDY \<equiv> 0x40"
abbreviation IDE_DF :: uint where "IDE_DF \<equiv> 0x20"
abbreviation IDE_ERR :: uint where "IDE_ERR \<equiv> 0x01"
abbreviation IDE_CMD_READ :: uint where "IDE_CMD_READ \<equiv> 0x20"
abbreviation IDE_CMD_WRITE :: uint where "IDE_CMD_WRITE \<equiv> 0x30"
abbreviation IDE_CMD_RDMUL :: uint where "IDE_CMD_RDMUL \<equiv> 0xC4"
abbreviation IDE_CMD_WRMUL :: uint where "IDE_CMD_WRMUL \<equiv> 0xC5"

definition ide_wait :: "bool \<Rightarrow> ('z kdev_scheme, int) kop" where
  "ide_wait checkerr =
     bindk (dev_wait (Port 0x1F7) (\<lambda>r. r AND (IDE_BSY OR IDE_DRDY) = IDE_DRDY)) (\<lambda>r.
     retk (if checkerr \<and> r AND (IDE_DF OR IDE_ERR) \<noteq> 0 then -1 else 0))"

fun ide_probe :: "nat \<Rightarrow> ('z kdev_scheme, unit) kop" where
  "ide_probe 0 = retk ()"
| "ide_probe (Suc n) =
     bindk (inb 0x1F7) (\<lambda>r. if r \<noteq> 0 then modk (\<lambda>s. s\<lparr>havedisk1 := True\<rparr>) else ide_probe n)"

definition ide_init :: "('z kdev_scheme, unit) kop" where
  "ide_init =
     thenk (initlock IdeLock ''ide'')
    (bindk (getk ncpu) (\<lambda>n.
     thenk (ioapicenable 14 (of_nat n - 1))
    (bindk (ide_wait False) (\<lambda>_.
     thenk (outb 0x1F6 (0xE0 OR push_bit 4 1))
    (thenk (ide_probe 1000)
     (outb 0x1F6 (0xE0 OR push_bit 4 0)))))))"

definition outsl :: "nat \<Rightarrow> uint list \<Rightarrow> ('z kdev_scheme, unit) kop" where
  "outsl port ws = foreach ws (dev_out (Port port))"

fun insl :: "nat \<Rightarrow> nat \<Rightarrow> ('z kdev_scheme, uchar list) kop" where
  "insl port 0 = retk []"
| "insl port (Suc n) =
     bindk (dev_in (Port port)) (\<lambda>w. bindk (insl port n) (\<lambda>bs. retk (bytes32 w @ bs)))"

definition words_of :: "block \<Rightarrow> uint list" where
  "words_of b = map (get32 b) [0..<BSIZE div 4]"

definition sector_per_block :: uint where
  "sector_per_block = of_nat (BSIZE div SECTOR_SIZE)"

definition ide_start :: "nat option \<Rightarrow> ('z kdev_scheme, unit) kop" where
  "ide_start h =
     (case h of
        None \<Rightarrow> panic ''idestart''
      | Some i \<Rightarrow>
          bindk (getk (\<lambda>s. buf_at s i)) (\<lambda>b.
          if unat (blockno b) \<ge> FSSIZE then panic ''incorrect blockno''
          else
            let sector = blockno b * sector_per_block;
                read_cmd = (if sector_per_block = 1 then IDE_CMD_READ else IDE_CMD_RDMUL);
                write_cmd = (if sector_per_block = 1 then IDE_CMD_WRITE else IDE_CMD_WRMUL) in
            if sector_per_block > 7 then panic ''idestart''
            else
              bindk (ide_wait False) (\<lambda>_.
              thenk (outb 0x3F6 0)
             (thenk (outb 0x1F2 sector_per_block)
             (thenk (outb 0x1F3 (sector AND 0xFF))
             (thenk (outb 0x1F4 (drop_bit 8 sector AND 0xFF))
             (thenk (outb 0x1F5 (drop_bit 16 sector AND 0xFF))
             (thenk (outb 0x1F6 (0xE0 OR push_bit 4 (bdev b AND 1) OR (drop_bit 24 sector AND 0x0F)))
             (if bdirty b then thenk (outb 0x1F7 write_cmd) (outsl 0x1F0 (words_of (bdata b)))
              else outb 0x1F7 read_cmd)))))))))"

definition ide_fetch :: "nat \<Rightarrow> ('z kdev_scheme, unit) kop" where
  "ide_fetch i =
     bindk (getk (\<lambda>s. bdirty (buf_at s i))) (\<lambda>dirty.
     whenk (\<not> dirty) (bindk (ide_wait True) (\<lambda>r.
       whenk (r \<ge> 0) (bindk (insl 0x1F0 (BSIZE div 4)) (\<lambda>bs. modk (upd_buf i (\<lambda>b. b\<lparr>bdata := bs\<rparr>)))))))"

definition ide_intr :: "('z kdev_scheme, unit) kop" where
  "ide_intr =
     thenk (acquire IdeLock)
    (bindk (getk idequeue) (\<lambda>h.
     case h of
       None \<Rightarrow> release IdeLock
     | Some i \<Rightarrow>
         thenk (modk (\<lambda>s. s\<lparr>idequeue := qnext s i\<rparr>))
        (thenk (ide_fetch i)
        (thenk (modk (upd_buf i (\<lambda>b. b\<lparr>bvalid := True\<rparr>)))
        (thenk (modk (upd_buf i (\<lambda>b. b\<lparr>bdirty := False\<rparr>)))
        (thenk (wakeup (ChBuf i))
        (bindk (getk idequeue) (\<lambda>q.
         thenk (whenk (q \<noteq> None) (ide_start q))
         (release IdeLock)))))))))"

fun last_queued :: "nat \<Rightarrow> nat \<Rightarrow> ('z kdev_scheme, nat) kop" where
  "last_queued 0 i = stopk (Spin ''idequeue'')"
| "last_queued (Suc n) i =
     bindk (getk (\<lambda>s. qnext s i)) (\<lambda>x. case x of None \<Rightarrow> retk i | Some j \<Rightarrow> last_queued n j)"

definition ide_append :: "nat \<Rightarrow> ('z kdev_scheme, unit) kop" where
  "ide_append i =
     bindk (getk idequeue) (\<lambda>h.
     case h of
       None \<Rightarrow> modk (\<lambda>s. s\<lparr>idequeue := Some i\<rparr>)
     | Some j \<Rightarrow> bindk (last_queued (Suc NBUF) j) (\<lambda>k. modk (\<lambda>s. s\<lparr>qnext := (qnext s)(k := Some i)\<rparr>)))"

definition ide_rw_wait :: "nat \<Rightarrow> ('z kdev_scheme, unit) kop" where
  "ide_rw_wait i =
     bindk (getk (\<lambda>s. buf_at s i)) (\<lambda>b.
     if \<not> (bvalid b \<and> \<not> bdirty b) then sleep (ChBuf i) (Some IdeLock) else release IdeLock)"

definition ide_rw :: "nat \<Rightarrow> ('z kdev_scheme, unit) kop" where
  "ide_rw i =
     bindk (holdingsleep (BufSl i)) (\<lambda>h.
     if \<not> h then panic ''iderw: buf not locked''
     else bindk (getk (\<lambda>s. buf_at s i)) (\<lambda>b.
     if bvalid b \<and> \<not> bdirty b then panic ''iderw: nothing to do''
     else bindk (getk havedisk1) (\<lambda>d1.
     if bdev b \<noteq> 0 \<and> \<not> d1 then panic ''iderw: ide disk 1 not present''
     else
       thenk (acquire IdeLock)
      (thenk (modk (\<lambda>s. s\<lparr>qnext := (qnext s)(i := None)\<rparr>))
      (thenk (ide_append i)
      (bindk (getk idequeue) (\<lambda>h.
       thenk (whenk (h = Some i) (ide_start (Some i)))
       (ide_rw_wait i))))))))"

section \<open>The controller\<close>

text \<open>
  What an IDE controller makes of the writes to its ports: the number of a sector in four registers, a drive, a command; the words
  of a write command are collected, and the last one stores the sector.
\<close>

record controller =
  lba0 :: uint
  lba1 :: uint
  lba2 :: uint
  lba3 :: uint
  drive1 :: bool
  command :: uint
  received :: "uint list"
  store :: "bool \<Rightarrow> block list"

definition lba :: "controller \<Rightarrow> nat" where
  "lba c = unat (lba0 c OR push_bit 8 (lba1 c) OR push_bit 16 (lba2 c) OR push_bit 24 (lba3 c))"

definition sector_of :: "controller \<Rightarrow> block" where
  "sector_of c = store c (drive1 c) ! lba c"

definition take_word :: "uint \<Rightarrow> controller \<Rightarrow> controller" where
  "take_word w c =
     (let c = c\<lparr>received := received c @ [w]\<rparr> in
      if command c = IDE_CMD_WRITE \<and> length (received c) = BSIZE div 4
      then c\<lparr>store := (store c)(drive1 c := (store c (drive1 c))[lba c := concat (map bytes32 (received c))])\<rparr> else c)"

fun ctl :: "devreg \<times> uint \<Rightarrow> controller \<Rightarrow> controller" where
  "ctl (Port p, v) c =
     (if p = 0x1F0 then take_word v c
      else if p = 0x1F3 then c\<lparr>lba0 := v\<rparr>
      else if p = 0x1F4 then c\<lparr>lba1 := v\<rparr>
      else if p = 0x1F5 then c\<lparr>lba2 := v\<rparr>
      else if p = 0x1F6 then c\<lparr>lba3 := v AND 0x0F, drive1 := bit v 4\<rparr>
      else if p = 0x1F7 then c\<lparr>command := v, received := []\<rparr>
      else c)"
| "ctl (_, v) c = c"

text \<open>The words of a block are its bytes.\<close>

lemma bytes32_le32: "bytes32 (le32 (a # b # c # d # r)) = [a, b, c, d]"
proof -
  have "bytes32 (le32 [a, b, c, d]) = [a, b, c, d]"
    by (simp add: bytes32_def le32_def) (intro conjI; rule bit_word_eqI; auto simp: bit_simps dest: bit_imp_le_length)
  then show ?thesis by (simp add: le32_def)
qed

lemma concat_words: "length b = 4 * n \<Longrightarrow> concat (map (bytes32 \<circ> get32 b) [0..<n]) = b"
proof (induction n arbitrary: b)
  case (Suc n)
  then obtain w x y z r where b: "b = w # x # y # z # r" "length r = 4 * n"
    by (cases b; cases "tl b"; cases "tl (tl b)"; cases "tl (tl (tl b))") auto
  have "[0..<Suc n] = 0 # map Suc [0..<n]" by (simp add: upt_conv_Cons map_Suc_upt)
  moreover have "get32 b (Suc k) = get32 r k" for k by (simp add: get32_def b(1) drop_drop [symmetric, of 4] add.commute [of 4] flip: drop_drop)
  moreover have "get32 b 0 = le32 (w # x # y # z # r)" by (simp add: get32_def b(1))
  ultimately show ?case using Suc.IH [OF b(2)] by (simp add: comp_def bytes32_le32 b(1))
qed simp

lemma words_roundtrip: "length b = BSIZE \<Longrightarrow> concat (map bytes32 (words_of b)) = b" "length (words_of b) = BSIZE div 4"
  using concat_words [of b "BSIZE div 4"] by (simp_all add: words_of_def del: upt_rec_numeral)

text \<open>The writes of one command.\<close>

definition ide_cmd :: "buf \<Rightarrow> (devreg \<times> uint) list" where
  "ide_cmd b = [(Port 0x3F6, 0), (Port 0x1F2, 1), (Port 0x1F3, blockno b AND 0xFF), (Port 0x1F4, drop_bit 8 (blockno b) AND 0xFF),
     (Port 0x1F5, drop_bit 16 (blockno b) AND 0xFF),
     (Port 0x1F6, (0xE0 OR push_bit 4 (bdev b AND 1) OR (drop_bit 24 (blockno b) AND 0x0F)) AND 0xFF)] @
     (if bdirty b then (Port 0x1F7, IDE_CMD_WRITE) # map (Pair (Port 0x1F0)) (words_of (bdata b)) else [(Port 0x1F7, IDE_CMD_READ)])"

lemma dev_out_eq: "dev_out r v s = Ret () (s\<lparr>io := io s @ [(r, v)]\<rparr>)"
  by (simp add: dev_out_def modk_def)

lemma outsl_eq: "outsl p ws s = Ret () (s\<lparr>io := io s @ map (Pair (Port p)) ws\<rparr>)"
  unfolding outsl_def by (induction ws arbitrary: s) (simp_all add: retk_def thenk_Ret [OF dev_out_eq])

lemma dev_wait_eq:
  "dev_wait r p s = (case first_such p (replies s r) of None \<Rightarrow> Stop (Spin ''device'') | Some (v, vs) \<Rightarrow> Ret v (s\<lparr>replies := (replies s)(r := vs)\<rparr>))"
  by (simp add: dev_wait_def bindk_getk thenk_modk retk_def stopk_def split: option.split)

abbreviation disk_ready :: "uint \<Rightarrow> bool" where
  "disk_ready r \<equiv> r AND (IDE_BSY OR IDE_DRDY) = IDE_DRDY"

lemma ide_wait_eq:
  "ide_wait b s = (case first_such disk_ready (replies s (Port 0x1F7)) of None \<Rightarrow> Stop (Spin ''device'')
     | Some (v, vs) \<Rightarrow> Ret (if b \<and> v AND (IDE_DF OR IDE_ERR) \<noteq> 0 then -1 else 0) (s\<lparr>replies := (replies s)(Port 0x1F7 := vs)\<rparr>))"
  by (simp add: ide_wait_def bindk_def dev_wait_eq retk_def split: option.split)

lemma bind_ide_wait:
  "bindk (ide_wait b) f s = (case first_such disk_ready (replies s (Port 0x1F7)) of None \<Rightarrow> Stop (Spin ''device'')
     | Some (v, vs) \<Rightarrow> f (if b \<and> v AND (IDE_DF OR IDE_ERR) \<noteq> 0 then -1 else 0) (s\<lparr>replies := (replies s)(Port 0x1F7 := vs)\<rparr>))"
  by (simp add: bindk_def ide_wait_eq split: option.split)

lemma ide_start_eq:
  "ide_start (Some i) s =
     (if unat (blockno (buf_at s i)) \<ge> FSSIZE then Stop (Panic ''incorrect blockno'')
      else case first_such disk_ready (replies s (Port 0x1F7)) of None \<Rightarrow> Stop (Spin ''device'')
        | Some (v, vs) \<Rightarrow> Ret () (s\<lparr>replies := (replies s)(Port 0x1F7 := vs), io := io s @ ide_cmd (buf_at s i)\<rparr>))"
  by (simp add: ide_start_def bindk_getk panic_def stopk_def sector_per_block_def Let_def bind_ide_wait outb_def thenk_Ret [OF dev_out_eq]
    dev_out_eq outsl_eq ide_cmd_def split: option.split)

lemma take_words:
  assumes "command c = IDE_CMD_WRITE" and "length (received c) + length ws \<le> BSIZE div 4"
  shows "fold ctl (map (Pair (Port 0x1F0)) ws) c =
    (let r = received c @ ws in
     if ws \<noteq> [] \<and> length r = BSIZE div 4
     then c\<lparr>received := r, store := (store c)(drive1 c := (store c (drive1 c))[lba c := concat (map bytes32 r)])\<rparr> else c\<lparr>received := r\<rparr>)"
  using assms
proof (induction ws arbitrary: c)
  case (Cons w ws)
  show ?case
  proof (cases ws)
    case Nil
    then show ?thesis using Cons.prems by (simp add: take_word_def lba_def Let_def)
  next
    case (Cons x xs)
    let ?c = "c\<lparr>received := received c @ [w]\<rparr>"
    have "length (received ?c) + length ws \<le> BSIZE div 4" using Cons.prems(2) by simp
    moreover from this have "take_word w c = ?c" using Cons by (simp add: take_word_def Let_def)
    ultimately show ?thesis using Cons.IH [of ?c] Cons.prems(1) Cons by (simp add: Let_def lba_def)
  qed
qed simp

text \<open>The registers take the number of a sector apart and put it together again.\<close>

lemma sector_registers:
  fixes n :: uint
  assumes "unat n < 2 ^ 28"
  shows "(n AND 0xFF) OR push_bit 8 (drop_bit 8 n AND 0xFF) OR push_bit 16 (drop_bit 16 n AND 0xFF) OR push_bit 24 (drop_bit 24 n AND 0x0F) = n"
proof -
  have "(n AND 0xFF) OR push_bit 8 (drop_bit 8 n AND 0xFF) OR push_bit 16 (drop_bit 16 n AND 0xFF) OR push_bit 24 (drop_bit 24 n AND 0x0F) = take_bit 28 n"
  proof (rule bit_word_eqI)
    fix k assume "k < LENGTH(32)"
    then have "k < 32" by simp
    have m: "x AND 0xFF = take_bit 8 x" "x AND 0x0F = take_bit 4 x" for x :: uint by (simp_all add: take_bit_eq_mask mask_eq_exp_minus_1)
    consider "k < 8" | "8 \<le> k" "k < 16" | "16 \<le> k" "k < 24" | "24 \<le> k" by linarith
    then show "bit ((n AND 0xFF) OR push_bit 8 (drop_bit 8 n AND 0xFF) OR push_bit 16 (drop_bit 16 n AND 0xFF) OR push_bit 24 (drop_bit 24 n AND 0x0F)) k =
        bit (take_bit 28 n) k"
      unfolding m using \<open>k < 32\<close> by cases (auto simp: bit_simps)
  qed
  moreover have "take_bit 28 n = n"
    using assms by (simp add: word_unat_eq_iff unsigned_take_bit_eq take_bit_nat_eq_self)
  ultimately show ?thesis by simp
qed

lemma drive_register:
  fixes n d :: uint
  defines "v \<equiv> (0xE0 OR push_bit 4 (d AND 1) OR (n AND 0x0F)) AND 0xFF"
  shows "v AND 0x0F = n AND 0x0F" "bit v 4 = odd d"
proof -
  have f: "bit (0x0F :: uint) k = (k < 4)" "bit (0xFF :: uint) k = (k < 8)" for k
    using bit_mask_iff [of 4 k, where 'a = uint] bit_mask_iff [of 8 k, where 'a = uint] by (auto simp: mask_eq_exp_minus_1)
  have e: "\<not> bit (0xE0 :: uint) k" if "k < 5" for k
  proof -
    have "k = 0 \<or> k = 1 \<or> k = 2 \<or> k = 3 \<or> k = 4" using that by linarith
    then show ?thesis by auto
  qed
  show "v AND 0x0F = n AND 0x0F"
  proof (rule bit_word_eqI)
    fix k assume "k < LENGTH(32)"
    show "bit (v AND 0x0F) k = bit (n AND 0x0F) k"
      by (cases "k < 4") (simp_all only: v_def bit_and_iff bit_or_iff bit_push_bit_iff f, use e [of k] in simp_all)
  qed
  show "bit v 4 = odd d" by (simp only: v_def bit_and_iff bit_or_iff bit_push_bit_iff f) (use e [of 4] in \<open>simp add: bit_0\<close>)
qed

text \<open>What the command for a buffer makes the controller do.\<close>

definition started_on :: "buf \<Rightarrow> controller \<Rightarrow> controller \<Rightarrow> bool" where
  "started_on b c d \<longleftrightarrow> lba d = unat (blockno b) \<and> drive1 d = odd (bdev b) \<and> command d = (if bdirty b then IDE_CMD_WRITE else IDE_CMD_READ) \<and>
     store d = (if bdirty b then (store c)(odd (bdev b) := (store c (odd (bdev b)))[unat (blockno b) := bdata b]) else store c)"

lemma ctl_ide_cmd:
  assumes "unat (blockno b) < FSSIZE" and "length (bdata b) = BSIZE"
  shows "started_on b c (fold ctl (ide_cmd b) c)"
proof -
  let ?c = "c\<lparr>lba0 := blockno b AND 0xFF, lba1 := drop_bit 8 (blockno b) AND 0xFF, lba2 := drop_bit 16 (blockno b) AND 0xFF,
    lba3 := drop_bit 24 (blockno b) AND 0x0F, drive1 := odd (bdev b), command := (if bdirty b then IDE_CMD_WRITE else IDE_CMD_READ), received := []\<rparr>"
  have f: "fold ctl (ide_cmd b) c = (if bdirty b then fold ctl (map (Pair (Port 0x1F0)) (words_of (bdata b))) ?c else ?c)"
    using drive_register [of "bdev b" "drop_bit 24 (blockno b)"] by (simp add: ide_cmd_def)
  have l: "lba ?c = unat (blockno b)" using sector_registers [of "blockno b"] assms(1) by (simp add: lba_def)
  have "length (words_of (bdata b)) = 128" by (simp add: words_roundtrip)
  moreover from this have "words_of (bdata b) \<noteq> []" by auto
  ultimately show ?thesis
    using f l words_roundtrip(1) [OF assms(2)] take_words [of ?c "words_of (bdata b)"]
    by (cases "bdirty b") (simp_all add: started_on_def lba_def Let_def)
qed

section \<open>The queue\<close>

fun linked :: "(nat \<Rightarrow> nat option) \<Rightarrow> nat option \<Rightarrow> nat list \<Rightarrow> bool" where
  "linked n h [] \<longleftrightarrow> h = None"
| "linked n h (x # xs) \<longleftrightarrow> h = Some x \<and> linked n (n x) xs"

lemma linked_cong: "(\<And>x. x \<in> set q \<Longrightarrow> n' x = n x) \<Longrightarrow> linked n' h q = linked n h q"
  by (induction q arbitrary: h) auto

lemma linked_append:
  assumes "linked n h q" and "distinct q" and "i \<notin> set q" and "q \<noteq> []" and "n i = None"
  shows "linked (n(last q := Some i)) h (q @ [i])"
  using assms
proof (induction q arbitrary: h)
  case (Cons x xs)
  show ?case
  proof (cases xs)
    case Nil
    then show ?thesis using Cons.prems by auto
  next
    case (Cons y ys)
    then have "last (x # xs) = last xs" "x \<noteq> last xs" "xs \<noteq> []" using Cons.prems(2) by auto
    then show ?thesis using Cons.IH [of "n x"] Cons.prems by auto
  qed
qed simp

lemma last_queued_eq: "linked (qnext s) (qnext s i) xs \<Longrightarrow> length xs < n \<Longrightarrow> last_queued n i s = Ret (last (i # xs)) s"
proof (induction n arbitrary: i xs)
  case (Suc n)
  then show ?case by (cases xs) (simp_all add: bindk_getk retk_def)
qed simp

lemma distinct_bound: "distinct q \<Longrightarrow> set q \<subseteq> {..<n} \<Longrightarrow> length q \<le> n"
  using card_mono [of "{..<n}" "set q"] distinct_card [of q] by simp

lemma ide_append_eq:
  assumes "linked (qnext s) (idequeue s) q" and "distinct q" and "i \<notin> set q" and "set q \<subseteq> {..<NBUF}" and "qnext s i = None"
  shows "\<exists>h n. ide_append i s = Ret () (s\<lparr>idequeue := h, qnext := n\<rparr>) \<and> linked n h (q @ [i])"
proof (cases q)
  case Nil
  then have "ide_append i s = Ret () (s\<lparr>idequeue := Some i, qnext := qnext s\<rparr>)"
    using assms(1) by (simp add: ide_append_def bindk_getk modk_def)
  then show ?thesis using Nil assms(5) by fastforce
next
  case (Cons x xs)
  then have x: "idequeue s = Some x" "linked (qnext s) (qnext s x) xs" using assms(1) by simp_all
  have "length xs < Suc NBUF" using distinct_bound [OF assms(2,4)] Cons by simp
  then have "ide_append i s = Ret () (s\<lparr>idequeue := idequeue s, qnext := (qnext s)(last q := Some i)\<rparr>)"
    using x last_queued_eq [OF x(2), of "Suc NBUF"] Cons by (simp add: ide_append_def bindk_getk bindk_Ret modk_def del: last_queued.simps)
  moreover have "linked ((qnext s)(last q := Some i)) (idequeue s) (q @ [i])"
    using linked_append [OF assms(1-3)] Cons assms(5) by simp
  ultimately show ?thesis by blast
qed

section \<open>Frames\<close>

definition dev_part :: "'z kdev_scheme \<Rightarrow> buf list \<times> (devreg \<times> uint) list \<times> (devreg \<Rightarrow> uint list) \<times> nat option \<times> (nat \<Rightarrow> nat option)" where
  "dev_part s = (bufs s, io s, replies s, idequeue s, qnext s)"

lemma buf_at_cong: "bufs t = bufs s \<Longrightarrow> buf_at t = buf_at s"
  by (simp add: buf_at_def fun_eq_iff)

lemma dev_part_eq:
  "dev_part t = dev_part s \<Longrightarrow> bufs t = bufs s \<and> buf_at t = buf_at s \<and> io t = io s \<and> replies t = replies s \<and> idequeue t = idequeue s \<and> qnext t = qnext s"
  by (simp add: dev_part_def buf_at_def fun_eq_iff)

lemma keeps_dev: "keeps b beyond m \<Longrightarrow> keeps b dev_part m"
proof (erule keeps_mono)
  fix s t :: "'z kdev_scheme"
  assume "beyond t = beyond s"
  then show "dev_part t = dev_part s" by (cases s, cases t) (simp add: beyond_def dev_part_def)
qed

lemma keeps_holdingsleep [keeps_rules]: "keeps b beyond (holdingsleep l)"
  unfolding holdingsleep_def by (intro keeps_rules)

lemma wp_ide_start:
  assumes "\<And>v. unat (blockno (buf_at s i)) < FSSIZE \<Longrightarrow> Q () (s\<lparr>replies := v, io := io s @ ide_cmd (buf_at s i)\<rparr>)"
  shows "wpk (ide_start (Some i)) Q B anyway s"
  using assms by (simp add: wpk_def ide_start_eq split: option.split)

section \<open>Histories\<close>

text \<open>What the requests need of a buffer, and the controller after all writes so far.\<close>

abbreviation finished :: "buf \<Rightarrow> bool" where
  "finished b \<equiv> bvalid b \<and> \<not> bdirty b"

definition ctl_of :: "controller \<Rightarrow> 'z kdev_scheme \<Rightarrow> controller" where
  "ctl_of C s = fold ctl (io s) C"

definition active :: "controller \<Rightarrow> buf \<Rightarrow> bool" where
  "active c b \<longleftrightarrow> unat (blockno b) < FSSIZE \<and> lba c = unat (blockno b) \<and> drive1 c = odd (bdev b) \<and>
     command c = (if bdirty b then IDE_CMD_WRITE else IDE_CMD_READ) \<and>
     (bdirty b \<longrightarrow> lba c < length (store c (drive1 c)) \<longrightarrow> sector_of c = bdata b)"

lemma active_started: "started_on b c d \<Longrightarrow> unat (blockno b) < FSSIZE \<Longrightarrow> active d b"
  by (auto simp: started_on_def active_def sector_of_def)

definition ide_inv :: "controller \<Rightarrow> nat list \<Rightarrow> 'z kdev_scheme \<Rightarrow> bool" where
  "ide_inv C q s \<longleftrightarrow> linked (qnext s) (idequeue s) q \<and> distinct q \<and> set q \<subseteq> {..<NBUF} \<and> length (bufs s) = NBUF \<and>
     (\<forall>j\<in>set q. \<not> finished (buf_at s j) \<and> length (bdata (buf_at s j)) = BSIZE) \<and>
     (q \<noteq> [] \<longrightarrow> active (ctl_of C s) (buf_at s (hd q)))"

lemma ide_inv_cong: "dev_part t = dev_part s \<Longrightarrow> ide_inv C q t = ide_inv C q s"
  using dev_part_eq [of t s] by (simp add: ide_inv_def ctl_of_def)

lemma wp_sleep_dev:
  fixes s :: "'z kdev_scheme"
  assumes "\<And>t. dev_part t = dev_part s \<Longrightarrow> B t"
  shows "wpk (sleep ch lk :: ('z kdev_scheme, 'a) kop) Q B anyway s"
proof (cases "sleep ch lk s :: ('a, 'z kdev_scheme) res")
  case (Block t)
  then show ?thesis using keepsD(2) [OF keeps_dev [OF keeps_sleep] Block] assms by (simp add: wpk_def)
qed (simp_all add: wpk_def sleep_no_return)

lemma ide_rw_step:
  assumes "ide_inv C q s" and "i \<notin> set q" and "i < NBUF" and "length (bdata (buf_at s i)) = BSIZE"
  shows "wpk (ide_rw i) (\<lambda>_. never) (ide_inv C (q @ [i])) anyway s"
  unfolding ide_rw_def wp_bindk
proof (rule wp_keeps [OF keeps_dev [OF keeps_holdingsleep [where b = False]]], unfold wp_if wp_bindk wp_getk wp_thenk wp_panic)
  fix h t assume t: "dev_part t = dev_part s"
  note e = dev_part_eq [OF t]
  have go: "wpk (acquire IdeLock) (\<lambda>_. wpk (modk (\<lambda>s. s\<lparr>qnext := (qnext s)(i := None)\<rparr>)) (\<lambda>_. wpk (ide_append i) (\<lambda>_ s.
      wpk (whenk (idequeue s = Some i) (ide_start (Some i))) (\<lambda>_. wpk (ide_rw_wait i) (\<lambda>_. never) (ide_inv C (q @ [i])) anyway)
      (ide_inv C (q @ [i])) anyway s) (ide_inv C (q @ [i])) anyway) (ide_inv C (q @ [i])) anyway) (ide_inv C (q @ [i])) anyway t"
    if todo: "\<not> finished (buf_at t i)"
  proof (rule wp_keeps [OF keeps_dev [OF keeps_locks_beyond(1) [where b = False]]], unfold wp_modk)
    fix u assume u: "dev_part u = dev_part t"
    let ?u = "u\<lparr>qnext := (qnext u)(i := None)\<rparr>"
    note f = dev_part_eq [OF u]
    have inv: "linked (qnext s) (idequeue s) q" "distinct q" "set q \<subseteq> {..<NBUF}" "length (bufs s) = NBUF"
      "\<forall>j\<in>set q. \<not> finished (buf_at s j) \<and> length (bdata (buf_at s j)) = BSIZE" "q \<noteq> [] \<longrightarrow> active (ctl_of C s) (buf_at s (hd q))"
      using assms(1) by (simp_all add: ide_inv_def)
    have "linked ((qnext s)(i := None)) (idequeue s) q = linked (qnext s) (idequeue s) q" by (rule linked_cong) (use assms(2) in auto)
    then have "linked (qnext ?u) (idequeue ?u) q" using inv(1) e f by simp
    from ide_append_eq [OF this inv(2) assms(2) inv(3)]
    obtain hd' n where a: "ide_append i ?u = Ret () (?u\<lparr>idequeue := hd', qnext := n\<rparr>)" "linked n hd' (q @ [i])" by auto
    let ?v = "?u\<lparr>idequeue := hd', qnext := n\<rparr>"
    have "bufs ?v = bufs s" "io ?v = io s" using e f by simp_all
    with buf_at_cong have b: "buf_at ?v = buf_at s" "bufs ?v = bufs s" "io ?v = io s" by blast+
    have wait: "wpk (ide_rw_wait i) (\<lambda>_. never) (ide_inv C (q @ [i])) anyway w"
      if w: "bufs w = bufs s" "idequeue w = hd'" "qnext w = n" "active (ctl_of C w) (buf_at s (hd (q @ [i])))" for w
    proof -
      have at: "buf_at w = buf_at s" by (rule buf_at_cong [OF w(1)])
      have "ide_inv C (q @ [i]) w" using w at a(2) inv(2-5) assms(2-4) todo e by (auto simp: ide_inv_def)
      then have "ide_inv C (q @ [i]) x" if "dev_part x = dev_part w" for x using ide_inv_cong [OF that] by simp
      then have "wpk (sleep (ChBuf i) (Some IdeLock)) (\<lambda>_. never) (ide_inv C (q @ [i])) anyway w" by (rule wp_sleep_dev)
      then show ?thesis unfolding ide_rw_wait_def wp_bindk wp_getk using todo at e by simp
    qed
    have "wpk (whenk (idequeue ?v = Some i) (ide_start (Some i))) (\<lambda>_. wpk (ide_rw_wait i) (\<lambda>_. never) (ide_inv C (q @ [i])) anyway)
      (ide_inv C (q @ [i])) anyway ?v"
    proof (cases "q = []")
      case True
      then have "idequeue ?v = Some i" using a(2) by simp
      moreover have "active (ctl_of C (?v\<lparr>replies := r, io := io ?v @ ide_cmd (buf_at ?v i)\<rparr>)) (buf_at s i)" if "unat (blockno (buf_at s i)) < FSSIZE" for r
        using active_started [OF ctl_ide_cmd [OF that assms(4), of "ctl_of C s"] that] b by (simp add: ctl_of_def)
      ultimately show ?thesis unfolding wp_whenk
        by (simp del: kdev.simps) (rule wp_ide_start, rule wait, use True b a in auto)
    next
      case False
      then have "hd' = Some (hd q)" "hd q \<noteq> i" using a(2) assms(2) by (cases q; auto)+
      then show ?thesis using False inv(6) b wait [of ?v] by (simp add: wp_whenk ctl_of_def)
    qed
    then show "wpk (ide_append i) (\<lambda>_ s. wpk (whenk (idequeue s = Some i) (ide_start (Some i)))
        (\<lambda>_. wpk (ide_rw_wait i) (\<lambda>_. never) (ide_inv C (q @ [i])) anyway) (ide_inv C (q @ [i])) anyway s) (ide_inv C (q @ [i])) anyway ?u"
      unfolding wp_Ret_eq [of "ide_append i", OF a(1)] .
  qed simp
  show "if \<not> h then anyway (Panic ''iderw: buf not locked'') else if finished (buf_at t i) then anyway (Panic ''iderw: nothing to do'')
    else if bdev (buf_at t i) \<noteq> 0 \<and> \<not> havedisk1 t then anyway (Panic ''iderw: ide disk 1 not present'') else
    wpk (acquire IdeLock) (\<lambda>_. wpk (modk (\<lambda>s. s\<lparr>qnext := (qnext s)(i := None)\<rparr>)) (\<lambda>_. wpk (ide_append i) (\<lambda>_ s.
      wpk (whenk (idequeue s = Some i) (ide_start (Some i))) (\<lambda>_. wpk (ide_rw_wait i) (\<lambda>_. never) (ide_inv C (q @ [i])) anyway)
      (ide_inv C (q @ [i])) anyway s) (ide_inv C (q @ [i])) anyway) (ide_inv C (q @ [i])) anyway) (ide_inv C (q @ [i])) anyway t"
    using go by simp
qed simp

section \<open>Interrupts\<close>

lemma insl_eq:
  "insl p n s = (if n \<le> length (replies s (Port p))
     then Ret (concat (map bytes32 (take n (replies s (Port p))))) (s\<lparr>replies := (replies s)(Port p := drop n (replies s (Port p)))\<rparr>)
     else Stop (Spin ''device''))"
proof (induction n arbitrary: s)
  case 0
  then show ?case by (simp add: retk_def)
next
  case (Suc n)
  show ?case
  proof (cases "replies s (Port p)")
    case Nil
    then show ?thesis by (simp add: dev_in_def bindk_def dev_wait_eq)
  next
    case (Cons w ws)
    then have "dev_in (Port p) s = Ret w (s\<lparr>replies := (replies s)(Port p := ws)\<rparr>)" by (simp add: dev_in_def dev_wait_eq)
    then have "insl p (Suc n) s = bindk (insl p n) (\<lambda>bs. retk (bytes32 w @ bs)) (s\<lparr>replies := (replies s)(Port p := ws)\<rparr>)"
      by (simp add: bindk_Ret)
    moreover have "(\<lambda>a. if a = Port p then drop n ws else replies s a) = (replies s)(Port p := drop n ws)" by auto
    ultimately show ?thesis unfolding bindk_def Suc.IH using Cons by (simp add: retk_def)
  qed
qed

text \<open>The contents of a buffer when its request is done, and the state then.\<close>

definition fetched :: "'z kdev_scheme \<Rightarrow> nat \<Rightarrow> block" where
  "fetched s i =
     (if bdirty (buf_at s i) then bdata (buf_at s i)
      else case first_such disk_ready (replies s (Port 0x1F7)) of
        Some (v, vs) \<Rightarrow> if v AND (IDE_DF OR IDE_ERR) \<noteq> 0 then bdata (buf_at s i)
          else concat (map bytes32 (take (BSIZE div 4) (replies s (Port 0x1F0))))
      | None \<Rightarrow> bdata (buf_at s i))"

definition served :: "'z kdev_scheme \<Rightarrow> nat \<Rightarrow> buf" where
  "served s i = (buf_at s i)\<lparr>bdata := fetched s i, bvalid := True, bdirty := False\<rparr>"

definition intr_done :: "nat \<Rightarrow> 'z kdev_scheme \<Rightarrow> 'z kdev_scheme \<Rightarrow> bool" where
  "intr_done i s t \<longleftrightarrow> idequeue t = qnext s i \<and> qnext t = qnext s \<and> bufs t = (bufs s)[i := served s i] \<and>
     (case qnext s i of None \<Rightarrow> io t = io s | Some j \<Rightarrow> unat (blockno (buf_at t j)) < FSSIZE \<and> io t = io s @ ide_cmd (buf_at t j))"

lemma upd_buf_same: "upd_buf i (\<lambda>b. b\<lparr>bdata := bdata (buf_at s i)\<rparr>) s = s"
  by (simp add: upd_buf_def buf_at_def)

definition fetch_replies :: "'z kdev_scheme \<Rightarrow> nat \<Rightarrow> devreg \<Rightarrow> uint list" where
  "fetch_replies s i =
     (if bdirty (buf_at s i) then replies s
      else case first_such disk_ready (replies s (Port 0x1F7)) of
        Some (v, vs) \<Rightarrow> if v AND (IDE_DF OR IDE_ERR) \<noteq> 0 then (replies s)(Port 0x1F7 := vs)
          else (replies s)(Port 0x1F7 := vs, Port 0x1F0 := drop (BSIZE div 4) (replies s (Port 0x1F0)))
      | None \<Rightarrow> replies s)"

text \<open>When the controller answers: a status with the ready bit, and after a read without error the words of a sector.\<close>

definition answers :: "'z kdev_scheme \<Rightarrow> nat \<Rightarrow> bool" where
  "answers s i \<longleftrightarrow> bdirty (buf_at s i) \<or>
     (\<exists>v vs. first_such disk_ready (replies s (Port 0x1F7)) = Some (v, vs) \<and>
       (v AND (IDE_DF OR IDE_ERR) = 0 \<longrightarrow> BSIZE div 4 \<le> length (replies s (Port 0x1F0))))"

lemma ide_fetch_eq:
  "ide_fetch i s = (if answers s i then Ret () (upd_buf i (\<lambda>b. b\<lparr>bdata := fetched s i\<rparr>) (s\<lparr>replies := fetch_replies s i\<rparr>)) else Stop (Spin ''device''))"
proof -
  have u: "upd_buf i (\<lambda>b. b\<lparr>bdata := bdata (buf_at s i)\<rparr>) (s\<lparr>replies := r\<rparr>) = s\<lparr>replies := r\<rparr>" for r
    by (simp add: upd_buf_def buf_at_def)
  show ?thesis
  proof (cases "bdirty (buf_at s i)")
    case True
    then show ?thesis by (simp add: ide_fetch_def bindk_getk whenk_def retk_def answers_def fetched_def fetch_replies_def u upd_buf_same)
  next
    case clean: False
    show ?thesis
    proof (cases "first_such disk_ready (replies s (Port 0x1F7))")
      case None
      then show ?thesis using clean by (simp add: ide_fetch_def bindk_getk whenk_def bind_ide_wait answers_def)
    next
      case (Some a)
      obtain v vs where a: "a = (v, vs)" by (cases a) auto
      let ?r = "s\<lparr>replies := (replies s)(Port 0x1F7 := vs)\<rparr>"
      have "ide_fetch i s = whenk (v AND (IDE_DF OR IDE_ERR) = 0) (bindk (insl 0x1F0 (BSIZE div 4)) (\<lambda>bs. modk (upd_buf i (\<lambda>b. b\<lparr>bdata := bs\<rparr>)))) ?r"
        using clean Some a by (simp add: ide_fetch_def bindk_getk whenk_def bind_ide_wait del: insl.simps)
      moreover have "bindk (insl 0x1F0 (BSIZE div 4)) f ?r = (if BSIZE div 4 \<le> length (replies s (Port 0x1F0))
          then f (concat (map bytes32 (take (BSIZE div 4) (replies s (Port 0x1F0)))))
            (s\<lparr>replies := (replies s)(Port 0x1F7 := vs, Port 0x1F0 := drop (BSIZE div 4) (replies s (Port 0x1F0)))\<rparr>)
          else Stop (Spin ''device''))" for f :: "uchar list \<Rightarrow> ('a kdev_scheme, unit) kop"
        unfolding bindk_def insl_eq by simp
      ultimately show ?thesis using clean Some a
        by (simp add: whenk_def answers_def fetched_def fetch_replies_def retk_def modk_def u del: insl.simps)
    qed
  qed
qed

lemma intr_tail:
  fixes s u :: "'z kdev_scheme"
  assumes "i < length (bufs s)" and "bufs u = (bufs s)[i := served s i]" and "idequeue u = qnext s i" and "qnext u = qnext s" and "io u = io s"
  shows "wpk (bindk (getk idequeue) (\<lambda>q. thenk (whenk (q \<noteq> None) (ide_start q)) (release IdeLock))) (\<lambda>_. intr_done i s) never anyway u"
proof (cases "qnext s i")
  case None
  then show ?thesis using assms unfolding wp_bindk wp_getk wp_thenk wp_whenk
    by (simp, intro wp_keeps [OF keeps_dev [OF keeps_locks_beyond(2) [where b = False]]])
      (auto simp: intr_done_def dest: dev_part_eq)
next
  case (Some j)
  have "wpk (ide_start (Some j)) (\<lambda>_. wpk (release IdeLock) (\<lambda>_. intr_done i s) never anyway) never anyway u"
  proof (rule wp_ide_start)
    fix r assume b: "unat (blockno (buf_at u j)) < FSSIZE"
    let ?v = "u\<lparr>replies := r, io := io u @ ide_cmd (buf_at u j)\<rparr>"
    show "wpk (release IdeLock) (\<lambda>_. intr_done i s) never anyway ?v"
    proof (rule wp_keeps [OF keeps_dev [OF keeps_locks_beyond(2) [where b = False]]])
      fix t :: "'z kdev_scheme" assume "dev_part t = dev_part ?v"
      note e = dev_part_eq [OF this]
      have "buf_at t = buf_at u" by (rule buf_at_cong) (use e in simp)
      then show "intr_done i s t" using e b assms Some by (simp add: intr_done_def)
    qed simp
  qed
  then show ?thesis using Some assms(3) unfolding wp_bindk wp_getk wp_thenk wp_whenk by simp
qed

lemma fetched_cong: "bufs t = bufs s \<Longrightarrow> replies t = replies s \<Longrightarrow> fetched t i = fetched s i"
  using buf_at_cong [of t s] by (simp add: fetched_def split: option.split)

lemma ide_intr_done:
  fixes s :: "'z kdev_scheme"
  assumes "idequeue s = Some i" and "i < length (bufs s)"
  shows "wpk ide_intr (\<lambda>_. intr_done i s) never anyway s"
  unfolding ide_intr_def wp_thenk
proof (rule wp_keeps [OF keeps_dev [OF keeps_locks_beyond(1) [where b = False]]])
  fix t :: "'z kdev_scheme" assume "dev_part t = dev_part s"
  note e = dev_part_eq [OF this]
  let ?t = "t\<lparr>idequeue := qnext t i\<rparr>"
  let ?u = "upd_buf i (\<lambda>b. b\<lparr>bdirty := False\<rparr>) (upd_buf i (\<lambda>b. b\<lparr>bvalid := True\<rparr>)
    (upd_buf i (\<lambda>b. b\<lparr>bdata := fetched ?t i\<rparr>) (?t\<lparr>replies := fetch_replies ?t i\<rparr>)))"
  have "fetched ?t i = fetched s i" by (rule fetched_cong) (use e in simp_all)
  then have u: "bufs ?u = (bufs s)[i := served s i]" "idequeue ?u = qnext s i" "qnext ?u = qnext s" "io ?u = io s"
    using e assms(2) by (simp_all add: upd_buf_def served_def buf_at_def)
  have "wpk (bindk (getk idequeue) (\<lambda>q. thenk (whenk (q \<noteq> None) (ide_start q)) (release IdeLock))) (\<lambda>_. intr_done i s) never anyway v"
    if v: "dev_part v = dev_part ?u" for v
    using dev_part_eq [OF v] u by (intro intr_tail [OF assms(2)]) simp_all
  then have "wpk (wakeup (ChBuf i)) (\<lambda>_. wpk (bindk (getk idequeue) (\<lambda>q. thenk (whenk (q \<noteq> None) (ide_start q)) (release IdeLock)))
      (\<lambda>_. intr_done i s) never anyway) never anyway ?u"
    by (intro wp_keeps [OF keeps_dev [OF keeps_wakeup(2) [where b = False]]]) simp_all
  then have "wpk (ide_fetch i) (\<lambda>_. wpk (modk (upd_buf i (\<lambda>b. b\<lparr>bvalid := True\<rparr>))) (\<lambda>_. wpk (modk (upd_buf i (\<lambda>b. b\<lparr>bdirty := False\<rparr>)))
      (\<lambda>_. wpk (wakeup (ChBuf i)) (\<lambda>_. wpk (bindk (getk idequeue) (\<lambda>q. thenk (whenk (q \<noteq> None) (ide_start q)) (release IdeLock)))
      (\<lambda>_. intr_done i s) never anyway) never anyway) never anyway) never anyway) never anyway ?t"
    unfolding wp_modk by (simp add: wpk_def [of "ide_fetch i"] ide_fetch_eq)
  then show "wpk (bindk (getk idequeue) (\<lambda>h. case h of None \<Rightarrow> release IdeLock
     | Some i \<Rightarrow> thenk (modk (\<lambda>s. s\<lparr>idequeue := qnext s i\<rparr>)) (thenk (ide_fetch i) (thenk (modk (upd_buf i (\<lambda>b. b\<lparr>bvalid := True\<rparr>)))
        (thenk (modk (upd_buf i (\<lambda>b. b\<lparr>bdirty := False\<rparr>))) (thenk (wakeup (ChBuf i)) (bindk (getk idequeue) (\<lambda>q.
         thenk (whenk (q \<noteq> None) (ide_start q)) (release IdeLock))))))))) (\<lambda>_. intr_done i s) never anyway t"
    using e assms(1) unfolding wp_bindk wp_getk by (simp add: wp_thenk wp_modk wpf)
qed simp

text \<open>A disk with sectors of the right size keeps them.\<close>

definition disk_ok :: "controller \<Rightarrow> bool" where
  "disk_ok c \<longleftrightarrow> (\<forall>d. FSSIZE \<le> length (store c d) \<and> (\<forall>b\<in>set (store c d). length b = BSIZE))"

lemma disk_ok_put:
  assumes "disk_ok c" and "length b = BSIZE"
  shows "disk_ok (c\<lparr>received := r, store := (store c)(d := (store c d)[k := b])\<rparr>)"
proof -
  have "length x = BSIZE" if "x \<in> set ((store c d)[k := b])" for x
    using that set_update_subset_insert [of "store c d" k b] assms by (auto simp: disk_ok_def)
  then show ?thesis using assms(1) by (simp add: disk_ok_def)
qed

lemma ctl_disk_ok: "disk_ok c \<Longrightarrow> disk_ok (ctl x c)"
proof (induction x c rule: ctl.induct)
  case (1 p v c)
  have "disk_ok (c\<lparr>received := r\<rparr>)" for r using 1 by (simp add: disk_ok_def)
  then have "disk_ok (take_word v c)"
    using disk_ok_put [OF 1] by (simp add: take_word_def Let_def concat_bytes32 lba_def)
  then show ?case using 1 by (simp add: disk_ok_def)
qed simp_all

lemma ctl_of_disk_ok: "disk_ok C \<Longrightarrow> disk_ok (ctl_of C s)"
proof -
  have "disk_ok c \<Longrightarrow> disk_ok (fold ctl xs c)" for xs c by (induction xs arbitrary: c) (simp_all add: ctl_disk_ok)
  then show "disk_ok C \<Longrightarrow> disk_ok (ctl_of C s)" by (simp add: ctl_of_def)
qed

text \<open>The controller delivers, without an error, the sector that was asked for.\<close>

definition delivers :: "controller \<Rightarrow> 'z kdev_scheme \<Rightarrow> bool" where
  "delivers C s \<longleftrightarrow> (command (ctl_of C s) = IDE_CMD_READ \<longrightarrow>
     (\<exists>v vs. first_such disk_ready (replies s (Port 0x1F7)) = Some (v, vs) \<and> v AND (IDE_DF OR IDE_ERR) = 0) \<and>
     take (BSIZE div 4) (replies s (Port 0x1F0)) = words_of (sector_of (ctl_of C s)))"

lemma fetched_sector:
  assumes "active (ctl_of C s) (buf_at s i)" and "disk_ok C" and "delivers C s"
  shows "fetched s i = sector_of (ctl_of C s)" "length (sector_of (ctl_of C s)) = BSIZE"
proof -
  let ?c = "ctl_of C s"
  have o: "FSSIZE \<le> length (store ?c (drive1 ?c))" "\<forall>b\<in>set (store ?c (drive1 ?c)). length b = BSIZE"
    using ctl_of_disk_ok [OF assms(2), of s] by (simp_all add: disk_ok_def)
  then have "lba ?c < length (store ?c (drive1 ?c))" using assms(1) by (simp add: active_def)
  then have l: "lba ?c < length (store ?c (drive1 ?c))" "length (sector_of ?c) = BSIZE" using o(2) by (simp_all add: sector_of_def)
  then show "length (sector_of ?c) = BSIZE" by simp
  show "fetched s i = sector_of ?c"
  proof (cases "bdirty (buf_at s i)")
    case True
    then show ?thesis using assms(1) l by (simp add: fetched_def active_def)
  next
    case False
    then show ?thesis using assms(1,3) words_roundtrip(1) [OF l(2)] by (auto simp: fetched_def active_def delivers_def simp del: upt_rec_numeral)
  qed
qed

lemma intr_done_inv:
  assumes inv: "ide_inv C (i # r) s" and dn: "intr_done i s t"
  shows "ide_inv C r t"
proof -
  have s: "linked (qnext s) (qnext s i) r" "distinct (i # r)" "set (i # r) \<subseteq> {..<NBUF}" "length (bufs s) = NBUF"
    "\<forall>j\<in>set r. \<not> finished (buf_at s j) \<and> length (bdata (buf_at s j)) = BSIZE"
    using inv by (simp_all add: ide_inv_def)
  have t: "idequeue t = qnext s i" "qnext t = qnext s" "bufs t = (bufs s)[i := served s i]" using dn by (simp_all add: intr_done_def)
  have at: "buf_at t j = buf_at s j" if "j \<noteq> i" for j using that t(3) by (simp add: buf_at_def)
  have "active (ctl_of C t) (buf_at t (hd r))" if ne: "r \<noteq> []"
  proof -
    obtain j r' where r: "r = j # r'" using ne by (cases r) auto
    then have j: "qnext s i = Some j" "j \<noteq> i" using s(1,2) by auto
    then have b: "unat (blockno (buf_at t j)) < FSSIZE" "io t = io s @ ide_cmd (buf_at t j)" using dn by (simp_all add: intr_done_def)
    have "length (bdata (buf_at t j)) = BSIZE" using s(5) at [OF j(2)] r by simp
    from active_started [OF ctl_ide_cmd [OF b(1) this, of "ctl_of C s"] b(1)] show ?thesis using b(2) r by (simp add: ctl_of_def)
  qed
  moreover have "\<forall>j\<in>set r. \<not> finished (buf_at t j) \<and> length (bdata (buf_at t j)) = BSIZE"
  proof
    fix j assume j: "j \<in> set r"
    then have "j \<noteq> i" using s(2) by auto
    then show "\<not> finished (buf_at t j) \<and> length (bdata (buf_at t j)) = BSIZE" using s(5) j at by simp
  qed
  ultimately show ?thesis using s t by (auto simp: ide_inv_def)
qed

text \<open>
  Histories of the driver: processes ask for buffers, the controller interrupts, and the rest of the kernel runs in between. The
  first list has the requests in the order in which they were made, the second those served, in the order of the interrupts. The
  caller of \<^verbatim>\<open>iderw\<close> holds the lock of its buffer until it is served, so that nobody else asks for the buffer or changes it.
\<close>

definition untouched :: "'z kdev_scheme \<Rightarrow> 'z kdev_scheme \<Rightarrow> nat \<Rightarrow> bool" where
  "untouched s t j \<longleftrightarrow> bvalid (buf_at t j) = bvalid (buf_at s j) \<and> bdirty (buf_at t j) = bdirty (buf_at s j) \<and> bdev (buf_at t j) = bdev (buf_at s j) \<and>
     blockno (buf_at t j) = blockno (buf_at s j) \<and> bdata (buf_at t j) = bdata (buf_at s j)"

definition elsewhere :: "'z kdev_scheme \<Rightarrow> 'z kdev_scheme \<Rightarrow> bool" where
  "elsewhere s t \<longleftrightarrow> idequeue t = idequeue s \<and> qnext t = qnext s \<and> length (bufs t) = length (bufs s) \<and>
     (\<exists>xs. io t = io s @ xs \<and> (\<forall>(r, v)\<in>set xs. \<forall>p. r = Port p \<longrightarrow> p < 0x1F0 \<or> 0x1F7 < p))"

inductive ide_hist :: "controller \<Rightarrow> nat list \<Rightarrow> nat list \<Rightarrow> 'z kdev_scheme \<Rightarrow> bool" for C where
  start: "idequeue s = None \<Longrightarrow> length (bufs s) = NBUF \<Longrightarrow> ide_hist C [] [] s"
| request: "ide_hist C rs ds s \<Longrightarrow> i < NBUF \<Longrightarrow> i \<notin> set (drop (length ds) rs) \<Longrightarrow> length (bdata (buf_at s i)) = BSIZE \<Longrightarrow>
    ide_rw i s = Block t \<Longrightarrow> ide_hist C (rs @ [i]) ds t"
| interrupt: "ide_hist C rs ds s \<Longrightarrow> idequeue s = Some i \<Longrightarrow> delivers C s \<Longrightarrow> ide_intr s = Ret () t \<Longrightarrow> ide_hist C rs (ds @ [i]) t"
| others: "ide_hist C rs ds s \<Longrightarrow> elsewhere s t \<Longrightarrow> (\<forall>j\<in>set (drop (length ds) rs). untouched s t j) \<Longrightarrow> ide_hist C rs ds t"

lemma ctl_elsewhere: "elsewhere s t \<Longrightarrow> ctl_of C t = ctl_of C s"
proof -
  have no: "fold ctl xs c = c" if "\<forall>(r, v)\<in>set xs. \<forall>p. r = Port p \<longrightarrow> p < 0x1F0 \<or> 0x1F7 < p" for xs c
    using that
  proof (induction xs)
    case (Cons x xs)
    have "ctl x c = c" using Cons.prems by (cases "(x, c)" rule: ctl.cases) auto
    then show ?case using Cons by simp
  qed simp
  show "elsewhere s t \<Longrightarrow> ctl_of C t = ctl_of C s" using no by (auto simp: elsewhere_def ctl_of_def)
qed

lemma ide_hist_inv: "ide_hist C rs ds s \<Longrightarrow> \<exists>q. rs = ds @ q \<and> ide_inv C q s"
proof (induction rule: ide_hist.induct)
  case (start s)
  then show ?case by (simp add: ide_inv_def)
next
  case (request rs ds s i t)
  then obtain q where q: "rs = ds @ q" "ide_inv C q s" by blast
  have "ide_inv C (q @ [i]) t" using wpD_Block [OF ide_rw_step [OF q(2), of i] request.hyps(5)] request.hyps q(1) by simp
  then show ?case using q(1) by auto
next
  case (interrupt rs ds s i t)
  then obtain q where q: "rs = ds @ q" "ide_inv C q s" by blast
  then obtain r where r: "q = i # r" using interrupt.hyps(2) by (cases q) (auto simp: ide_inv_def)
  have "i < length (bufs s)" using q(2) by (simp add: ide_inv_def r)
  from wpD_Ret [OF ide_intr_done [OF interrupt.hyps(2) this] interrupt.hyps(4)]
  have "ide_inv C r t" using intr_done_inv q(2) r by blast
  then show ?case using q(1) r by auto
next
  case (others rs ds s t)
  then obtain q where q: "rs = ds @ q" "ide_inv C q s" by blast
  have u: "untouched s t j" if "j \<in> set q" for j using others.hyps(3) q(1) that by simp
  have "active (ctl_of C t) (buf_at t (hd q))" if "q \<noteq> []"
    using q(2) u [of "hd q"] that ctl_elsewhere [OF others.hyps(2), of C] by (simp add: ide_inv_def active_def untouched_def)
  moreover have "\<forall>j\<in>set q. \<not> finished (buf_at t j) \<and> length (bdata (buf_at t j)) = BSIZE" using q(2) u by (auto simp: ide_inv_def untouched_def)
  ultimately have "ide_inv C q t" using q(2) others.hyps(2) by (simp add: ide_inv_def elsewhere_def)
  then show ?case using q(1) by blast
qed

section \<open>Properties\<close>

text \<open>
  C8. In any history of requests, interrupts of the controller and other activity of the kernel, requests are served in the order in
  which they were made, and the first one not served yet is the one the controller works on: its registers hold the number of the
  block, the drive and the command, and the sector of a write has been stored. An interrupt for it leaves the
  buffer valid, clean and equal to its block on the disk, and no other buffer changed.
\<close>

theorem ide_serves_in_order:
  assumes "ide_hist C rs ds s" and "disk_ok C"
  shows "\<exists>q. rs = ds @ q \<and> linked (qnext s) (idequeue s) q \<and> (q \<noteq> [] \<longrightarrow> active (ctl_of C s) (buf_at s (hd q))) \<and>
    (\<forall>t. q \<noteq> [] \<longrightarrow> delivers C s \<longrightarrow> ide_intr s = Ret () t \<longrightarrow>
      buf_at t (hd q) = (buf_at s (hd q))\<lparr>bvalid := True, bdirty := False, bdata := sector_of (ctl_of C s)\<rparr> \<and>
      (\<forall>j. j \<noteq> hd q \<longrightarrow> buf_at t j = buf_at s j))"
proof -
  obtain q where q: "rs = ds @ q" "ide_inv C q s" using ide_hist_inv [OF assms(1)] by blast
  have "buf_at t (hd q) = (buf_at s (hd q))\<lparr>bvalid := True, bdirty := False, bdata := sector_of (ctl_of C s)\<rparr> \<and>
      (\<forall>j. j \<noteq> hd q \<longrightarrow> buf_at t j = buf_at s j)" if ne: "q \<noteq> []" and d: "delivers C s" and t: "ide_intr s = Ret () t" for t
  proof -
    obtain i r where i: "q = i # r" using ne by (cases q) auto
    have s: "idequeue s = Some i" "i < length (bufs s)" "active (ctl_of C s) (buf_at s i)" using q(2) by (simp_all add: ide_inv_def i)
    have "bufs t = (bufs s)[i := served s i]" using wpD_Ret [OF ide_intr_done [OF s(1,2)] t] by (simp add: intr_done_def)
    then show ?thesis using s(2) fetched_sector(1) [OF s(3) assms(2) d] by (simp add: buf_at_def served_def i)
  qed
  then show ?thesis using q by (auto simp: ide_inv_def)
qed

section \<open>Requests and interrupts come through\<close>

lemma lock_free_other:
  assumes "lock_free l c s" and "lock_free k c s" and "l \<noteq> k"
  shows "lock_held l c (acquired l c s)" "lock_free k c (acquired l c s)" "acquire l s = Ret () (acquired l c s)"
proof -
  have ok: "cli_ok s c" using assms(1) by (simp add: lock_free_def)
  note a = cli_ok_acquired [OF ok, of l]
  show "lock_held l c (acquired l c s)" by (rule lock_held_acquired [OF assms(1)])
  show "acquire l s = Ret () (acquired l c s)" using assms(1) acquire_eq [OF ok, of l] by (simp add: lock_free_def)
  show "lock_free k c (acquired l c s)" using a assms(2,3) ok by (auto simp: lock_free_def cli_ok_def)
qed

text \<open>Changes above the scheduler.\<close>

lemma upd_buf_more: "ksched.truncate (upd_buf i f s) = ksched.truncate s"
  by (simp add: upd_buf_def ksched.defs)

lemma proc_at_truncate: "ksched.truncate t = ksched.truncate s \<Longrightarrow> proc_at t j = proc_at s j"
  by (simp add: proc_at_def ksched.defs)

lemma ide_intr_returns:
  fixes s :: "'z kdev_scheme"
  assumes l: "lock_free IdeLock c s" "lock_free PtableLock c s" and inv: "rq_inv {} s"
    and q: "idequeue s = Some i" "i < length (bufs s)" "answers s i" and last: "qnext s i = None"
  shows "\<exists>t. ide_intr s = Ret () t \<and> (\<forall>j<NPROC. sleeps_on (ChBuf i) (proc_at s j) \<longrightarrow> proc_at t j = awake (proc_at s j))"
proof -
  let ?a = "acquired IdeLock c s"
  have a: "acquire IdeLock s = Ret () ?a" "lock_held IdeLock c ?a" "lock_free PtableLock c ?a" using lock_free_other [OF l] by simp_all
  have same: "bufs ?a = bufs s" "replies ?a = replies s" "idequeue ?a = idequeue s" "qnext ?a = qnext s"
    by (simp_all add: acquired_def upd_lock_def pushed_def)
  let ?b = "?a\<lparr>idequeue := qnext s i\<rparr>"
  have "answers ?b i" using q(3) same buf_at_cong [of ?b s] by (simp add: answers_def)
  then have f: "ide_fetch i ?b = Ret () (upd_buf i (\<lambda>b. b\<lparr>bdata := fetched ?b i\<rparr>) (?b\<lparr>replies := fetch_replies ?b i\<rparr>))" by (simp add: ide_fetch_eq)
  let ?w = "upd_buf i (\<lambda>b. b\<lparr>bdirty := False\<rparr>) (upd_buf i (\<lambda>b. b\<lparr>bvalid := True\<rparr>)
    (upd_buf i (\<lambda>b. b\<lparr>bdata := fetched ?b i\<rparr>) (?b\<lparr>replies := fetch_replies ?b i\<rparr>)))"
  have tr: "ksched.truncate ?w = ksched.truncate ?a" by (simp add: upd_buf_more) (simp add: ksched.defs)
  have w: "lock_held IdeLock c ?w" "lock_free PtableLock c ?w" "rq_inv {} ?w" "idequeue ?w = None"
    using truncate_sched [OF tr] a inv last by (simp_all add: upd_buf_def)
  have pw: "proc_at ?w j = proc_at s j" for j using proc_at_truncate [OF tr] by simp
  obtain u where u: "wakeup (ChBuf i) ?w = Ret () u" "section_of c ?w u"
      "\<forall>j. proc_at u j = (if j < NPROC \<and> sleeps_on (ChBuf i) (proc_at ?w j) then awake (proc_at ?w j) else proc_at ?w j)"
    using wp_total [OF wakeup_section [OF w(3,2), of "ChBuf i"]] by (auto simp del: upt_rec_numeral)
  have "idequeue u = None" using dev_part_eq [OF keepsD(1) [OF keeps_dev [OF keeps_wakeup(2) [where b = False]] u(1)]] w(4) by simp
  moreover have "lock_held IdeLock c u" using section_of_held [OF u(2) w(1,2)] by simp
  then have "release IdeLock u = Ret () (released IdeLock c u)" using release_eq [of u c IdeLock] by (simp add: lock_held_def)
  ultimately have "ide_intr s = Ret () (released IdeLock c u)"
    using a(1) q(1) same f u(1) by (simp add: ide_intr_def thenk_Ret bindk_getk thenk_modk whenk_def retk_def)
  moreover have "proc_at (released IdeLock c u) j = proc_at u j" for j by simp
  ultimately show ?thesis using u(3) pw by auto
qed

lemma ide_rw_blocks:
  fixes s :: "'z kdev_scheme"
  assumes q: "quiet c p s" and inv: "rq_inv {} s" and run: "running_on c p s" "\<not> change_running_queue (proc_at s p)"
    and room: "\<exists>j<NPROC. \<not> due (proc_at s j)"
    and own: "slocked (sleeplocks s (BufSl i))" "slpid (sleeplocks s (BufSl i)) = pid (proc_at s p)"
    and b: "\<not> finished (buf_at s i)" "bdev (buf_at s i) \<noteq> 0 \<longrightarrow> havedisk1 s" "unat (blockno (buf_at s i)) < FSSIZE"
    and d: "idequeue s = None" "first_such disk_ready (replies s (Port 0x1F7)) \<noteq> None"
  shows "\<exists>t. ide_rw i s = Block t \<and> sleeps_on (ChBuf i) (proc_at t p) \<and> rq_inv {} t \<and> lock_held PtableLock c t \<and> \<not> locked (locks t IdeLock) \<and>
    idequeue t = Some i \<and> qnext t i = None \<and> bufs t = bufs s \<and> io t = io s @ ide_cmd (buf_at s i)"
proof -
  note ql = quiet_locks [OF q]
  have free: "lock_free IdeLock c s" "lock_free PtableLock c s" using ql by (simp_all add: lock_free_def settled_def)
  let ?a = "acquired IdeLock c s"
  have a: "acquire IdeLock s = Ret () ?a" "lock_held IdeLock c ?a" "lock_free PtableLock c ?a" using lock_free_other [OF free] by simp_all
  have same: "bufs ?a = bufs s" "replies ?a = replies s" "idequeue ?a = idequeue s" "io ?a = io s"
    by (simp_all add: acquired_def upd_lock_def pushed_def)
  obtain v vs where r: "first_such disk_ready (replies s (Port 0x1F7)) = Some (v, vs)" using d(2) by auto
  let ?u = "?a\<lparr>qnext := (qnext ?a)(i := None), idequeue := Some i\<rparr>"
  let ?w = "?u\<lparr>replies := (replies s)(Port 0x1F7 := vs), io := io s @ ide_cmd (buf_at s i)\<rparr>"
  have at: "buf_at ?u = buf_at s" "buf_at ?w = buf_at s" using buf_at_cong [of ?u s] buf_at_cong [of ?w s] same by simp_all
  have "ide_append i (?a\<lparr>qnext := (qnext ?a)(i := None)\<rparr>) = Ret () ?u" using d(1) same by (simp add: ide_append_def bindk_getk modk_def)
  moreover have "ide_start (Some i) ?u = Ret () ?w" using r b(3) at same by (simp add: ide_start_eq)
  moreover have "holdingsleep (BufSl i) s = Ret True s" using holdingsleep_quiet [OF q, of "BufSl i"] own by simp
  ultimately have go: "ide_rw i s = sleep (ChBuf i) (Some IdeLock) ?w"
    using a(1) b(1,2) at by (auto simp: ide_rw_def bindk_Ret bindk_getk thenk_Ret thenk_modk whenk_def ide_rw_wait_def)
  have tr: "ksched.truncate ?w = ksched.truncate ?a" by (simp add: ksched.defs)
  have w: "rq_inv {} ?w" "lock_held IdeLock c ?w" "lock_free PtableLock c ?w" using truncate_sched [OF tr] a inv by simp_all
  have c: "runs_on s c" "ncli (cpus s ! c) = 0" using q by (simp_all add: quiet_def)
  have n: "ncli (cpus ?w ! c) = 1" using c runs_on_length [OF c(1)] by (simp add: acquired_def upd_lock_def pushed_def)
  have pw: "proc_at ?w j = proc_at s j" for j using proc_at_truncate [OF tr] by simp
  have on: "running_on c p ?w" "\<not> change_running_queue (proc_at ?w p)"
    using run pw acquired_props(5) [OF ql(1), of IdeLock] by (simp_all add: running_on_def)
  have "\<not> full_queue ?w e" for e using room pw by (auto simp: full_queue_def)
  then obtain t where t: "sleep (ChBuf i) (Some IdeLock) ?w = (Block t :: (unit, 'z kdev_scheme) res)" "rq_inv {} t" "lock_held PtableLock c t"
      "\<not> locked (locks t IdeLock)" "\<exists>ie. \<forall>j. proc_at t j = (if j = p then slept (ChBuf i) (InSleep ie IdeLock) (proc_at ?w p) else proc_at ?w j)"
    using sleep_inv [OF w(1,2) n _ on, where ch = "ChBuf i" and 'a = unit] w(3) by (auto simp: wpk_def split: res.splits)
  have "dev_part t = dev_part ?w" using keepsD(2) [OF keeps_dev [OF keeps_sleep] t(1)] by simp
  note e = dev_part_eq [OF this]
  show ?thesis
  proof (intro exI conjI)
    show "ide_rw i s = Block t" using go t(1) by simp
    show "sleeps_on (ChBuf i) (proc_at t p)" using t(5) by (auto simp: sleeps_on_def slept_def)
    show "idequeue t = Some i" "qnext t i = None" "bufs t = bufs s" "io t = io s @ ide_cmd (buf_at s i)" using e same by simp_all
  qed (fact t)+
qed

text \<open>
  C7. The driver with its interrupts does what the memory disk of \<^verbatim>\<open>memide.c\<close> does in one call: a process that holds the lock of a buffer and calls
  \<^verbatim>\<open>iderw\<close> while the controller has nothing to do goes to sleep; the interrupt of the controller, whichever processor takes it, returns with the process
  runnable, the buffer as the \<^verbatim>\<open>iderw\<close> of the memory disk leaves it, and the contents of the drive changed as the memory disk is.
\<close>

theorem ide_refines_memide:
  fixes s :: "'z kdev_scheme"
  assumes "quiet c p s" and "rq_inv {} s" and "running_on c p s" and "\<not> change_running_queue (proc_at s p)" and "\<exists>j<NPROC. \<not> due (proc_at s j)"
    and "slocked (sleeplocks s (BufSl i))" and "slpid (sleeplocks s (BufSl i)) = pid (proc_at s p)"
    and "i < length (bufs s)" and "bdev (buf_at s i) = 1" and "havedisk1 s" and "\<not> finished (buf_at s i)"
    and "unat (blockno (buf_at s i)) < FSSIZE" and "length (bdata (buf_at s i)) = BSIZE"
    and "idequeue s = None" and "first_such disk_ready (replies s (Port 0x1F7)) \<noteq> None"
    and "disk_ok C" and "store (ctl_of C s) True = disk s"
  shows "\<exists>t w. ide_rw i s = Block t \<and> sleeps_on (ChBuf i) (proc_at t p) \<and> iderw i s = Ret () w \<and>
    (\<forall>d u. dev_part u = dev_part (t\<lparr>replies := replies u\<rparr>) \<longrightarrow> proc_at u p = proc_at t p \<longrightarrow> rq_inv {} u \<longrightarrow> lock_free IdeLock d u \<longrightarrow>
      lock_free PtableLock d u \<longrightarrow> delivers C u \<longrightarrow>
      (\<exists>v. ide_intr u = Ret () v \<and> pstate (proc_at v p) = RUNNABLE \<and> buf_at v i = buf_at w i \<and> store (ctl_of C v) True = disk w))"
proof -
  obtain t where t: "ide_rw i s = Block t" "sleeps_on (ChBuf i) (proc_at t p)" "idequeue t = Some i" "qnext t i = None" "bufs t = bufs s"
      "io t = io s @ ide_cmd (buf_at s i)"
    using ide_rw_blocks [OF assms(1-7,11) _ assms(12,14,15)] assms(10) by blast
  let ?b = "buf_at s i"
  have on: "started_on ?b (ctl_of C s) (ctl_of C t)" using ctl_ide_cmd [OF assms(12,13), of "ctl_of C s"] t(6) by (simp add: ctl_of_def)
  have "FSSIZE \<le> length (store (ctl_of C s) True)" using ctl_of_disk_ok [OF assms(16), of s] by (simp add: disk_ok_def)
  then have n: "unat (blockno ?b) < length (disk s)" using assms(12,17) by simp
  define w where "w = (if bdirty ?b then disk_write (unat (blockno ?b)) (bdata ?b) (upd_buf i (\<lambda>x. x\<lparr>bdirty := False, bvalid := True\<rparr>) s)
     else upd_buf i (\<lambda>x. x\<lparr>bdata := disk s ! unat (blockno ?b), bvalid := True\<rparr>) s)"
  have m: "iderw i s = Ret () w" unfolding w_def by (rule iderw_eq [OF assms(1,6,7,9) n]) (use assms(11) in auto)
  have dw: "disk w = store (ctl_of C t) True" using on assms(9,17) by (auto simp: w_def started_on_def disk_write_def upd_buf_def)
  have sec: "sector_of (ctl_of C t) = (if bdirty ?b then bdata ?b else disk s ! unat (blockno ?b))"
    using on assms(9,17) n by (auto simp: started_on_def sector_of_def)
  have bw: "buf_at w i = ?b\<lparr>bdata := sector_of (ctl_of C t), bvalid := True, bdirty := False\<rparr>"
    using assms(8) sec by (simp add: w_def disk_write_def upd_buf_def buf_at_def)
  have "\<exists>v. ide_intr u = Ret () v \<and> pstate (proc_at v p) = RUNNABLE \<and> buf_at v i = buf_at w i \<and> store (ctl_of C v) True = disk w"
    if u: "dev_part u = dev_part (t\<lparr>replies := replies u\<rparr>)" "proc_at u p = proc_at t p" "rq_inv {} u" "lock_free IdeLock d u" "lock_free PtableLock d u"
      "delivers C u" for d u
  proof -
    note e = dev_part_eq [OF u(1)]
    have bu: "buf_at u = buf_at s" using buf_at_cong [of u s] e t(5) by simp
    have cu: "ctl_of C u = ctl_of C t" using e by (simp add: ctl_of_def)
    have act: "active (ctl_of C u) (buf_at u i)" using active_started [OF on assms(12)] by (simp add: cu bu)
    have "length (words_of x) = 128" for x by (simp add: words_roundtrip)
    then have "answers u i" using u(6) act by (fastforce simp: answers_def delivers_def active_def simp del: upt_rec_numeral)
    moreover have q: "idequeue u = Some i" "i < length (bufs u)" "qnext u i = None" using e t assms(8) by simp_all
    ultimately obtain v where v: "ide_intr u = Ret () v" "\<forall>j<NPROC. sleeps_on (ChBuf i) (proc_at u j) \<longrightarrow> proc_at v j = awake (proc_at u j)"
      using ide_intr_returns [OF u(4,5,3) q(1,2) _ q(3)] by blast
    have "intr_done i u v" by (rule wpD_Ret [OF ide_intr_done [OF q(1,2)] v(1)])
    then have dn: "bufs v = (bufs u)[i := served u i]" "io v = io u" using q(3) by (simp_all add: intr_done_def)
    have "buf_at v i = buf_at w i"
      using dn(1) q(2) fetched_sector(1) [OF act assms(16) u(6)] by (simp add: buf_at_def [of v] served_def bu bw cu)
    moreover have "p < NPROC" using assms(3) by (simp add: running_on_def)
    then have "pstate (proc_at v p) = RUNNABLE" using v(2) u(2) t(2) by (simp add: awake_def)
    moreover have "ctl_of C v = ctl_of C t" using dn(2) cu by (simp add: ctl_of_def)
    ultimately show ?thesis using v(1) dw by auto
  qed
  then show ?thesis using t(1,2) m by blast
qed

text \<open>
  C35. When the controller reports an error after a read, the driver copies nothing but marks the buffer valid and wakes the process that waits for it,
  which goes on with whatever the buffer held before.
\<close>

theorem ide_error_accepted:
  assumes "lock_free IdeLock c s" and "lock_free PtableLock c s" and "rq_inv {} s"
    and "idequeue s = Some i" and "i < length (bufs s)" and "qnext s i = None" and "\<not> bdirty (buf_at s i)"
    and "first_such disk_ready (replies s (Port 0x1F7)) = Some (v, vs)" and "v AND (IDE_DF OR IDE_ERR) \<noteq> 0"
  shows "\<exists>t. ide_intr s = Ret () t \<and> buf_at t i = (buf_at s i)\<lparr>bvalid := True\<rparr> \<and>
    (\<forall>j<NPROC. sleeps_on (ChBuf i) (proc_at s j) \<longrightarrow> pstate (proc_at t j) = RUNNABLE)"
proof -
  have "answers s i" using assms(8,9) by (simp add: answers_def)
  from ide_intr_returns [OF assms(1-5) this assms(6)]
  obtain t where t: "ide_intr s = Ret () t" "\<forall>j<NPROC. sleeps_on (ChBuf i) (proc_at s j) \<longrightarrow> proc_at t j = awake (proc_at s j)" by blast
  have "bufs t = (bufs s)[i := served s i]" using wpD_Ret [OF ide_intr_done [OF assms(4,5)] t(1)] by (simp add: intr_done_def)
  moreover have "fetched s i = bdata (buf_at s i)" using assms(7-9) by (simp add: fetched_def)
  ultimately have "buf_at t i = (buf_at s i)\<lparr>bvalid := True\<rparr>" using assms(5,7) by (simp add: buf_at_def served_def)
  then show ?thesis using t by (auto simp: awake_def)
qed

text \<open>A machine for the witnesses: a process that holds the lock of a buffer for block 5, a disk full of sevens, and a controller that is ready.\<close>

definition demo_ide :: kdev where
  "demo_ide = (kfile.extend demo_pipe
     \<lparr>io = [], replies = (\<lambda>_. [IDE_DRDY]), lapic = 0, ioapicid = 0, gdt = (\<lambda>_ _. None), idt = (\<lambda>_. None), havedisk1 = True, idequeue = None,
      qnext = (\<lambda>_. None)\<rparr>)
     \<lparr>rr_q := mkqueue [0], disk := replicate FSSIZE sevens,
      bufs := replicate NBUF \<lparr>bvalid = False, bdirty = False, bdev = 1, blockno = 5, refcnt = 1, bdata = zeros\<rparr>,
      sleeplocks := (\<lambda>_. \<lparr>slocked = True, slname = [], slpid = pid (proc_at demo_pipe 0)\<rparr>)\<rparr>"

definition demo_ctl :: controller where
  "demo_ctl = \<lparr>lba0 = 0, lba1 = 0, lba2 = 0, lba3 = 0, drive1 = False, command = 0, received = [], store = (\<lambda>_. replicate FSSIZE sevens)\<rparr>"

definition demo_answer :: "uint \<Rightarrow> devreg \<Rightarrow> uint list" where
  "demo_answer st = (\<lambda>_. [])(Port 0x1F7 := [st], Port 0x1F0 := words_of sevens)"

lemma demo_ide_sched: "quiet 0 0 demo_ide" "rq_inv {} demo_ide" "running_on 0 0 demo_ide" "\<not> change_running_queue (proc_at demo_ide 0)"
  "\<not> due (proc_at demo_ide 1)" "proc_at demo_ide 0 = proc_at demo_pipe 0"
proof -
  let ?m = "(mkfree (Some 0) [(RUNNING, RR)] [0] [] [])\<lparr>cpus := [cpu0\<lparr>cproc := Some 0, intena := True\<rparr>],
    kmemory := (\<lambda>_. 0)(0x80200000 := 7, 0x80200001 := 8, 0x80200002 := 9)\<rparr>"
  have tr: "ksched.truncate demo_ide = ksched.truncate ?m"
    by (simp add: demo_ide_def demo_pipe_def demo_fs_def demo_log_def demo_bio_def ksleep.defs ksched.defs kbio.defs klog.defs kfs.defs kcons.defs
      kfile.defs mkfree_def mksched_def)
  have "rq_inv {} (mkfree (Some 0) [(RUNNING, RR)] [0] [] [])" by (rule mkfree_inv) (simp_all add: members_def)
  then have "rq_inv {} ?m" by (simp add: rq_inv_def queued_def live_def proc_at_def queue_of_def cong: schedQ.case_cong)
  then show "rq_inv {} demo_ide" using truncate_sched(1) [OF tr] by simp
  have pt: "ptable demo_ide = ptable (demo_bio [] \<lparr>bvalid = False, bdirty = False, bdev = 0, blockno = 0, refcnt = 0, bdata = []\<rparr>)"
      "ptable demo_pipe = ptable demo_ide"
    by (simp_all add: demo_ide_def demo_pipe_def demo_fs_def demo_log_def demo_bio_def ksleep.defs ksched.defs kbio.defs klog.defs kfs.defs kcons.defs kfile.defs)
  have mc: "this demo_ide = 0" "lapic_id demo_ide = (\<lambda>_. 0)" "if_flag demo_ide = (\<lambda>_. True)" "ncpu demo_ide = 1"
      "cpus demo_ide = [cpu0\<lparr>cproc := Some 0, intena := True\<rparr>]" "locks demo_ide = (\<lambda>_. free_lock)"
    by (simp_all add: demo_ide_def demo_pipe_def demo_fs_def demo_log_def demo_bio_def ksleep.defs ksched.defs kbio.defs klog.defs kfs.defs kcons.defs
      kfile.defs mkfree_def mksched_def)
  have "quiet 0 0 (demo_bio [] \<lparr>bvalid = False, bdirty = False, bdev = 0, blockno = 0, refcnt = 0, bdata = []\<rparr>)" by (rule demo_quiet)
  then show "quiet 0 0 demo_ide" unfolding quiet_def nobody_waits_def pt using mc by (simp add: runs_on_def find_cpu_def cpu0_def free_lock_def)
  show "running_on 0 0 demo_ide" "\<not> change_running_queue (proc_at demo_ide 0)" "\<not> due (proc_at demo_ide 1)"
    using mc unfolding running_on_def proc_at_def pt
    by (simp_all add: demo_bio_def ksleep.defs ksched.defs mkfree_def mksched_def mkproc_def due_def)
  show "proc_at demo_ide 0 = proc_at demo_pipe 0" by (simp add: proc_at_def pt(2))
qed

lemma demo_ide_simps:
  "io demo_ide = []" "replies demo_ide = (\<lambda>_. [IDE_DRDY])" "havedisk1 demo_ide" "idequeue demo_ide = None" "disk demo_ide = replicate FSSIZE sevens"
  "bufs demo_ide = replicate NBUF \<lparr>bvalid = False, bdirty = False, bdev = 1, blockno = 5, refcnt = 1, bdata = zeros\<rparr>"
  "slocked (sleeplocks demo_ide l)" "slpid (sleeplocks demo_ide l) = pid (proc_at demo_ide 0)"
  by (simp_all add: demo_ide_sched(6)) (simp_all add: demo_ide_def kfile.defs)

lemma demo_ide_buf: "buf_at demo_ide 0 = \<lparr>bvalid = False, bdirty = False, bdev = 1, blockno = 5, refcnt = 1, bdata = zeros\<rparr>"
  by (simp add: buf_at_def demo_ide_simps)

lemma demo_disk_ok: "disk_ok demo_ctl"
  by (simp add: disk_ok_def demo_ctl_def)

lemma demo_request:
  "\<exists>t. ide_rw 0 demo_ide = Block t \<and> sleeps_on (ChBuf 0) (proc_at t 0) \<and> rq_inv {} t \<and> lock_held PtableLock 0 t \<and> \<not> locked (locks t IdeLock) \<and>
    idequeue t = Some 0 \<and> qnext t 0 = None \<and> bufs t = bufs demo_ide \<and> io t = ide_cmd (buf_at demo_ide 0)"
proof -
  have "\<exists>j<NPROC. \<not> due (proc_at demo_ide j)" using demo_ide_sched(5) by (intro exI [of _ 1]) simp
  from ide_rw_blocks [OF demo_ide_sched(1-4) this, of 0] show ?thesis by (simp add: demo_ide_simps demo_ide_buf)
qed

text \<open>The state in which the interrupt arrives: the scheduler has released \<^verbatim>\<open>ptable.lock\<close>, and the controller is ready with the status \<open>st\<close>.\<close>

definition demo_later :: "uint \<Rightarrow> kdev \<Rightarrow> kdev" where
  "demo_later st t = (released PtableLock 0 t)\<lparr>replies := demo_answer st\<rparr>"

lemma demo_later_props:
  assumes "lock_held PtableLock 0 t" and "\<not> locked (locks t IdeLock)" and "rq_inv {} t"
  shows "dev_part (demo_later st t) = dev_part (t\<lparr>replies := replies (demo_later st t)\<rparr>)" "proc_at (demo_later st t) j = proc_at t j"
    "rq_inv {} (demo_later st t)" "lock_free IdeLock 0 (demo_later st t)" "lock_free PtableLock 0 (demo_later st t)"
    "replies (demo_later st t) = demo_answer st"
proof -
  have tr: "ksched.truncate (demo_later st t) = ksched.truncate (released PtableLock 0 t)" by (simp add: demo_later_def ksched.defs)
  have r: "runs_on t 0" using assms(1) by (simp add: lock_held_def)
  have f: "lock_free PtableLock 0 (released PtableLock 0 t)" by (rule lock_free_released [OF assms(1)])
  moreover have "lock_free IdeLock 0 (released PtableLock 0 t)" using f assms(2) released_props(2) [OF r, of PtableLock] by (simp add: lock_free_def)
  ultimately show "lock_free PtableLock 0 (demo_later st t)" "lock_free IdeLock 0 (demo_later st t)" "rq_inv {} (demo_later st t)"
    using truncate_sched [OF tr] assms(3) by simp_all
  show "proc_at (demo_later st t) j = proc_at t j" using proc_at_truncate [OF tr] by simp
  show "dev_part (demo_later st t) = dev_part (t\<lparr>replies := replies (demo_later st t)\<rparr>)" "replies (demo_later st t) = demo_answer st"
    by (simp_all add: dev_part_def demo_later_def released_def upd_lock_def popped_def)
qed

lemma demo_delivers:
  assumes "io u = ide_cmd (buf_at demo_ide 0)" and "replies u = demo_answer IDE_DRDY"
  shows "delivers demo_ctl u" "sector_of (ctl_of demo_ctl u) = sevens" "active (ctl_of demo_ctl u) (buf_at demo_ide 0)"
proof -
  let ?b = "buf_at demo_ide 0"
  have b: "unat (blockno ?b) < FSSIZE" "length (bdata ?b) = BSIZE" by (simp_all add: demo_ide_buf)
  have on: "started_on ?b demo_ctl (ctl_of demo_ctl u)" using ctl_ide_cmd [OF b, of demo_ctl] assms(1) by (simp add: ctl_of_def)
  then show sec: "sector_of (ctl_of demo_ctl u) = sevens" by (simp add: started_on_def sector_of_def demo_ide_buf demo_ctl_def)
  have "length (words_of sevens) = 128" by (simp add: words_roundtrip)
  then have "take (BSIZE div 4) (words_of sevens) = words_of sevens" by simp
  then show "delivers demo_ctl u" using sec by (simp add: delivers_def assms(2) demo_answer_def)
  show "active (ctl_of demo_ctl u) ?b" by (rule active_started [OF on b(1)])
qed

lemma ide_refines_memide_witness:
  "\<exists>t v w. ide_rw 0 demo_ide = Block t \<and> ide_intr (demo_later IDE_DRDY t) = Ret () v \<and> pstate (proc_at v 0) = RUNNABLE \<and>
    iderw 0 demo_ide = Ret () w \<and> buf_at v 0 = buf_at w 0"
proof -
  obtain t where t: "ide_rw 0 demo_ide = Block t" "rq_inv {} t" "lock_held PtableLock 0 t" "\<not> locked (locks t IdeLock)" "io t = ide_cmd (buf_at demo_ide 0)"
    using demo_request by blast
  note p = demo_later_props [OF t(3,4,2), of IDE_DRDY]
  have "io (demo_later IDE_DRDY t) = ide_cmd (buf_at demo_ide 0)" using dev_part_eq [OF p(1)] t(5) by simp
  note d = demo_delivers(1) [OF this p(6)]
  have room: "\<exists>j<NPROC. \<not> due (proc_at demo_ide j)" using demo_ide_sched(5) by (intro exI [of _ 1]) simp
  have c: "store (ctl_of demo_ctl demo_ide) True = disk demo_ide" by (simp add: ctl_of_def demo_ctl_def demo_ide_simps)
  show ?thesis
    using ide_refines_memide [OF demo_ide_sched(1-4) room, of 0 demo_ctl] p(1-5) d c demo_disk_ok t(1)
    by (fastforce simp: demo_ide_simps demo_ide_buf)
qed

lemma ide_serves_in_order_witness:
  "\<exists>t v. ide_rw 0 demo_ide = Block t \<and> ide_intr (demo_later IDE_DRDY t) = Ret () v \<and> buf_at v 0 = \<lparr>bvalid = True, bdirty = False, bdev = 1, blockno = 5, refcnt = 1, bdata = sevens\<rparr>"
proof -
  obtain t where t: "ide_rw 0 demo_ide = Block t" "rq_inv {} t" "lock_held PtableLock 0 t" "\<not> locked (locks t IdeLock)" "idequeue t = Some 0"
      "qnext t 0 = None" "bufs t = bufs demo_ide" "io t = ide_cmd (buf_at demo_ide 0)"
    using demo_request by blast
  let ?u = "demo_later IDE_DRDY t"
  note p = demo_later_props [OF t(3,4,2), of IDE_DRDY]
  note e = dev_part_eq [OF p(1)]
  have io: "io ?u = ide_cmd (buf_at demo_ide 0)" using e t(8) by simp
  note d = demo_delivers [OF io p(6)]
  have bu: "buf_at ?u = buf_at t" "buf_at t = buf_at demo_ide" using buf_at_cong [of ?u t] buf_at_cong [of t demo_ide] e t(7) by simp_all
  have "ide_hist demo_ctl [] [] demo_ide" by (rule ide_hist.start) (simp_all add: demo_ide_simps)
  from ide_hist.request [OF this, of 0 t] have "ide_hist demo_ctl [0] [] t" using t(1) by (simp add: demo_ide_buf)
  then have h: "ide_hist demo_ctl [0] [] ?u"
    by (rule ide_hist.others) (use e bu in \<open>simp_all add: elsewhere_def untouched_def\<close>)
  have q: "idequeue ?u = Some 0" "0 < length (bufs ?u)" "qnext ?u 0 = None" using e t by (simp_all add: demo_ide_simps)
  have "answers ?u 0" using p(6) words_roundtrip(2) [of sevens] by (simp add: answers_def demo_answer_def)
  from ide_intr_returns [OF p(4,5,3) q(1,2) this q(3)] obtain v where v: "ide_intr ?u = Ret () v" by blast
  then show ?thesis using ide_serves_in_order [OF h demo_disk_ok] d t(1) bu by (auto simp: demo_ide_buf)
qed

lemma ide_error_accepted_witness:
  "\<exists>t v. ide_rw 0 demo_ide = Block t \<and> ide_intr (demo_later 0x41 t) = Ret () v \<and> bvalid (buf_at v 0) \<and> bdata (buf_at v 0) = zeros"
proof -
  obtain t where t: "ide_rw 0 demo_ide = Block t" "rq_inv {} t" "lock_held PtableLock 0 t" "\<not> locked (locks t IdeLock)" "idequeue t = Some 0"
      "qnext t 0 = None" "bufs t = bufs demo_ide"
    using demo_request by blast
  let ?u = "demo_later 0x41 t"
  note p = demo_later_props [OF t(3,4,2), of "0x41"]
  note e = dev_part_eq [OF p(1)]
  have bu: "buf_at ?u 0 = buf_at demo_ide 0" using buf_at_cong [of ?u demo_ide] e t(7) by simp
  have q: "idequeue ?u = Some 0" "0 < length (bufs ?u)" "qnext ?u 0 = None" using e t by (simp_all add: demo_ide_simps)
  have "first_such disk_ready (replies ?u (Port 0x1F7)) = Some (0x41, [])" by (simp add: p(6) demo_answer_def)
  from ide_error_accepted [OF p(4,5,3) q _ this] show ?thesis using t(1) by (auto simp: bu demo_ide_buf)
qed
end
