(* ===== verification/Startup.thy ===== *)
theory Startup
  imports Ide
begin

text \<open>
  Traps and the start of the kernel: \<^verbatim>\<open>trap.c\<close> and \<^verbatim>\<open>main.c\<close>.

  \<open>trap\<close> and \<open>kmain\<close> take the disk driver that is linked into the kernel as an argument, \<open>ide_intr\<close> and \<open>ide_init\<close> of \<^verbatim>\<open>ide.c\<close> or \<open>ideintr\<close>
  and \<open>ideinit\<close> of \<^verbatim>\<open>memide.c\<close>. \<open>trap\<close> ends where the process leaves the processor: \<open>trap_tail\<close> is what it does after
  \<^verbatim>\<open>yield\<close>. \<open>kmain\<close> is the program of the boot processor up to the loop of its scheduler; the others run \<open>mpenter\<close>. What
  the linker places in the kernel image (\<^verbatim>\<open>entryother.S\<close>, the addresses of \<^verbatim>\<open>mpenter\<close> and \<^verbatim>\<open>entrypgdir\<close>, the vectors of
  \<^verbatim>\<open>vectors.S\<close>) are arguments.

  Shown: \<^verbatim>\<open>fork\<close> on one processor and the timer on the boot processor can wait for each other for ever.
\<close>

section \<open>Traps\<close>

abbreviation T_SYSCALL :: uint where "T_SYSCALL \<equiv> 64"
abbreviation T_IRQ0 :: uint where "T_IRQ0 \<equiv> 32"

definition die_if_killed :: "trapframe \<Rightarrow> ('z kdev_scheme, unit) kop" where
  "die_if_killed f =
     bindk myproc (\<lambda>p.
     case p of
       None \<Rightarrow> retk ()
     | Some i \<Rightarrow> bindk (getk (\<lambda>s. killed (proc_at s i))) (\<lambda>dead.
         if dead \<and> tf_cs f AND 3 = 3 then exit_proc else retk ()))"

definition trap_tail :: "trapframe \<Rightarrow> ('z kdev_scheme, unit) kop" where
  "trap_tail f = die_if_killed f"

definition tick_yield :: "nat \<Rightarrow> ('z kdev_scheme, unit) kop" where
  "tick_yield i =
     thenk (modk (upd_proc i (\<lambda>p. p\<lparr>running_ticks := running_ticks p + 1\<rparr>)))
    (bindk (getk (\<lambda>s. proc_at s i)) (\<lambda>p.
     if q_type p = RR \<and> running_ticks p \<ge> 5 then yield
     else if q_type p = DEF \<or> q_type p = LCFS then yield
     else if q_type p = BJF \<and> running_ticks p > 500 then yield
     else retk ()))"

text \<open>
  The timer on processor 0, in two pieces: \<open>tick_enter\<close> up to the call of \<^verbatim>\<open>agingMechanism\<close>, and \<open>tick_leave\<close> from there on.
\<close>

definition tick_enter :: "('z kdev_scheme, unit) kop" where
  "tick_enter = thenk (acquire TicksLock) (modk (\<lambda>s. s\<lparr>ticks := ticks s + 1\<rparr>))"

definition tick_leave :: "('z kdev_scheme, unit) kop" where
  "tick_leave = thenk agingMechanism (thenk (wakeup ChTicks) (release TicksLock))"

definition timer_irq :: "('z kdev_scheme, unit) kop" where
  "timer_irq = bindk cpuid (\<lambda>c. whenk (c = 0) (thenk tick_enter tick_leave))"

text \<open>\<open>cr2\<close> is the register with the address of the last page fault.\<close>

definition unexpected :: "trapframe \<Rightarrow> uint \<Rightarrow> ('z kdev_scheme, unit) kop" where
  "unexpected f cr2 =
     bindk myproc (\<lambda>p.
     bindk cpuid (\<lambda>c.
     if p = None \<or> tf_cs f AND 3 = 0 then
       thenk (cprintf (''unexpected trap %d from cpu %d eip %x (cr2=0x%x)'' @ [CHR 0x0A])
         [ANum (tf_trapno f), ANum (of_nat c), ANum (tf_eip f), ANum cr2])
       (panic ''trap'')
     else
       bindk myid (\<lambda>i.
       bindk (getk (\<lambda>s. proc_at s i)) (\<lambda>q.
       thenk (cprintf (''pid %d %s: trap %d err %d on cpu %d eip 0x%x addr 0x%x--kill proc'' @ [CHR 0x0A])
         [ANum (word_of_int (pid q)), AStr (Some (pname q)), ANum (tf_trapno f), ANum (tf_err f), ANum (of_nat c),
          ANum (tf_eip f), ANum cr2])
       (modk (upd_proc i (\<lambda>p. p\<lparr>killed := True\<rparr>)))))))"

definition trap_syscall :: "trapframe \<Rightarrow> ('z kdev_scheme, unit) kop" where
  "trap_syscall f =
     bindk (myget killed) (\<lambda>dead.
     if dead then exit_proc
     else
       thenk (myset (\<lambda>p. p\<lparr>tf := f\<rparr>))
      (thenk syscall
      (bindk (myget killed) (\<lambda>dead. if dead then exit_proc else retk ()))))"

definition trap :: "('z kdev_scheme, unit) kop \<Rightarrow> (nat \<Rightarrow> uint) \<Rightarrow> uint \<Rightarrow> trapframe \<Rightarrow> ('z kdev_scheme, unit) kop" where
  "trap disk_intr ebp cr2 f =
     (if tf_trapno f = T_SYSCALL then trap_syscall f
      else
        thenk (if tf_trapno f = T_IRQ0 + 0 then thenk timer_irq lapiceoi
               else if tf_trapno f = T_IRQ0 + 14 then thenk disk_intr lapiceoi
               else if tf_trapno f = T_IRQ0 + 15 then retk ()
               else if tf_trapno f = T_IRQ0 + 1 then thenk (kbdintr ebp) lapiceoi
               else if tf_trapno f = T_IRQ0 + 4 then thenk (uartintr ebp) lapiceoi
               else if tf_trapno f = T_IRQ0 + 7 \<or> tf_trapno f = T_IRQ0 + 31 then
                 bindk cpuid (\<lambda>c. thenk (cprintf (''cpu%d: spurious interrupt at %x:%x'' @ [CHR 0x0A])
                   [ANum (of_nat c), ANum (ucast (tf_cs f)), ANum (tf_eip f)]) lapiceoi)
               else unexpected f cr2)
       (thenk (die_if_killed f)
       (thenk (bindk myproc (\<lambda>p.
          case p of
            None \<Rightarrow> retk ()
          | Some i \<Rightarrow> bindk (getk (\<lambda>s. pstate (proc_at s i))) (\<lambda>st.
              whenk (st = RUNNING \<and> tf_trapno f = T_IRQ0 + 0) (tick_yield i))))
        (trap_tail f))))"

text \<open>\<open>vectors\<close> are the addresses of the entry points in \<^verbatim>\<open>vectors.S\<close>.\<close>

definition tvinit :: "(nat \<Rightarrow> uint) \<Rightarrow> ('z kdev_scheme, unit) kop" where
  "tvinit vectors =
     thenk (foreach [0..<256] (\<lambda>i. modk (\<lambda>s. s\<lparr>idt := (idt s)(i := Some (SETGATE False (push_bit 3 1) (vectors i) 0))\<rparr>)))
    (thenk (modk (\<lambda>s. s\<lparr>idt := (idt s)(64 := Some (SETGATE True (push_bit 3 1) (vectors 64) 3))\<rparr>))
     (initlock TicksLock ''time''))"

section \<open>Starting the processors\<close>

record link_symbols =
  entryother_start :: uint
  entryother_size :: nat
  mpenter_addr :: uint
  entrypgdir_addr :: uint

text \<open>The page directory of the first instructions: entries for 4 MB pages at 0 and at \<^verbatim>\<open>KERNBASE\<close>.\<close>

definition entrypgdir :: "nat \<Rightarrow> uint" where
  "entrypgdir i = (if i = 0 \<or> i = unat (drop_bit 22 KERNBASE) then 0 OR PTE_P OR PTE_W OR 0x080 else 0)"

text \<open>
  The boot processor waits until the other one has set \<^verbatim>\<open>started\<close>; what it reads there is an answer from outside, as of a device.
\<close>

definition start_ap :: "link_symbols \<Rightarrow> nat \<Rightarrow> ('z kdev_scheme, unit) kop" where
  "start_ap ls c =
     bindk mycpu (\<lambda>me.
     if c = me then retk ()
     else
       bindk kalloc (\<lambda>stack.
       let code = P2V 0x7000 in
       thenk (modk (\<lambda>s. s\<lparr>kmemory := store32 (kmemory s) (code - 4) (stack + KSTACKSIZE)\<rparr>))
      (thenk (modk (\<lambda>s. s\<lparr>kmemory := store32 (kmemory s) (code - 8) (mpenter_addr ls)\<rparr>))
      (thenk (modk (\<lambda>s. s\<lparr>kmemory := store32 (kmemory s) (code - 12) (V2P (entrypgdir_addr ls))\<rparr>))
      (bindk (getk (\<lambda>s. apicid (cpus s ! c))) (\<lambda>a.
       thenk (lapicstartap a (V2P code))
      (bindk (dev_wait (Started c) (\<lambda>v. v \<noteq> 0)) (\<lambda>_. retk ()))))))))"

definition startothers :: "link_symbols \<Rightarrow> ('z kdev_scheme, unit) kop" where
  "startothers ls =
     thenk (modk (\<lambda>s. s\<lparr>kmemory := memmove (kmemory s) (P2V 0x7000) (entryother_start ls) (entryother_size ls)\<rparr>))
    (bindk (getk ncpu) (\<lambda>n. foreach [0..<n] (start_ap ls)))"

text \<open>\<^verbatim>\<open>idtinit\<close> loads a register of the processor that the model does not have; the rounds of the scheduler follow.\<close>

definition mpmain :: "('z kdev_scheme, nat) kop" where
  "mpmain =
     bindk cpuid (\<lambda>c.
     thenk (cprintf (''cpu%d: starting %d'' @ [CHR 0x0A]) [ANum (of_nat c), ANum (of_nat c)])
    (bindk mycpu (\<lambda>c.
     thenk (modk (upd_cpu c (\<lambda>k. k\<lparr>started := 1\<rparr>)))
     scheduler_start)))"

definition mpenter :: "('z kdev_scheme, nat) kop" where
  "mpenter = thenk switchkvm (thenk seginit (thenk lapicinit mpmain))"

text \<open>
  \<^verbatim>\<open>main\<close>. \<open>disk_init\<close> is the \<^verbatim>\<open>ideinit\<close> that is linked in; \<open>init\<close> and \<open>init_sz\<close> are address and size of the first user program in the
  kernel image.
\<close>

definition kmain :: "('z kdev_scheme, unit) kop \<Rightarrow> (nat \<Rightarrow> uint) \<Rightarrow> link_symbols \<Rightarrow> uint \<Rightarrow> uint \<Rightarrow> ('z kdev_scheme, nat) kop" where
  "kmain disk_init vectors ls init init_sz =
     bindk (getk kend) (\<lambda>e.
     thenk (kinit1 e (P2V (4 * 1024 * 1024)))
    (thenk kvmalloc
    (thenk mpinit
    (thenk lapicinit
    (thenk seginit
    (thenk picinit
    (thenk ioapicinit
    (thenk consoleinit
    (thenk uartinit
    (thenk pinit
    (thenk (tvinit vectors)
    (thenk binit
    (thenk fileinit
    (thenk disk_init
    (thenk (startothers ls)
    (thenk (kinit2 (P2V (4 * 1024 * 1024)) (P2V PHYSTOP))
    (thenk (userinit init init_sz)
     mpmain)))))))))))))))))"

section \<open>Lock order\<close>

lemma runs_on_this: "runs_on (s\<lparr>this := P\<rparr>) c \<longleftrightarrow> find_cpu (lapic_id s P) (ncpu s) (cpus s) = Some c"
  by (simp add: runs_on_def)

lemma cli_ok_fields:
  assumes "cpus t = cpus s" and "if_flag t = if_flag s" and "lapic_id t = lapic_id s" and "ncpu t = ncpu s"
  shows "cli_ok (t\<lparr>this := P\<rparr>) c = cli_ok (s\<lparr>this := P\<rparr>) c"
  using assms by (simp add: cli_ok_def cpu_of_def)

text \<open>Taking a lock on one processor leaves another one able to run.\<close>

lemma cli_ok_other:
  assumes "cli_ok (s\<lparr>this := P\<rparr>) a" and "cli_ok (s\<lparr>this := Q\<rparr>) b" and "a \<noteq> b" and "P \<noteq> Q"
  shows "cli_ok ((acquired l b (s\<lparr>this := Q\<rparr>))\<lparr>this := P\<rparr>) a"
proof -
  have b: "b < length (cpus s)" using runs_on_length [of "s\<lparr>this := Q\<rparr>" b] assms(2) by (simp add: cli_ok_def)
  have "map apicid (cpus (acquired l b (s\<lparr>this := Q\<rparr>))) = map apicid (cpus s)"
    using b by (simp add: acquired_def upd_lock_def pushed_def map_update list_update_same_conv)
  then show ?thesis using assms b
    by (simp add: cli_ok_def runs_on_this find_cpu_apicids) (simp add: acquired_def upd_lock_def pushed_def)
qed

lemma held_other:
  assumes "lock_held k b s" and "cli_ok (s\<lparr>this := P\<rparr>) a" and "a \<noteq> b" and "this s \<noteq> P" and "l \<noteq> k"
  shows "lock_held k b ((acquired l a (s\<lparr>this := P\<rparr>))\<lparr>this := this s\<rparr>)"
proof -
  have s: "s\<lparr>this := this s\<rparr> = s" by simp
  have "cli_ok (s\<lparr>this := this s\<rparr>) b" using assms(1) unfolding s by (simp add: lock_held_def cli_ok_def)
  from cli_ok_other [OF this assms(2)] have "cli_ok ((acquired l a (s\<lparr>this := P\<rparr>))\<lparr>this := this s\<rparr>) b" using assms(3,4) by simp
  moreover have "a < length (cpus s)" using runs_on_length [of "s\<lparr>this := P\<rparr>" a] assms(2) by (simp add: cli_ok_def)
  ultimately show ?thesis using assms(1,3-5)
    by (simp add: lock_held_def cli_ok_def) (simp add: acquired_def upd_lock_def pushed_def)
qed

text \<open>The two waits, wherever both locks are held.\<close>

lemma crossed_locks_wait:
  fixes t :: "'z kdev_scheme"
  assumes t: "lock_held PtableLock b (t\<lparr>this := Q\<rparr>)" "lock_held TicksLock 0 (t\<lparr>this := P\<rparr>)" and "b \<noteq> 0"
  shows "fork_leave i (t\<lparr>this := Q\<rparr>) = Stop (Spin ''acquire'')" "tick_leave (t\<lparr>this := P\<rparr>) = Stop (Spin ''acquire'')"
proof -
  have c: "cli_ok (t\<lparr>this := P\<rparr>) 0" "cli_ok (t\<lparr>this := Q\<rparr>) b" using t by (simp_all add: lock_held_def cli_ok_def)
  have l: "locked (locks t PtableLock)" "lcpu (locks t PtableLock) = Some b" "locked (locks t TicksLock)" "lcpu (locks t TicksLock) = Some 0"
    using t by (simp_all add: lock_held_def)
  have "acquire TicksLock (t\<lparr>this := Q\<rparr>) = Stop (Spin ''acquire'')" using acquire_eq [OF c(2), of TicksLock] l assms(3) by simp
  then show "fork_leave i (t\<lparr>this := Q\<rparr>) = Stop (Spin ''acquire'')" by (simp add: fork_leave_def thenk_def bindk_def)
  have "holding PtableLock (t\<lparr>this := P\<rparr>) = Ret False (t\<lparr>this := P\<rparr>)"
    using holding_eq [of "t\<lparr>this := P\<rparr>" 0 PtableLock] t(2) l(2) assms(3) by (simp add: lock_held_def)
  moreover have "acquire PtableLock (t\<lparr>this := P\<rparr>) = Stop (Spin ''acquire'')" using acquire_eq [OF c(1), of PtableLock] l assms(3) by simp
  ultimately have "agingMechanism (t\<lparr>this := P\<rparr>) = Stop (Spin ''acquire'')"
    by (simp add: agingMechanism_def bindk_Ret whenk_def) (simp add: thenk_def bindk_def)
  then show "tick_leave (t\<lparr>this := P\<rparr>) = Stop (Spin ''acquire'')" by (simp add: tick_leave_def thenk_def bindk_def)
qed

text \<open>The first piece of \<^verbatim>\<open>fork\<close> touches, beside its lock, only the table and the queue.\<close>

lemma fork_enter_holds:
  fixes s :: "'z kdev_scheme"
  assumes free: "lock_free PtableLock b s" and room: "push i (lcfs_q s) = Inr q"
  obtains u where "fork_enter i s = Ret () u" "lock_held PtableLock b u" "this u = this s"
    "cpus u = cpus (acquired PtableLock b s)" "locks u = locks (acquired PtableLock b s)"
    "if_flag u = if_flag (acquired PtableLock b s)" "lapic_id u = lapic_id s" "ncpu u = ncpu s"
proof -
  let ?a = "upd_proc i (\<lambda>p. p\<lparr>q_type := LCFS\<rparr>) (acquired PtableLock b s)"
  let ?q = "set_queue LCFS q ?a"
  let ?u = "upd_proc i (\<lambda>p. p\<lparr>arrivetime := ticks ?q, waiting_time := 0, executed_cycle := 0\<rparr>) ?q"
  have "acquire PtableLock s = Ret () (acquired PtableLock b s)"
    using free acquire_eq [of s b PtableLock] by (simp add: lock_free_def)
  moreover have "queue_of LCFS ?a = lcfs_q s" by (simp add: queue_of_def) (simp add: acquired_def upd_lock_def pushed_def upd_proc_def)
  then have "enqueue LCFS i ?a = Ret () ?q" using room by (simp add: enqueue_eq liftq_def modk_def)
  ultimately have "fork_enter i s = Ret () ?u" by (simp add: fork_enter_def thenk_Ret thenk_modk modk_def)
  moreover have "lock_held PtableLock b ?u" using lock_held_acquired [OF free] by simp
  ultimately show ?thesis
    by (rule that) (simp_all add: set_queue_def acquired_def upd_lock_def pushed_def)
qed

text \<open>
  C23. \<^verbatim>\<open>fork\<close> takes \<^verbatim>\<open>tickslock\<close> while it holds \<^verbatim>\<open>ptable.lock\<close>, and the timer of processor 0 takes \<^verbatim>\<open>ptable.lock\<close> for aging while it
  holds \<^verbatim>\<open>tickslock\<close>; so they can stop each other for ever. \<^verbatim>\<open>fork\<close>'s critical section is \<open>fork_enter\<close> followed by
  \<open>fork_leave\<close>, the timer's work on processor 0 is \<open>tick_enter\<close> followed by \<open>tick_leave\<close>. When another processor has run \<open>fork_enter\<close>
  and then processor 0 \<open>tick_enter\<close>, both have returned and each holds its lock; and from there on, in every state in
  which neither has released its lock, what is left of either of them waits in \<^verbatim>\<open>acquire\<close>.
\<close>

theorem fork_timer_deadlock:
  fixes s :: "'z kdev_scheme"
  assumes "cli_ok (s\<lparr>this := P\<rparr>) 0" and "cli_ok (s\<lparr>this := Q\<rparr>) b" and "b \<noteq> 0" and "P \<noteq> Q"
    and "\<not> locked (locks s PtableLock)" and "\<not> locked (locks s TicksLock)" and "\<not> if_flag s P"
    and "push i (lcfs_q s) = Inr q"
  shows "fork_start i = thenk (fork_enter i) (fork_leave i) \<and>
    (\<exists>u v. fork_enter i (s\<lparr>this := Q\<rparr>) = Ret () u \<and>
      timer_irq (u\<lparr>this := P\<rparr>) = thenk tick_enter tick_leave (u\<lparr>this := P\<rparr>) \<and> tick_enter (u\<lparr>this := P\<rparr>) = Ret () v \<and>
      lock_held PtableLock b (v\<lparr>this := Q\<rparr>) \<and> lock_held TicksLock 0 (v\<lparr>this := P\<rparr>)) \<and>
    (\<forall>t :: 'z kdev_scheme. lock_held PtableLock b (t\<lparr>this := Q\<rparr>) \<longrightarrow> lock_held TicksLock 0 (t\<lparr>this := P\<rparr>) \<longrightarrow>
      fork_leave i (t\<lparr>this := Q\<rparr>) = Stop (Spin ''acquire'') \<and> tick_leave (t\<lparr>this := P\<rparr>) = Stop (Spin ''acquire''))"
proof -
  have "lock_free PtableLock b (s\<lparr>this := Q\<rparr>)" using assms(2,5) by (simp add: lock_free_def)
  then obtain u where u: "fork_enter i (s\<lparr>this := Q\<rparr>) = Ret () u" "lock_held PtableLock b u" "this u = Q"
      "cpus u = cpus (acquired PtableLock b (s\<lparr>this := Q\<rparr>))" "locks u = locks (acquired PtableLock b (s\<lparr>this := Q\<rparr>))"
      "if_flag u = if_flag (acquired PtableLock b (s\<lparr>this := Q\<rparr>))" "lapic_id u = lapic_id s" "ncpu u = ncpu s"
    using fork_enter_holds [of b "s\<lparr>this := Q\<rparr>" i q] assms(8) by auto
  let ?a = "acquired PtableLock b (s\<lparr>this := Q\<rparr>)"
  have "lapic_id ?a = lapic_id s" "ncpu ?a = ncpu s" by (simp_all add: acquired_def upd_lock_def pushed_def)
  then have "cli_ok (u\<lparr>this := P\<rparr>) 0 = cli_ok (?a\<lparr>this := P\<rparr>) 0"
    using u(4,6-8) by (intro cli_ok_fields) simp_all
  then have cu: "cli_ok (u\<lparr>this := P\<rparr>) 0" using cli_ok_other [OF assms(1,2), of PtableLock] assms(3,4) by simp
  have freeu: "lock_free TicksLock 0 (u\<lparr>this := P\<rparr>)"
    using cu assms(6) u(5) by (simp add: lock_free_def) (simp add: acquired_def upd_lock_def pushed_def)
  have "\<not> if_flag u P" using u(6) assms(4,7) by (simp add: acquired_def upd_lock_def pushed_def)
  then have timer: "timer_irq (u\<lparr>this := P\<rparr>) = thenk tick_enter tick_leave (u\<lparr>this := P\<rparr>)"
    using cu mycpu_eq [of "u\<lparr>this := P\<rparr>" 0] by (simp add: timer_irq_def cpuid_def bindk_Ret whenk_def cli_ok_def)
  let ?w = "acquired TicksLock 0 (u\<lparr>this := P\<rparr>)"
  let ?v = "?w\<lparr>ticks := ticks ?w + 1\<rparr>"
  have enter: "tick_enter (u\<lparr>this := P\<rparr>) = Ret () ?v"
    using acquire_eq [OF cu, of TicksLock] freeu by (simp add: tick_enter_def lock_free_def thenk_Ret modk_def)
  have "this ?w = P" by (simp add: acquired_def upd_lock_def pushed_def)
  then have w: "?w\<lparr>this := P\<rparr> = ?w" by (metis machine.surjective machine.update_convs(1))
  have "lock_held TicksLock 0 (?w\<lparr>this := P\<rparr>)" unfolding w by (rule lock_held_acquired [OF freeu])
  then have hp: "lock_held TicksLock 0 (?v\<lparr>this := P\<rparr>)" by (simp add: lock_held_def runs_on_def)
  have "lock_held PtableLock b (?w\<lparr>this := Q\<rparr>)"
    using held_other [of PtableLock b u P 0 TicksLock, unfolded u(3)] u(2) cu assms(3,4) by simp
  then have hq: "lock_held PtableLock b (?v\<lparr>this := Q\<rparr>)" by (simp add: lock_held_def runs_on_def)
  show ?thesis
    using u(1) timer enter hp hq crossed_locks_wait [OF _ _ assms(3)] by (auto simp: fork_start_def)
qed

text \<open>Two processors for the witness.\<close>

definition demo_pair :: kdev where
  "demo_pair = (demo_dev 118 2)\<lparr>cpus := [cpu0\<lparr>apicid := 0\<rparr>, cpu0\<lparr>apicid := 1\<rparr>], ncpu := 2,
     lapic_id := (\<lambda>P. if P = 0 then 0 else 1), locks := (\<lambda>_. free_lock), if_flag := (\<lambda>P. P \<noteq> 0)\<rparr>"

lemma fork_timer_deadlock_witness:
  "\<exists>u v. fork_enter 3 (demo_pair\<lparr>this := 1\<rparr>) = Ret () u \<and> tick_enter (u\<lparr>this := 0\<rparr>) = Ret () v \<and>
    fork_leave 3 (v\<lparr>this := 1\<rparr>) = Stop (Spin ''acquire'') \<and> tick_leave (v\<lparr>this := 0\<rparr>) = Stop (Spin ''acquire'')"
proof -
  have "cli_ok (demo_pair\<lparr>this := 0\<rparr>) 0" "cli_ok (demo_pair\<lparr>this := 1\<rparr>) 1"
    by (simp_all add: cli_ok_def runs_on_def demo_pair_def find_cpu_def cpu0_def)
  moreover have "\<not> locked (locks demo_pair l)" "\<not> if_flag demo_pair 0" for l by (simp_all add: demo_pair_def free_lock_def)
  moreover obtain q where "push 3 (lcfs_q demo_pair) = Inr q"
    by (simp add: demo_pair_def demo_dev_def kfile.defs demo_pipe_def demo_fs_def demo_log_def demo_bio_def ksleep.defs ksched.defs
        kbio.defs klog.defs kfs.defs kcons.defs mkfree_def mksched_def mkqueue_def push_def)
  ultimately show ?thesis using fork_timer_deadlock [where s = demo_pair and P = 0 and Q = 1 and b = 1 and i = 3 and q = q] by auto
qed

end
