(* ===== verification/Umalloc.thy ===== *)
theory Umalloc
  imports Xv6_Prelude "HOL-Library.Sublist"
begin

text \<open>
  The memory allocator of the user programs, \<^verbatim>\<open>umalloc.c\<close>.

  The free blocks form a circular list through their headers, starting from the static header \<^verbatim>\<open>base\<close>. The two words of a
  header are kept in two maps from its address; \<open>base\<close> is the address the linker gave the static header and \<open>brk\<close>
  the end of the memory of the process. \<^verbatim>\<open>sbrk\<close> is the service of the kernel and an argument of the
  definitions. The searches along the list are partial functions: \<open>None\<close> is a search that never ends.

  Shown: both searches end on a well-formed list; \<^verbatim>\<open>free\<close> adds exactly the bytes of the block to the free bytes and
  merges it with its neighbours, \<^verbatim>\<open>malloc\<close> takes its result out of them; the blocks a program holds are never overlapping, as long
  as no request is for \<open>2 ^ 31 - 15\<close> bytes or more; and the number of
  units \<^verbatim>\<open>malloc\<close> computes wraps around for the largest requests.
\<close>

section \<open>The code\<close>

record heap =
  hptr :: "uint \<Rightarrow> uint"
  hsize :: "uint \<Rightarrow> uint"
  base :: uint
  freep :: uint
  brk :: uint

type_synonym sbrk_service = "int \<Rightarrow> heap \<Rightarrow> uint \<times> heap"

abbreviation HDR :: uint where "HDR \<equiv> 8"

partial_function (option) free_find :: "heap \<Rightarrow> uint \<Rightarrow> uint \<Rightarrow> uint option" where
  "free_find s bp p =
     (if \<not> (bp > p \<and> bp < hptr s p) then
        if p \<ge> hptr s p \<and> (bp > p \<or> bp < hptr s p) then Some p else free_find s bp (hptr s p)
      else Some p)"

definition set_ptr :: "uint \<Rightarrow> uint \<Rightarrow> heap \<Rightarrow> heap" where
  "set_ptr a v s = s\<lparr>hptr := (hptr s)(a := v)\<rparr>"

definition set_size :: "uint \<Rightarrow> uint \<Rightarrow> heap \<Rightarrow> heap" where
  "set_size a v s = s\<lparr>hsize := (hsize s)(a := v)\<rparr>"

definition join_next :: "uint \<Rightarrow> uint \<Rightarrow> heap \<Rightarrow> heap" where
  "join_next bp p s =
     (if bp + HDR * hsize s bp = hptr s p then
        let s = set_size bp (hsize s bp + hsize s (hptr s p)) s in set_ptr bp (hptr s (hptr s p)) s
      else set_ptr bp (hptr s p) s)"

definition join_prev :: "uint \<Rightarrow> uint \<Rightarrow> heap \<Rightarrow> heap" where
  "join_prev bp p s =
     (if p + HDR * hsize s p = bp then
        let s = set_size p (hsize s p + hsize s bp) s in set_ptr p (hptr s bp) s
      else set_ptr p bp s)"

definition u_free :: "uint \<Rightarrow> heap \<Rightarrow> heap option" where
  "u_free ap s =
     (let bp = ap - HDR in
      Option.bind (free_find s bp (freep s)) (\<lambda>p.
      Some ((join_prev bp p (join_next bp p s))\<lparr>freep := p\<rparr>)))"

definition morecore :: "sbrk_service \<Rightarrow> uint \<Rightarrow> heap \<Rightarrow> (uint \<times> heap) option" where
  "morecore sbrk nu s =
     (let nu = (if nu < 4096 then 4096 else nu);
          (p, s) = sbrk (sint (nu * HDR)) s in
      if p = -1 then Some (0, s)
      else
        Option.bind (u_free (p + HDR) (set_size p nu s)) (\<lambda>s.
        Some (freep s, s)))"

definition take_block :: "uint \<Rightarrow> uint \<Rightarrow> uint \<Rightarrow> heap \<Rightarrow> uint \<times> heap" where
  "take_block nunits prevp p s =
     (if hsize s p = nunits then (p + HDR, (set_ptr prevp (hptr s p) s)\<lparr>freep := prevp\<rparr>)
      else
        let s = set_size p (hsize s p - nunits) s;
            p = p + HDR * hsize s p;
            s = set_size p nunits s in
        (p + HDR, s\<lparr>freep := prevp\<rparr>))"

partial_function (option) malloc_loop :: "sbrk_service \<Rightarrow> uint \<Rightarrow> uint \<Rightarrow> uint \<Rightarrow> heap \<Rightarrow> (uint \<times> heap) option" where
  "malloc_loop sbrk nunits prevp p s =
     (if hsize s p \<ge> nunits then Some (take_block nunits prevp p s)
      else if p = freep s then
        Option.bind (morecore sbrk nunits s) (\<lambda>(q, s).
        if q = 0 then Some (0, s) else malloc_loop sbrk nunits q (hptr s q) s)
      else malloc_loop sbrk nunits p (hptr s p) s)"

definition units :: "uint \<Rightarrow> uint" where
  "units nbytes = (nbytes + HDR - 1) div HDR + 1"

definition malloc :: "sbrk_service \<Rightarrow> uint \<Rightarrow> heap \<Rightarrow> (uint \<times> heap) option" where
  "malloc sbrk nbytes s =
     (let s = (if freep s = 0 then set_size (base s) 0 ((set_ptr (base s) (base s) s)\<lparr>freep := base s\<rparr>) else s) in
      malloc_loop sbrk (units nbytes) (freep s) (hptr s (freep s)) s)"


section \<open>The circular list\<close>

text \<open>Following the pointers from \<open>x\<close> visits \<open>xs\<close> and then arrives at \<open>y\<close>.\<close>

fun path :: "(uint \<Rightarrow> uint) \<Rightarrow> uint \<Rightarrow> uint list \<Rightarrow> uint \<Rightarrow> bool" where
  "path h x [] y = (h x = y)"
| "path h x (z # zs) y = (h x = z \<and> path h z zs y)"

lemma path_append: "path h x (xs @ z # zs) y \<longleftrightarrow> path h x xs z \<and> path h z zs y"
  by (induction xs arbitrary: x) auto

lemma path_rotate: "path h x (xs @ z # zs) x \<Longrightarrow> path h z (zs @ x # xs) z"
  by (simp add: path_append)

lemma path_cong: "(\<And>a. a \<in> set (x # xs) \<Longrightarrow> h' a = h a) \<Longrightarrow> path h' x xs y = path h x xs y"
  by (induction xs arbitrary: x) auto

lemma path_upd: "a \<notin> set (x # xs) \<Longrightarrow> path (h(a := v)) x xs y = path h x xs y"
  by (rule path_cong) auto

lemma path_upd_last: "path h x xs y \<Longrightarrow> distinct (x # xs) \<Longrightarrow> path (h(last (x # xs) := v)) x xs v"
  by (induction xs arbitrary: x) (auto simp: path_upd)

lemma path_next: "path h x xs y \<Longrightarrow> h (last (x # xs)) = y"
  by (induction xs arbitrary: x) auto

text \<open>The bytes of a block.\<close>

definition block_end :: "(uint \<Rightarrow> uint) \<Rightarrow> uint \<Rightarrow> nat" where
  "block_end z a = unat a + 8 * unat (z a)"

definition bytes_of :: "(uint \<Rightarrow> uint) \<Rightarrow> uint \<Rightarrow> nat set" where
  "bytes_of z a = {unat a ..< block_end z a}"

text \<open>
  A well-formed heap whose free blocks are \<open>L\<close>, in the order of their addresses: no two of them touch each other, none
  is empty, all lie between the static header and the end of the memory.
\<close>

definition below :: "(uint \<Rightarrow> uint) \<Rightarrow> uint \<Rightarrow> uint \<Rightarrow> bool" where
  "below z a b \<longleftrightarrow> block_end z a < unat b"

definition heap_ok :: "heap \<Rightarrow> uint list \<Rightarrow> bool" where
  "heap_ok s L \<longleftrightarrow> sorted_wrt (below (hsize s)) (base s # L) \<and> path (hptr s) (base s) L (base s) \<and>
     hsize s (base s) = 0 \<and> (\<forall>a\<in>set L. 0 < hsize s a \<and> block_end (hsize s) a \<le> unat (brk s)) \<and>
     freep s \<in> set (base s # L) \<and> 0 < base s \<and> base s < brk s \<and> unat (brk s) \<le> 2 ^ 31"

definition free_bytes :: "heap \<Rightarrow> uint list \<Rightarrow> nat set" where
  "free_bytes s L = (\<Union>a\<in>set L. bytes_of (hsize s) a)"

lemma below_less: "below z a b \<Longrightarrow> a < b"
  by (simp add: below_def block_end_def word_less_nat_alt)

lemma below_trans: "below z a b \<Longrightarrow> below z b c \<Longrightarrow> below z a c"
  by (simp add: below_def block_end_def)

lemma below_distinct: "sorted_wrt (below z) xs \<Longrightarrow> distinct xs"
  by (induction xs) (auto dest: below_less)

section \<open>Finding the place of a block\<close>

lemma find_forward:
  assumes "path (hptr s) x xs y" and "sorted_wrt (<) (x # xs)" and "\<forall>a\<in>set (x # xs). a < bp" and "bp < y \<or> y \<le> last (x # xs)"
  shows "free_find s bp x = Some (last (x # xs))"
  using assms
proof (induction xs arbitrary: x)
  case Nil
  then show ?case by (subst free_find.simps) auto
next
  case (Cons z zs)
  then have "free_find s bp z = Some (last (z # zs))" by auto
  then show ?case using Cons.prems by (subst free_find.simps) auto
qed

lemma find_wrap:
  assumes "path (hptr s) x xs y" and "sorted_wrt (<) (x # xs)" and "\<forall>a\<in>set (x # xs). bp < a" and "y < bp"
  shows "free_find s bp x = free_find s bp y"
  using assms
proof (induction xs arbitrary: x)
  case Nil
  then show ?case by (subst free_find.simps) auto
next
  case (Cons z zs)
  then have "free_find s bp z = free_find s bp y" by auto
  then show ?case using Cons.prems by (subst free_find.simps) auto
qed

text \<open>Where a block that overlaps no free block belongs.\<close>

lemma heap_split:
  assumes "heap_ok s L" and "bytes_of (hsize s) bp \<inter> free_bytes s L = {}" and "0 < hsize s bp" and "base s < bp"
  obtains as bs where "L = as @ bs" "\<forall>a\<in>set (base s # as). block_end (hsize s) a \<le> unat bp"
    "\<forall>b\<in>set bs. block_end (hsize s) bp \<le> unat b"
proof -
  let ?z = "hsize s"
  let ?as = "takeWhile (\<lambda>a. a < bp) L" and ?bs = "dropWhile (\<lambda>a. a < bp) L"
  have so: "sorted_wrt (below ?z) (base s # L)" and b0: "?z (base s) = 0" and pos: "\<forall>a\<in>set L. 0 < ?z a"
    using assms(1) by (simp_all add: heap_ok_def)
  have apart: "bytes_of ?z bp \<inter> bytes_of ?z a = {}" if "a \<in> set L" for a using assms(2) that by (auto simp: free_bytes_def)
  have order: "block_end ?z a \<le> unat bp \<or> block_end ?z bp \<le> unat a" if "a \<in> set L" for a
  proof (rule ccontr)
    assume "\<not> ?thesis"
    moreover have "0 < unat (?z a)" "0 < unat (?z bp)" using pos that assms(3) by (simp_all add: word_less_nat_alt)
    ultimately have "max (unat a) (unat bp) \<in> bytes_of ?z bp \<inter> bytes_of ?z a" by (auto simp: bytes_of_def block_end_def max_def)
    then show False using apart [OF that] by blast
  qed
  have as: "block_end ?z a \<le> unat bp" if "a \<in> set ?as" for a
  proof -
    have "a \<in> set L" "a < bp" using set_takeWhileD [OF that] by simp_all
    then show ?thesis using order [of a] by (auto simp: block_end_def word_less_nat_alt)
  qed
  have bs: "block_end ?z bp \<le> unat b" if "b \<in> set ?bs" for b
  proof -
    have "?bs \<noteq> []"
    proof
      assume "?bs = []"
      then have "b \<in> set []" using that by (simp only:)
      then show False by simp
    qed
    then obtain c cs where c: "?bs = c # cs" unfolding neq_Nil_conv by blast
    then have nc: "\<not> c < bp" using hd_dropWhile [of "\<lambda>a. a < bp" L] by auto
    have "sorted_wrt (below ?z) (?as @ ?bs)" using so by simp
    then have "sorted_wrt (below ?z) (c # cs)" unfolding c sorted_wrt_append by blast
    then have "\<not> b < bp" using that nc c below_less by fastforce
    moreover have "b \<in> set L" using that by (rule set_dropWhileD)
    ultimately show ?thesis using order [of b] pos by (auto simp: block_end_def word_less_nat_alt)
  qed
  have b: "block_end ?z (base s) \<le> unat bp" using assms(4) b0 by (simp add: block_end_def word_less_nat_alt)
  show ?thesis
  proof (rule that)
    show "L = ?as @ ?bs" by simp
    show "\<forall>a\<in>set (base s # ?as). block_end ?z a \<le> unat bp" unfolding list.set using as b by blast
    show "\<forall>b\<in>set ?bs. block_end ?z bp \<le> unat b" using bs by blast
  qed
qed

lemma sorted_less: "sorted_wrt (below z) xs \<Longrightarrow> sorted_wrt (<) xs"
  by (rule sorted_wrt_mono_rel [where P = "below z"]) (auto dest: below_less)

lemma free_find_place:
  assumes ok: "heap_ok s (as @ bs)" and as: "\<forall>a\<in>set (base s # as). a < bp" and bs: "\<forall>b\<in>set bs. bp < b"
  shows "free_find s bp (freep s) = Some (last (base s # as))"
proof -
  let ?C = "base s # as @ bs" and ?n = "hd (bs @ [base s])"
  have so: "sorted_wrt (<) ?C" using ok unfolding heap_ok_def by (intro sorted_less) blast
  have pth: "path (hptr s) (base s) (as @ bs) (base s)" and f: "freep s \<in> set ?C" using ok by (simp_all add: heap_ok_def)
  have pa: "path (hptr s) (base s) as ?n" using pth by (cases bs) (simp_all add: path_append)
  have lst: "bp < ?n \<or> ?n \<le> last (x # xs)" if "sorted_wrt (<) (x # xs)" "base s \<le> x" for x xs
  proof (cases bs)
    case Nil
    have "last (x # xs) \<in> set (x # xs)" by (rule last_in_set) simp
    then have "x \<le> last (x # xs)" using that(1) by auto
    then have "base s \<le> last (x # xs)" using that(2) by (rule order.trans [rotated])
    then show ?thesis using Nil by simp
  next
    case (Cons b bs')
    then show ?thesis using bs by simp
  qed
  have here: "free_find s bp (base s) = Some (last (base s # as))"
  proof (rule find_forward [OF pa])
    show "sorted_wrt (<) (base s # as)" using so by (simp add: sorted_wrt_append)
    then show "bp < ?n \<or> ?n \<le> last (base s # as)" by (rule lst) simp
  qed (rule as)
  consider "freep s = base s" | us vs where "as = us @ freep s # vs" | us vs where "bs = us @ freep s # vs"
    using f by (auto dest: split_list)
  then show ?thesis
  proof cases
    case 1
    then show ?thesis using here by simp
  next
    case 2
    have so': "sorted_wrt (<) (freep s # vs)" "base s \<le> freep s" using so 2 by (auto simp: sorted_wrt_append)
    have "free_find s bp (freep s) = Some (last (freep s # vs))"
    proof (rule find_forward)
      show "path (hptr s) (freep s) vs ?n" using pa 2 by (simp add: path_append)
      show "bp < ?n \<or> ?n \<le> last (freep s # vs)" by (rule lst [OF so'])
      show "\<forall>a\<in>set (freep s # vs). a < bp" using as 2 by simp
    qed (rule so')
    then show ?thesis using 2 by simp
  next
    case 3
    have "free_find s bp (freep s) = free_find s bp (base s)"
    proof (rule find_wrap)
      show "path (hptr s) (freep s) vs (base s)" using pth 3 by (simp add: path_append flip: append_assoc)
      show "sorted_wrt (<) (freep s # vs)" using so 3 by (simp add: sorted_wrt_append)
      show "\<forall>a\<in>set (freep s # vs). bp < a" using bs 3 by simp
      show "base s < bp" using as by simp
    qed
    then show ?thesis using here by simp
  qed
qed

section \<open>Giving a block back\<close>

lemma unat_block_end:
  assumes "block_end z a < 2 ^ 32"
  shows "unat (a + HDR * z a) = block_end z a"
proof -
  have "8 * unat (z a) < 2 ^ 32" using assms by (simp add: block_end_def)
  then have "unat (HDR * z a) = 8 * unat (z a)" by (simp add: unat_word_ariths)
  then show ?thesis using assms by (simp add: block_end_def unat_word_ariths)
qed

lemma block_end_upd: "block_end (z(a := v)) b = (if b = a then unat a + 8 * unat v else block_end z b)"
  by (simp add: block_end_def)

lemma bytes_join:
  assumes "unat a \<le> block_end z a" and "block_end z a = unat b"
  shows "{unat a ..< block_end z b} = bytes_of z a \<union> bytes_of z b"
  using assms by (auto simp: bytes_of_def block_end_def)

text \<open>A block that is free or about to be given back, between the free blocks \<open>as\<close> and \<open>bs\<close>.\<close>

definition fits_between :: "heap \<Rightarrow> uint list \<Rightarrow> uint \<Rightarrow> uint list \<Rightarrow> bool" where
  "fits_between s as bp bs \<longleftrightarrow> heap_ok s (as @ bs) \<and> 0 < hsize s bp \<and> block_end (hsize s) bp \<le> unat (brk s) \<and>
     (\<forall>a\<in>set (base s # as). block_end (hsize s) a \<le> unat bp) \<and> base s \<noteq> bp \<and> (\<forall>b\<in>set bs. block_end (hsize s) bp \<le> unat b)"

lemma fits_betweenD:
  assumes "fits_between s as bp bs"
  shows "bp \<notin> set (base s # as)" "bp \<notin> set bs" "\<forall>a\<in>set (base s # as). a < bp" "\<forall>b\<in>set bs. bp < b" "distinct (base s # as @ bs)"
    "path (hptr s) (base s) as (hd (bs @ [base s]))" "hptr s (last (base s # as)) = hd (bs @ [base s])"
    "block_end (hsize s) bp < 2 ^ 32"
proof -
  have ok: "heap_ok s (as @ bs)" "0 < hsize s bp" "\<forall>a\<in>set (base s # as). block_end (hsize s) a \<le> unat bp" "base s \<noteq> bp"
      "\<forall>b\<in>set bs. block_end (hsize s) bp \<le> unat b" "block_end (hsize s) bp \<le> unat (brk s)"
    using assms by (simp_all add: fits_between_def)
  have pos: "0 < hsize s a" if "a \<in> set (as @ bs)" for a using ok(1) that unfolding heap_ok_def by blast
  show lo: "\<forall>a\<in>set (base s # as). a < bp"
  proof
    fix a assume a: "a \<in> set (base s # as)"
    then have le: "block_end (hsize s) a \<le> unat bp" using ok(3) by blast
    show "a < bp"
    proof (cases "a = base s")
      case True
      then have "unat a \<le> unat bp" "unat a \<noteq> unat bp" using le ok(4) by (simp_all add: block_end_def word_unat_eq_iff)
      then show ?thesis by (simp add: word_less_nat_alt)
    next
      case False
      then have "0 < hsize s a" using a pos [of a] by auto
      then show ?thesis using le by (simp add: block_end_def word_less_nat_alt)
    qed
  qed
  show hi: "\<forall>b\<in>set bs. bp < b"
    using ok(2,5) by (fastforce simp: block_end_def word_less_nat_alt)
  show "bp \<notin> set (base s # as)" "bp \<notin> set bs" using lo hi by auto
  show "distinct (base s # as @ bs)" using ok(1) below_distinct unfolding heap_ok_def by blast
  show p: "path (hptr s) (base s) as (hd (bs @ [base s]))" using ok(1) unfolding heap_ok_def by (cases bs) (auto simp: path_append)
  show "hptr s (last (base s # as)) = hd (bs @ [base s])" using p by (rule path_next)
  have "unat (brk s) \<le> 2 ^ 31" using ok(1) by (simp add: heap_ok_def)
  then show "block_end (hsize s) bp < 2 ^ 32" using ok(6) by simp
qed

lemma path_head: "path h x xs y \<Longrightarrow> h x = hd (xs @ [y])"
  by (cases xs) simp_all

lemma path_from: "path h b xs y \<Longrightarrow> a \<notin> set xs \<Longrightarrow> path (h(a := h b)) a xs y"
  by (cases xs) (simp_all add: path_upd)

lemma unat_add_small: "unat (a :: uint) + unat b < 2 ^ 32 \<Longrightarrow> unat (a + b) = unat a + unat b"
  by (simp add: unat_word_ariths)

lemma join_next_ok:
  assumes fb: "fits_between s as bp bs"
  obtains bs' m where "join_next bp (last (base s # as)) s = set_ptr bp (hd (bs' @ [base s])) (set_size bp m s)"
    "suffix bs' bs" "path ((hptr s)(bp := hd (bs' @ [base s]))) bp bs' (base s)" "0 < m" "unat bp + 8 * unat m \<le> unat (brk s)"
    "\<forall>b\<in>set bs'. unat bp + 8 * unat m < unat b" "unat (hsize s bp) \<le> unat m"
    "{unat bp ..< unat bp + 8 * unat m} \<union> (\<Union>b\<in>set bs'. bytes_of (hsize s) b) = bytes_of (hsize s) bp \<union> (\<Union>b\<in>set bs. bytes_of (hsize s) b)"
proof -
  note D = fits_betweenD [OF fb]
  let ?p = "last (base s # as)"
  have ok: "heap_ok s (as @ bs)" "0 < hsize s bp" "\<forall>b\<in>set bs. block_end (hsize s) bp \<le> unat b" "block_end (hsize s) bp \<le> unat (brk s)"
    using fb by (simp_all add: fits_between_def)
  have e: "unat (bp + HDR * hsize s bp) = block_end (hsize s) bp" by (rule unat_block_end [OF D(8)])
  have idem: "set_size bp (hsize s bp) s = s" by (simp add: set_size_def)
  show ?thesis
  proof (cases bs)
    case Nil
    have "unat (base s) < unat bp" using D(3) by (simp add: word_less_nat_alt)
    then have "bp + HDR * hsize s bp \<noteq> base s" using e by (auto simp: block_end_def)
    then have "join_next bp ?p s = set_ptr bp (hd ([] @ [base s])) (set_size bp (hsize s bp) s)"
      using D(7) Nil by (simp add: join_next_def idem)
    then show ?thesis by (rule that) (use ok Nil in \<open>auto simp: block_end_def bytes_of_def\<close>)
  next
    case (Cons b cs)
    have pb: "path (hptr s) b cs (base s)" using ok(1) Cons by (simp add: heap_ok_def path_append)
    have bcs: "sorted_wrt (below (hsize s)) (b # cs)" using ok(1) Cons by (simp add: heap_ok_def sorted_wrt_append)
    have bb: "0 < hsize s b" "block_end (hsize s) b \<le> unat (brk s)" "unat (brk s) \<le> 2 ^ 31" using ok(1) Cons by (simp_all add: heap_ok_def)
    show ?thesis
    proof (cases "bp + HDR * hsize s bp = b")
      case True
      then have eb: "block_end (hsize s) bp = unat b" using e by simp
      let ?m = "hsize s bp + hsize s b"
      have m: "unat ?m = unat (hsize s bp) + unat (hsize s b)"
        using eb bb by (intro unat_add_small) (simp add: block_end_def)
      have em: "unat bp + 8 * unat ?m = block_end (hsize s) b" using eb m by (simp add: block_end_def)
      have nb: "b \<noteq> bp" using D(2) Cons by auto
      have hb: "hptr s b = hd (cs @ [base s])" using pb by (rule path_head)
      show ?thesis
      proof (rule that)
        show "join_next bp ?p s = set_ptr bp (hd (cs @ [base s])) (set_size bp ?m s)"
          using D(7) Cons True hb by (simp add: join_next_def Let_def set_size_def)
        show "suffix cs bs" using Cons by (simp add: suffix_def)
        show "path ((hptr s)(bp := hd (cs @ [base s]))) bp cs (base s)" using path_from [OF pb, of bp] D(2) Cons hb by simp
        show "unat (hsize s bp) \<le> unat ?m" using m by simp
        show "0 < ?m" using m ok(2) by (simp add: word_less_nat_alt)
        show "unat bp + 8 * unat ?m \<le> unat (brk s)" using em bb by simp
        show "\<forall>c\<in>set cs. unat bp + 8 * unat ?m < unat c" using em bcs by (auto simp: below_def)
        show "{unat bp..<unat bp + 8 * unat ?m} \<union> (\<Union>b\<in>set cs. bytes_of (hsize s) b) = bytes_of (hsize s) bp \<union> (\<Union>b\<in>set bs. bytes_of (hsize s) b)"
          using bytes_join [OF _ eb] em Cons by (auto simp: block_end_def)
      qed
    next
      case False
      then have lt: "block_end (hsize s) bp < unat b" using ok(3) e Cons by (auto simp: order.strict_iff_order word_unat_eq_iff)
      show ?thesis
      proof (rule that)
        show "join_next bp ?p s = set_ptr bp (hd (bs @ [base s])) (set_size bp (hsize s bp) s)"
          using D(7) Cons False by (simp add: join_next_def idem)
        show "path ((hptr s)(bp := hd (bs @ [base s]))) bp bs (base s)" using pb D(2) Cons by (simp add: path_upd)
        show "\<forall>c\<in>set bs. unat bp + 8 * unat (hsize s bp) < unat c"
          using lt bcs Cons by (fastforce simp: block_end_def below_def)
      qed (use ok Cons in \<open>auto simp: block_end_def bytes_of_def\<close>)
    qed
  qed
qed

lemma sorted_below_cong: "(\<And>a. a \<in> set xs \<Longrightarrow> z' a = z a) \<Longrightarrow> sorted_wrt (below z') xs = sorted_wrt (below z) xs"
  by (induction xs) (auto simp: below_def block_end_def)

lemma sorted_below_upd: "a \<notin> set xs \<Longrightarrow> sorted_wrt (below (z(a := v))) xs = sorted_wrt (below z) xs"
  by (rule sorted_below_cong) auto

text \<open>What a change of the free list leaves alone: the header of a block outside of the free bytes.\<close>

definition keeps_headers :: "nat set \<Rightarrow> heap \<Rightarrow> heap \<Rightarrow> bool" where
  "keeps_headers F s t \<longleftrightarrow> base t = base s \<and> (\<forall>a. unat a \<notin> F \<longrightarrow> hsize t a = hsize s a)"

lemma sizes_upd [simp]:
  "hsize (set_ptr a v s) = hsize s" "hptr (set_size a v s) = hptr s" "hptr (set_ptr a v s) = (hptr s)(a := v)"
  "hsize (set_size a v s) = (hsize s)(a := v)" "base (set_ptr a v s) = base s" "base (set_size a v s) = base s"
  "brk (set_ptr a v s) = brk s" "brk (set_size a v s) = brk s" "freep (set_ptr a v s) = freep s" "freep (set_size a v s) = freep s"
  by (simp_all add: set_ptr_def set_size_def)

lemma hd_path: "path h x xs y \<Longrightarrow> xs \<noteq> [] \<Longrightarrow> path h (hd xs) (tl xs) y"
  by (cases xs) simp_all

lemma path_through: "path h x xs (hd (ys @ [y])) \<Longrightarrow> (ys \<noteq> [] \<Longrightarrow> path h (hd ys) (tl ys) y) \<Longrightarrow> path h x (xs @ ys) y"
  by (cases ys) (simp_all add: path_append)

text \<open>The situation after the block has been joined with its successor: \<open>m\<close> is its size now, \<open>bs\<close> the blocks behind it.\<close>

definition joinable :: "heap \<Rightarrow> uint list \<Rightarrow> uint \<Rightarrow> uint \<Rightarrow> uint list \<Rightarrow> bool" where
  "joinable s as bp m bs \<longleftrightarrow> sorted_wrt (below (hsize s)) (base s # as @ bs) \<and> hsize s (base s) = 0 \<and>
     (\<forall>a\<in>set (as @ bs). 0 < hsize s a \<and> block_end (hsize s) a \<le> unat (brk s)) \<and> 0 < base s \<and> base s < brk s \<and> unat (brk s) \<le> 2 ^ 31 \<and>
     (\<forall>a\<in>set (base s # as). block_end (hsize s) a \<le> unat bp \<and> a \<noteq> bp) \<and> bp \<notin> set bs \<and>
     (\<exists>y. path (hptr s) (base s) as y) \<and> path ((hptr s)(bp := hd (bs @ [base s]))) bp bs (base s) \<and>
     0 < m \<and> unat bp + 8 * unat m \<le> unat (brk s) \<and> (\<forall>b\<in>set bs. unat bp + 8 * unat m < unat b)"

lemma joinableD:
  assumes "joinable s as bp m bs"
  shows "sorted_wrt (below (hsize s)) (base s # as)" "sorted_wrt (below (hsize s)) bs" "\<forall>a\<in>set (base s # as). \<forall>b\<in>set bs. below (hsize s) a b"
    "distinct (base s # as)" "bp \<notin> set (base s # as)" "last (base s # as) \<notin> set bs" "last (base s # as) \<noteq> bp" "last (base s # as) \<in> set (base s # as)"
proof -
  have so: "sorted_wrt (below (hsize s)) ((base s # as) @ bs)" using assms by (simp add: joinable_def)
  then show "sorted_wrt (below (hsize s)) (base s # as)" "sorted_wrt (below (hsize s)) bs" "\<forall>a\<in>set (base s # as). \<forall>b\<in>set bs. below (hsize s) a b"
    unfolding sorted_wrt_append by blast+
  have d: "distinct ((base s # as) @ bs)" using so by (rule below_distinct)
  then show "distinct (base s # as)" unfolding distinct_append by blast
  show l: "last (base s # as) \<in> set (base s # as)" by (rule last_in_set) simp
  then show "last (base s # as) \<notin> set bs" using d unfolding distinct_append by blast
  show n: "bp \<notin> set (base s # as)" using assms unfolding joinable_def by blast
  then show "last (base s # as) \<noteq> bp" using l by metis
qed

lemma below_last:
  assumes "sorted_wrt (below z) (x # xs)" and "a \<in> set (x # xs)" and "a \<noteq> last (x # xs)"
  shows "below z a (last (x # xs))"
  using assms
proof (induction xs arbitrary: x a)
  case (Cons y ys)
  then show ?case by (cases "a = x") auto
qed simp

lemma join_apart:
  assumes jn: "joinable s as bp m bs" and ne: "last (base s # as) + HDR * hsize s (last (base s # as)) \<noteq> bp"
  defines "t \<equiv> (set_ptr (last (base s # as)) bp (set_ptr bp (hd (bs @ [base s])) (set_size bp m s)))\<lparr>freep := last (base s # as)\<rparr>"
  shows "heap_ok t (as @ bp # bs)"
proof -
  note D = joinableD [OF jn]
  define p where "p = last (base s # as)"
  let ?z = "hsize s"
  have j: "\<forall>a\<in>set (base s # as). block_end ?z a \<le> unat bp" "0 < m" "unat bp + 8 * unat m \<le> unat (brk s)" "\<forall>b\<in>set bs. unat bp + 8 * unat m < unat b"
    "bp \<notin> set bs" "path ((hptr s)(bp := hd (bs @ [base s]))) bp bs (base s)"
    using jn unfolding joinable_def by blast+
  have "block_end ?z p \<le> unat bp" using j(1) D(8) by (simp add: p_def)
  moreover have "block_end ?z p \<noteq> unat bp"
  proof
    assume e: "block_end ?z p = unat bp"
    have "unat bp < 2 ^ 32" using unsigned_less [of bp] by simp
    then have "unat (p + HDR * ?z p) = unat bp" using unat_block_end [of ?z p] e by simp
    then show False using ne by (simp add: p_def word_unat_eq_iff)
  qed
  ultimately have lt: "block_end ?z p < unat bp" by simp
  have "below ?z a bp" if "a \<in> set (base s # as)" for a
    using below_last [OF D(1) that] lt unfolding p_def [symmetric] by (cases "a = p") (simp_all add: below_def block_end_def)
  moreover have "sorted_wrt (below (?z(bp := m))) (base s # as) = sorted_wrt (below ?z) (base s # as)"
    "sorted_wrt (below (?z(bp := m))) bs = sorted_wrt (below ?z) bs"
    by (rule sorted_below_upd [OF D(5)], rule sorted_below_upd [OF j(5)])
  ultimately have "sorted_wrt (below (?z(bp := m))) ((base s # as) @ bp # bs)"
    using D(1,2,3,5) j(4) unfolding sorted_wrt_append by (auto simp: below_def block_end_upd)
  moreover have "path (hptr t) (base s) (as @ bp # bs) (base s)"
  proof -
    obtain y where "path (hptr s) (base s) as y" using jn unfolding joinable_def by blast
    then have "path ((hptr s)(bp := hd (bs @ [base s]))) (base s) as y" using D(5) by (simp add: path_upd)
    then have "path (hptr t) (base s) as bp" unfolding t_def using path_upd_last [OF _ D(4)] by simp
    moreover have "path (hptr t) bp bs (base s)" using j(6) D(6,7) unfolding t_def by (simp add: path_upd)
    ultimately show ?thesis by (simp add: path_append)
  qed
  ultimately show ?thesis
    using jn D(5,8) unfolding heap_ok_def joinable_def t_def by (auto simp: block_end_upd)
qed

lemma join_merge:
  assumes jn: "joinable s as bp m bs" and eq: "last (base s # as) + HDR * hsize s (last (base s # as)) = bp"
  defines "t \<equiv> (set_ptr (last (base s # as)) (hd (bs @ [base s])) (set_size (last (base s # as)) (hsize s (last (base s # as)) + m)
    (set_ptr bp (hd (bs @ [base s])) (set_size bp m s))))\<lparr>freep := last (base s # as)\<rparr>"
  shows "heap_ok t (as @ bs)" "as \<noteq> []" "block_end (hsize s) (last as) = unat bp" "block_end (hsize t) (last as) = unat bp + 8 * unat m"
proof -
  note D = joinableD [OF jn]
  let ?z = "hsize s"
  have j: "\<forall>a\<in>set (base s # as). block_end ?z a \<le> unat bp" "0 < m" "unat bp + 8 * unat m \<le> unat (brk s)" "\<forall>b\<in>set bs. unat bp + 8 * unat m < unat b"
    "bp \<notin> set bs" "path ((hptr s)(bp := hd (bs @ [base s]))) bp bs (base s)" "?z (base s) = 0" "unat (brk s) \<le> 2 ^ 31"
    using jn unfolding joinable_def by blast+
  show ne: "as \<noteq> []" using eq j(7) D(5) by auto
  define p where "p = last as"
  have p: "last (base s # as) = p" using ne by (simp add: p_def)
  note Dp = D(6,7,8) [unfolded p] and eqp = eq [unfolded p]
  have "block_end ?z p \<le> unat bp" using j(1) Dp(3) by blast
  moreover have "unat bp < 2 ^ 32" using unsigned_less [of bp] by simp
  ultimately have e: "block_end ?z p = unat bp" using unat_block_end [of ?z p] eqp by simp
  then show "block_end (hsize s) (last as) = unat bp" by (simp add: p_def)
  have m: "unat (?z p + m) = unat (?z p) + unat m" using e j(3,8) by (intro unat_add_small) (simp add: block_end_def)
  then have en: "unat p + 8 * unat (?z p + m) = unat bp + 8 * unat m" using e by (simp add: block_end_def)
  have z: "hsize t = (?z(bp := m))(p := ?z p + m)" unfolding t_def p by simp
  then show "block_end (hsize t) (last as) = unat bp + 8 * unat m" using en by (simp add: block_end_upd p_def)
  define cs where "cs = butlast (base s # as)"
  have C: "base s # as = cs @ [p]" using p by (metis append_butlast_last_id cs_def list.distinct(1))
  have "sorted_wrt (below ?z) (cs @ [p])" "distinct (cs @ [p])" "bp \<notin> set (cs @ [p])" using D(1,4,5) unfolding C by blast+
  then have cs: "sorted_wrt (below ?z) cs" "\<forall>a\<in>set cs. below ?z a p" "p \<notin> set cs" "bp \<notin> set cs" by (auto simp: sorted_wrt_append)
  have "sorted_wrt (below (hsize t)) cs" "sorted_wrt (below (hsize t)) bs"
    using cs D(2) Dp(1) j(5) unfolding z by (simp_all add: sorted_below_upd)
  moreover have "below (hsize t) a b" if "a \<in> set cs" "b \<in> set bs \<or> b = p" for a b
  proof -
    have "a \<in> set (base s # as)" using that(1) unfolding C by simp
    then have "below ?z a b" using that cs(2) D(3) by blast
    moreover have "hsize t a = ?z a" using that(1) cs(3,4) unfolding z by auto
    ultimately show ?thesis by (simp add: below_def block_end_def)
  qed
  moreover have "\<forall>b\<in>set bs. below (hsize t) p b" using j(4) en unfolding z by (simp add: below_def block_end_upd)
  ultimately have "sorted_wrt (below (hsize t)) ((cs @ [p]) @ bs)" unfolding sorted_wrt_append by auto
  moreover have "path (hptr t) (base s) (as @ bs) (base s)"
  proof (rule path_through)
    obtain y where "path (hptr s) (base s) as y" using jn unfolding joinable_def by blast
    then have "path ((hptr s)(bp := hd (bs @ [base s]))) (base s) as y" using D(5) by (simp add: path_upd)
    then show "path (hptr t) (base s) as (hd (bs @ [base s]))" unfolding t_def using path_upd_last [OF _ D(4)] by simp
    assume "bs \<noteq> []"
    then have "path ((hptr s)(bp := hd (bs @ [base s]))) (hd bs) (tl bs) (base s)" using hd_path [OF j(6)] by simp
    moreover have "p \<notin> set (hd bs # tl bs)" using Dp(1) \<open>bs \<noteq> []\<close> by simp
    ultimately show "path (hptr t) (hd bs) (tl bs) (base s)" unfolding t_def p by (simp add: path_upd)
  qed
  moreover have "hsize t (base s) = 0"
  proof -
    have "p \<noteq> base s" using last_in_set [OF ne] D(4) by (auto simp: p_def)
    then show ?thesis using j(7) D(5) unfolding z by auto
  qed
  moreover have "0 < hsize t a \<and> block_end (hsize t) a \<le> unat (brk s)" if "a \<in> set (as @ bs)" for a
  proof (cases "a = p")
    case True
    then show ?thesis using en m j(2,3) unfolding z by (simp add: block_end_upd word_less_nat_alt)
  next
    case False
    then have "hsize t a = ?z a" using that D(5) j(5) unfolding z by auto
    then show ?thesis using jn that unfolding joinable_def by (simp add: block_end_def)
  qed
  moreover have "base t = base s" "brk t = brk s" "freep t = p" unfolding t_def p by simp_all
  ultimately show "heap_ok t (as @ bs)"
    using jn Dp(3) unfolding heap_ok_def joinable_def C [symmetric] by auto
qed

lemma UN_grow:
  assumes "p \<in> A" and "\<And>a. a \<in> A \<Longrightarrow> a \<noteq> p \<Longrightarrow> f a = g a" and "f p = g p \<union> X"
  shows "(\<Union>a\<in>A. f a) = (\<Union>a\<in>A. g a) \<union> X"
proof -
  have d: "(\<Union>a\<in>A - {p}. f a) = (\<Union>a\<in>A - {p}. g a)" using assms(2) by (intro SUP_cong) auto
  have "(\<Union>a\<in>A. h a) = h p \<union> (\<Union>a\<in>A - {p}. h a)" for h :: "'a \<Rightarrow> 'b set" using assms(1) by blast
  note h = this
  have "(\<Union>a\<in>A. f a) = f p \<union> (\<Union>a\<in>A - {p}. g a)" unfolding h [of f] by (simp only: d)
  also have "\<dots> = (g p \<union> (\<Union>a\<in>A - {p}. g a)) \<union> X" unfolding assms(3) by (simp only: Un_ac)
  finally show ?thesis unfolding h [of g, symmetric] .
qed

lemma u_free_ok:
  assumes fb: "fits_between s as bp bs"
  shows "\<exists>t L. u_free (bp + HDR) s = Some t \<and> heap_ok t L \<and> free_bytes t L = free_bytes s (as @ bs) \<union> bytes_of (hsize s) bp \<and>
    brk t = brk s \<and> keeps_headers (free_bytes t L) s t \<and> (\<exists>a\<in>set L. hsize s bp \<le> hsize t a)"
proof -
  note D = fits_betweenD [OF fb]
  let ?p = "last (base s # as)" and ?z = "hsize s"
  have ok: "heap_ok s (as @ bs)" "0 < ?z bp" "\<forall>a\<in>set (base s # as). block_end ?z a \<le> unat bp"
    using fb unfolding fits_between_def by blast+
  obtain cs m where j: "join_next bp ?p s = set_ptr bp (hd (cs @ [base s])) (set_size bp m s)" "suffix cs bs"
    "path ((hptr s)(bp := hd (cs @ [base s]))) bp cs (base s)" "0 < m" "unat bp + 8 * unat m \<le> unat (brk s)"
    "\<forall>b\<in>set cs. unat bp + 8 * unat m < unat b" "unat (?z bp) \<le> unat m"
    "{unat bp ..< unat bp + 8 * unat m} \<union> (\<Union>b\<in>set cs. bytes_of ?z b) = bytes_of ?z bp \<union> (\<Union>b\<in>set bs. bytes_of ?z b)"
    using join_next_ok [OF fb] .
  obtain ds where ds: "bs = ds @ cs" using j(2) by (auto simp: suffix_def)
  have jn: "joinable s as bp m cs"
    unfolding joinable_def using ok(1,3) D(1,2,6) j(3-6) ds unfolding heap_ok_def by (auto simp: sorted_wrt_append)
  note J = joinableD [OF jn]
  have find: "free_find s bp (freep s) = Some ?p" by (rule free_find_place [OF ok(1) D(3,4)])
  then have free: "u_free (bp + HDR) s = Some ((join_prev bp ?p (join_next bp ?p s))\<lparr>freep := ?p\<rparr>)" by (simp add: u_free_def)
  show ?thesis
  proof (cases "?p + HDR * ?z ?p = bp")
    case False
    define t where "t = (set_ptr ?p bp (set_ptr bp (hd (cs @ [base s])) (set_size bp m s)))\<lparr>freep := ?p\<rparr>"
    have t: "u_free (bp + HDR) s = Some t" unfolding free j(1) t_def using False J(7) by (simp add: join_prev_def)
    have h: "heap_ok t (as @ bp # cs)" unfolding t_def by (rule join_apart [OF jn False])
    have z: "hsize t = ?z(bp := m)" and ba: "base t = base s" "brk t = brk s" by (simp_all add: t_def)
    have "free_bytes t (as @ bp # cs) = (\<Union>a\<in>set as. bytes_of ?z a) \<union> ({unat bp ..< unat bp + 8 * unat m} \<union> (\<Union>b\<in>set cs. bytes_of ?z b))"
      using D(1,2) ds unfolding free_bytes_def z by (auto simp: bytes_of_def block_end_upd split: if_splits)
    then have f: "free_bytes t (as @ bp # cs) = free_bytes s (as @ bs) \<union> bytes_of ?z bp" unfolding j(8) by (auto simp: free_bytes_def)
    have "unat bp \<in> bytes_of (hsize t) bp" using j(4) unfolding z by (simp add: bytes_of_def block_end_upd word_less_nat_alt)
    then have "keeps_headers (free_bytes t (as @ bp # cs)) s t" using z ba by (auto simp: keeps_headers_def free_bytes_def)
    moreover have "?z bp \<le> hsize t bp" using j(7) unfolding z by (simp add: word_le_nat_alt)
    ultimately show ?thesis using t h f ba by (metis in_set_conv_decomp)
  next
    case True
    define t where "t = (set_ptr ?p (hd (cs @ [base s])) (set_size ?p (?z ?p + m) (set_ptr bp (hd (cs @ [base s])) (set_size bp m s))))\<lparr>freep := ?p\<rparr>"
    have t: "u_free (bp + HDR) s = Some t" unfolding free j(1) t_def using True J(7) by (simp add: join_prev_def Let_def)
    note M = join_merge [OF jn True, folded t_def]
    define p where "p = last as"
    have p: "?p = p" "p \<in> set as" using M(2) by (simp_all add: p_def)
    have z: "hsize t = (?z(bp := m))(p := ?z p + m)" and ba: "base t = base s" "brk t = brk s" unfolding t_def p by simp_all
    have bp: "bytes_of (hsize t) p = bytes_of ?z p \<union> {unat bp ..< unat bp + 8 * unat m}"
      using M(3,4) unfolding bytes_of_def p_def [symmetric] by (auto simp: block_end_def)
    have same: "bytes_of (hsize t) a = bytes_of ?z a" if "a \<in> set (as @ cs)" "a \<noteq> p" for a
      using that D(1,2) ds unfolding z by (auto simp: bytes_of_def block_end_upd)
    have pcs: "p \<notin> set cs" using J(6) unfolding p(1) .
    have "free_bytes t (as @ cs) = (\<Union>a\<in>set as. bytes_of ?z a) \<union> ({unat bp ..< unat bp + 8 * unat m} \<union> (\<Union>b\<in>set cs. bytes_of ?z b))"
    proof -
      have "(\<Union>a\<in>set as. bytes_of (hsize t) a) = (\<Union>a\<in>set as. bytes_of ?z a) \<union> {unat bp ..< unat bp + 8 * unat m}"
        by (rule UN_grow [OF p(2)], rule same, simp_all add: bp)
      moreover have "(\<Union>b\<in>set cs. bytes_of (hsize t) b) = (\<Union>b\<in>set cs. bytes_of ?z b)" using same pcs by (intro SUP_cong refl) auto
      ultimately show ?thesis by (auto simp: free_bytes_def)
    qed
    then have f: "free_bytes t (as @ cs) = free_bytes s (as @ bs) \<union> bytes_of ?z bp" unfolding j(8) by (auto simp: free_bytes_def)
    have "unat p \<in> bytes_of (hsize t) p" "unat bp \<in> bytes_of (hsize t) p"
      using M(3,4) j(4) unfolding p_def [symmetric] by (auto simp: bytes_of_def block_end_def word_less_nat_alt)
    then have "keeps_headers (free_bytes t (as @ cs)) s t" using z ba p(2) by (auto simp: keeps_headers_def free_bytes_def)
    moreover have "?z bp \<le> hsize t p" using j(7) M(3,4) unfolding p_def [symmetric] by (simp add: block_end_def word_le_nat_alt)
    ultimately show ?thesis using t M(1) f ba p(2) by (metis Un_iff set_append)
  qed
qed

section \<open>Searching for a block\<close>

lemma path_map: "path h x xs y \<longleftrightarrow> map h (x # xs) = xs @ [y]"
  by (induction xs arbitrary: x) auto

lemma path_inj: "path h x xs y \<Longrightarrow> distinct (xs @ [y]) \<Longrightarrow> inj_on h (set (x # xs))"
  unfolding path_map by (metis distinct_map)

lemma malloc_scan:
  assumes "path (hptr s) pr xs q" and "\<forall>x\<in>set xs. hsize s x < n \<and> x \<noteq> freep s"
  shows "malloc_loop sbrk n pr (hd (xs @ [q])) s = malloc_loop sbrk n (last (pr # xs)) q s"
  using assms
proof (induction xs arbitrary: pr)
  case (Cons x xs)
  have "malloc_loop sbrk n pr x s = malloc_loop sbrk n x (hptr s x) s" using Cons.prems(2) by (subst malloc_loop.simps) auto
  also have "hptr s x = hd (xs @ [q])" using Cons.prems(1) by (auto dest: path_head)
  finally show ?case using Cons by simp
qed simp

lemma heap_cycle:
  assumes "heap_ok s L"
  obtains ws where "path (hptr s) (freep s) ws (freep s)" "set (ws @ [freep s]) = set (base s # L)" "distinct (ws @ [freep s])"
proof -
  have p: "path (hptr s) (base s) L (base s)" and f: "freep s \<in> set (base s # L)" using assms unfolding heap_ok_def by blast+
  have d: "distinct (base s # L)" using assms below_distinct unfolding heap_ok_def by blast
  show ?thesis
  proof (cases "freep s = base s")
    case True
    then show ?thesis using that [of L] p d by auto
  next
    case False
    then obtain us vs where L: "L = us @ freep s # vs" using f by (auto dest: split_list)
    show ?thesis
    proof (rule that)
      show "path (hptr s) (freep s) (vs @ base s # us) (freep s)" using path_rotate p L by metis
    qed (use L d in auto)
  qed
qed

lemma malloc_fits:
  assumes ok: "heap_ok s L" and n: "0 < n" and a: "a \<in> set L" "n \<le> hsize s a"
  obtains pr q where "malloc_loop sbrk n (freep s) (hptr s (freep s)) s = Some (take_block n pr q s)" "q \<in> set L" "n \<le> hsize s q"
    "hptr s pr = q" "pr \<in> set (base s # L)"
proof -
  obtain ws where w: "path (hptr s) (freep s) ws (freep s)" "set (ws @ [freep s]) = set (base s # L)" "distinct (ws @ [freep s])"
    using heap_cycle [OF ok] .
  have "a \<in> set (ws @ [freep s])" using a(1) w(2) by auto
  then obtain xs q ys where x: "ws @ [freep s] = xs @ q # ys" "n \<le> hsize s q" "\<forall>x\<in>set xs. \<not> n \<le> hsize s x"
    using split_list_first_prop [of "ws @ [freep s]" "\<lambda>x. n \<le> hsize s x"] a(2) by blast
  have pq: "path (hptr s) (freep s) xs q"
  proof (cases ys rule: rev_cases)
    case Nil
    then show ?thesis using x(1) w(1) by simp
  next
    case (snoc zs z)
    then show ?thesis using x(1) w(1) by (simp add: path_append flip: append_assoc append_Cons)
  qed
  have fx: "freep s \<notin> set xs"
  proof (cases ys rule: rev_cases)
    case Nil
    then show ?thesis using x(1) w(3) by simp
  next
    case (snoc zs z)
    then have "z = freep s" using x(1) by (simp flip: append_assoc append_Cons)
    then show ?thesis using w(3) x(1) snoc by auto
  qed
  have q0: "hsize s (base s) = 0" using ok by (simp add: heap_ok_def)
  have small: "\<forall>x\<in>set xs. hsize s x < n \<and> x \<noteq> freep s" using x(3) fx by (metis linorder_not_le)
  have "hd (xs @ [q]) = hptr s (freep s)" using path_head [OF pq] by simp
  then have "malloc_loop sbrk n (freep s) (hptr s (freep s)) s = malloc_loop sbrk n (last (freep s # xs)) q s"
    using malloc_scan [OF pq, of n sbrk] small by simp
  also have "\<dots> = Some (take_block n (last (freep s # xs)) q s)" using x(2) by (subst malloc_loop.simps) simp
  finally show ?thesis
  proof (rule that)
    have "q \<in> set (base s # L)" using w(2) x(1) by (metis in_set_conv_decomp)
    then show "q \<in> set L" using x(2) q0 n by auto
    show "hptr s (last (freep s # xs)) = q" using pq by (rule path_next)
    have "last (freep s # xs) \<in> set (freep s # xs)" by (rule last_in_set) simp
    moreover have "set xs \<subseteq> set (ws @ [freep s])" unfolding x(1) by auto
    then have "set (freep s # xs) \<subseteq> set (ws @ [freep s])" by simp
    ultimately show "last (freep s # xs) \<in> set (base s # L)" unfolding w(2) by blast
  qed (rule x(2))
qed

lemma heap_disjoint:
  assumes "heap_ok s L" and "a \<in> set L" and "b \<in> set L" and "a \<noteq> b"
  shows "bytes_of (hsize s) a \<inter> bytes_of (hsize s) b = {}"
proof -
  have so: "sorted_wrt (below (hsize s)) L" using assms(1) by (simp add: heap_ok_def)
  then have "below (hsize s) a b \<or> below (hsize s) b a" using assms(2-4)
    by (induction L) auto
  then show ?thesis by (auto simp: below_def bytes_of_def)
qed

lemma free_bytes_remove:
  assumes "heap_ok s (as @ q # bs)"
  shows "free_bytes s (as @ bs) = free_bytes s (as @ q # bs) - bytes_of (hsize s) q"
proof -
  have "distinct (as @ q # bs)" using assms below_distinct unfolding heap_ok_def by (metis distinct.simps(2))
  then have "bytes_of (hsize s) a \<inter> bytes_of (hsize s) q = {}" if "a \<in> set (as @ bs)" for a
    using that by (intro heap_disjoint [OF assms]) auto
  then show ?thesis unfolding free_bytes_def by auto
qed

lemma take_whole:
  assumes ok: "heap_ok s (as @ q # bs)" and pr: "hptr s pr = q" "pr \<in> set (base s # as @ q # bs)"
  shows "heap_ok ((set_ptr pr (hptr s q) s)\<lparr>freep := pr\<rparr>) (as @ bs)"
proof -
  let ?C = "base s # as @ q # bs"
  have so: "sorted_wrt (below (hsize s)) ?C" and pth: "path (hptr s) (base s) (as @ q # bs) (base s)" using ok unfolding heap_ok_def by blast+
  have d: "distinct ?C" using so by (rule below_distinct)
  have pa: "path (hptr s) (base s) as q" "path (hptr s) q bs (base s)" using pth by (simp_all add: path_append)
  have "inj_on (hptr s) (set ?C)" using path_inj [OF pth] d by auto
  moreover have "hptr s (last (base s # as)) = q" using pa(1) by (rule path_next)
  moreover have l: "last (base s # as) \<in> set (base s # as)" by (rule last_in_set) simp
  then have "last (base s # as) \<in> set ?C" by auto
  ultimately have p: "pr = last (base s # as)" using pr by (metis inj_onD)
  have "path ((hptr s)(pr := hptr s q)) (base s) (as @ bs) (base s)"
  proof (rule path_through)
    have "distinct (base s # as)" using d by auto
    then show "path ((hptr s)(pr := hptr s q)) (base s) as (hd (bs @ [base s]))"
      using path_upd_last [OF pa(1)] path_head [OF pa(2)] unfolding p by simp
    assume "bs \<noteq> []"
    moreover have "pr \<notin> set bs" using l d unfolding p by auto
    ultimately show "path ((hptr s)(pr := hptr s q)) (hd bs) (tl bs) (base s)" using hd_path [OF pa(2)] by (simp add: path_upd)
  qed
  moreover have "pr \<in> set (base s # as @ bs)" using l unfolding p by auto
  moreover have "sorted_wrt (below (hsize s)) (base s # as @ bs)" using so by (auto simp: sorted_wrt_append)
  ultimately show ?thesis using ok unfolding heap_ok_def by auto
qed

lemma take_part:
  assumes ok: "heap_ok s (as @ q # bs)" and n: "0 < n" "n < hsize s q" and pr: "pr \<in> set (base s # as @ q # bs)"
  defines "bp \<equiv> q + HDR * (hsize s q - n)"
  defines "t \<equiv> (set_size bp n (set_size q (hsize s q - n) s))\<lparr>freep := pr\<rparr>"
  shows "heap_ok t (as @ q # bs)" "bytes_of (hsize s) q = bytes_of (hsize t) q \<union> bytes_of (hsize t) bp"
    "bytes_of (hsize t) q \<inter> bytes_of (hsize t) bp = {}" "bp \<notin> set (base s # as @ q # bs)" "q < bp"
proof -
  let ?C = "base s # as @ q # bs" and ?z = "hsize s"
  have so: "sorted_wrt (below ?z) ?C" and b0: "?z (base s) = 0" and br: "block_end ?z q \<le> unat (brk s)" "unat (brk s) \<le> 2 ^ 31"
    using ok unfolding heap_ok_def by auto
  have "unat (?z q - n) = unat (?z q) - unat n" using n(2) by (intro unat_sub) simp
  then have m: "unat (?z q - n) = unat (?z q) - unat n" "unat n < unat (?z q)" "0 < unat n" using n by (simp_all add: word_less_nat_alt)
  have "block_end (?z(q := ?z q - n)) q < 2 ^ 32" using br m by (simp add: block_end_def)
  then have bp: "unat bp = unat q + 8 * (unat (?z q) - unat n)" unfolding bp_def using unat_block_end [of "?z(q := ?z q - n)" q] m by (simp add: block_end_upd)
  then have e: "unat bp + 8 * unat n = block_end ?z q" using m by (simp add: block_end_def)
  show lt: "q < bp" using bp m by (simp add: word_less_nat_alt)
  have apart: "c < q \<and> below ?z c q \<or> bp < c \<and> below ?z q c" if "c \<in> set ?C" "c \<noteq> q" for c
  proof -
    have "below ?z c q \<or> below ?z q c" using so that by (auto simp: sorted_wrt_append)
    moreover have "bp < c" if "below ?z q c" using that e by (simp add: below_def word_less_nat_alt)
    ultimately show ?thesis using below_less by blast
  qed
  then show nb: "bp \<notin> set ?C" using lt by (metis less_asym less_irrefl)
  have z: "hsize t = ?z(q := ?z q - n, bp := n)" unfolding t_def by simp
  have zc: "hsize t c = ?z c" if "c \<in> set ?C" "c \<noteq> q" for c using that nb unfolding z by auto
  have "hsize t q = ?z q - n" "hsize t bp = n" using lt unfolding z by auto
  then have eq: "block_end (hsize t) q = unat bp" "block_end (hsize t) bp = block_end ?z q"
    unfolding block_end_def using m(1) bp e by (simp_all add: block_end_def)
  show "bytes_of ?z q = bytes_of (hsize t) q \<union> bytes_of (hsize t) bp" "bytes_of (hsize t) q \<inter> bytes_of (hsize t) bp = {}"
    using eq e bp unfolding bytes_of_def by (auto simp: block_end_def)
  have mono: "below (hsize t) c d" if "below ?z c d" "c \<in> set ?C" for c d
  proof (cases "c = q")
    case True
    then show ?thesis using that eq(1) e by (simp add: below_def)
  next
    case False
    then show ?thesis using that zc by (simp add: below_def block_end_def)
  qed
  have "sorted_wrt (below (hsize t)) ?C" using so by (rule sorted_wrt_mono_rel [rotated]) (rule mono)
  moreover have "hsize t (base s) = 0" using zc [of "base s"] b0 m by fastforce
  moreover have "0 < hsize t c \<and> block_end (hsize t) c \<le> unat (brk s)" if "c \<in> set (as @ q # bs)" for c
  proof (cases "c = q")
    case True
    then show ?thesis using eq(1) e br m lt unfolding z by (simp add: word_less_nat_alt block_end_def)
  next
    case False
    then have "hsize t c = ?z c" using zc that by simp
    moreover have "0 < ?z c \<and> block_end ?z c \<le> unat (brk s)" using ok that unfolding heap_ok_def by blast
    ultimately show ?thesis by (simp add: block_end_def)
  qed
  ultimately show "heap_ok t (as @ q # bs)" using ok pr unfolding heap_ok_def by (simp add: t_def)
qed

text \<open>\<open>F\<close> were the free bytes; a block of \<open>n\<close> units at \<open>bp\<close> has been taken out of them, the free blocks are \<open>L\<close> now.\<close>

definition taken :: "nat set \<Rightarrow> uint \<Rightarrow> uint \<Rightarrow> heap \<Rightarrow> uint list \<Rightarrow> bool" where
  "taken F n bp t L \<longleftrightarrow> heap_ok t L \<and> hsize t bp = n \<and> bytes_of (hsize t) bp \<subseteq> F \<and> free_bytes t L = F - bytes_of (hsize t) bp \<and>
     base t < bp \<and> block_end (hsize t) bp \<le> unat (brk t)"

lemma header_free: "heap_ok s L \<Longrightarrow> a \<in> set L \<Longrightarrow> unat a \<in> bytes_of (hsize s) a \<and> bytes_of (hsize s) a \<subseteq> free_bytes s L"
  unfolding heap_ok_def by (auto simp: bytes_of_def block_end_def free_bytes_def word_less_nat_alt)

lemma take_block_ok:
  assumes ok: "heap_ok s L" and n: "0 < n" "n \<le> hsize s q" and q: "q \<in> set L" and pr: "hptr s pr = q" "pr \<in> set (base s # L)"
  shows "\<exists>bp t L'. take_block n pr q s = (bp + HDR, t) \<and> taken (free_bytes s L) n bp t L' \<and> brk t = brk s \<and> keeps_headers (free_bytes s L) s t"
proof -
  obtain as bs where L: "L = as @ q # bs" using split_list [OF q] by blast
  note h = header_free [OF ok q]
  have q2: "base s < q" "block_end (hsize s) q \<le> unat (brk s)" using ok q unfolding heap_ok_def by (auto dest: below_less)
  show ?thesis
  proof (cases "hsize s q = n")
    case True
    let ?t = "(set_ptr pr (hptr s q) s)\<lparr>freep := pr\<rparr>"
    have "heap_ok ?t (as @ bs)" using take_whole ok pr L by blast
    moreover have "free_bytes ?t (as @ bs) = free_bytes s L - bytes_of (hsize s) q"
      using free_bytes_remove ok unfolding L by (simp add: free_bytes_def)
    ultimately have "taken (free_bytes s L) n q ?t (as @ bs)" using h True q2 by (simp add: taken_def)
    moreover have "take_block n pr q s = (q + HDR, ?t)" using True by (simp add: take_block_def)
    ultimately show ?thesis by (intro exI [of _ q] exI [of _ ?t] exI [of _ "as @ bs"]) (simp add: keeps_headers_def)
  next
    case False
    then have lt: "n < hsize s q" using n(2) by simp
    define bp where "bp = q + HDR * (hsize s q - n)"
    define t where "t = (set_size bp n (set_size q (hsize s q - n) s))\<lparr>freep := pr\<rparr>"
    note P = take_part [OF ok [unfolded L] n(1) lt pr(2) [unfolded L], folded bp_def, folded t_def]
    have z: "hsize t = (hsize s)(q := hsize s q - n, bp := n)" by (simp add: t_def)
    have bn: "hsize t bp = n" unfolding z by simp
    have sub: "bytes_of (hsize t) bp \<subseteq> bytes_of (hsize s) q" unfolding P(2) by blast
    have "free_bytes s L = free_bytes s (as @ bs) \<union> bytes_of (hsize s) q" unfolding L free_bytes_def by auto
    moreover have "free_bytes t L = free_bytes s (as @ bs) \<union> bytes_of (hsize t) q"
    proof -
      have "distinct L" using ok below_distinct unfolding heap_ok_def by (metis distinct.simps(2))
      then have "hsize t a = hsize s a" if "a \<in> set (as @ bs)" for a using that P(4) unfolding z L by auto
      then show ?thesis unfolding free_bytes_def L by (auto simp: bytes_of_def block_end_def)
    qed
    moreover have "free_bytes s (as @ bs) \<inter> bytes_of (hsize t) bp = {}" using free_bytes_remove [OF ok [unfolded L]] sub by blast
    ultimately have "free_bytes t L = free_bytes s L - bytes_of (hsize t) bp" using P(2,3) by blast
    moreover have "base t < bp" "block_end (hsize t) bp \<le> unat (brk t)"
    proof -
      show "base t < bp" using q2(1) P(5) by (simp add: t_def)
      have "block_end (hsize t) bp - 1 \<in> bytes_of (hsize t) bp" using bn n(1) by (simp add: bytes_of_def block_end_def word_less_nat_alt)
      then have "block_end (hsize t) bp - 1 < block_end (hsize s) q" using sub by (auto simp: bytes_of_def)
      then show "block_end (hsize t) bp \<le> unat (brk t)" using q2(2) by (simp add: t_def)
    qed
    ultimately have "taken (free_bytes s L) n bp t L" using P(1) bn sub h L by (auto simp: taken_def)
    moreover have "take_block n pr q s = (bp + HDR, t)" using False by (simp add: take_block_def Let_def bp_def t_def)
    moreover have "unat bp \<in> free_bytes s L"
    proof -
      have "unat bp \<in> bytes_of (hsize t) bp" using bn n(1) by (simp add: bytes_of_def block_end_def word_less_nat_alt)
      then show ?thesis using sub h by blast
    qed
    then have "keeps_headers (free_bytes s L) s t" using h unfolding keeps_headers_def z by (auto simp: t_def)
    ultimately show ?thesis by (intro exI [of _ bp] exI [of _ t] exI [of _ L]) (simp add: t_def)
  qed
qed

section \<open>More memory\<close>

text \<open>What the kernel promises of \<^verbatim>\<open>sbrk\<close>: it refuses, or returns the old end of the memory, which has grown by the amount asked for.\<close>

definition sbrk_ok :: "sbrk_service \<Rightarrow> bool" where
  "sbrk_ok sbrk \<longleftrightarrow> (\<forall>n s. 0 < n \<longrightarrow> sbrk n s = (-1, s) \<or>
     uint (brk s) + n \<le> 2 ^ 31 \<and> sbrk n s = (brk s, s\<lparr>brk := brk s + word_of_int n\<rparr>))"

lemma heap_grown:
  assumes "heap_ok s L" and "uint (brk s) + int (8 * unat nu) \<le> 2 ^ 31" and "0 < nu"
  defines "u \<equiv> set_size (brk s) nu (s\<lparr>brk := brk s + word_of_int (int (8 * unat nu))\<rparr>)"
  shows "fits_between u L (brk s) []" "free_bytes u L = free_bytes s L" "bytes_of (hsize u) (brk s) = {unat (brk s) ..< unat (brk u)}"
    "unat (brk u) = unat (brk s) + 8 * unat nu"
proof -
  have "int (unat (brk s) + 8 * unat nu) \<le> int (2 ^ 31)" using assms(2) by simp
  then have b: "unat (brk s) + 8 * unat nu \<le> 2 ^ 31" by (simp only: of_nat_le_iff)
  show bu: "unat (brk u) = unat (brk s) + 8 * unat nu"
    using unat_block_end [of "\<lambda>_. nu" "brk s"] b by (simp add: u_def block_end_def)
  have z: "hsize u = (hsize s)(brk s := nu)" "base u = base s" by (simp_all add: u_def)
  have lt: "a < brk s" if "a \<in> set (base s # L)" for a
    using assms(1) that unfolding heap_ok_def by (auto simp: block_end_def word_less_nat_alt)
  then have n: "brk s \<notin> set (base s # L)" by blast
  have same: "block_end (hsize u) a = block_end (hsize s) a" if "a \<in> set (base s # L)" for a using that n unfolding z by (auto simp: block_end_upd)
  have "heap_ok u L"
    using assms(1) b bu same n sorted_below_upd [of "brk s" "base s # L" "hsize s" nu] unfolding heap_ok_def z
    by (auto simp: u_def word_less_nat_alt)
  moreover have "block_end (hsize u) (brk s) = unat (brk u)" using bu by (simp add: z block_end_upd)
  moreover have "block_end (hsize s) a \<le> unat (brk s)" if "a \<in> set (base s # L)" for a
    using assms(1) that unfolding heap_ok_def by (auto simp: block_end_def word_less_nat_alt)
  ultimately show "fits_between u L (brk s) []"
    using assms(3) same n unfolding fits_between_def by (auto simp: z)
  show "bytes_of (hsize u) (brk s) = {unat (brk s) ..< unat (brk u)}" using bu by (simp add: bytes_of_def z block_end_upd)
  show "free_bytes u L = free_bytes s L" using same by (simp add: free_bytes_def bytes_of_def)
qed

lemma heap_freep: "heap_ok s L \<Longrightarrow> freep s \<noteq> 0"
proof -
  assume ok: "heap_ok s L"
  have "base s \<le> freep s" using ok unfolding heap_ok_def by (auto intro: order.strict_implies_order below_less)
  moreover have "0 < base s" using ok by (simp add: heap_ok_def)
  ultimately show "freep s \<noteq> 0" by auto
qed

text \<open>A request that is not so large that its size in bytes leaves the range of \<^verbatim>\<open>int\<close>.\<close>

definition small_request :: "uint \<Rightarrow> bool" where
  "small_request n \<longleftrightarrow> 0 < n \<and> 8 * unat n < 2 ^ 31"

lemma sint_below: "k < 2 ^ 31 \<Longrightarrow> sint (of_nat k :: uint) = int k"
  by (simp add: signed_of_nat signed_take_bit_int_eq_self)

lemma morecore_ok:
  assumes ok: "heap_ok s L" and sb: "sbrk_ok sbrk" and n: "small_request n"
  obtains "morecore sbrk n s = Some (0, s)"
  | t L' a where "morecore sbrk n s = Some (freep t, t)" "heap_ok t L'" "a \<in> set L'" "n \<le> hsize t a"
      "free_bytes t L' = free_bytes s L \<union> {unat (brk s) ..< unat (brk t)}" "brk s \<le> brk t" "keeps_headers (free_bytes t L') s t"
proof -
  define nu where "nu = (if n < 4096 then 4096 else n)"
  have nu: "0 < nu" "n \<le> nu" "8 * unat nu < 2 ^ 31" using n by (auto simp: nu_def small_request_def)
  have "nu * HDR = of_nat (8 * unat nu)" by simp
  then have si: "sint (nu * HDR) = int (8 * unat nu)" using sint_below [OF nu(3)] by metis
  have pos: "0 < int (8 * unat nu)" using nu(1) by (simp add: word_less_def)
  consider "sbrk (int (8 * unat nu)) s = (-1, s)"
    | "uint (brk s) + int (8 * unat nu) \<le> 2 ^ 31" "sbrk (int (8 * unat nu)) s = (brk s, s\<lparr>brk := brk s + word_of_int (int (8 * unat nu))\<rparr>)"
    using sb pos unfolding sbrk_ok_def by blast
  then show ?thesis
  proof cases
    case 1
    then have "morecore sbrk n s = Some (0, s)" unfolding morecore_def nu_def [symmetric] Let_def si by simp
    then show ?thesis by (rule that(1))
  next
    case 2
    define u where "u = set_size (brk s) nu (s\<lparr>brk := brk s + word_of_int (int (8 * unat nu))\<rparr>)"
    note G = heap_grown [OF ok 2(1) nu(1), folded u_def]
    obtain t L' a where t: "u_free (brk s + HDR) u = Some t" "heap_ok t L'" "free_bytes t L' = free_bytes u L \<union> bytes_of (hsize u) (brk s)"
        "brk t = brk u" "keeps_headers (free_bytes t L') u t" "a \<in> set L'" "hsize u (brk s) \<le> hsize t a"
      using u_free_ok [OF G(1)] by auto
    have "brk s \<noteq> -1"
    proof
      assume "brk s = -1"
      moreover have "unat (brk s) \<le> 2 ^ 31" using ok by (simp add: heap_ok_def)
      ultimately show False by (simp add: unsigned_minus_1_eq_mask mask_eq_exp_minus_1)
    qed
    then have m: "morecore sbrk n s = Some (freep t, t)"
      unfolding morecore_def nu_def [symmetric] Let_def si 2(2) using t(1) by (simp add: u_def)
    have "hsize u (brk s) = nu" "base u = base s" by (simp_all add: u_def)
    moreover have f: "free_bytes t L' = free_bytes s L \<union> {unat (brk s) ..< unat (brk t)}" unfolding t(3) G(2,3) t(4) ..
    moreover have "unat (brk s) \<in> {unat (brk s) ..< unat (brk t)}" unfolding t(4) G(4) using nu(1) by (simp add: word_less_nat_alt)
    then have "keeps_headers (free_bytes t L') s t" using t(5) f unfolding keeps_headers_def by (auto simp: u_def)
    moreover have "brk s \<le> brk t" using G(4) t(4) by (simp add: word_le_nat_alt)
    ultimately show ?thesis using that(2) [OF m t(2,6)] t(7) nu(2) by simp
  qed
qed

lemma malloc_loop_ok:
  assumes ok: "heap_ok s L" and sb: "sbrk_ok sbrk" and n: "small_request n"
  obtains "malloc_loop sbrk n (freep s) (hptr s (freep s)) s = Some (0, s)"
  | bp t L' where "malloc_loop sbrk n (freep s) (hptr s (freep s)) s = Some (bp + HDR, t)" "brk s \<le> brk t"
      "taken (free_bytes s L \<union> {unat (brk s) ..< unat (brk t)}) n bp t L'" "keeps_headers (free_bytes s L \<union> {unat (brk s) ..< unat (brk t)}) s t"
proof -
  have fit: "\<exists>bp t L'. malloc_loop sbrk n (freep u) (hptr u (freep u)) u = Some (bp + HDR, t) \<and> taken (free_bytes u M) n bp t L' \<and>
      brk t = brk u \<and> keeps_headers (free_bytes u M) u t" if u: "heap_ok u M" "a \<in> set M" "n \<le> hsize u a" for u M a
  proof -
    have n0: "0 < n" using n by (simp add: small_request_def)
    obtain pr q where "malloc_loop sbrk n (freep u) (hptr u (freep u)) u = Some (take_block n pr q u)" "q \<in> set M" "n \<le> hsize u q"
        "hptr u pr = q" "pr \<in> set (base u # M)"
      using malloc_fits [OF u(1) n0 u(2,3)] .
    then show ?thesis using take_block_ok [OF u(1) n0] by fastforce
  qed
  show ?thesis
  proof (cases "\<exists>a\<in>set L. n \<le> hsize s a")
    case True
    then show ?thesis using fit [OF ok] that(2) by fastforce
  next
    case False
    obtain ws where w: "path (hptr s) (freep s) ws (freep s)" "set (ws @ [freep s]) = set (base s # L)" "distinct (ws @ [freep s])"
      using heap_cycle [OF ok] .
    have small: "hsize s a < n" if "a \<in> set (ws @ [freep s])" for a
      using that False ok n unfolding w(2) by (auto simp: heap_ok_def small_request_def)
    have sm: "\<forall>x\<in>set ws. hsize s x < n \<and> x \<noteq> freep s" using small w(3) by auto
    have "hd (ws @ [freep s]) = hptr s (freep s)" using path_head [OF w(1)] by simp
    then have "malloc_loop sbrk n (freep s) (hptr s (freep s)) s = malloc_loop sbrk n (last (freep s # ws)) (freep s) s"
      using malloc_scan [OF w(1) sm, of sbrk] by simp
    also have "\<dots> = Option.bind (morecore sbrk n s) (\<lambda>(q, s). if q = 0 then Some (0, s) else malloc_loop sbrk n q (hptr s q) s)"
      using small [of "freep s"] by (subst malloc_loop.simps) auto
    finally have loop: "malloc_loop sbrk n (freep s) (hptr s (freep s)) s = \<dots>" .
    show ?thesis
    proof (rule morecore_ok [OF ok sb n])
      assume "morecore sbrk n s = Some (0, s)"
      then show ?thesis using loop that(1) by simp
    next
      fix t L' a
      assume t: "morecore sbrk n s = Some (freep t, t)" "heap_ok t L'" "a \<in> set L'" "n \<le> hsize t a"
        "free_bytes t L' = free_bytes s L \<union> {unat (brk s) ..< unat (brk t)}" "brk s \<le> brk t" "keeps_headers (free_bytes t L') s t"
      obtain bp v M where v: "malloc_loop sbrk n (freep t) (hptr t (freep t)) t = Some (bp + HDR, v)" "taken (free_bytes t L') n bp v M"
          "brk v = brk t" "keeps_headers (free_bytes t L') t v"
        using fit [OF t(2-4)] by blast
      have "keeps_headers (free_bytes t L') s v" using t(7) v(4) by (simp add: keeps_headers_def)
      moreover have "malloc_loop sbrk n (freep s) (hptr s (freep s)) s = Some (bp + HDR, v)" using loop t(1) heap_freep [OF t(2)] v(1) by simp
      ultimately show ?thesis using that(2) v(2,3) t(5,6) by metis
    qed
  qed
qed

section \<open>Programs that allocate\<close>

lemma units_small:
  assumes "unat nbytes + 15 < 2 ^ 31"
  shows "small_request (units nbytes)" "unat nbytes + 8 \<le> 8 * unat (units nbytes)"
proof -
  have "unat (nbytes + HDR - 1) = unat nbytes + 7" using assms by (simp add: unat_word_ariths)
  then have d: "unat ((nbytes + HDR - 1) div HDR) = (unat nbytes + 7) div 8" by (simp add: unat_div)
  have k: "8 * ((unat nbytes + 7) div 8) \<le> unat nbytes + 7" "unat nbytes \<le> 8 * ((unat nbytes + 7) div 8)" by simp_all
  have "unat ((nbytes + HDR - 1) div HDR) + unat (1 :: uint) < 2 ^ 32" using k(1) assms unfolding d by simp
  then have u: "unat (units nbytes) = (unat nbytes + 7) div 8 + 1" unfolding units_def using unat_add_small d by (metis unat_1)
  show "unat nbytes + 8 \<le> 8 * unat (units nbytes)" using k(2) unfolding u by simp
  have "0 < unat (units nbytes)" "8 * unat (units nbytes) < 2 ^ 31" using k(1) assms unfolding u by simp_all
  then show "small_request (units nbytes)" by (simp add: small_request_def word_less_nat_alt)
qed

text \<open>The blocks a program holds: allocated, of some size, apart from the free blocks and from each other.\<close>

definition live_ok :: "uint list \<Rightarrow> heap \<Rightarrow> uint list \<Rightarrow> bool" where
  "live_ok live s L \<longleftrightarrow> distinct live \<and>
     (\<forall>a\<in>set live. base s < a \<and> 0 < hsize s a \<and> block_end (hsize s) a \<le> unat (brk s) \<and> bytes_of (hsize s) a \<inter> free_bytes s L = {}) \<and>
     (\<forall>a\<in>set live. \<forall>b\<in>set live. a \<noteq> b \<longrightarrow> bytes_of (hsize s) a \<inter> bytes_of (hsize s) b = {})"

definition before_use :: "heap \<Rightarrow> bool" where
  "before_use s \<longleftrightarrow> freep s = 0 \<and> 0 < base s \<and> base s < brk s \<and> unat (brk s) \<le> 2 ^ 31"

text \<open>
  The states of a program that uses the allocator: it may allocate, with or without success, and give back any block it
  holds; \<open>live\<close> are the headers of the blocks it holds.
\<close>

inductive heap_run :: "sbrk_service \<Rightarrow> uint list \<Rightarrow> heap \<Rightarrow> bool" for sbrk :: sbrk_service where
  start: "before_use s \<Longrightarrow> heap_run sbrk [] s"
| alloc: "heap_run sbrk live s \<Longrightarrow> unat nbytes + 15 < 2 ^ 31 \<Longrightarrow> malloc sbrk nbytes s = Some (r, t) \<Longrightarrow> r \<noteq> 0 \<Longrightarrow> heap_run sbrk ((r - HDR) # live) t"
| refused: "heap_run sbrk live s \<Longrightarrow> unat nbytes + 15 < 2 ^ 31 \<Longrightarrow> malloc sbrk nbytes s = Some (0, t) \<Longrightarrow> heap_run sbrk live t"
| release: "heap_run sbrk live s \<Longrightarrow> bp \<in> set live \<Longrightarrow> u_free (bp + HDR) s = Some t \<Longrightarrow> heap_run sbrk (remove1 bp live) t"

definition run_inv :: "uint list \<Rightarrow> heap \<Rightarrow> bool" where
  "run_inv live s \<longleftrightarrow> live = [] \<and> before_use s \<or> (\<exists>L. heap_ok s L \<and> live_ok live s L)"

lemma malloc_start:
  assumes "run_inv live s"
  obtains s' L where "malloc sbrk nbytes s = malloc_loop sbrk (units nbytes) (freep s') (hptr s' (freep s')) s'" "heap_ok s' L" "live_ok live s' L"
proof (cases "freep s = 0")
  case True
  then have l: "live = []" and b: "before_use s" using assms heap_freep by (auto simp: run_inv_def)
  let ?s = "set_size (base s) 0 ((set_ptr (base s) (base s) s)\<lparr>freep := base s\<rparr>)"
  have "heap_ok ?s []" using b by (simp add: heap_ok_def before_use_def)
  moreover have "live_ok live ?s []" by (simp add: l live_ok_def)
  moreover have "malloc sbrk nbytes s = malloc_loop sbrk (units nbytes) (freep ?s) (hptr ?s (freep ?s)) ?s" using True by (simp add: malloc_def Let_def)
  ultimately show ?thesis using that by blast
next
  case False
  then obtain L where "heap_ok s L" "live_ok live s L" using assms by (auto simp: run_inv_def before_use_def)
  moreover have "malloc sbrk nbytes s = malloc_loop sbrk (units nbytes) (freep s) (hptr s (freep s)) s" using False by (simp add: malloc_def)
  ultimately show ?thesis using that by blast
qed

lemma live_kept:
  assumes "live_ok live s L" and "keeps_headers F s t" and "brk s \<le> brk t" and "\<forall>a\<in>set live. bytes_of (hsize s) a \<inter> F = {}"
    and "a \<in> set live"
  shows "hsize t a = hsize s a" "base t < a \<and> 0 < hsize t a \<and> block_end (hsize t) a \<le> unat (brk t)" "bytes_of (hsize t) a = bytes_of (hsize s) a"
proof -
  have a: "base s < a" "0 < hsize s a" "block_end (hsize s) a \<le> unat (brk s)" using assms(1,5) by (auto simp: live_ok_def)
  then have "unat a \<in> bytes_of (hsize s) a" by (simp add: bytes_of_def block_end_def word_less_nat_alt)
  then show h: "hsize t a = hsize s a" using assms(2,4,5) by (auto simp: keeps_headers_def)
  then have e: "block_end (hsize t) a = block_end (hsize s) a" by (simp add: block_end_def)
  then show "bytes_of (hsize t) a = bytes_of (hsize s) a" by (simp add: bytes_of_def)
  show "base t < a \<and> 0 < hsize t a \<and> block_end (hsize t) a \<le> unat (brk t)"
    using a h e assms(2,3) by (simp add: keeps_headers_def word_le_nat_alt)
qed

lemma malloc_keeps:
  assumes inv: "run_inv live s" and sb: "sbrk_ok sbrk" and nb: "unat nbytes + 15 < 2 ^ 31"
  obtains t where "malloc sbrk nbytes s = Some (0, t)" "run_inv live t"
  | bp t where "malloc sbrk nbytes s = Some (bp + HDR, t)" "run_inv (bp # live) t" "hsize t bp = units nbytes" "bp + HDR \<noteq> 0"
proof -
  obtain u L where u: "malloc sbrk nbytes s = malloc_loop sbrk (units nbytes) (freep u) (hptr u (freep u)) u" "heap_ok u L" "live_ok live u L"
    using malloc_start [OF inv] .
  show ?thesis
  proof (rule malloc_loop_ok [OF u(2) sb units_small(1) [OF nb]])
    assume "malloc_loop sbrk (units nbytes) (freep u) (hptr u (freep u)) u = Some (0, u)"
    then show ?thesis using that(1) u by (auto simp: run_inv_def)
  next
    fix bp and t :: heap and L'
    let ?F = "free_bytes u L \<union> {unat (brk u) ..< unat (brk t)}"
    assume m: "malloc_loop sbrk (units nbytes) (freep u) (hptr u (freep u)) u = Some (bp + HDR, t)" "brk u \<le> brk t"
      "taken ?F (units nbytes) bp t L'" "keeps_headers ?F u t"
    note T = m(3) [unfolded taken_def]
    have F: "\<forall>a\<in>set live. bytes_of (hsize u) a \<inter> ?F = {}"
      using u(3) by (fastforce simp: live_ok_def bytes_of_def)
    note K = live_kept [OF u(3) m(4,2) F]
    have pos: "0 < hsize t bp" using T units_small(1) [OF nb] by (simp add: small_request_def)
    then have mem: "unat bp \<in> bytes_of (hsize t) bp" by (simp add: bytes_of_def block_end_def word_less_nat_alt)
    have disj: "bytes_of (hsize t) a \<inter> bytes_of (hsize t) bp = {}" if "a \<in> set live" for a using F that K(3) [OF that] T by blast
    moreover have new: "bp \<notin> set live" using disj mem by blast
    moreover have "bytes_of (hsize t) a \<inter> free_bytes t L' = {}" if "a \<in> set live" for a using F that K(3) [OF that] T by blast
    moreover have "bytes_of (hsize t) a \<inter> bytes_of (hsize t) b = {}" if "a \<in> set live" "b \<in> set live" "a \<noteq> b" for a b
      using u(3) that K(3) by (simp add: live_ok_def)
    moreover have "distinct live" using u(3) by (simp add: live_ok_def)
    ultimately have "live_ok (bp # live) t L'" using T pos K(2) unfolding live_ok_def by auto
    then have "run_inv (bp # live) t" using T by (auto simp: run_inv_def)
    moreover have "bp + HDR \<noteq> 0"
    proof -
      have "block_end (hsize t) bp \<le> unat (brk t)" "unat (brk t) \<le> 2 ^ 31" using T by (auto simp: heap_ok_def)
      moreover have "unat bp + 8 \<le> block_end (hsize t) bp" using pos by (simp add: block_end_def word_less_nat_alt)
      ultimately have "unat (bp + HDR) = unat bp + 8" using unat_add_small [of bp HDR] by simp
      then show ?thesis by auto
    qed
    ultimately show ?thesis using that(2) m(1) u(1) T by metis
  qed
qed

lemma free_keeps:
  assumes inv: "run_inv live s" and bp: "bp \<in> set live"
  obtains t where "u_free (bp + HDR) s = Some t" "run_inv (remove1 bp live) t"
proof -
  obtain L where L: "heap_ok s L" "live_ok live s L" using assms by (auto simp: run_inv_def)
  have b: "base s < bp" "0 < hsize s bp" "block_end (hsize s) bp \<le> unat (brk s)" "bytes_of (hsize s) bp \<inter> free_bytes s L = {}"
    using L(2) bp by (auto simp: live_ok_def)
  obtain as bs where ab: "L = as @ bs" "\<forall>a\<in>set (base s # as). block_end (hsize s) a \<le> unat bp" "\<forall>c\<in>set bs. block_end (hsize s) bp \<le> unat c"
    using heap_split [OF L(1) b(4,2,1)] .
  have "fits_between s as bp bs" using L(1) b ab unfolding fits_between_def by auto
  then obtain t M where t: "u_free (bp + HDR) s = Some t" "heap_ok t M" "free_bytes t M = free_bytes s L \<union> bytes_of (hsize s) bp" "brk t = brk s"
      "keeps_headers (free_bytes t M) s t"
    using u_free_ok ab(1) by blast
  have d: "distinct live" using L(2) by (simp add: live_ok_def)
  then have r: "set (remove1 bp live) = set live - {bp}" by simp
  have lo: "live_ok (remove1 bp live) s L" using L(2) r d unfolding live_ok_def by auto
  have F: "\<forall>a\<in>set (remove1 bp live). bytes_of (hsize s) a \<inter> free_bytes t M = {}"
    using L(2) bp r unfolding t(3) live_ok_def by auto
  have le: "brk s \<le> brk t" using t(4) by simp
  note K = live_kept [OF lo t(5) le F]
  have "live_ok (remove1 bp live) t M"
    using lo K F t(4) unfolding live_ok_def by simp
  then show ?thesis using that t(1,2) by (auto simp: run_inv_def)
qed

lemma heap_run_inv: "heap_run sbrk live s \<Longrightarrow> sbrk_ok sbrk \<Longrightarrow> run_inv live s"
proof (induction rule: heap_run.induct)
  case (start s)
  then show ?case by (simp add: run_inv_def)
next
  case (alloc live s nbytes r t)
  show ?case by (rule malloc_keeps [OF alloc.IH [OF alloc.prems] alloc.prems alloc.hyps(2)]) (use alloc.hyps in auto)
next
  case (refused live s nbytes t)
  show ?case by (rule malloc_keeps [OF refused.IH [OF refused.prems] refused.prems refused.hyps(2)]) (use refused.hyps in auto)
next
  case (release live s bp t)
  show ?case by (rule free_keeps [OF release.IH [OF release.prems] release.hyps(2)]) (use release.hyps in auto)
qed

section \<open>Properties\<close>

text \<open>
  C11. A program that allocates and frees in any order, through any number of extensions of its memory, and that never asks for
  \<open>2 ^ 31 - 15\<close> bytes or more at once, never holds two overlapping blocks: the blocks it holds, with their headers, are pairwise
  disjoint ranges of bytes between the static header of the allocator and the end of the memory of the process. (The bound on the
  requests is a condition of \<open>heap_run\<close>. Above it the number of bytes \<^verbatim>\<open>morecore\<close> asks for is negative as an \<^verbatim>\<open>int\<close>, \<^verbatim>\<open>sbrk\<close>
  shrinks the process and the block returned is not in its memory.)
\<close>

theorem malloc_never_overlaps:
  assumes "heap_run sbrk live s" and "sbrk_ok sbrk"
  shows "distinct live \<and> (\<forall>a\<in>set live. base s < a \<and> block_end (hsize s) a \<le> unat (brk s)) \<and>
    (\<forall>a\<in>set live. \<forall>b\<in>set live. a \<noteq> b \<longrightarrow> bytes_of (hsize s) a \<inter> bytes_of (hsize s) b = {})"
  using heap_run_inv [OF assms] by (auto simp: run_inv_def live_ok_def)

text \<open>
  C22. In a program whose requests so far were all for less than \<open>2 ^ 31 - 15\<close> bytes every such call returns: the searches along the
  circular free list end. \<^verbatim>\<open>malloc\<close> of less than \<open>2 ^ 31 - 15\<close> bytes returns the null pointer or a block large enough for the
  bytes asked for; \<^verbatim>\<open>free\<close> of a block the program holds returns.
\<close>

theorem malloc_free_return:
  assumes "heap_run sbrk live s" and "sbrk_ok sbrk"
  shows "(unat nbytes + 15 < 2 ^ 31 \<longrightarrow> (\<exists>r t. malloc sbrk nbytes s = Some (r, t) \<and> (r = 0 \<or> unat nbytes + 8 \<le> 8 * unat (hsize t (r - HDR))))) \<and>
    (bp \<in> set live \<longrightarrow> (\<exists>t. u_free (bp + HDR) s = Some t))"
proof (intro conjI impI)
  note inv = heap_run_inv [OF assms]
  show "\<exists>r t. malloc sbrk nbytes s = Some (r, t) \<and> (r = 0 \<or> unat nbytes + 8 \<le> 8 * unat (hsize t (r - HDR)))" if "unat nbytes + 15 < 2 ^ 31"
    by (rule malloc_keeps [OF inv assms(2) that]) (use units_small(2) [OF that] in auto)
  show "\<exists>t. u_free (bp + HDR) s = Some t" if "bp \<in> set live" using free_keeps [OF inv that] by blast
qed

text \<open>
  C38. The number of units of a request is computed modulo \<open>2 ^ 32\<close>: a request for one of the seven largest numbers of
  bytes is answered as one for no bytes at all, instead of with the null pointer.
\<close>

theorem malloc_wraps:
  assumes "0xFFFFFFF9 \<le> nbytes"
  shows "malloc sbrk nbytes s = malloc sbrk 0 s \<and> units nbytes = 1"
proof -
  have "nbytes = 0xFFFFFFF9 + of_nat (unat (nbytes - 0xFFFFFFF9))" by simp
  moreover have "unat (nbytes - 0xFFFFFFF9) < 7"
  proof -
    have "unat nbytes < 2 ^ 32" using unsigned_less [of nbytes] by simp
    then show ?thesis using assms by (simp add: unat_sub word_le_nat_alt)
  qed
  ultimately obtain k where k: "nbytes = 0xFFFFFFF9 + of_nat k" "k < 7" by blast
  then have "k = 0 \<or> k = 1 \<or> k = 2 \<or> k = 3 \<or> k = 4 \<or> k = 5 \<or> k = 6" by auto
  then have "units nbytes = 1" using k(1) by (auto simp: units_def)
  moreover have "units 0 = 1" by (simp add: units_def)
  ultimately show ?thesis by (simp add: malloc_def)
qed

text \<open>A process for the witnesses: the static header at 0x1000, memory up to 0x2000 and room to grow.\<close>

definition demo_heap :: heap where
  "demo_heap = \<lparr>hptr = (\<lambda>_. 0), hsize = (\<lambda>_. 0), base = 0x1000, freep = 0, brk = 0x2000\<rparr>"

definition demo_sbrk :: sbrk_service where
  "demo_sbrk n s = (if uint (brk s) + n \<le> 0x100000 then (brk s, s\<lparr>brk := brk s + word_of_int n\<rparr>) else (-1, s))"

lemma demo_sbrk_ok: "sbrk_ok demo_sbrk"
  by (auto simp: sbrk_ok_def demo_sbrk_def)

definition demo_one :: heap where
  "demo_one = \<lparr>hptr = (\<lambda>_. 0)(0x1000 := 0x2000, 0x2000 := 0x1000), hsize = (\<lambda>_. 0)(0x2000 := 4082, 0x9F90 := 14), base = 0x1000,
     freep = 0x1000, brk = 0xA000\<rparr>"

definition demo_two :: heap where
  "demo_two = demo_one\<lparr>hsize := (\<lambda>_. 0)(0x2000 := 4068, 0x9F90 := 14, 0x9F20 := 14)\<rparr>"

lemma demo_malloc:
  "malloc demo_sbrk 100 demo_heap = Some (0x9F98, demo_one)" "malloc demo_sbrk 100 demo_one = Some (0x9F28, demo_two)"
proof -
  have u: "units 100 = 14" by (simp add: units_def)
  let ?s = "demo_heap\<lparr>hptr := (\<lambda>_. 0)(0x1000 := 0x1000), freep := 0x1000\<rparr>"
  let ?t = "demo_heap\<lparr>hptr := (\<lambda>_. 0)(0x1000 := 0x2000, 0x2000 := 0x1000), hsize := (\<lambda>_. 0)(0x2000 := 4096), freep := 0x1000, brk := 0xA000\<rparr>"
  have "free_find (set_size 0x2000 4096 (?s\<lparr>brk := 0xA000\<rparr>)) 0x2000 0x1000 = Some 0x1000"
    by (subst free_find.simps) (simp add: demo_heap_def)
  then have "morecore demo_sbrk 14 ?s = Some (0x1000, ?t)"
    by (simp add: morecore_def demo_sbrk_def u_free_def join_next_def join_prev_def Let_def) (simp add: demo_heap_def set_ptr_def set_size_def fun_upd_twist)
  moreover have "malloc_loop demo_sbrk 14 0x1000 0x2000 ?t = Some (0x9F98, demo_one)"
    by (subst malloc_loop.simps) (simp add: demo_heap_def demo_one_def take_block_def Let_def set_size_def)
  ultimately have "malloc_loop demo_sbrk 14 0x1000 0x1000 ?s = Some (0x9F98, demo_one)"
    by (subst malloc_loop.simps) (simp add: demo_heap_def)
  then show "malloc demo_sbrk 100 demo_heap = Some (0x9F98, demo_one)"
    unfolding malloc_def u by (simp add: demo_heap_def set_ptr_def set_size_def Let_def fun_upd_idem)
  have "malloc_loop demo_sbrk 14 0x1000 0x2000 demo_one = Some (0x9F28, demo_two)"
    by (subst malloc_loop.simps) (simp add: demo_one_def demo_two_def take_block_def Let_def set_size_def fun_upd_twist)
  then show "malloc demo_sbrk 100 demo_one = Some (0x9F28, demo_two)"
    unfolding malloc_def u by (simp add: demo_one_def)
qed

lemma demo_heap_run: "heap_run demo_sbrk [0x9F20, 0x9F90] demo_two"
proof -
  have "heap_run demo_sbrk [] demo_heap" by (rule heap_run.start) (simp add: before_use_def demo_heap_def)
  then have "heap_run demo_sbrk [0x9F98 - HDR] demo_one" by (rule heap_run.alloc [OF _ _ demo_malloc(1)]) simp_all
  then have "heap_run demo_sbrk [0x9F28 - HDR, 0x9F98 - HDR] demo_two" by (rule heap_run.alloc [OF _ _ demo_malloc(2)]) simp_all
  then show ?thesis by simp
qed

lemma malloc_never_overlaps_witness:
  "heap_run demo_sbrk [0x9F20, 0x9F90] demo_two \<and> bytes_of (hsize demo_two) 0x9F20 \<inter> bytes_of (hsize demo_two) 0x9F90 = {}"
  using malloc_never_overlaps [OF demo_heap_run demo_sbrk_ok] demo_heap_run by simp

lemma malloc_free_return_witness:
  "(\<exists>r t. malloc demo_sbrk 5000 demo_two = Some (r, t) \<and> (r = 0 \<or> 5008 \<le> 8 * unat (hsize t (r - HDR)))) \<and> (\<exists>t. u_free (0x9F20 + HDR) demo_two = Some t)"
  using malloc_free_return [OF demo_heap_run demo_sbrk_ok, of 5000 "0x9F20"] by simp

lemma malloc_wraps_witness: "malloc demo_sbrk 0xFFFFFFFF demo_two = malloc demo_sbrk 0 demo_two"
  using malloc_wraps [of "0xFFFFFFFF" demo_sbrk demo_two] by simp

end
