(* ===== verification/Spec2Isabelle.thy ===== *)
theory Spec2Isabelle
  imports Grep Shell Startup Umalloc
begin

text \<open>
  Verification of an xv6 kernel for x86 multiprocessors with multi-level queue scheduling, of its shell and of its user
  library. The sources are the C files in the directory \<^verbatim>\<open>src/code\<close>; names of files below are relative to it.

  \<^bold>\<open>The program\<close>

  The kernel runs processes on several processors. Interrupts and spin locks (\<^verbatim>\<open>spinlock.c\<close>) protect everything that is shared; the
  page allocator (\<^verbatim>\<open>kalloc.c\<close>) and the page tables (\<^verbatim>\<open>vm.c\<close>) provide memory; \<^verbatim>\<open>proc.c\<close> keeps the process table, three run queues (round robin, last come
  first served, best job first), the scheduler, sleeping and waking up, aging at clock ticks, and the life of a process. On top of it are
  sleep locks (\<^verbatim>\<open>sleeplock.c\<close>), the disk (\<^verbatim>\<open>ide.c\<close> or \<^verbatim>\<open>memide.c\<close>), the buffer cache (\<^verbatim>\<open>bio.c\<close>), the write-ahead log (\<^verbatim>\<open>log.c\<close>), the file
  system (\<^verbatim>\<open>fs.c\<close>), the console (\<^verbatim>\<open>console.c\<close>, \<^verbatim>\<open>kbd.c\<close>, \<^verbatim>\<open>uart.c\<close>), files and pipes (\<^verbatim>\<open>file.c\<close>, \<^verbatim>\<open>pipe.c\<close>), system calls
  (\<^verbatim>\<open>syscall.c\<close>, \<^verbatim>\<open>sysproc.c\<close>, \<^verbatim>\<open>sysfile.c\<close>, \<^verbatim>\<open>exec.c\<close>), traps (\<^verbatim>\<open>trap.c\<close>) and the start of the machine (\<^verbatim>\<open>main.c\<close>, \<^verbatim>\<open>mp.c\<close>, \<^verbatim>\<open>lapic.c\<close>, \<^verbatim>\<open>ioapic.c\<close>, \<^verbatim>\<open>picirq.c\<close>). User programs
  are linked with \<^verbatim>\<open>ulib.c\<close>, \<^verbatim>\<open>printf.c\<close> and \<^verbatim>\<open>umalloc.c\<close>; \<^verbatim>\<open>sh.c\<close> and \<^verbatim>\<open>grep.c\<close> are two of them.

  \<^bold>\<open>The model\<close>

  A kernel operation is a function from a state to a result: \<open>Ret\<close> with a value and the new state; \<open>Block\<close>, when the process has
  given up the processor inside \<^verbatim>\<open>sched\<close>; or \<open>Stop\<close>, when the processor does not come back: a panic with its message, a spin lock that another processor
  holds (or a device that never answers), or an access outside the objects of the program. The state is a
  record that every layer extends:
  \<open>machine\<close> (processors, locks), \<open>kmem\<close> (memory, free list), \<open>ksched\<close> (process table, queues, page table registers), \<open>ksleep\<close>, \<open>kbio\<close>, \<open>klog\<close>, \<open>kfs\<close>, \<open>kcons\<close>, \<open>kfile\<close>, \<open>kdev\<close>.
  An operation of a layer is polymorphic in the extension and works unchanged in all layers above. \<open>this\<close> is the
  physical processor that executes; interleavings of processors are step relations that change it (\<open>lock_step\<close>) or statements over every state that satisfies
  what the locks protect (\<open>ide_hist\<close>, \<open>pipe_run\<close>, the lock order of \<^verbatim>\<open>fork\<close> and the timer). An operation that waits with \<^verbatim>\<open>sleep\<close> in a loop ends in \<open>Block\<close>, and its loop is a
  definition of its own (\<open>begin_op_loop\<close>, \<open>acquiresleep_loop\<close>, \<open>piperead_loop\<close>, \<open>pipewrite_loop\<close>, \<open>wait_loop\<close>, \<open>sys_sleep_loop\<close>, \<open>consoleread_loop\<close>, \<open>ide_rw_wait\<close>) that runs again when the process is resumed.

  \<^bold>\<open>The theories\<close>

  \<^item> Xv6_Prelude: results, sequencing, the weakest-precondition calculus (\<open>wp\<close>), generic lemmas.
  \<^item> Spinlocks: \<^verbatim>\<open>spinlock.c\<close>, \<^verbatim>\<open>cpuid\<close> and \<^verbatim>\<open>mycpu\<close> of \<^verbatim>\<open>proc.c\<close>. Nesting of \<^verbatim>\<open>pushcli\<close>, contracts of \<^verbatim>\<open>acquire\<close> and \<^verbatim>\<open>release\<close> (locale \<open>mutex\<close>), and that \<^verbatim>\<open>ncli\<close> counts the
    locks a processor holds in every reachable state.
  \<^item> Kmemory, Kalloc: \<^verbatim>\<open>string.c\<close> over a byte memory in which areas may overlap; \<^verbatim>\<open>kalloc.c\<close> with its free list inside the free pages (locale \<open>page_allocator\<close>).
  \<^item> Vm, Memaccess: page tables as words of memory, \<^verbatim>\<open>vm.c\<close> but \<^verbatim>\<open>seginit\<close>; memory accesses of the kernel through the page table in use.
  \<^item> Runqueues, Scheduler, Dispatch: \<^verbatim>\<open>proc.h\<close>, \<^verbatim>\<open>proc.c\<close> from \<^verbatim>\<open>shiftOutQueue\<close> to \<^verbatim>\<open>change_global_bjf\<close>, \<^verbatim>\<open>switchuvm\<close> and \<^verbatim>\<open>switchkvm\<close>. The invariant \<open>rq_inv\<close> ties queues, states and queue types together; what a
    round of the scheduler runs, what \<^verbatim>\<open>wakeup\<close> and \<^verbatim>\<open>agingMechanism\<close> do; that BJF processes are never run, and that removing a process that is not queued drops another one.
  \<^item> Quiet, Frames: critical sections nobody contends for, and what operations leave alone (\<open>keeps\<close>).
  \<^item> Sleeplocks, Bio, Cache: \<^verbatim>\<open>sleeplock.c\<close>, \<^verbatim>\<open>memide.c\<close>, \<^verbatim>\<open>bio.c\<close>; the cache implements a volume of blocks (locale \<open>block_cache\<close>).
  \<^item> Log, Recovery: \<^verbatim>\<open>log.c\<close>. \<^verbatim>\<open>commit\<close> is atomic and \<^verbatim>\<open>recover_from_log\<close> implements the pure function \<open>recovered\<close>, for a crash after any write to the disk.
  \<^item> Inodes, Dirs: \<^verbatim>\<open>fs.c\<close>. Allocation of blocks, encoding of inodes, an inode update as a transaction; reading, writing, directories and paths.
  \<^item> Ringbuf, Pipes: ring buffers with wrapping counters (locale \<open>byte_queue\<close>); \<^verbatim>\<open>file.c\<close> and \<^verbatim>\<open>pipe.c\<close>. A pipe is a bounded first-in first-out queue in every history.
  \<^item> Console, Terminal: \<^verbatim>\<open>console.c\<close>, \<^verbatim>\<open>kbd.c\<close>, \<^verbatim>\<open>uart.c\<close>, \<^verbatim>\<open>procdump\<close> and \<^verbatim>\<open>print_proc\<close>. Output stays on the screen; the interrupt handlers (locale \<open>char_source\<close>, for keyboard and serial port) refine a line editor.
  \<^item> Process, Syscalls, Exec: \<^verbatim>\<open>allocproc\<close> to \<^verbatim>\<open>wait\<close> of \<^verbatim>\<open>proc.c\<close>, \<^verbatim>\<open>syscall.c\<close>, \<^verbatim>\<open>sysproc.c\<close>, \<^verbatim>\<open>sysfile.c\<close>, \<^verbatim>\<open>exec.c\<close>, \<^verbatim>\<open>loaduvm\<close>.
  \<^item> Devices, Ide: \<^verbatim>\<open>lapic.c\<close>, \<^verbatim>\<open>ioapic.c\<close>, \<^verbatim>\<open>picirq.c\<close>, \<^verbatim>\<open>mp.c\<close>, \<^verbatim>\<open>uartinit\<close>, \<^verbatim>\<open>consoleinit\<close>, \<^verbatim>\<open>seginit\<close>; \<^verbatim>\<open>ide.c\<close>. The tables of the firmware are read completely; the IDE driver serves requests in order and
    refines the memory disk; what both do in the cases they do not handle.
  \<^item> Startup: \<^verbatim>\<open>trap.c\<close>, \<^verbatim>\<open>main.c\<close>; \<^verbatim>\<open>fork\<close> and the timer take two locks in opposite orders.
  \<^item> Formatting, Ulib, Umalloc, Shell, Grep: \<^verbatim>\<open>printf.c\<close>, \<^verbatim>\<open>ulib.c\<close>, \<^verbatim>\<open>umalloc.c\<close>, \<^verbatim>\<open>sh.c\<close>, \<^verbatim>\<open>grep.c\<close>. Printed numbers read back; the allocator never hands out overlapping blocks and returns;
    parsing a printed command gives the command back and ends for every line; the matcher decides the language of its pattern and \<^verbatim>\<open>grep\<close> prints the matching lines.

  The interpretations \<open>spin\<close>, \<open>pages\<close>, \<open>rq\<close>, \<open>bcache\<close>, \<open>pq\<close>, \<open>keyboard\<close> and \<open>serial_port\<close> discharge the contracts of the locales for the definitions of the code.

  \<^bold>\<open>Loops\<close>

  Loops that follow a list or a number are structurally recursive or have a termination proof. Loops that may not end are partial functions into \<open>option\<close>
  (\<open>None\<close> is a loop that never ends): the searches of the user allocator, scans for a zero byte, \<^verbatim>\<open>calc\<close>, the entries of \<^verbatim>\<open>mpinit\<close>. A statement that they return is proved as such.
  The others have a fuel, more than the loop can use: one unit per page of the range and one more in \<^verbatim>\<open>freerange\<close> and in the loops of \<^verbatim>\<open>vm.c\<close>; four times the length of the line and eight in the parser of the shell, since four calls can
  follow each other before a character is consumed; ten digits for a 32-bit number in \<^verbatim>\<open>wrap_spacei\<close>; as many characters as wait in the controller and one more in \<^verbatim>\<open>consoleintr\<close>; as many readings as the clock delivers and one more
  in \<^verbatim>\<open>cmostime\<close>, beyond which it waits for ever; \<open>NBUF\<close> and one more links in the queue of \<^verbatim>\<open>ide.c\<close>.

  \<^bold>\<open>Conditions and simplifications\<close>

  \<^item> Code outside the sources is a parameter: the system call \<^verbatim>\<open>sbrk\<close> of the user allocator, with \<open>sbrk_ok\<close> as its documented behaviour; the addresses and images the linker places; the answers of devices (\<open>replies\<close>) and the controller of the IDE properties.
  \<^item> The properties of the user allocator are about programs that never ask for \<open>2 ^ 31 - 15\<close> bytes or more at once. Beyond that \<^verbatim>\<open>sbrk\<close> is called with a negative number and the result is wrong.
  \<^item> The scheduling properties assume \<open>rq_inv\<close>, which excludes states after \<^verbatim>\<open>change_queue\<close> of a running process until it yields; what a round chooses also assumes that \<^verbatim>\<open>rr_counter\<close> does not wrap around within a round.
  \<^item> The properties of cache, log, file system and of single reads and writes of a pipe are about a process nobody interferes with (\<open>owned\<close>, \<open>quiet\<close>, \<open>idle_pipe\<close>); the first-in first-out order of pipes, the count of held locks, the order of the IDE requests and the disjointness of allocated blocks are about whole histories (\<open>pipe_run\<close>, \<open>lock_reach\<close>, \<open>ide_hist\<close>, \<open>heap_run\<close>).
  \<^item> \<^verbatim>\<open>float\<close> is a rational number, so that the ranks of BJF processes have no rounding. An entry behind the end of a table or queue is a \<open>Fault\<close>, where the C program would read or overwrite what follows.
  \<^item> Left out of the state: the return addresses in locks, the segment selector of the task state segment (\<^verbatim>\<open>ltr\<close>), messages of \<^verbatim>\<open>allocuvm\<close>, \<^verbatim>\<open>exec\<close>, \<^verbatim>\<open>iinit\<close>, \<^verbatim>\<open>change_queue\<close>, \<^verbatim>\<open>change_local_bjf\<close> and of failing system calls to the console,
    the polling of the serial transmitter. \<^verbatim>\<open>lapicid\<close> is the identifier of the running processor also before the controllers are found.
  \<^item> The check of two constants in \<^verbatim>\<open>initlog\<close>, the panic of \<^verbatim>\<open>cprintf\<close> for a null format, and the failure of \<^verbatim>\<open>malloc\<close> in the shell do not occur in the model.

  \<^bold>\<open>Not modelled\<close>

  The boot loader and the assembly files (\<^verbatim>\<open>bootmain.c\<close>, \<^verbatim>\<open>bootasm.S\<close>, \<^verbatim>\<open>entry.S\<close>, \<^verbatim>\<open>entryother.S\<close>, \<^verbatim>\<open>swtch.S\<close>, \<^verbatim>\<open>trapasm.S\<close>, \<^verbatim>\<open>vectors.S\<close>, \<^verbatim>\<open>usys.S\<close>, \<^verbatim>\<open>initcode.S\<close>), which are below the level of C; what \<^verbatim>\<open>swtch\<close> does is split into the halves of a
  context switch (\<open>sched\<close> and \<open>resume\<close>, \<open>run_process\<close> and \<open>scheduler_back\<close>). \<^verbatim>\<open>mkfs.c\<close>, which runs on the host. The main programs of \<^verbatim>\<open>grep.c\<close> and of the small commands, \<^verbatim>\<open>stat\<close> of \<^verbatim>\<open>ulib.c\<close>, and the
  test programs, which only call the kernel.
\<close>

end
